(* ===== verification/Prelude.thy ===== *)
theory Prelude
  imports Main "HOL-Library.Word" "HOL-Library.List_Lexorder" "HOL-Library.Char_ord"
begin

text \<open>
  Shared vocabulary of the development: the fault type of the model, 32-bit wrap-around of C
  integers, byte buffers with the effect of memcpy, and the searches of std::string that the
  sources use. Components declare their facts into the collections below.
\<close>

named_theorems inv_intros \<open>preservation of component invariants\<close>
named_theorems step_defs \<open>definitions of the operations of a component\<close>

section \<open>Faults and results\<close>

text \<open>
  A run of the C++ code that does not return normally. Abort is a failed CHECK macro
  (src/base/common.h), NullDeref the use of a NULL pointer, OutOfBounds an access outside of a
  buffer, UseAfterFree the use of an object that was deleted, Blocked a thread that waits on a
  condition variable, Diverge a loop that never ends.
\<close>

datatype fault = Abort | NullDeref | OutOfBounds | UseAfterFree | Blocked | Diverge

type_synonym 'a result = "fault + 'a"

definition rbind :: "'a result \<Rightarrow> ('a \<Rightarrow> 'b result) \<Rightarrow> 'b result" where
  "rbind m f = (case m of Inl e \<Rightarrow> Inl e | Inr x \<Rightarrow> f x)"

lemma rbind_simps [simp]: "rbind (Inl e) f = Inl e" "rbind (Inr x) f = f x"
  by (simp_all add: rbind_def)

lemma rbind_eq_Inr [simp]: "rbind m f = Inr y \<longleftrightarrow> (\<exists>x. m = Inr x \<and> f x = Inr y)"
  by (cases m) auto

lemma rbind_eq_Inl: "rbind m f = Inl e \<longleftrightarrow> m = Inl e \<or> (\<exists>x. m = Inr x \<and> f x = Inl e)"
  by (cases m) auto

section \<open>Fixed width integers\<close>

text \<open>A value converted to int32 (two's complement) and to uint32.\<close>

definition wrap32 :: "int \<Rightarrow> int" where
  "wrap32 z = (z + 2 ^ 31) mod 2 ^ 32 - 2 ^ 31"

definition uwrap32 :: "int \<Rightarrow> int" where
  "uwrap32 z = z mod 2 ^ 32"

definition wrap64 :: "int \<Rightarrow> int" where
  "wrap64 z = (z + 2 ^ 63) mod 2 ^ 64 - 2 ^ 63"

lemma wrap32_id: "- (2 ^ 31) \<le> z \<Longrightarrow> z < 2 ^ 31 \<Longrightarrow> wrap32 z = z"
  by (simp add: wrap32_def)

lemma wrap32_bounds: "- (2 ^ 31) \<le> wrap32 z \<and> wrap32 z < 2 ^ 31"
  by (simp add: wrap32_def)

lemma wrap32_of_nat: "n < 2 ^ 31 \<Longrightarrow> wrap32 (int n) = int n"
  by (rule wrap32_id) auto

lemma uwrap32_bounds: "0 \<le> uwrap32 z \<and> uwrap32 z < 2 ^ 32"
  by (simp add: uwrap32_def)

lemma uwrap32_nonneg [simp]: "\<not> uwrap32 z < 0" "0 \<le> uwrap32 z"
  using uwrap32_bounds [of z] by simp_all

lemma uwrap32_id: "0 \<le> z \<Longrightarrow> z < 2 ^ 32 \<Longrightarrow> uwrap32 z = z"
  by (simp add: uwrap32_def)

lemma wrap64_id: "- (2 ^ 63) \<le> z \<Longrightarrow> z < 2 ^ 63 \<Longrightarrow> wrap64 z = z"
  by (simp add: wrap64_def)

section \<open>Byte buffers\<close>

text \<open>The buffer after memcpy of \<open>xs\<close> to offset \<open>p\<close>.\<close>

definition blit :: "'a list \<Rightarrow> nat \<Rightarrow> 'a list \<Rightarrow> 'a list" where
  "blit buf p xs = take p buf @ xs @ drop (p + length xs) buf"

lemma length_blit [simp]:
  "p + length xs \<le> length buf \<Longrightarrow> length (blit buf p xs) = length buf"
  by (simp add: blit_def)

lemma nth_blit:
  assumes "p + length xs \<le> length buf" and "k < length buf"
  shows "blit buf p xs ! k = (if p \<le> k \<and> k < p + length xs then xs ! (k - p) else buf ! k)"
  using assms by (auto simp: blit_def nth_append min_def)

lemma blit_Nil [simp]: "blit buf p [] = buf"
  by (simp add: blit_def)

section \<open>Integers in memory\<close>

text \<open>
  The little-endian bytes of an unsigned integer, as the code sees them when it accesses an
  integer through a char pointer (x86).
\<close>

fun le_bytes :: "nat \<Rightarrow> int \<Rightarrow> string" where
  "le_bytes 0 z = []"
| "le_bytes (Suc n) z = char_of (nat (z mod 256)) # le_bytes n (z div 256)"

fun le_value :: "string \<Rightarrow> int" where
  "le_value [] = 0"
| "le_value (c # cs) = int (of_char c) + 256 * le_value cs"

lemma length_le_bytes [simp]: "length (le_bytes n z) = n"
  by (induction n arbitrary: z) auto

lemma byte_bounds: "(of_char (c :: char) :: nat) < 256"
  by (cases c) (auto simp: of_char_def)

lemma le_value_bytes: "le_value (le_bytes n z) = z mod 256 ^ n"
proof (induction n arbitrary: z)
  case (Suc n)
  have "nat (z mod 256) mod 256 = nat (z mod 256)" by (intro mod_less) auto
  then show ?case
    using Suc by (simp add: zmod_zmult2_eq)
qed simp

lemma le_bytes_value: "length cs = n \<Longrightarrow> le_bytes n (le_value cs) = cs"
proof (induction cs arbitrary: n)
  case (Cons c cs)
  have "(int (of_char c) + 256 * le_value cs) mod 256 = int (of_char c)"
    "(int (of_char c) + 256 * le_value cs) div 256 = le_value cs"
    using byte_bounds [of c] by simp_all
  then show ?case using Cons by auto
qed simp

lemma le_value_bounds: "0 \<le> le_value cs \<and> le_value cs < 256 ^ length cs"
proof (induction cs)
  case (Cons c cs)
  have step: "0 \<le> x + 256 * v \<and> x + 256 * v < 256 * p"
    if "0 \<le> x" "x < 256" "0 \<le> v \<and> v < p" for x v p :: int
    using that by linarith
  show ?case using step [OF _ _ Cons, of "int (of_char c)"] byte_bounds [of c] by simp
qed simp

section \<open>Searching in strings\<close>

text \<open>
  \<open>str_find hay needle pos\<close> is std::string::find: the least index from \<open>pos\<close> on at
  which \<open>needle\<close> occurs, None for npos.
\<close>

definition occurs_at :: "'a list \<Rightarrow> 'a list \<Rightarrow> nat \<Rightarrow> bool" where
  "occurs_at hay needle i \<longleftrightarrow> i + length needle \<le> length hay
     \<and> take (length needle) (drop i hay) = needle"

definition str_find :: "'a list \<Rightarrow> 'a list \<Rightarrow> nat \<Rightarrow> nat option" where
  "str_find hay needle pos = List.find (occurs_at hay needle) [pos..<Suc (length hay)]"

definition contains :: "'a list \<Rightarrow> 'a list \<Rightarrow> bool" where
  "contains hay needle \<longleftrightarrow> str_find hay needle 0 \<noteq> None"

lemma str_find_Some_iff:
  "str_find hay needle pos = Some i \<longleftrightarrow>
     pos \<le> i \<and> occurs_at hay needle i \<and> (\<forall>j. pos \<le> j \<and> j < i \<longrightarrow> \<not> occurs_at hay needle j)"
proof -
  have "str_find hay needle pos = Some i \<longleftrightarrow>
      (\<exists>k < Suc (length hay) - pos. occurs_at hay needle (pos + k) \<and> i = pos + k
        \<and> (\<forall>j < k. \<not> occurs_at hay needle (pos + j)))"
    by (auto simp: str_find_def find_Some_iff simp del: upt_Suc)
  also have "\<dots> \<longleftrightarrow> pos \<le> i \<and> occurs_at hay needle i
      \<and> (\<forall>j. pos \<le> j \<and> j < i \<longrightarrow> \<not> occurs_at hay needle j)"
  proof
    assume "\<exists>k < Suc (length hay) - pos. occurs_at hay needle (pos + k) \<and> i = pos + k
        \<and> (\<forall>j < k. \<not> occurs_at hay needle (pos + j))"
    then show "pos \<le> i \<and> occurs_at hay needle i
      \<and> (\<forall>j. pos \<le> j \<and> j < i \<longrightarrow> \<not> occurs_at hay needle j)"
      by (metis add_less_cancel_left le_add1 le_iff_add)
  next
    assume a: "pos \<le> i \<and> occurs_at hay needle i
      \<and> (\<forall>j. pos \<le> j \<and> j < i \<longrightarrow> \<not> occurs_at hay needle j)"
    then have "i \<le> length hay" by (auto simp: occurs_at_def)
    with a show "\<exists>k < Suc (length hay) - pos. occurs_at hay needle (pos + k) \<and> i = pos + k
        \<and> (\<forall>j < k. \<not> occurs_at hay needle (pos + j))"
      by (intro exI [of _ "i - pos"]) auto
  qed
  finally show ?thesis .
qed

lemma occurs_at_iff: "occurs_at hay needle i \<longleftrightarrow> (\<exists>u v. hay = u @ needle @ v \<and> length u = i)"
proof
  assume "occurs_at hay needle i"
  then have "hay = take i hay @ needle @ drop (i + length needle) hay \<and> length (take i hay) = i"
    by (auto simp: occurs_at_def) (metis append_take_drop_id drop_drop add.commute)
  then show "\<exists>u v. hay = u @ needle @ v \<and> length u = i" by blast
qed (auto simp: occurs_at_def)

lemma contains_iff: "contains hay needle \<longleftrightarrow> (\<exists>u v. hay = u @ needle @ v)"
proof
  assume "contains hay needle"
  then obtain i where "str_find hay needle 0 = Some i"
    by (auto simp: contains_def)
  then show "\<exists>u v. hay = u @ needle @ v"
    by (auto simp: str_find_Some_iff occurs_at_iff)
next
  assume "\<exists>u v. hay = u @ needle @ v"
  then obtain i where i: "occurs_at hay needle i" "i \<le> length hay"
    by (metis occurs_at_iff occurs_at_def add_leD1)
  then have "i \<in> set [0..<Suc (length hay)]" by auto
  with i(1) show "contains hay needle"
    unfolding contains_def str_find_def find_None_iff by blast
qed

lemma contains_self [simp]: "contains s s"
  by (auto simp: contains_iff intro: exI [of _ "[]"])

lemma contains_append_right: "contains s t \<Longrightarrow> contains (s @ r) t"
  by (auto simp: contains_iff) (metis append.assoc)

lemma contains_append_left: "contains s t \<Longrightarrow> contains (r @ s) t"
  by (auto simp: contains_iff) (metis append.assoc)

lemma contains_Nil [simp]: "contains [] t \<longleftrightarrow> t = []"
  by (auto simp: contains_iff)

end
