(* ===== verification/StdMap.thy ===== *)
theory StdMap
  imports Prelude
begin

text \<open>
  std::map as the sources use it: an association list kept in ascending key order, which is the
  order of iteration. The contract that its clients and the clients of the other keyed stores of
  the program (the configuration tree, the virtual node tree) rely on is the locale
  \<open>dictionary\<close>: insertion keeps the entry that is already there.
\<close>

section \<open>The contract of a keyed store\<close>

locale dictionary =
  fixes empty_d :: "'m"
    and find_d :: "'m \<Rightarrow> 'k \<Rightarrow> 'v option"
    and insert_d :: "'k \<Rightarrow> 'v \<Rightarrow> 'm \<Rightarrow> 'm"
    and inv_d :: "'m \<Rightarrow> bool"
  assumes find_empty: "find_d empty_d k = None"
    and inv_empty: "inv_d empty_d"
    and inv_insert: "inv_d m \<Longrightarrow> inv_d (insert_d k v m)"
    and find_insert: "inv_d m \<Longrightarrow> find_d (insert_d k v m) k' =
      (if k' = k \<and> find_d m k = None then Some v else find_d m k')"
begin

text \<open>Loading a sequence of pairs by insertion: the first pair of a key wins.\<close>

lemma inv_load: "inv_d m \<Longrightarrow> inv_d (fold (\<lambda>(k, v). insert_d k v) kvs m)"
  by (induction kvs arbitrary: m) (auto simp: inv_insert)

lemma find_load:
  "inv_d m \<Longrightarrow> find_d (fold (\<lambda>(k, v). insert_d k v) kvs m) = map_of kvs ++ find_d m"
proof (induction kvs arbitrary: m)
  case Nil
  then show ?case by simp
next
  case (Cons kv kvs)
  obtain k v where kv [simp]: "kv = (k, v)" by (cases kv)
  have "find_d (fold (\<lambda>(k, v). insert_d k v) (kv # kvs) m)
      = map_of kvs ++ find_d (insert_d k v m)"
    using Cons by (simp add: inv_insert)
  also have "\<dots> = map_of (kv # kvs) ++ find_d m"
    using Cons.prems by (auto simp: fun_eq_iff map_add_def find_insert split: option.splits)
  finally show ?case .
qed

lemma find_load_empty: "find_d (fold (\<lambda>(k, v). insert_d k v) kvs empty_d) = map_of kvs"
  using find_load [OF inv_empty] by (auto simp: fun_eq_iff map_add_def find_empty)

lemma find_insert_same: "inv_d m \<Longrightarrow> find_d m k = None \<Longrightarrow> find_d (insert_d k v m) k = Some v"
  by (simp add: find_insert)

lemma find_insert_dup: "inv_d m \<Longrightarrow> find_d m k = Some w \<Longrightarrow> find_d (insert_d k v m) = find_d m"
  by (auto simp: find_insert fun_eq_iff)

end

text \<open>A keyed store that can also forget a key.\<close>

locale erasable = dictionary +
  fixes erase_d :: "'b \<Rightarrow> 'a \<Rightarrow> 'a"
  assumes inv_erase: "inv_d m \<Longrightarrow> inv_d (erase_d k m)"
    and find_erase: "inv_d m \<Longrightarrow> find_d (erase_d k m) k' = (if k' = k then None else find_d m k')"
begin

lemma find_erase_insert: "inv_d m \<Longrightarrow> find_d (erase_d k (insert_d k v m)) = (find_d m)(k := None)"
  by (auto simp: fun_eq_iff find_erase find_insert inv_insert)

lemma find_insert_erase: "inv_d m \<Longrightarrow> find_d (insert_d k v (erase_d k m)) = (find_d m)(k \<mapsto> v)"
  by (auto simp: fun_eq_iff find_erase find_insert inv_erase)

lemma erase_absent: "inv_d m \<Longrightarrow> find_d m k = None \<Longrightarrow> find_d (erase_d k m) = find_d m"
  by (auto simp: fun_eq_iff find_erase)

end

section \<open>std::map\<close>

type_synonym ('k, 'v) smap = "('k \<times> 'v) list"

definition smap_inv :: "('k::linorder, 'v) smap \<Rightarrow> bool" where
  "smap_inv m \<longleftrightarrow> sorted_wrt (<) (map fst m)"

fun smap_find :: "('k::linorder, 'v) smap \<Rightarrow> 'k \<Rightarrow> 'v option" where
  "smap_find [] k = None"
| "smap_find ((k', v) # m) k = (if k' = k then Some v else smap_find m k)"

text \<open>std::map::insert of a pair: no effect when the key is present.\<close>

fun smap_insert :: "'k::linorder \<Rightarrow> 'v \<Rightarrow> ('k, 'v) smap \<Rightarrow> ('k, 'v) smap" where
  "smap_insert k v [] = [(k, v)]"
| "smap_insert k v ((k', v') # m) =
     (if k < k' then (k, v) # (k', v') # m
      else if k = k' then (k', v') # m
      else (k', v') # smap_insert k v m)"

text \<open>Assignment through operator[]: insert or overwrite.\<close>

fun smap_set :: "'k::linorder \<Rightarrow> 'v \<Rightarrow> ('k, 'v) smap \<Rightarrow> ('k, 'v) smap" where
  "smap_set k v [] = [(k, v)]"
| "smap_set k v ((k', v') # m) =
     (if k < k' then (k, v) # (k', v') # m
      else if k = k' then (k', v) # m
      else (k', v') # smap_set k v m)"

fun smap_erase :: "'k::linorder \<Rightarrow> ('k, 'v) smap \<Rightarrow> ('k, 'v) smap" where
  "smap_erase k [] = []"
| "smap_erase k ((k', v') # m) = (if k = k' then m else (k', v') # smap_erase k m)"

lemma smap_find_map_of: "smap_find m = map_of m"
  by (induction m) (auto simp: fun_eq_iff)

lemma smap_find_None_iff: "smap_find m k = None \<longleftrightarrow> k \<notin> fst ` set m"
  by (simp add: smap_find_map_of map_of_eq_None_iff)

lemma smap_find_Some_in: "smap_find m k = Some v \<Longrightarrow> (k, v) \<in> set m"
  by (simp add: smap_find_map_of map_of_SomeD)

lemma smap_inv_Nil [simp]: "smap_inv []"
  by (simp add: smap_inv_def)

lemma smap_inv_Cons [simp]:
  "smap_inv ((k, v) # m) \<longleftrightarrow> (\<forall>x \<in> fst ` set m. k < x) \<and> smap_inv m"
  by (auto simp: smap_inv_def)

lemma smap_inv_distinct: "smap_inv m \<Longrightarrow> distinct (map fst m)"
  unfolding smap_inv_def by (simp add: strict_sorted_iff)

lemma smap_in_find: "smap_inv m \<Longrightarrow> (k, v) \<in> set m \<Longrightarrow> smap_find m k = Some v"
  by (simp add: smap_find_map_of smap_inv_distinct map_of_is_SomeI)

lemma keys_insert: "fst ` set (smap_insert k v m) = insert k (fst ` set m)"
  by (induction k v m rule: smap_insert.induct) auto

lemma keys_set: "fst ` set (smap_set k v m) = insert k (fst ` set m)"
  by (induction k v m rule: smap_set.induct) auto

lemma keys_erase: "smap_inv m \<Longrightarrow> fst ` set (smap_erase k m) = fst ` set m - {k}"
  by (induction k m rule: smap_erase.induct) auto

lemma smap_inv_insert [inv_intros]: "smap_inv m \<Longrightarrow> smap_inv (smap_insert k v m)"
  by (induction k v m rule: smap_insert.induct) (auto simp: keys_insert)

lemma smap_inv_set [inv_intros]: "smap_inv m \<Longrightarrow> smap_inv (smap_set k v m)"
  by (induction k v m rule: smap_set.induct) (auto simp: keys_set)

lemma smap_inv_erase [inv_intros]: "smap_inv m \<Longrightarrow> smap_inv (smap_erase k m)"
  by (induction k m rule: smap_erase.induct) (auto simp: keys_erase)

lemma smap_find_insert:
  "smap_inv m \<Longrightarrow> smap_find (smap_insert k v m) k' =
     (if k' = k \<and> smap_find m k = None then Some v else smap_find m k')"
proof (induction k v m rule: smap_insert.induct)
  case (2 k v k1 v1 m)
  then have "k < k1 \<Longrightarrow> smap_find m k = None"
    by (auto simp: smap_find_None_iff)
  with 2 show ?case by auto
qed simp

lemma smap_find_set:
  "smap_inv m \<Longrightarrow> smap_find (smap_set k v m) k' = (if k' = k then Some v else smap_find m k')"
  by (induction k v m rule: smap_set.induct) auto

lemma smap_find_erase:
  "smap_inv m \<Longrightarrow> smap_find (smap_erase k m) k' = (if k' = k then None else smap_find m k')"
proof (induction k m rule: smap_erase.induct)
  case (2 k k1 v1 m)
  then have "k = k1 \<Longrightarrow> smap_find m k = None"
    by (auto simp: smap_find_None_iff)
  with 2 show ?case by auto
qed simp

lemma smap_erase_absent: "smap_find m k = None \<Longrightarrow> smap_erase k m = m"
  by (induction k m rule: smap_erase.induct) (auto split: if_splits)

lemma smap_set_erase: "smap_inv m \<Longrightarrow> smap_set k v (smap_erase k m) = smap_set k v m"
proof (induction k m rule: smap_erase.induct)
  case (2 k k' v' m)
  have "k < k' \<Longrightarrow> smap_erase k m = m" using 2 by (intro smap_erase_absent) (auto simp: smap_find_None_iff)
  moreover have "k = k' \<Longrightarrow> smap_set k v m = (k, v) # m" using 2 by (cases m) auto
  ultimately show ?case using 2 by auto
qed simp

lemma length_smap_erase:
  "length (smap_erase k m) = (if smap_find m k = None then length m else length m - 1)"
proof (induction k m rule: smap_erase.induct)
  case (2 k k1 v1 m)
  then show ?case by (cases m) auto
qed simp

text \<open>The operations on sequences, cut at an item in the middle.\<close>

lemma smap_inv_append: "smap_inv (xs @ ys) \<longleftrightarrow> smap_inv xs \<and> smap_inv ys \<and> (\<forall>x \<in> fst ` set xs. \<forall>y \<in> fst ` set ys. x < y)"
  by (auto simp: smap_inv_def sorted_wrt_append)

lemma smap_find_append: "smap_find (xs @ ys) k = (case smap_find xs k of None \<Rightarrow> smap_find ys k | Some v \<Rightarrow> Some v)"
  by (induction xs) auto

lemma smap_find_outside:
  "\<forall>x \<in> fst ` set m. x < k \<Longrightarrow> smap_find m k = None" "\<forall>x \<in> fst ` set m. k < x \<Longrightarrow> smap_find m k = None"
  by (auto simp: smap_find_None_iff)

lemma smap_insert_left: "k < fst y \<Longrightarrow> smap_insert k v (xs @ y # ys) = smap_insert k v xs @ y # ys"
  by (cases y, induction xs) auto

lemma smap_insert_right: "\<forall>x \<in> fst ` set xs. x < k \<Longrightarrow> smap_insert k v (xs @ ys) = xs @ smap_insert k v ys"
  by (induction xs) auto

lemma smap_set_present: "\<forall>x \<in> fst ` set xs. x < k \<Longrightarrow> smap_set k v (xs @ (k, w) # ys) = xs @ (k, v) # ys"
  by (induction xs) auto

lemma smap_set_between:
  "\<forall>x \<in> fst ` set xs. x < k \<Longrightarrow> \<forall>y \<in> fst ` set ys. k < y \<Longrightarrow> smap_set k v (xs @ ys) = xs @ (k, v) # ys"
  by (induction xs) (auto, cases ys, auto)

lemma smap_erase_append:
  "smap_erase k (xs @ ys) = (if smap_find xs k = None then xs @ smap_erase k ys else smap_erase k xs @ ys)"
  by (induction xs) auto

lemma length_smap_insert: "length (smap_insert k v m) = (if smap_find m k = None then length m + 1 else length m)" if "smap_inv m"
  using that
proof (induction k v m rule: smap_insert.induct)
  case (2 k v k1 v1 m)
  then have "k < k1 \<Longrightarrow> smap_find m k = None" by (auto simp: smap_find_None_iff)
  with 2 show ?case by auto
qed simp

lemma smap_insert_present: "smap_inv m \<Longrightarrow> smap_find m k = Some w \<Longrightarrow> smap_insert k v m = m"
proof (induction k v m rule: smap_insert.induct)
  case (2 k v k1 v1 m)
  then have "k < k1 \<Longrightarrow> smap_find m k = None" by (auto simp: smap_find_None_iff)
  with 2 show ?case by (auto split: if_splits)
qed simp

interpretation smap: erasable "[]" smap_find smap_insert smap_inv smap_erase
  by unfold_locales
    (simp_all add: smap_inv_insert smap_find_insert smap_inv_erase smap_find_erase)

end
