(* ===== verification/SignalingQueue.thy ===== *)
theory SignalingQueue
  imports StdMap
begin

text \<open>
  The circular message buffer between the socket threads, src/server/signaling_queue.cc. One
  buffer of bytes holds the messages back to back, wrapping at its end; message_positions_ gives
  start and length of each message in order of arrival. The operations are given on the state
  the mutex protects: one call is one critical section, and a call that would wait on a condition
  variable yields \<open>Wait\<close>. The program points of waiting threads are the step relation at the end.
\<close>

section \<open>State and operations\<close>

datatype 'a wait = Return 'a | Wait

record squeue =
  queue_buf :: string
  queue_size :: int
  free_size :: int
  write_pointer :: int
  num_producers :: int
  message_positions :: "(int \<times> int) list"
  finished_producers :: "int set"

definition SignalingQueue :: "int \<Rightarrow> int \<Rightarrow> squeue result" where
  "SignalingQueue sz producers =
     (if \<not> 0 < sz then Inl Abort
      else Inr \<lparr>queue_buf = replicate (nat sz) (CHR 0x00), queue_size = sz,
        free_size = sz, write_pointer = 0, num_producers = producers,
        message_positions = [], finished_producers = {}\<rparr>)"

text \<open>
  finished_producers_.size() >= num_producers_ compares in size_t, so that a negative number of
  producers is a huge one.
\<close>

definition no_more_add :: "squeue \<Rightarrow> bool" where
  "no_more_add q \<longleftrightarrow> int (card (finished_producers q)) \<ge> num_producers q mod 2 ^ 64"

text \<open>The body of Add after its waiting loop: record the position, copy, move the pointer.\<close>

definition sq_write :: "squeue \<Rightarrow> string \<Rightarrow> int \<Rightarrow> squeue" where
  "sq_write q src sz =
    (let wp = write_pointer q;
         q' = q\<lparr>message_positions := message_positions q @ [(wp, sz)],
                free_size := free_size q - sz\<rparr>
     in if wp + sz \<le> queue_size q
        then q'\<lparr>queue_buf := blit (queue_buf q) (nat wp) (take (nat sz) src),
                write_pointer := (if wp + sz = queue_size q then 0 else wp + sz)\<rparr>
        else let size_partial = queue_size q - wp;
                 b1 = blit (queue_buf q) (nat wp) (take (nat size_partial) src);
                 b2 = blit b1 0 (take (nat (sz - size_partial)) (drop (nat size_partial) src))
             in q'\<lparr>queue_buf := b2, write_pointer := sz - size_partial\<rparr>)"

text \<open>
  One evaluation of the waiting loop of Add with what follows it. A thread woken by
  cond_not_full_ comes back here, not to the checks before.
\<close>

definition sq_Add_loop :: "squeue \<Rightarrow> string \<Rightarrow> int \<Rightarrow> bool \<Rightarrow> int wait \<times> squeue" where
  "sq_Add_loop q src sz is_blocking =
     (if sz > free_size q
      then (if \<not> is_blocking then (Return 0, q) else (Wait, q))
      else (Return sz, sq_write q src sz))"

definition sq_Add :: "squeue \<Rightarrow> string \<Rightarrow> int \<Rightarrow> bool \<Rightarrow> int wait \<times> squeue" where
  "sq_Add q src sz is_blocking =
     (if sz > queue_size q then (Return (- 1), q)
      else if sz \<le> 0 then (Return (- 1), q)
      else if no_more_add q then (Return (- 1), q)
      else sq_Add_loop q src sz is_blocking)"

text \<open>The overload for std::string narrows src.size() to int.\<close>

definition sq_Add_string :: "squeue \<Rightarrow> string \<Rightarrow> bool \<Rightarrow> int wait \<times> squeue" where
  "sq_Add_string q src is_blocking = sq_Add q src (wrap32 (int (length src))) is_blocking"

text \<open>Reading one message: in one piece, or from the tail and then from the head.\<close>

fun sq_read :: "squeue \<Rightarrow> int \<times> int \<Rightarrow> string" where
  "sq_read q (first, second) =
     (if first + second \<le> queue_size q
      then take (nat second) (drop (nat first) (queue_buf q))
      else let size_partial = queue_size q - first
           in take (nat size_partial) (drop (nat first) (queue_buf q))
              @ take (nat (second - size_partial)) (queue_buf q))"

text \<open>The waiting loop of both Remove overloads on an empty queue.\<close>

definition sq_Remove_empty :: "squeue \<Rightarrow> bool \<Rightarrow> int wait" where
  "sq_Remove_empty q is_blocking =
     (if \<not> is_blocking then Return 0 else if no_more_add q then Return 0 else Wait)"

definition sq_pop :: "squeue \<Rightarrow> int \<Rightarrow> squeue" where
  "sq_pop q len = q\<lparr>free_size := free_size q + len, message_positions := tl (message_positions q)\<rparr>"

definition sq_Remove_char :: "squeue \<Rightarrow> string \<Rightarrow> int \<Rightarrow> bool \<Rightarrow> int wait \<times> string \<times> squeue" where
  "sq_Remove_char q dest max_size is_blocking =
     (case message_positions q of
        [] \<Rightarrow> (sq_Remove_empty q is_blocking, dest, q)
      | pos # _ \<Rightarrow>
          if snd pos > max_size then (Return (- 1), dest, sq_pop q (snd pos))
          else (Return (snd pos), blit dest 0 (sq_read q pos), sq_pop q (snd pos)))"

definition sq_Remove :: "squeue \<Rightarrow> string \<Rightarrow> bool \<Rightarrow> int wait \<times> string \<times> squeue" where
  "sq_Remove q dest is_blocking =
     (case message_positions q of
        [] \<Rightarrow> (sq_Remove_empty q is_blocking, dest, q)
      | pos # _ \<Rightarrow> (Return (snd pos), sq_read q pos, sq_pop q (snd pos)))"

definition sq_Signal :: "squeue \<Rightarrow> int \<Rightarrow> squeue" where
  "sq_Signal q producer_id = q\<lparr>finished_producers := insert producer_id (finished_producers q)\<rparr>"

definition EmptyAndNoMoreAdd :: "squeue \<Rightarrow> bool" where
  "EmptyAndNoMoreAdd q \<longleftrightarrow> message_positions q = [] \<and> no_more_add q"

lemmas sq_defs [step_defs] = sq_Add_string_def sq_Add_def sq_Add_loop_def sq_Remove_def
  sq_Remove_char_def sq_pop_def sq_Signal_def sq_Remove_empty_def

section \<open>Abstraction and invariant\<close>

text \<open>The messages in the buffer, in order of arrival.\<close>

definition sq_messages :: "squeue \<Rightarrow> string list" where
  "sq_messages q = map (sq_read q) (message_positions q)"

text \<open>
  \<open>contiguous n r ps w\<close>: the positions \<open>ps\<close> lie back to back on a circle of \<open>n\<close> cells,
  from \<open>r\<close> to \<open>w\<close>.
\<close>

fun contiguous :: "int \<Rightarrow> int \<Rightarrow> (int \<times> int) list \<Rightarrow> int \<Rightarrow> bool" where
  "contiguous n r [] w \<longleftrightarrow> r = w"
| "contiguous n r ((p, l) # ps) w \<longleftrightarrow> p = r \<and> 0 < l \<and> contiguous n ((r + l) mod n) ps w"

definition used_size :: "squeue \<Rightarrow> int" where
  "used_size q = sum_list (map snd (message_positions q))"

definition sq_inv :: "squeue \<Rightarrow> bool" where
  "sq_inv q \<longleftrightarrow> 0 < queue_size q \<and> int (length (queue_buf q)) = queue_size q
     \<and> 0 \<le> write_pointer q \<and> write_pointer q < queue_size q
     \<and> 0 \<le> free_size q \<and> free_size q + used_size q = queue_size q
     \<and> finite (finished_producers q)
     \<and> (\<exists>r. 0 \<le> r \<and> r < queue_size q
            \<and> contiguous (queue_size q) r (message_positions q) (write_pointer q))"

section \<open>Cyclic buffers\<close>

definition cread :: "'a list \<Rightarrow> nat \<Rightarrow> nat \<Rightarrow> 'a list" where
  "cread buf p l = map (\<lambda>i. buf ! ((p + i) mod length buf)) [0..<l]"

definition cwrite :: "'a list \<Rightarrow> nat \<Rightarrow> 'a list \<Rightarrow> 'a list" where
  "cwrite buf p xs =
     (if p + length xs \<le> length buf then blit buf p xs
      else let m = length buf - p in blit (blit buf p (take m xs)) 0 (drop m xs))"

lemma length_cwrite [simp]:
  "p < length buf \<Longrightarrow> length xs \<le> length buf \<Longrightarrow> length (cwrite buf p xs) = length buf"
  by (auto simp: cwrite_def Let_def min_def)

lemma add_mod_cases:
  fixes p j n :: nat
  assumes "p < n" "j < n"
  shows "(p + j) mod n = (if p + j < n then p + j else p + j - n)"
  using assms by (auto simp: mod_if)

lemma nth_cwrite_in:
  assumes "p < length buf" "length xs \<le> length buf" "j < length xs"
  shows "cwrite buf p xs ! ((p + j) mod length buf) = xs ! j"
proof (cases "p + length xs \<le> length buf")
  case True
  with assms show ?thesis by (simp add: cwrite_def nth_blit)
next
  case False
  with assms show ?thesis
    by (auto simp: cwrite_def Let_def nth_blit add_mod_cases min_def intro!: arg_cong [of _ _ "nth xs"])
qed

lemma nth_cwrite_out:
  assumes "p < length buf" "length xs \<le> length buf" "length xs \<le> j" "j < length buf"
  shows "cwrite buf p xs ! ((p + j) mod length buf) = buf ! ((p + j) mod length buf)"
proof (cases "p + length xs \<le> length buf")
  case True
  with assms show ?thesis by (auto simp: cwrite_def nth_blit add_mod_cases)
next
  case False
  with assms show ?thesis
    by (auto simp: cwrite_def Let_def nth_blit add_mod_cases min_def)
qed

lemma cread_cwrite_same:
  assumes "p < length buf" "length xs \<le> length buf"
  shows "cread (cwrite buf p xs) p (length xs) = xs"
  using assms by (auto simp: cread_def nth_cwrite_in intro: nth_equalityI)

lemma cread_cwrite_other:
  assumes "p < length buf" "length xs \<le> d" "d + l \<le> length buf"
  shows "cread (cwrite buf p xs) ((p + d) mod length buf) l = cread buf ((p + d) mod length buf) l"
proof -
  have "cwrite buf p xs ! (((p + d) mod length buf + i) mod length buf)
      = buf ! (((p + d) mod length buf + i) mod length buf)" if "i < l" for i
    using nth_cwrite_out [of p buf xs "d + i"] assms that
    by (simp add: mod_add_left_eq add.assoc)
  then show ?thesis using assms by (simp add: cread_def)
qed

text \<open>The two-piece copies of the source are cyclic reads and writes.\<close>

lemma cread_split:
  assumes "p < length buf" "l \<le> length buf"
  shows "cread buf p l =
    (if p + l \<le> length buf then take l (drop p buf)
     else take (length buf - p) (drop p buf) @ take (l - (length buf - p)) buf)"
proof (rule nth_equalityI)
  fix i assume "i < length (cread buf p l)"
  then have i: "i < l" by (simp add: cread_def)
  then have "(p + i) mod length buf = (if p + i < length buf then p + i else p + i - length buf)"
    using assms by (intro add_mod_cases) auto
  moreover have "i - (length buf - p) = p + i - length buf" using assms by simp
  ultimately show "cread buf p l ! i =
    (if p + l \<le> length buf then take l (drop p buf)
     else take (length buf - p) (drop p buf) @ take (l - (length buf - p)) buf) ! i"
    using assms i by (auto simp: cread_def nth_append)
qed (use assms in \<open>auto simp: cread_def\<close>)

lemma sq_read_cread:
  assumes "int (length (queue_buf q)) = queue_size q" "0 \<le> p" "p < queue_size q"
    "0 \<le> l" "l \<le> queue_size q"
  shows "sq_read q (p, l) = cread (queue_buf q) (nat p) (nat l)"
proof -
  let ?n = "length (queue_buf q)"
  have n: "nat (queue_size q - p) = ?n - nat p" "nat p < ?n" "nat l \<le> ?n"
    "nat (l - (queue_size q - p)) = nat l - (?n - nat p)"
    "p + l \<le> queue_size q \<longleftrightarrow> nat p + nat l \<le> ?n"
    using assms by linarith+
  show ?thesis
    by (simp only: sq_read.simps Let_def n cread_split [OF n(2,3)])
qed

lemma sq_write_cwrite:
  assumes "int (length (queue_buf q)) = queue_size q" "0 \<le> write_pointer q"
    "write_pointer q < queue_size q" "0 \<le> sz" "nat sz \<le> length src"
  shows "queue_buf (sq_write q src sz) = cwrite (queue_buf q) (nat (write_pointer q)) (take (nat sz) src)"
proof -
  let ?n = "length (queue_buf q)" and ?wp = "write_pointer q"
  have n: "nat (queue_size q - ?wp) = ?n - nat ?wp" "nat ?wp < ?n"
    "nat (sz - (queue_size q - ?wp)) = nat sz - (?n - nat ?wp)"
    "?wp + sz \<le> queue_size q \<longleftrightarrow> nat ?wp + nat sz \<le> ?n"
    using assms by linarith+
  have len: "length (take (nat sz) src) = nat sz" using assms by simp
  show ?thesis
  proof (cases "nat ?wp + nat sz \<le> ?n")
    case True
    then show ?thesis by (simp only: sq_write_def cwrite_def Let_def n len if_True) simp
  next
    case False
    then have "?n - nat ?wp \<le> nat sz" by linarith
    then have "take (?n - nat ?wp) (take (nat sz) src) = take (?n - nat ?wp) src"
      by (simp add: min_absorb1)
    then show ?thesis using False
      by (simp only: sq_write_def cwrite_def Let_def n len if_False drop_take) simp
  qed
qed

section \<open>Contiguous positions\<close>

lemma contiguous_end:
  "contiguous n r ps w \<Longrightarrow> 0 \<le> r \<Longrightarrow> r < n \<Longrightarrow> w = (r + sum_list (map snd ps)) mod n"
proof (induction n r ps w rule: contiguous.induct)
  case (2 n r p l ps w)
  then have "w = ((r + l) mod n + sum_list (map snd ps)) mod n" by auto
  then show ?case by (simp add: mod_add_left_eq add.assoc)
qed simp

lemma contiguous_snoc:
  "contiguous n r ps w \<Longrightarrow> 0 < l \<Longrightarrow> contiguous n r (ps @ [(w, l)]) ((w + l) mod n)"
  by (induction n r ps w rule: contiguous.induct) auto

lemma contiguous_pos: "contiguous n r ps w \<Longrightarrow> (p, l) \<in> set ps \<Longrightarrow> 0 < l"
  by (induction n r ps w rule: contiguous.induct) auto

lemma contiguous_sum_nonneg: "contiguous n r ps w \<Longrightarrow> 0 \<le> sum_list (map snd ps)"
  by (induction n r ps w rule: contiguous.induct) auto

lemma contiguous_mem:
  assumes "contiguous n r ps w" "0 \<le> r" "r < n" "(p, l) \<in> set ps" "sum_list (map snd ps) \<le> n"
  shows "\<exists>d. n - sum_list (map snd ps) \<le> d \<and> d + l \<le> n \<and> p = (w + d) mod n"
  using assms
proof (induction n r ps w rule: contiguous.induct)
  case (2 n r p1 l1 ps w)
  let ?S = "sum_list (map snd ps)"
  from 2 have tl: "contiguous n ((r + l1) mod n) ps w" "0 < l1" "p1 = r" by auto
  have S0: "0 \<le> ?S" using contiguous_sum_nonneg [OF tl(1)] .
  show ?case
  proof (cases "(p, l) = (p1, l1)")
    case True
    have "w = (r + (l1 + ?S)) mod n" using contiguous_end [OF "2.prems"(1-3)] by simp
    then have "(w + (n - (l1 + ?S))) mod n = (r + n) mod n"
      by (simp add: mod_add_left_eq)
    then have "p = (w + (n - (l1 + ?S))) mod n" using True tl "2.prems" by simp
    then show ?thesis using True S0 by (intro exI [of _ "n - (l1 + ?S)"]) auto
  next
    case False
    then have "(p, l) \<in> set ps" using "2.prems" by auto
    then obtain d where "n - ?S \<le> d" "d + l \<le> n" "p = (w + d) mod n"
      using "2.IH" tl "2.prems" by auto
    then show ?thesis using tl by (intro exI [of _ d]) auto
  qed
qed simp

section \<open>Every operation keeps the invariant\<close>

lemma sq_inv_new [inv_intros]: "SignalingQueue sz producers = Inr q \<Longrightarrow> sq_inv q"
  by (auto simp: SignalingQueue_def sq_inv_def used_size_def split: if_splits)

lemma sq_write_fields:
  assumes "0 \<le> write_pointer q" "write_pointer q < queue_size q" "0 < sz" "sz \<le> queue_size q"
  shows "queue_size (sq_write q src sz) = queue_size q"
    "free_size (sq_write q src sz) = free_size q - sz"
    "message_positions (sq_write q src sz) = message_positions q @ [(write_pointer q, sz)]"
    "finished_producers (sq_write q src sz) = finished_producers q"
    "num_producers (sq_write q src sz) = num_producers q"
    "write_pointer (sq_write q src sz) = (write_pointer q + sz) mod queue_size q"
proof -
  have "(write_pointer q + sz) mod queue_size q = write_pointer q + sz - queue_size q"
    if "\<not> write_pointer q + sz < queue_size q"
    using assms that mod_pos_pos_trivial [of "write_pointer q + sz - queue_size q" "queue_size q"]
    by simp
  then have "(write_pointer q + sz) mod queue_size q =
    (if write_pointer q + sz < queue_size q then write_pointer q + sz
     else write_pointer q + sz - queue_size q)"
    using assms by auto
  then show "write_pointer (sq_write q src sz) = (write_pointer q + sz) mod queue_size q"
    by (auto simp: sq_write_def Let_def)
qed (auto simp: sq_write_def Let_def)

lemma sq_inv_write:
  assumes inv: "sq_inv q" and sz: "0 < sz" "sz \<le> free_size q" "nat sz \<le> length src"
  shows "sq_inv (sq_write q src sz)"
    and "sq_messages (sq_write q src sz) = sq_messages q @ [take (nat sz) src]"
proof -
  let ?q = "sq_write q src sz" and ?n = "queue_size q" and ?w = "write_pointer q"
  from inv obtain r where r: "0 \<le> r" "r < ?n" "contiguous ?n r (message_positions q) ?w"
    by (auto simp: sq_inv_def)
  note i = inv [unfolded sq_inv_def]
  have u0: "0 \<le> used_size q" using contiguous_sum_nonneg [OF r(3)] by (simp add: used_size_def)
  have szn: "sz \<le> ?n" using sz i u0 by linarith
  have w: "0 \<le> ?w" "?w < ?n" using i by auto
  note f = sq_write_fields [OF w sz(1) szn, of src]
  have buf: "queue_buf ?q = cwrite (queue_buf q) (nat ?w) (take (nat sz) src)"
    using i sz by (intro sq_write_cwrite) auto
  have len: "length (queue_buf q) = nat ?n" using i by linarith
  have blen: "int (length (queue_buf ?q)) = ?n"
    using buf len i szn w by (simp add: nat_less_iff)
  have "contiguous ?n r (message_positions ?q) (write_pointer ?q)"
    using contiguous_snoc [OF r(3) sz(1)] by (simp add: f)
  with r(1,2) show "sq_inv ?q"
    using i sz blen w by (auto simp: sq_inv_def f used_size_def intro!: exI [of _ r])
  have old: "sq_read ?q (p, l) = sq_read q (p, l)" if m: "(p, l) \<in> set (message_positions q)" for p l
  proof -
    have sum: "sum_list (map snd (message_positions q)) = used_size q" by (simp add: used_size_def)
    obtain d where d: "?n - used_size q \<le> d" "d + l \<le> ?n" "p = (?w + d) mod ?n"
      using contiguous_mem [OF r(3,1,2) m] i sum by auto
    have l: "0 < l" using contiguous_pos [OF r(3) m] .
    have pb: "0 \<le> p" "p < ?n" using d(3) i by auto
    have "0 \<le> d" using d(1) i by linarith
    have np: "nat p = (nat ?w + nat d) mod length (queue_buf q)"
      using d(3) w len \<open>0 \<le> d\<close> by (simp add: nat_mod_distrib nat_add_distrib)
    have "sq_read ?q (p, l) = cread (queue_buf ?q) (nat p) (nat l)"
      using blen pb l d \<open>0 \<le> d\<close> by (intro sq_read_cread) (auto simp: f)
    also have "\<dots> = cread (queue_buf q) (nat p) (nat l)"
      unfolding buf np using d sz i len w l \<open>0 \<le> d\<close>
      by (intro cread_cwrite_other) (auto simp: nat_less_iff)
    also have "\<dots> = sq_read q (p, l)"
      using i pb l d \<open>0 \<le> d\<close> by (intro sq_read_cread [symmetric]) auto
    finally show ?thesis .
  qed
  have new: "sq_read ?q (?w, sz) = take (nat sz) src"
  proof -
    have "sq_read ?q (?w, sz) = cread (queue_buf ?q) (nat ?w) (nat sz)"
      using blen w sz szn by (intro sq_read_cread) (auto simp: f)
    also have "\<dots> = cread (queue_buf ?q) (nat ?w) (length (take (nat sz) src))"
      using sz by (simp add: min_def)
    also have "\<dots> = take (nat sz) src"
      unfolding buf using len w sz szn by (intro cread_cwrite_same) (auto simp: nat_less_iff)
    finally show ?thesis .
  qed
  show "sq_messages ?q = sq_messages q @ [take (nat sz) src]"
    using old new by (auto simp: sq_messages_def f simp del: sq_read.simps)
qed

lemma sq_inv_pop:
  assumes inv: "sq_inv q" and ps: "message_positions q = (p, l) # ps"
  shows "sq_inv (sq_pop q l)" "sq_messages (sq_pop q l) = tl (sq_messages q)"
    "0 < l" "l \<le> queue_size q" "int (length (sq_read q (p, l))) = l"
proof -
  let ?n = "queue_size q"
  from inv obtain r where r: "0 \<le> r" "r < ?n" "contiguous ?n r ((p, l) # ps) (write_pointer q)"
    by (auto simp: sq_inv_def ps)
  note i = inv [unfolded sq_inv_def]
  have l: "0 < l" "p = r" "contiguous ?n ((r + l) mod ?n) ps (write_pointer q)"
    using r(3) by auto
  have u: "used_size q = l + sum_list (map snd ps)" by (simp add: used_size_def ps)
  moreover have "0 \<le> sum_list (map snd ps)" by (rule contiguous_sum_nonneg [OF l(3)])
  ultimately show ln: "l \<le> ?n" using i by linarith
  show "0 < l" by fact
  show "sq_inv (sq_pop q l)"
    using i l u by (auto simp: sq_inv_def sq_pop_def used_size_def ps intro!: exI [of _ "(r + l) mod ?n"])
  have "sq_read (sq_pop q l) pos = sq_read q pos" for pos
    by (cases pos) (simp add: sq_pop_def)
  then show "sq_messages (sq_pop q l) = tl (sq_messages q)"
    by (simp add: sq_messages_def ps) (simp add: sq_pop_def ps)
  have "sq_read q (p, l) = cread (queue_buf q) (nat p) (nat l)"
    using i r l ln by (intro sq_read_cread) auto
  then show "int (length (sq_read q (p, l))) = l" using l by (simp add: cread_def)
qed

lemma sq_inv_signal [inv_intros]: "sq_inv q \<Longrightarrow> sq_inv (sq_Signal q t)"
  by (auto simp: sq_inv_def sq_Signal_def used_size_def)

lemma sq_messages_signal [simp]: "sq_messages (sq_Signal q t) = sq_messages q"
proof -
  have "sq_read (sq_Signal q t) pos = sq_read q pos" for pos
    by (cases pos) (simp add: sq_Signal_def)
  then show ?thesis by (simp add: sq_messages_def) (simp add: sq_Signal_def)
qed

lemma sq_messages_Nil_iff: "sq_messages q = [] \<longleftrightarrow> message_positions q = []"
  by (simp add: sq_messages_def)

lemma sq_inv_bounds:
  assumes "sq_inv q"
  shows "0 \<le> used_size q" "free_size q \<le> queue_size q"
proof -
  obtain r where "contiguous (queue_size q) r (message_positions q) (write_pointer q)"
    using assms by (auto simp: sq_inv_def)
  then show "0 \<le> used_size q" unfolding used_size_def by (rule contiguous_sum_nonneg)
  then show "free_size q \<le> queue_size q" using assms by (auto simp: sq_inv_def)
qed

lemma sum_read_lengths:
  assumes "sq_inv q"
  shows "(\<Sum>m\<leftarrow>sq_messages q. int (length m)) = used_size q"
proof -
  have "int (length (sq_read q pos)) = snd pos" if m: "pos \<in> set (message_positions q)" for pos
  proof -
    obtain r where r: "0 \<le> r" "r < queue_size q"
      "contiguous (queue_size q) r (message_positions q) (write_pointer q)"
      using assms by (auto simp: sq_inv_def)
    note i = assms [unfolded sq_inv_def]
    obtain p l where pos: "pos = (p, l)" by (cases pos)
    have l: "0 < l" using contiguous_pos [OF r(3)] m pos by auto
    obtain d where d: "queue_size q - used_size q \<le> d" "d + l \<le> queue_size q"
        "p = (write_pointer q + d) mod queue_size q"
      using contiguous_mem [OF r(3,1,2) m [unfolded pos]] i by (auto simp: used_size_def)
    have "sq_read q (p, l) = cread (queue_buf q) (nat p) (nat l)"
      using i d l by (intro sq_read_cread) auto
    then show ?thesis using l pos by (simp add: cread_def)
  qed
  then show ?thesis by (auto simp: sq_messages_def used_size_def intro!: arg_cong [of _ _ sum_list])
qed

text \<open>What Add does, branch by branch.\<close>

lemma message_weight_bound: "sq_inv q \<Longrightarrow> m \<in> set (sq_messages q) \<Longrightarrow> int (length m) \<le> queue_size q"
proof -
  assume inv: "sq_inv q" and m: "m \<in> set (sq_messages q)"
  have "int (length m) \<le> (\<Sum>x\<leftarrow>sq_messages q. int (length x))"
    using m by (intro member_le_sum_list) (auto simp: in_set_conv_decomp)
  also have "\<dots> \<le> queue_size q" using sum_read_lengths [OF inv] inv by (simp add: sq_inv_def)
  finally show ?thesis .
qed

lemma sq_Add_refused:
  "sq_Add q src sz b = (Return r, q') \<Longrightarrow> r \<le> 0 \<Longrightarrow> q' = q"
  by (auto simp: sq_Add_def sq_Add_loop_def split: if_splits)

lemma sq_Add_Wait: "sq_Add q src sz b = (Wait, q') \<Longrightarrow>
    q' = q \<and> b \<and> free_size q < sz \<and> sz \<le> queue_size q \<and> 0 < sz \<and> \<not> no_more_add q"
  by (auto simp: sq_Add_def sq_Add_loop_def split: if_splits)

lemma sq_Add_stored:
  assumes "sq_inv q" "sq_Add q src sz b = (Return r, q')" "0 < r" "nat sz \<le> length src"
  shows "sq_inv q'" "sq_messages q' = sq_messages q @ [take (nat sz) src]" "r = sz"
proof -
  have "r = sz \<and> q' = sq_write q src sz \<and> 0 < sz \<and> sz \<le> free_size q"
    using assms(2,3) by (auto simp: sq_Add_def sq_Add_loop_def split: if_splits)
  then show "sq_inv q'" "sq_messages q' = sq_messages q @ [take (nat sz) src]" "r = sz"
    using sq_inv_write [OF assms(1) _ _ assms(4)] by auto
qed

lemma sq_inv_Add [inv_intros]:
  assumes "sq_inv q" "sq_Add q src sz b = (w, q')" "nat sz \<le> length src"
  shows "sq_inv q'"
proof (cases w)
  case (Return r)
  then show ?thesis
    using assms sq_Add_stored(1) [of q src sz b r q'] sq_Add_refused [of q src sz b r q']
    by (cases "0 < r") (auto simp: not_less)
next
  case Wait
  then show ?thesis using assms sq_Add_Wait [of q src sz b q'] by simp
qed

lemma sq_Remove_cases:
  assumes inv: "sq_inv q"
  obtains (empty) "sq_messages q = []" "sq_Remove q dest b = (sq_Remove_empty q b, dest, q)"
  | (pop) m q' where "sq_messages q = m # sq_messages q'"
      "sq_Remove q dest b = (Return (int (length m)), m, q')" "sq_inv q'" "m \<noteq> []"
proof (cases "message_positions q")
  case Nil
  then show ?thesis by (intro empty) (simp_all add: sq_messages_def sq_Remove_def)
next
  case (Cons pos ps)
  then obtain p l where ps: "message_positions q = (p, l) # ps" by (cases pos) auto
  note pp = sq_inv_pop [OF inv ps]
  have hd: "sq_messages q = sq_read q (p, l) # map (sq_read q) ps"
    by (simp add: sq_messages_def ps)
  show ?thesis
  proof (rule pop)
    show "sq_messages q = sq_read q (p, l) # sq_messages (sq_pop q l)"
      using pp(2) hd by simp
    show "sq_Remove q dest b = (Return (int (length (sq_read q (p, l)))), sq_read q (p, l), sq_pop q l)"
      using pp(5) by (simp add: sq_Remove_def ps del: sq_read.simps)
    show "sq_read q (p, l) \<noteq> []" using pp(3,5) by auto
  qed (fact pp(1))
qed

lemma sq_inv_Remove [inv_intros]: "sq_inv q \<Longrightarrow> sq_Remove q d b = (w, x, q') \<Longrightarrow> sq_inv q'"
  by (rule sq_Remove_cases [of q d b]) auto

section \<open>The contract with the clients\<close>

text \<open>
  What the connectors and the socket thread rely on: a bounded first-in first-out store of
  messages with non-blocking calls. \<open>weight\<close> is the room a message takes.
\<close>

locale message_fifo =
  fixes valid :: "'q \<Rightarrow> bool"
    and contents :: "'q \<Rightarrow> 'm list"
    and capacity :: "'q \<Rightarrow> int"
    and closed :: "'q \<Rightarrow> bool"
    and storable :: "'m \<Rightarrow> bool"
    and weight :: "'m \<Rightarrow> int"
    and add :: "'q \<Rightarrow> 'm \<Rightarrow> int wait \<times> 'q"
    and remove :: "'q \<Rightarrow> int wait \<times> 'm \<times> 'q"
  assumes add_accepts: "valid q \<Longrightarrow> \<not> closed q \<Longrightarrow> storable m \<Longrightarrow>
      (\<Sum>x\<leftarrow>contents q. weight x) + weight m \<le> capacity q \<Longrightarrow>
      \<exists>q'. add q m = (Return (weight m), q')"
    and add_keeps: "valid q \<Longrightarrow> storable m \<Longrightarrow> add q m = (w, q') \<Longrightarrow>
      valid q' \<and> capacity q' = capacity q \<and> closed q' = closed q \<and>
      contents q' = (case w of Return r \<Rightarrow> if 0 < r then contents q @ [m] else contents q
                     | Wait \<Rightarrow> contents q)"
    and weight_pos: "storable m \<Longrightarrow> 0 < weight m"
    and remove_first: "valid q \<Longrightarrow> contents q = m # ms \<Longrightarrow>
      \<exists>q'. remove q = (Return (weight m), m, q') \<and> valid q' \<and> contents q' = ms
        \<and> capacity q' = capacity q \<and> closed q' = closed q"
    and remove_none: "valid q \<Longrightarrow> contents q = [] \<Longrightarrow> \<exists>x. remove q = (Return 0, x, q)"
begin

text \<open>A burst of messages that fits is stored in order.\<close>

lemma add_burst:
  assumes "valid q" "\<not> closed q" "\<forall>m \<in> set ms. storable m"
    "(\<Sum>x\<leftarrow>contents q @ ms. weight x) \<le> capacity q"
  shows "contents (fold (\<lambda>m q. snd (add q m)) ms q) = contents q @ ms
    \<and> valid (fold (\<lambda>m q. snd (add q m)) ms q)"
  using assms
proof (induction ms arbitrary: q)
  case (Cons m ms)
  have pos: "0 \<le> (\<Sum>x\<leftarrow>ms. weight x)"
    using Cons.prems(3) weight_pos by (intro sum_list_nonneg) force
  then have "(\<Sum>x\<leftarrow>contents q. weight x) + weight m \<le> capacity q"
    using Cons.prems(4) by simp
  then obtain q' where q': "add q m = (Return (weight m), q')"
    using add_accepts Cons.prems by force
  then have k: "valid q'" "capacity q' = capacity q" "closed q' = closed q" "contents q' = contents q @ [m]"
    using add_keeps [OF Cons.prems(1) _ q'] weight_pos Cons.prems(3) by auto
  have "contents (fold (\<lambda>m q. snd (add q m)) ms q') = contents q' @ ms
    \<and> valid (fold (\<lambda>m q. snd (add q m)) ms q')"
    using Cons.prems k by (intro Cons.IH) auto
  then show ?case using k q' by simp
qed simp

text \<open>Draining returns the contents in order and leaves nothing.\<close>

lemma drain:
  assumes "valid q" "contents q = ms"
  shows "\<exists>q'. ((\<lambda>(out, q). (out @ [fst (snd (remove q))], snd (snd (remove q)))) ^^ length ms) (out, q)
      = (out @ ms, q') \<and> valid q' \<and> contents q' = []"
  using assms
proof (induction ms arbitrary: q out)
  case (Cons m ms)
  then obtain q' where q': "remove q = (Return (weight m), m, q')" "valid q'" "contents q' = ms"
    using remove_first by blast
  then show ?case using Cons.IH [of q' "out @ [m]"]
    by (simp add: funpow_swap1 del: funpow.simps add: funpow_Suc_right)
qed simp

end

definition storable_message :: "string \<Rightarrow> bool" where
  "storable_message m \<longleftrightarrow> m \<noteq> [] \<and> length m < 2 ^ 31"

lemma sq_Add_string_storable:
  "storable_message m \<Longrightarrow> sq_Add_string q m b = sq_Add q m (int (length m)) b"
  by (simp add: sq_Add_string_def storable_message_def wrap32_of_nat)

lemma sq_Add_fields: "sq_Add q src sz b = (w, q') \<Longrightarrow>
    queue_size q' = queue_size q \<and> no_more_add q' = no_more_add q
    \<and> num_producers q' = num_producers q \<and> finished_producers q' = finished_producers q"
  by (auto simp: sq_Add_def sq_Add_loop_def sq_write_def Let_def no_more_add_def split: if_splits)

lemma sq_Remove_fields: "sq_Remove q d b = (w, x, q') \<Longrightarrow>
    queue_size q' = queue_size q \<and> no_more_add q' = no_more_add q"
  by (auto simp: sq_Remove_def sq_pop_def no_more_add_def split: list.splits)

interpretation sq: message_fifo sq_inv sq_messages queue_size no_more_add storable_message
  "\<lambda>m. int (length m)" "\<lambda>q m. sq_Add_string q m False" "\<lambda>q. sq_Remove q [] False"
proof (unfold_locales, goal_cases)
  case (1 q m)
  then have "int (length m) \<le> free_size q"
    using sum_read_lengths [OF 1(1)] by (auto simp: sq_inv_def)
  moreover have "free_size q \<le> queue_size q" by (rule sq_inv_bounds [OF 1(1)])
  ultimately show ?case
    using 1 by (auto simp: sq_Add_string_storable sq_Add_def sq_Add_loop_def storable_message_def)
next
  case (2 q m w q')
  then have a: "sq_Add q m (int (length m)) False = (w, q')" by (simp add: sq_Add_string_storable)
  show ?case
  proof (cases w)
    case (Return r)
    then show ?thesis
      using sq_inv_Add [OF 2(1) a] sq_Add_fields [OF a] a
        sq_Add_stored [OF 2(1), of m "int (length m)" False r q'] sq_Add_refused [of q m _ False r q']
      by (cases "0 < r") auto
  next
    case Wait
    then show ?thesis using a 2(1) by (auto dest: sq_Add_Wait)
  qed
next
  case (3 m)
  then show ?case by (simp add: storable_message_def)
next
  case (4 q m ms)
  show ?case
    using sq_Remove_cases [OF 4(1), of "[]" False] 4(2) sq_Remove_fields
    by (metis list.discI list.inject)
next
  case (5 q)
  then show ?case by (simp add: sq_Remove_def sq_messages_def sq_Remove_empty_def)
qed

section \<open>Threads\<close>

text \<open>
  Any number of threads use one queue. A thread that waits inside of Add keeps its message, one
  that waits inside of Remove is marked; a wake-up, spurious or not, evaluates the waiting loop
  once more. \<open>added\<close> and \<open>removed\<close> record what the calls have stored and returned.
\<close>

record qsys =
  the_queue :: squeue
  adding :: "nat \<Rightarrow> string option"
  removing :: "nat \<Rightarrow> bool"
  added :: "string list"
  removed :: "string list"

definition qsys_init :: "squeue \<Rightarrow> qsys" where
  "qsys_init q = \<lparr>the_queue = q, adding = (\<lambda>_. None), removing = (\<lambda>_. False), added = [], removed = []\<rparr>"

definition logged :: "int \<Rightarrow> string \<Rightarrow> string list \<Rightarrow> string list" where
  "logged r m ms = (if 0 < r then ms @ [m] else ms)"

inductive qstep :: "qsys \<Rightarrow> qsys \<Rightarrow> bool" where
  add_return: "adding s t = None \<Longrightarrow> length m < 2 ^ 31 \<Longrightarrow>
    sq_Add_string (the_queue s) m True = (Return r, q') \<Longrightarrow>
    qstep s (s\<lparr>the_queue := q', added := logged r m (added s)\<rparr>)"
| add_wait: "adding s t = None \<Longrightarrow> length m < 2 ^ 31 \<Longrightarrow>
    sq_Add_string (the_queue s) m True = (Wait, q') \<Longrightarrow>
    qstep s (s\<lparr>the_queue := q', adding := (adding s)(t \<mapsto> m)\<rparr>)"
| add_wake: "adding s t = Some m \<Longrightarrow>
    sq_Add_loop (the_queue s) m (wrap32 (int (length m))) True = (Return r, q') \<Longrightarrow>
    qstep s (s\<lparr>the_queue := q', adding := (adding s)(t := None), added := logged r m (added s)\<rparr>)"
| remove_return: "\<not> removing s t \<Longrightarrow>
    sq_Remove (the_queue s) d True = (Return r, m, q') \<Longrightarrow>
    qstep s (s\<lparr>the_queue := q', removed := logged r m (removed s)\<rparr>)"
| remove_wait: "\<not> removing s t \<Longrightarrow>
    sq_Remove (the_queue s) d True = (Wait, m, q') \<Longrightarrow>
    qstep s (s\<lparr>the_queue := q', removing := (removing s)(t := True)\<rparr>)"
| remove_wake: "removing s t \<Longrightarrow>
    sq_Remove (the_queue s) d True = (Return r, m, q') \<Longrightarrow>
    qstep s (s\<lparr>the_queue := q', removing := (removing s)(t := False), removed := logged r m (removed s)\<rparr>)"
| signal: "qstep s (s\<lparr>the_queue := sq_Signal (the_queue s) producer\<rparr>)"

inductive qreachable :: "int \<Rightarrow> int \<Rightarrow> qsys \<Rightarrow> bool" for sz producers where
  start: "SignalingQueue sz producers = Inr q \<Longrightarrow> qreachable sz producers (qsys_init q)"
| step: "qreachable sz producers s \<Longrightarrow> qstep s s' \<Longrightarrow> qreachable sz producers s'"

definition qsys_inv :: "qsys \<Rightarrow> bool" where
  "qsys_inv s \<longleftrightarrow> sq_inv (the_queue s)
     \<and> added s = removed s @ sq_messages (the_queue s)
     \<and> (\<forall>t m. adding s t = Some m \<longrightarrow> storable_message m \<and> int (length m) \<le> queue_size (the_queue s))"

lemma qsys_inv_add:
  assumes "qsys_inv s" "sq_Add (the_queue s) m (int (length m)) True = (Return r, q')"
  shows "qsys_inv (s\<lparr>the_queue := q', added := logged r m (added s)\<rparr>)"
  using assms sq_Add_stored [of "the_queue s" m "int (length m)" True r q']
    sq_Add_refused [of "the_queue s" m "int (length m)" True r q'] sq_Add_fields [OF assms(2)]
  by (cases "0 < r") (auto simp: qsys_inv_def logged_def)

lemma sq_Add_loop_eq_write:
  "sq_Add_loop q m sz True = (Return r, q') \<longleftrightarrow> sz \<le> free_size q \<and> r = sz \<and> q' = sq_write q m sz"
  by (auto simp: sq_Add_loop_def)

lemma sq_Remove_inv:
  assumes "sq_inv q" "sq_Remove q d b = (w, m, q')"
  shows "sq_inv q'" "queue_size q' = queue_size q"
    "\<exists>r. w = Return r \<and> 0 < r \<Longrightarrow> sq_messages q = m # sq_messages q'"
    "\<not> (\<exists>r. w = Return r \<and> 0 < r) \<Longrightarrow> q' = q"
proof -
  have "sq_inv q' \<and> queue_size q' = queue_size q
    \<and> ((\<exists>r. w = Return r \<and> 0 < r) \<longrightarrow> sq_messages q = m # sq_messages q')
    \<and> (\<not> (\<exists>r. w = Return r \<and> 0 < r) \<longrightarrow> q' = q)"
  proof (rule sq_Remove_cases [OF assms(1), of d b], goal_cases)
    case 1
    then show ?case using assms by (simp add: sq_Remove_empty_def split: if_splits)
  next
    case (2 m' q'')
    then have "w = Return (int (length m'))" "m = m'" "q' = q''" using assms(2) by auto
    then show ?case using 2 sq_Remove_fields [OF assms(2)] by simp
  qed
  then show "sq_inv q'" "queue_size q' = queue_size q"
    "\<exists>r. w = Return r \<and> 0 < r \<Longrightarrow> sq_messages q = m # sq_messages q'"
    "\<not> (\<exists>r. w = Return r \<and> 0 < r) \<Longrightarrow> q' = q" by blast+
qed

lemma qsys_inv_remove:
  assumes "qsys_inv s" "sq_Remove (the_queue s) d True = (w, m, q')"
  shows "qsys_inv (s\<lparr>the_queue := q', removing := rm, removed := (case w of Return r \<Rightarrow> logged r m (removed s) | Wait \<Rightarrow> removed s)\<rparr>)"
proof -
  have inv: "sq_inv (the_queue s)" using assms(1) by (simp add: qsys_inv_def)
  note r = sq_Remove_inv [OF inv assms(2)]
  show ?thesis
  proof (cases "\<exists>k. w = Return k \<and> 0 < k")
    case True
    then show ?thesis using assms(1) r(1-3) by (auto simp: qsys_inv_def logged_def)
  next
    case False
    then show ?thesis using assms(1) r(4) by (cases w) (auto simp: qsys_inv_def logged_def)
  qed
qed

lemma qsys_inv_step:
  assumes "qstep s s'" "qsys_inv s"
  shows "qsys_inv s'"
  using assms
proof (induction rule: qstep.induct)
  case (add_return s t m r q')
  then have "sq_Add (the_queue s) m (int (length m)) True = (Return r, q')"
    by (simp add: sq_Add_string_def wrap32_of_nat)
  with add_return.prems show ?case by (rule qsys_inv_add)
next
  case (add_wait s t m q')
  then have a: "sq_Add (the_queue s) m (int (length m)) True = (Wait, q')"
    by (simp add: sq_Add_string_def wrap32_of_nat)
  have w: "q' = the_queue s" "int (length m) \<le> queue_size (the_queue s)" "m \<noteq> []"
    using sq_Add_Wait [OF a] by auto
  have "storable_message m"
    unfolding storable_message_def using w(3) add_wait.hyps(2) by blast
  then show ?case using w(1,2) add_wait.prems by (simp add: qsys_inv_def)
next
  case (add_wake s t m r q')
  then have m: "storable_message m" by (simp add: qsys_inv_def)
  then have l: "wrap32 (int (length m)) = int (length m)" "0 < int (length m)"
    by (simp_all add: storable_message_def wrap32_of_nat)
  have w: "int (length m) \<le> free_size (the_queue s)" "r = int (length m)"
      "q' = sq_write (the_queue s) m (int (length m))"
    using add_wake.hyps(2) by (simp_all add: sq_Add_loop_eq_write l(1))
  have inv: "sq_inv (the_queue s)" using add_wake.prems by (simp add: qsys_inv_def)
  note k = sq_inv_write [OF inv l(2) w(1), of m]
  have "queue_size q' = queue_size (the_queue s)"
    by (simp add: w(3) sq_write_def Let_def)
  then show ?case
    using add_wake.prems k w(2,3) l(2) by (simp add: qsys_inv_def logged_def)
next
  case (remove_return s t d r m q')
  then show ?case
    using qsys_inv_remove [OF remove_return.prems remove_return.hyps(2), of "removing s"] by simp
next
  case (remove_wait s t d m q')
  then show ?case
    using qsys_inv_remove [OF remove_wait.prems remove_wait.hyps(2), of "(removing s)(t := True)"] by simp
next
  case (remove_wake s t d r m q')
  then show ?case
    using qsys_inv_remove [OF remove_wake.prems remove_wake.hyps(2), of "(removing s)(t := False)"] by simp
next
  case (signal s producer)
  then show ?case by (simp add: qsys_inv_def sq_inv_signal) (simp add: sq_Signal_def)
qed

lemma sq_inv_positions:
  assumes "sq_inv q" "(p, l) \<in> set (message_positions q)"
  shows "0 \<le> p \<and> p < queue_size q \<and> 0 < l \<and> l \<le> queue_size q"
proof -
  obtain r where r: "0 \<le> r" "r < queue_size q"
      "contiguous (queue_size q) r (message_positions q) (write_pointer q)"
    using assms(1) by (auto simp: sq_inv_def)
  have sum: "used_size q \<le> queue_size q" using assms(1) by (auto simp: sq_inv_def)
  then obtain d where "queue_size q - used_size q \<le> d" "d + l \<le> queue_size q"
      "p = (write_pointer q + d) mod queue_size q"
    using contiguous_mem [OF r(3,1,2) assms(2)] by (auto simp: used_size_def)
  moreover have "0 < l" using contiguous_pos [OF r(3) assms(2)] .
  ultimately show ?thesis using r(1,2) sum by auto
qed

lemma qstep_size: "qstep s s' \<Longrightarrow> queue_size (the_queue s') = queue_size (the_queue s)"
proof (induction rule: qstep.induct)
  case (add_wake s t m r q')
  then show ?case by (auto simp: sq_Add_loop_eq_write sq_write_def Let_def)
qed (auto simp: sq_Add_string_def sq_Signal_def dest: sq_Add_fields sq_Remove_fields)

lemma qreachable_size: "qreachable sz producers s \<Longrightarrow> queue_size (the_queue s) = sz"
  by (induction rule: qreachable.induct)
    (auto simp: qstep_size qsys_init_def SignalingQueue_def split: if_splits)

lemma qreachable_inv: "qreachable sz producers s \<Longrightarrow> qsys_inv s"
proof (induction rule: qreachable.induct)
  case (start q)
  then show ?case
    using sq_inv_new by (auto simp: qsys_inv_def qsys_init_def sq_messages_def SignalingQueue_def split: if_splits)
next
  case (step s s')
  then show ?case by (blast intro: qsys_inv_step)
qed

section \<open>Properties\<close>

text \<open>C2: for any number of threads and any interleaving of their calls, wake-ups and signals,
  the messages that Add has stored are the ones that Remove has returned followed by the ones in
  the buffer: nothing is lost, duplicated, corrupted or reordered by the circular copies.\<close>

theorem queue_fifo:
  assumes "qreachable sz producers s"
  shows "added s = removed s @ sq_messages (the_queue s)"
  using qreachable_inv [OF assms] by (simp add: qsys_inv_def)

text \<open>A run that stores one message.\<close>

lemma qreachable_example:
  "\<exists>s::qsys. qreachable 4 1 s \<and> added s = [''ab''] \<and> message_positions (the_queue s) = [(0, 2)]"
proof -
  let ?q = "\<lparr>queue_buf = replicate (nat 4) (CHR 0x00), queue_size = 4, free_size = 4,
    write_pointer = 0, num_producers = 1, message_positions = [], finished_producers = {}\<rparr>"
  have q: "SignalingQueue 4 1 = Inr ?q" by (simp add: SignalingQueue_def)
  have r0: "qreachable 4 1 (qsys_init ?q)" by (rule qreachable.start [OF q])
  have a: "sq_Add_string (the_queue (qsys_init ?q)) ''ab'' True = (Return 2, sq_write ?q ''ab'' 2)"
    by (simp add: qsys_init_def sq_Add_string_def sq_Add_def sq_Add_loop_def wrap32_def no_more_add_def)
  have "qstep (qsys_init ?q) ((qsys_init ?q)\<lparr>the_queue := sq_write ?q ''ab'' 2,
      added := logged 2 ''ab'' (added (qsys_init ?q))\<rparr>)"
    by (rule qstep.add_return [OF _ _ a, of 0]) (simp_all add: qsys_init_def)
  from qreachable.step [OF r0 this] show ?thesis
    by (rule exI [of _ "(qsys_init ?q)\<lparr>the_queue := sq_write ?q ''ab'' 2,
      added := logged 2 ''ab'' (added (qsys_init ?q))\<rparr>", OF conjI])
      (simp add: logged_def qsys_init_def sq_write_def)
qed

lemma queue_example: "\<exists>q. sq_inv q \<and> \<not> no_more_add q \<and> queue_size q = 4 \<and> sq_messages q = [''ab'']"
proof -
  let ?q = "\<lparr>queue_buf = replicate (nat 4) (CHR 0x00), queue_size = 4, free_size = 4,
    write_pointer = 0, num_producers = 1, message_positions = [], finished_producers = {}\<rparr>"
  have inv: "sq_inv ?q" by (rule sq_inv_new [of 4 1]) (simp add: SignalingQueue_def)
  obtain q' where a: "sq_Add ?q ''ab'' 2 True = (Return 2, q')"
    by (simp add: sq_Add_def sq_Add_loop_def no_more_add_def)
  then show ?thesis
    using sq_Add_stored [OF inv a] sq_Add_fields [OF a]
    by (intro exI [of _ q']) (simp add: sq_messages_def no_more_add_def)
qed

lemma queue_fifo_witness:
  "\<exists>s::qsys. added s = [''ab''] \<and> added s = removed s @ sq_messages (the_queue s)"
  using qreachable_example queue_fifo by blast

text \<open>C28: in every reachable state the accounting of the buffer is exact: the positions lie back to
  back on the circle and end at the write pointer, their lengths and free_size_ add up to the size
  given to the constructor, and every position starts inside of the buffer.\<close>

theorem queue_memory_safe:
  assumes "qreachable sz producers s"
  shows "queue_size (the_queue s) = sz \<and> int (length (queue_buf (the_queue s))) = sz
    \<and> 0 \<le> free_size (the_queue s) \<and> free_size (the_queue s) + used_size (the_queue s) = sz
    \<and> (\<exists>r. contiguous sz r (message_positions (the_queue s)) (write_pointer (the_queue s)))
    \<and> (\<forall>(p, l) \<in> set (message_positions (the_queue s)). 0 \<le> p \<and> p < sz \<and> 0 < l \<and> l \<le> sz)"
proof -
  have sz: "queue_size (the_queue s) = sz" using qreachable_size [OF assms] .
  have inv: "sq_inv (the_queue s)" using qreachable_inv [OF assms] by (simp add: qsys_inv_def)
  have "\<forall>(p, l) \<in> set (message_positions (the_queue s)). 0 \<le> p \<and> p < sz \<and> 0 < l \<and> l \<le> sz"
    using sq_inv_positions [OF inv] sz by auto
  moreover have "\<exists>r. contiguous sz r (message_positions (the_queue s)) (write_pointer (the_queue s))"
    using inv sz by (auto simp: sq_inv_def)
  moreover have "int (length (queue_buf (the_queue s))) = sz \<and> 0 \<le> free_size (the_queue s)
      \<and> free_size (the_queue s) + used_size (the_queue s) = sz"
    using inv sz by (auto simp: sq_inv_def)
  ultimately show ?thesis using sz by blast
qed

lemma queue_memory_safe_witness:
  "\<exists>s::qsys. message_positions (the_queue s) = [(0, 2)] \<and> free_size (the_queue s) + used_size (the_queue s) = 4"
proof -
  obtain s where "qreachable 4 1 s" "message_positions (the_queue s) = [(0, 2)]"
    using qreachable_example by blast
  then show ?thesis using queue_memory_safe [of 4 1 s] by blast
qed

text \<open>Every outcome of Add for a std::string below 2 GB: refused with -1 when the message is
  empty, larger than the buffer or the producers are done; stored at the end when it fits into the
  free room; else 0 for a non-blocking call and waiting for a blocking one, the queue unchanged.\<close>

theorem queue_Add_outcome:
  assumes "sq_inv q" "length m < 2 ^ 31"
  shows "case sq_Add_string q m is_blocking of (w, q') \<Rightarrow>
    (if m = [] \<or> queue_size q < int (length m) \<or> no_more_add q then w = Return (- 1) \<and> q' = q
     else if int (length m) \<le> free_size q
       then w = Return (int (length m)) \<and> sq_messages q' = sq_messages q @ [m]
         \<and> free_size q' = free_size q - int (length m) \<and> sq_inv q'
     else w = (if is_blocking then Wait else Return 0) \<and> q' = q)"
proof -
  have w: "wrap32 (int (length m)) = int (length m)" using assms(2) by (rule wrap32_of_nat)
  have fs: "free_size (sq_write q m (int (length m))) = free_size q - int (length m)"
    by (simp add: sq_write_def Let_def)
  have st: "sq_messages (sq_write q m (int (length m))) = sq_messages q @ [m]"
      "sq_inv (sq_write q m (int (length m)))"
    if "m \<noteq> []" "int (length m) \<le> free_size q"
    using sq_inv_write [OF assms(1), of "int (length m)" m] that by auto
  show ?thesis
    using st by (simp add: sq_Add_string_def w sq_Add_def sq_Add_loop_def fs)
qed

lemma queue_Add_outcome_witness:
  "\<exists>q. SignalingQueue 4 1 = Inr q \<and> sq_messages (snd (sq_Add_string q ''ab'' True)) = [''ab'']"
proof -
  let ?q = "\<lparr>queue_buf = replicate (nat 4) (CHR 0x00), queue_size = 4, free_size = 4,
    write_pointer = 0, num_producers = 1, message_positions = [], finished_producers = {}\<rparr>"
  have q: "SignalingQueue 4 1 = Inr ?q" by (simp add: SignalingQueue_def)
  show ?thesis
    using queue_Add_outcome [of ?q "''ab''" True] sq_inv_new [OF q] q
    by (auto simp: no_more_add_def sq_messages_def split: prod.splits)
qed

text \<open>both Remove overloads take the oldest message. The char buffer overload drops a message
  that is longer than max_size and reports -1; it leaves the caller's buffer as it was then, and
  otherwise changes just the bytes the message covers.\<close>

theorem queue_Remove_outcome:
  assumes "sq_inv q" "sq_messages q = m # ms"
  shows "\<exists>q'. sq_messages q' = ms \<and> free_size q' = free_size q + int (length m) \<and> sq_inv q'
    \<and> sq_Remove q dest is_blocking = (Return (int (length m)), m, q')
    \<and> sq_Remove_char q buf max_size is_blocking =
        (if max_size < int (length m) then (Return (- 1), buf, q')
         else (Return (int (length m)), m @ drop (length m) buf, q'))"
proof -
  obtain p l ps where ps: "message_positions q = (p, l) # ps"
    using assms(2) by (auto simp: sq_messages_def)
  note pop = sq_inv_pop [OF assms(1) ps]
  have m: "m = sq_read q (p, l)" using assms(2) by (simp add: sq_messages_def ps)
  have l: "l = int (length m)" using pop m by auto
  have ms: "sq_messages (sq_pop q l) = ms" using pop(2) assms(2) ps by (simp add: sq_messages_def)
  have r: "sq_Remove q dest is_blocking = (Return l, m, sq_pop q l)"
    by (simp add: sq_Remove_def ps m del: sq_read.simps)
  have c: "sq_Remove_char q buf max_size is_blocking =
      (if max_size < l then (Return (- 1), buf, sq_pop q l) else (Return l, m @ drop (length m) buf, sq_pop q l))"
    by (simp add: sq_Remove_char_def ps m blit_def del: sq_read.simps)
  have "free_size (sq_pop q l) = free_size q + l" by (simp add: sq_pop_def)
  then show ?thesis
    using pop(1) ms r c unfolding l [symmetric] by blast
qed

lemma queue_Remove_outcome_witness:
  "\<exists>q q'. sq_messages q = [''ab''] \<and> sq_messages q' = []
    \<and> sq_Remove_char q [] 1 True = (Return (- 1), [], q')"
proof -
  obtain s where s: "qreachable 4 1 s" "added s = [''ab'']" "message_positions (the_queue s) = [(0, 2)]"
    using qreachable_example by blast
  let ?q = "the_queue s"
  have inv: "sq_inv ?q" "removed s @ sq_messages ?q = [''ab'']"
    using qreachable_inv [OF s(1)] s(2) by (auto simp: qsys_inv_def)
  have "sq_messages ?q \<noteq> []" using s(3) by (simp add: sq_messages_def)
  then have q: "sq_messages ?q = [''ab'']" using inv(2) by (cases "removed s") auto
  then show ?thesis
    using queue_Remove_outcome [OF inv(1) q, of "[]" True "[]" 1] by auto
qed

end
