(* ===== verification/Connector.thy ===== *)
theory Connector
  imports SignalingQueue
begin

text \<open>
  The connector between a socket and a message queue, src/server/connector.cc: Send writes the
  messages of the queue to the socket, Receive cuts the bytes of the socket into messages. The
  calls of the operating system are arguments: the result of send as a function of what it is
  given (the bytes on offer) and the outcome of recv.
\<close>

section \<open>State\<close>

text \<open>bytes_count_ and message_size_ are uint32; message_buf_ has 4096 bytes.\<close>

record connector =
  message :: string
  message_buf :: string
  message_size :: int
  bytes_count :: int

definition Clear :: "connector \<Rightarrow> connector" where
  "Clear c = c\<lparr>message := [], message_size := 0, bytes_count := 0\<rparr>"

text \<open>The constructor calls Clear; message_buf_ holds whatever was in memory.\<close>

definition Connector :: "string \<Rightarrow> connector" where
  "Connector garbage = \<lparr>message = [], message_buf = garbage, message_size = 0, bytes_count = 0\<rparr>"

text \<open>Initialize checks the queue pointer and the descriptor.\<close>

definition Connector_Initialize :: "'q option \<Rightarrow> int \<Rightarrow> ('q \<times> int) result" where
  "Connector_Initialize queue fd =
     (case queue of None \<Rightarrow> Inl Abort | Some q \<Rightarrow> if \<not> 0 < fd then Inl Abort else Inr (q, fd))"

section \<open>Sending\<close>

text \<open>
  The loop of SendFinal; the list holds the results of the calls of send. this_send is a uint32, so
  its test for a negative result is never true. The result is the return value, the bytes handed
  to the socket and the connector; running out of results stands for a send that blocks.
\<close>

fun SendFinal_loop :: "int list \<Rightarrow> string \<Rightarrow> connector \<Rightarrow> (int \<times> string \<times> connector) result" where
  "SendFinal_loop rs out c =
     (if bytes_count c < 4
      then (case rs of
              [] \<Rightarrow> Inl Blocked
            | r # rs' \<Rightarrow>
                let this_send = uwrap32 r in
                if this_send < 0 then Inr (- 1, out, c)
                else SendFinal_loop rs'
                  (out @ take (nat r) (drop (nat (bytes_count c)) (le_bytes 4 (message_size c))))
                  (c\<lparr>bytes_count := uwrap32 (bytes_count c + this_send)\<rparr>))
      else Inr (0, out, c))"

definition SendFinal :: "int list \<Rightarrow> connector \<Rightarrow> (int \<times> string \<times> connector) result" where
  "SendFinal rs c = SendFinal_loop rs [] (c\<lparr>message_size := 0, bytes_count := 0\<rparr>)"

text \<open>
  The second half of Send, for a message that is there. The length argument
  message_.size() - bytes_count_ is computed in size_t: with bytes_count_ beyond the message it is
  huge, and send reads outside of the string.
\<close>

definition Send_message :: "(string \<Rightarrow> int) \<Rightarrow> connector \<Rightarrow> (int \<times> string \<times> connector) result" where
  "Send_message os_send c =
     (if bytes_count c > int (length (message c)) then Inl OutOfBounds
      else
        let data = drop (nat (bytes_count c)) (message c);
            this_send = uwrap32 (os_send data);
            sent = take (nat (os_send data)) data
        in if this_send < 0 then Inr (- 1, sent, c)
           else
             let c' = c\<lparr>bytes_count := uwrap32 (bytes_count c + this_send)\<rparr>
             in Inr (1, sent, if bytes_count c' = int (length (message c')) then Clear c' else c'))"

definition Connector_Send :: "(string \<Rightarrow> int) \<Rightarrow> int list \<Rightarrow> connector \<Rightarrow> squeue \<Rightarrow>
    (int \<times> string \<times> connector \<times> squeue) result" where
  "Connector_Send os_send final_sends c q =
     (if message c = []
      then (case sq_Remove q (message c) False of
              (Wait, m, q') \<Rightarrow> Inl Blocked
            | (Return r, m, q') \<Rightarrow>
                let c' = c\<lparr>message := m, message_size := uwrap32 r\<rparr> in
                if m = []
                then (if EmptyAndNoMoreAdd q'
                      then rbind (SendFinal final_sends c') (\<lambda>(v, out, c''). Inr (v, out, c'', q'))
                      else Inr (1, [], c', q'))
                else rbind (Send_message os_send c') (\<lambda>(v, out, c''). Inr (v, out, c'', q')))
      else rbind (Send_message os_send c) (\<lambda>(v, out, c''). Inr (v, out, c'', q)))"

section \<open>Receiving\<close>

text \<open>
  One round of the loop of Receive: append what belongs to the length prefix or to the message, and
  hand a complete message over. All arithmetic of the length is in size_t. The result is Inl of the
  value that Receive returns, or Inr to go on at the new pointer.
\<close>

datatype 's round = Returned int 's | Continue int 's

definition Receive_len :: "connector \<Rightarrow> int \<Rightarrow> int" where
  "Receive_len c rest =
     (if bytes_count c < 4 then min (4 - bytes_count c) rest
      else min ((4 + message_size c - bytes_count c) mod 2 ^ 32) rest)"

definition Receive_append :: "connector \<Rightarrow> string \<Rightarrow> connector" where
  "Receive_append c bytes =
     (if bytes_count c < 4
      then c\<lparr>message_size := le_value (blit (le_bytes 4 (message_size c)) (nat (bytes_count c)) bytes)\<rparr>
      else c\<lparr>message := message c @ bytes\<rparr>)"

definition Receive_round :: "int \<Rightarrow> int \<Rightarrow> connector \<times> squeue \<Rightarrow> (connector \<times> squeue) round result" where
  "Receive_round this_receive pointer s =
     (case s of (c, q) \<Rightarrow>
        let len = uwrap32 (Receive_len c (this_receive - pointer));
            c1 = Receive_append c (take (nat len) (drop (nat pointer) (message_buf c)));
            c2 = c1\<lparr>bytes_count := uwrap32 (bytes_count c1 + len)\<rparr>;
            pointer' = pointer + len
        in if pointer' > int (length (message_buf c)) then Inl OutOfBounds
           else if bytes_count c2 \<ge> 4 \<and> int (length (message c2)) = message_size c2
             then (if message_size c2 = 0 then Inr (Returned 0 (c2, q))
                   else (case sq_Add_string q (message c2) True of
                           (Wait, q') \<Rightarrow> Inl Blocked
                         | (Return r, q') \<Rightarrow>
                             if r < 0 then Inr (Returned (- 1) (c2, q'))
                             else Inr (Continue pointer' (Clear c2, q'))))
             else if len = 0 then Inl Diverge
             else Inr (Continue pointer' (c2, q)))"

text \<open>
  The loop. A round that consumes nothing and completes nothing would be repeated for ever; a round
  that consumes nothing but completes a message is followed by one that consumes something.
\<close>

function Receive_loop :: "int \<Rightarrow> int \<Rightarrow> connector \<times> squeue \<Rightarrow> (int \<times> connector \<times> squeue) result" where
  "Receive_loop this_receive pointer s =
     (if pointer < this_receive
      then (case Receive_round this_receive pointer s of
              Inl e \<Rightarrow> Inl e
            | Inr (Returned v s') \<Rightarrow> Inr (v, s')
            | Inr (Continue pointer' s') \<Rightarrow> Receive_loop this_receive pointer' s')
      else Inr (1, s))"
  by pat_completeness auto

lemma Receive_round_progress:
  assumes "pointer < this_receive" "Receive_round this_receive pointer (c, q) = Inr (Continue pointer' (c', q'))"
  shows "pointer < pointer' \<or> (pointer = pointer' \<and> bytes_count c \<noteq> 0 \<and> bytes_count c' = 0)"
proof -
  let ?len = "uwrap32 (Receive_len c (this_receive - pointer))"
  have p: "pointer' = pointer + ?len" "?len = 0 \<longrightarrow> bytes_count c' = 0"
    using assms(2) by (auto simp: Receive_round_def Let_def Clear_def split: if_splits wait.splits prod.splits)
  have "?len \<noteq> 0" if "bytes_count c = 0"
    using assms(1) that by (auto simp: Receive_len_def uwrap32_def min_def)
  with p uwrap32_bounds [of "Receive_len c (this_receive - pointer)"] show ?thesis by linarith
qed

termination Receive_loop
proof (relation "measures [\<lambda>(t, p, s). nat (t - p), \<lambda>(t, p, s). if bytes_count (fst s) = 0 then 0 else 1]")
  fix t p :: int and s :: "connector \<times> squeue" and r p' s'
  assume a: "p < t" "Receive_round t p s = Inr r" "r = Continue p' s'"
  obtain c q c' q' where s: "s = (c, q)" "s' = (c', q')" by (cases s, cases s')
  show "((t, p', s'), (t, p, s)) \<in> measures [\<lambda>(t, p, s). nat (t - p),
      \<lambda>(t, p, s). if bytes_count (fst s) = 0 then 0 else 1]"
    using Receive_round_progress [of p t c q p' c' q'] a s by auto
qed simp

declare Receive_loop.simps [simp del]

text \<open>recv yields None for an error (its result -1 becomes 2^32 - 1), or the bytes it has written.\<close>

definition Connector_Receive :: "string option \<Rightarrow> connector \<Rightarrow> squeue \<Rightarrow> (int \<times> connector \<times> squeue) result" where
  "Connector_Receive recv c q =
     (if bytes_count c \<ge> 4 \<and> message_size c = 0 then Inr (0, c, q)
      else
        let c' = (case recv of None \<Rightarrow> c | Some data \<Rightarrow> c\<lparr>message_buf := blit (message_buf c) 0 data\<rparr>);
            this_receive = (case recv of None \<Rightarrow> uwrap32 (- 1) | Some data \<Rightarrow> int (length data))
        in if this_receive < 0 then Inr (- 1, c', q)
           else if this_receive > 0 then Receive_loop this_receive 0 (c', q)
           else Inr (1, c', q))"

section \<open>Receiving a stream of messages\<close>

text \<open>The encoding that Receive expects: the length in four bytes and the message.\<close>

definition frame :: "string \<Rightarrow> string" where
  "frame m = le_bytes 4 (int (length m)) @ m"

text \<open>The connector has received \<open>pend\<close> of a message that is not complete.\<close>

definition receiving :: "string \<Rightarrow> connector \<Rightarrow> bool" where
  "receiving pend c \<longleftrightarrow> length (message_buf c) = 4096 \<and> bytes_count c = int (length pend)
     \<and> (if length pend < 4
         then message c = [] \<and> take (length pend) (le_bytes 4 (message_size c)) = pend
         else message_size c = le_value (take 4 pend) \<and> message c = drop 4 pend
           \<and> int (length pend) < 4 + message_size c)"

definition receiver_inv :: "string \<Rightarrow> string list \<Rightarrow> connector \<Rightarrow> squeue \<Rightarrow> bool" where
  "receiver_inv pend ms c q \<longleftrightarrow> receiving pend c \<and> sq_inv q \<and> \<not> no_more_add q
     \<and> (\<forall>m \<in> set ms. storable_message m)
     \<and> used_size q + (\<Sum>m\<leftarrow>ms. int (length m)) \<le> queue_size q"

lemma receiving_cleared: "length (message_buf c) = 4096 \<Longrightarrow> receiving [] (Clear c)"
  by (simp add: receiving_def Clear_def)

lemma receiving_buf:
  "receiving pend c \<Longrightarrow> length b = 4096 \<Longrightarrow> receiving pend (c\<lparr>message_buf := b\<rparr>)"
  by (cases "length pend < 4") (simp_all add: receiving_def)

lemma take_blit_le: "length bs = n \<Longrightarrow> length ys = k \<Longrightarrow> k + length xs \<le> n \<Longrightarrow> take k bs = ys \<Longrightarrow>
    take (k + length xs) (blit bs k xs) = ys @ xs"
  by (auto simp: blit_def)

text \<open>The split of a stream at the end of the first message.\<close>

lemma frame_split:
  assumes "pend @ xs @ rest = frame m @ tail" "length pend + length ys \<le> length (frame m)" "xs = ys @ zs"
  shows "pend @ ys = take (length pend + length ys) (frame m)"
proof -
  have "take (length pend + length ys) (pend @ xs @ rest) = take (length pend + length ys) (frame m)"
    using assms(1,2) by simp
  then show ?thesis using assms(3) by simp
qed

lemma sq_Add_room:
  assumes "sq_inv q" "\<not> no_more_add q" "storable_message m" "used_size q + int (length m) \<le> queue_size q"
  shows "\<exists>q'. sq_Add_string q m True = (Return (int (length m)), q') \<and> sq_inv q' \<and> \<not> no_more_add q'
    \<and> sq_messages q' = sq_messages q @ [m] \<and> used_size q' = used_size q + int (length m)
    \<and> queue_size q' = queue_size q"
proof -
  have "int (length m) \<le> free_size q" "free_size q \<le> queue_size q"
    using assms sq_inv_bounds [OF assms(1)] by (auto simp: sq_inv_def)
  moreover have m: "0 < int (length m)" using assms(3) by (simp add: storable_message_def)
  ultimately have a: "sq_Add q m (int (length m)) True = (Return (int (length m)), sq_write q m (int (length m)))"
    using assms(2) by (simp add: sq_Add_def sq_Add_loop_def)
  note st = sq_Add_stored [OF assms(1) a m]
  have "free_size (sq_write q m (int (length m))) = free_size q - int (length m)"
    by (simp add: sq_write_def Let_def)
  then have "used_size (sq_write q m (int (length m))) = used_size q + int (length m)"
    using st(1) assms(1) sq_Add_fields [OF a] by (simp add: sq_inv_def)
  then show ?thesis
    using st sq_Add_fields [OF a] a assms(2,3)
    by (intro exI [of _ "sq_write q m (int (length m))"]) (simp add: sq_Add_string_storable)
qed

lemma frame_prefix: "k \<le> 4 \<Longrightarrow> take k (frame m) = take k (le_bytes 4 (int (length m)))"
  by (simp add: frame_def)

lemma storable_size: "storable_message m \<Longrightarrow> le_value (le_bytes 4 (int (length m))) = int (length m)"
  by (simp only: le_value_bytes) (simp add: storable_message_def)

text \<open>A connector in the middle of a frame knows its length once four bytes are there.\<close>

lemma receiving_frame:
  assumes "receiving pend c" "pend @ xs = frame m @ tail" "storable_message m"
  shows "length pend < length (frame m)"
    "4 \<le> length pend \<Longrightarrow> message_size c = int (length m) \<and> message c = take (length pend - 4) m"
proof -
  have sz: "message_size c = int (length m)" "message c = drop 4 pend" if "4 \<le> length pend"
  proof -
    have "take 4 (pend @ xs) = take 4 (frame m @ tail)" using assms(2) by simp
    then have "take 4 pend = le_bytes 4 (int (length m))" using that by (simp add: frame_def)
    then show "message_size c = int (length m)" "message c = drop 4 pend"
      using assms(1) that storable_size [OF assms(3)] by (auto simp: receiving_def)
  qed
  show l: "length pend < length (frame m)"
    using assms(1) sz by (cases "4 \<le> length pend") (auto simp: receiving_def frame_def)
  have "take (length pend) (pend @ xs) = take (length pend) (frame m @ tail)" using assms(2) by simp
  then have "pend = take (length pend) (frame m)" using l by simp
  then have "drop 4 pend = take (length pend - 4) m" if "4 \<le> length pend"
    using that by (metis frame_def drop_take length_le_bytes append_eq_conv_conj)
  then show "4 \<le> length pend \<Longrightarrow> message_size c = int (length m) \<and> message c = take (length pend - 4) m"
    using sz by simp
qed

text \<open>What a round consumes and the connector it leaves before the test for completeness.\<close>

lemma Receive_append_prefix:
  assumes "receiving pend c" "pend @ ys @ zs = frame m @ tail" "storable_message m"
    "length ys \<le> (if length pend < 4 then 4 - length pend else 4 + length m - length pend)" "ys \<noteq> []"
    "c2 = (Receive_append c ys)\<lparr>bytes_count := int (length pend + length ys)\<rparr>"
  shows "if length (pend @ ys) = length (frame m)
     then message c2 = m \<and> message_size c2 = int (length m) else receiving (pend @ ys) c2"
proof (cases "length pend < 4")
  case True
  let ?b = "blit (le_bytes 4 (message_size c)) (length pend) ys"
  have b: "length ?b = 4" "take (length pend + length ys) ?b = pend @ ys"
    using assms(1,4) True take_blit_le [of "le_bytes 4 (message_size c)" 4 pend "length pend" ys]
    by (auto simp: receiving_def)
  have c2: "message_size c2 = le_value ?b" "message c2 = []" "message_buf c2 = message_buf c"
      "bytes_count c2 = int (length (pend @ ys))"
    using True assms(1,6) by (auto simp: receiving_def Receive_append_def)
  have m: "m \<noteq> []" using assms(3) by (simp add: storable_message_def)
  have le: "le_bytes 4 (message_size c2) = ?b" using b(1) c2(1) by (simp add: le_bytes_value)
  have four: "message_size c2 = int (length m)" "take 4 (pend @ ys) = ?b" if "length (pend @ ys) = 4"
  proof -
    show t: "take 4 (pend @ ys) = ?b" using b that by simp
    have "take 4 (pend @ ys @ zs) = take 4 (frame m @ tail)" using assms(2) by simp
    then have "take 4 (pend @ ys) = le_bytes 4 (int (length m))" using that by (simp add: frame_def)
    then show "message_size c2 = int (length m)" using t c2(1) storable_size [OF assms(3)] by simp
  qed
  have "length (pend @ ys) \<le> 4" using assms(4) True by auto
  then have "receiving (pend @ ys) c2"
    using assms(1) b c2 le four m True
    by (cases "length (pend @ ys) = 4") (auto simp: receiving_def)
  moreover have "length (pend @ ys) \<noteq> length (frame m)"
    using \<open>length (pend @ ys) \<le> 4\<close> m by (cases m) (simp_all add: frame_def)
  ultimately show ?thesis by simp
next
  case False
  then have k: "message_size c = int (length m)" "message c = take (length pend - 4) m"
      "length pend < length (frame m)"
    using receiving_frame [OF assms(1), of "ys @ zs" m tail] assms(2,3) by auto
  have "length (pend @ ys) \<le> length (frame m)" using assms(4) False k(3) by (auto simp: frame_def)
  then have eq: "pend @ ys = take (length (pend @ ys)) (frame m)"
    using arg_cong [OF assms(2), of "take (length (pend @ ys))"] by simp
  then have dr: "drop 4 (pend @ ys) = take (length (pend @ ys) - 4) m"
    by (metis frame_def drop_take length_le_bytes append_eq_conv_conj)
  have c2: "message_size c2 = int (length m)" "message c2 = drop 4 (pend @ ys)"
      "message_buf c2 = message_buf c" "bytes_count c2 = int (length (pend @ ys))"
    using False assms(1,6) k(1) by (auto simp: receiving_def Receive_append_def)
  show ?thesis
  proof (cases "length (pend @ ys) = length (frame m)")
    case True
    then show ?thesis using c2 dr by (simp add: frame_def)
  next
    case F2: False
    have t4: "take 4 (pend @ ys) = take 4 pend" using False by simp
    show ?thesis
      using c2 F2 False assms(1) k(1) t4 \<open>length (pend @ ys) \<le> length (frame m)\<close>
      by (auto simp: receiving_def frame_def)
  qed
qed

text \<open>One round of the loop on a stream of frames.\<close>

lemma Receive_round_frames:
  fixes c :: connector
  defines "buf \<equiv> message_buf c"
  assumes inv: "receiver_inv pend ms c q" and pt: "p < t" "t \<le> 4096" "0 \<le> p"
    and eq: "pend @ take (nat (t - p)) (drop (nat p) buf) @ rest = concat (map frame ms)"
  shows "\<exists>p' c' q' pend' ms'. Receive_round t p (c, q) = Inr (Continue p' (c', q'))
    \<and> p < p' \<and> p' \<le> t \<and> message_buf c' = buf \<and> receiver_inv pend' ms' c' q'
    \<and> sq_messages q' @ ms' = sq_messages q @ ms
    \<and> pend' @ take (nat (t - p')) (drop (nat p') buf) @ rest = concat (map frame ms')"
proof -
  define xs where "xs = take (nat (t - p)) (drop (nat p) buf)"
  have len: "length buf = 4096" "receiving pend c" "bytes_count c = int (length pend)"
    using inv by (auto simp: receiver_inv_def receiving_def buf_def)
  then have xsl: "length xs = nat (t - p)" "xs \<noteq> []" using pt by (auto simp: xs_def)
  then obtain m ms' where ms: "ms = m # ms'" using eq by (cases ms) (auto simp: xs_def)
  have m: "storable_message m" using inv ms by (simp add: receiver_inv_def)
  then have m31: "0 < length m" "int (length m) < 2 ^ 31"
    by (auto simp: storable_message_def)
  define tail where "tail = concat (map frame ms')"
  have eq': "pend @ xs @ rest = frame m @ tail" using eq by (simp add: xs_def ms tail_def)
  note fr = receiving_frame [OF len(2) eq' m]
  have pf: "length pend < 4 + length m" using fr(1) by (simp add: frame_def)
  define k where "k = min (if length pend < 4 then 4 - length pend else 4 + length m - length pend) (length xs)"
  have kpos: "0 < k" "k \<le> length xs" using xsl pf pt by (auto simp: k_def)
  have rl: "Receive_len c (t - p) = int k"
    using fr(2) pf xsl len(3) m31 pt by (auto simp: Receive_len_def k_def min_def)
  have kw: "uwrap32 (int k) = int k" using kpos xsl pt by (auto simp: uwrap32_def)
  define ys where "ys = take k xs"
  have ys: "length ys = k" "ys \<noteq> []" "xs = ys @ drop k xs" using kpos by (auto simp: ys_def)
  have ysb: "ys = take k (drop (nat p) buf)"
    using kpos xsl(1) unfolding ys_def xs_def take_take by (simp add: min_absorb1)
  define c2 where "c2 = (Receive_append c ys)\<lparr>bytes_count := int (length pend + length ys)\<rparr>"
  have app: "if length (pend @ ys) = length (frame m)
     then message c2 = m \<and> message_size c2 = int (length m) else receiving (pend @ ys) c2"
  proof (rule Receive_append_prefix [OF len(2) _ m _ _ c2_def])
    show "pend @ ys @ (drop k xs @ rest) = frame m @ tail"
      using eq' ys(3) by (metis append.assoc)
    show "length ys \<le> (if length pend < 4 then 4 - length pend else 4 + length m - length pend)"
      by (simp add: ys(1) k_def)
  qed (fact ys(2))
  have bw: "uwrap32 (bytes_count c + int k) = int (length pend + length ys)"
    using len(3) pf m31 ys(1) k_def by (auto simp: uwrap32_def min_def split: if_splits)
  have buf2: "message_buf c2 = buf" by (simp add: c2_def Receive_append_def buf_def)
  have bc1: "bytes_count (Receive_append c bs) = bytes_count c" for bs by (simp add: Receive_append_def)
  have p': "p + int k \<le> t" "p < p + int k" using kpos xsl pt by auto
  have rest: "take (nat (t - (p + int k))) (drop (nat (p + int k)) buf) = drop k xs"
  proof -
    have "nat (t - (p + int k)) = nat (t - p) - k" "nat (p + int k) = k + nat p" using pt by linarith+
    then show ?thesis by (simp add: xs_def drop_take)
  qed
  have round: "Receive_round t p (c, q) =
     (if int (length pend + length ys) \<ge> 4 \<and> int (length (message c2)) = message_size c2
      then if message_size c2 = 0 then Inr (Returned 0 (c2, q))
        else (case sq_Add_string q (message c2) True of
                           (Wait, q') \<Rightarrow> Inl Blocked
                         | (Return r, q') \<Rightarrow>
                             if r < 0 then Inr (Returned (- 1) (c2, q'))
                             else Inr (Continue (p + int k) (Clear c2, q')))
      else Inr (Continue (p + int k) (c2, q)))"
  proof -
    have u: "uwrap32 (Receive_len c (t - p)) = int k" by (simp only: rl kw)
    have ty: "take (nat (int k)) (drop (nat p) (message_buf c)) = ys" using ysb by (simp add: buf_def)
    have c2': "(Receive_append c ys)\<lparr>bytes_count := uwrap32 (bytes_count (Receive_append c ys) + int k)\<rparr> = c2"
      by (simp only: bc1 bw c2_def)
    have bc2: "bytes_count c2 = int (length pend + length ys)" by (simp add: c2_def)
    have n: "\<not> p + int k > int (length (message_buf c))" "int k \<noteq> 0"
      using p' pt len(1) kpos by (auto simp: buf_def)
    show ?thesis
      unfolding Receive_round_def Let_def prod.case u ty c2' bc2 by (simp only: n if_False)
  qed
  show ?thesis
  proof (cases "length (pend @ ys) = length (frame m)")
    case True
    then have c2: "message c2 = m" "message_size c2 = int (length m)" using app by auto
    have "0 \<le> (\<Sum>m\<leftarrow>ms'. int (length m))" by (intro sum_list_nonneg) auto
    then have "used_size q + int (length m) \<le> queue_size q"
      using inv ms by (simp add: receiver_inv_def)
    then obtain q' where q': "sq_Add_string q m True = (Return (int (length m)), q')" "sq_inv q'"
        "\<not> no_more_add q'" "sq_messages q' = sq_messages q @ [m]"
        "used_size q' = used_size q + int (length m)" "queue_size q' = queue_size q"
      using sq_Add_room [of q m] inv m by (auto simp: receiver_inv_def)
    have "Receive_round t p (c, q) = Inr (Continue (p + int k) (Clear c2, q'))"
      using True c2 m31(1) by (auto simp: round q' frame_def)
    moreover have "receiver_inv [] ms' (Clear c2) q'"
      using inv q' ms buf2 len(1) by (simp add: receiver_inv_def receiving_cleared)
    moreover have "drop k xs @ rest = tail"
    proof -
      have "(pend @ ys) @ drop k xs @ rest = frame m @ tail" using eq' ys(3) by (metis append.assoc)
      with True show ?thesis by (metis append_eq_append_conv)
    qed
    ultimately show ?thesis
      using p' rest q'(4) ms buf2
      by (intro exI [of _ "p + int k"] exI [of _ "Clear c2"] exI [of _ q'] exI [of _ "[]"] exI [of _ ms'])
        (simp add: tail_def Clear_def)
  next
    case False
    then have r2: "receiving (pend @ ys) c2" using app by simp
    then have "\<not> (int (length pend + length ys) \<ge> 4 \<and> int (length (message c2)) = message_size c2)"
      by (auto simp: receiving_def)
    then have "Receive_round t p (c, q) = Inr (Continue (p + int k) (c2, q))" by (simp only: round if_False)
    moreover have "receiver_inv (pend @ ys) ms c2 q" using inv r2 by (simp add: receiver_inv_def)
    moreover have "(pend @ ys) @ drop k xs @ rest = concat (map frame ms)"
      using eq' ys(3) unfolding ms tail_def list.map concat.simps by (metis append.assoc)
    ultimately show ?thesis
      using p' rest buf2
      by (intro exI [of _ "p + int k"] exI [of _ c2] exI [of _ q] exI [of _ "pend @ ys"] exI [of _ ms]) simp
  qed
qed

lemma Receive_loop_frames:
  assumes "receiver_inv pend ms c q" "p \<le> t" "t \<le> 4096" "0 \<le> p"
    "pend @ take (nat (t - p)) (drop (nat p) (message_buf c)) @ rest = concat (map frame ms)"
  shows "\<exists>c' q' pend' ms'. Receive_loop t p (c, q) = Inr (1, c', q') \<and> receiver_inv pend' ms' c' q'
    \<and> sq_messages q' @ ms' = sq_messages q @ ms \<and> pend' @ rest = concat (map frame ms')"
  using assms
proof (induction "nat (t - p)" arbitrary: pend ms c q p rule: less_induct)
  case less
  show ?case
  proof (cases "p < t")
    case False
    then have "Receive_loop t p (c, q) = Inr (1, c, q)" by (simp add: Receive_loop.simps)
    then show ?thesis using less.prems False by fastforce
  next
    case True
    obtain p' c' q' pend' ms' where r: "Receive_round t p (c, q) = Inr (Continue p' (c', q'))"
      "p < p'" "p' \<le> t" "message_buf c' = message_buf c" "receiver_inv pend' ms' c' q'"
      "sq_messages q' @ ms' = sq_messages q @ ms"
      "pend' @ take (nat (t - p')) (drop (nat p') (message_buf c)) @ rest = concat (map frame ms')"
      using Receive_round_frames [OF less.prems(1) True less.prems(3,4,5)] by metis
    have "Receive_loop t p (c, q) = Receive_loop t p' (c', q')"
      using True r(1) by (subst Receive_loop.simps) simp
    moreover have "nat (t - p') < nat (t - p)" "0 \<le> p'" using r(2,3) less.prems(4) by auto
    ultimately show ?thesis
      using less.hyps [of p' pend' ms' c' q'] r less.prems(3) by auto
  qed
qed

text \<open>Calls of Receive for the chunks that recv delivers, until one does not return 1.\<close>

fun Receive_all :: "string list \<Rightarrow> connector \<Rightarrow> squeue \<Rightarrow> (int \<times> connector \<times> squeue) result" where
  "Receive_all [] c q = Inr (1, c, q)"
| "Receive_all (x # xs) c q =
     rbind (Connector_Receive (Some x) c q)
       (\<lambda>(r, c', q'). if r = 1 then Receive_all xs c' q' else Inr (r, c', q'))"

lemma Receive_frames:
  assumes "receiver_inv pend ms c q" "length data \<le> 4096"
    "pend @ data @ rest = concat (map frame ms)"
  shows "\<exists>c' q' pend' ms'. Connector_Receive (Some data) c q = Inr (1, c', q') \<and> receiver_inv pend' ms' c' q'
    \<and> sq_messages q' @ ms' = sq_messages q @ ms \<and> pend' @ rest = concat (map frame ms')"
proof -
  have l: "receiving pend c" "length (message_buf c) = 4096"
    using assms(1) by (simp add: receiver_inv_def) (use assms(1) in \<open>simp add: receiver_inv_def receiving_def\<close>)
  define c1 where "c1 = c\<lparr>message_buf := blit (message_buf c) 0 data\<rparr>"
  have inv1: "receiver_inv pend ms c1 q"
    using assms(1,2) l by (simp add: receiver_inv_def receiving_buf c1_def)
  have buf1: "take (nat (int (length data) - 0)) (drop (nat 0) (message_buf c1)) = data"
    by (simp add: c1_def blit_def)
  have nf: "\<not> (bytes_count c \<ge> 4 \<and> message_size c = 0)"
    using l(1) by (auto simp: receiving_def)
  show ?thesis
  proof (cases "data = []")
    case True
    then have "Connector_Receive (Some data) c q = Inr (1, c, q)"
      using nf by (simp add: Connector_Receive_def)
    then show ?thesis using assms True by fastforce
  next
    case False
    then have "Connector_Receive (Some data) c q = Receive_loop (int (length data)) 0 (c1, q)"
      using nf by (auto simp: Connector_Receive_def c1_def)
    then show ?thesis
      using Receive_loop_frames [OF inv1, of 0 "int (length data)" rest] assms(2,3) buf1 by simp
  qed
qed

lemma Receive_all_frames:
  assumes "receiver_inv pend ms c q" "\<forall>x \<in> set chunks. length x \<le> 4096"
    "pend @ concat chunks = concat (map frame ms)"
  shows "\<exists>c' q'. Receive_all chunks c q = Inr (1, c', q') \<and> receiver_inv [] [] c' q'
    \<and> sq_messages q' = sq_messages q @ ms"
  using assms
proof (induction chunks arbitrary: pend ms c q)
  case Nil
  have "ms = []"
  proof (cases ms)
    case (Cons m ms')
    then have e: "pend @ [] = frame m @ concat (map frame ms')" and m: "storable_message m"
        and r: "receiving pend c"
      using Nil by (auto simp: receiver_inv_def)
    have "length pend < length (frame m)" by (rule receiving_frame(1) [OF r e m])
    then show ?thesis using arg_cong [OF e, of length] by simp
  qed
  then show ?case using Nil by auto
next
  case (Cons x chunks)
  obtain c' q' pend' ms' where r: "Connector_Receive (Some x) c q = Inr (1, c', q')"
      "receiver_inv pend' ms' c' q'" "sq_messages q' @ ms' = sq_messages q @ ms"
      "pend' @ concat chunks = concat (map frame ms')"
    using Receive_frames [OF Cons.prems(1), of x "concat chunks"] Cons.prems(2,3) by auto
  then show ?case using Cons.IH [OF r(2)] Cons.prems(2) by auto
qed

section \<open>Sending\<close>

lemma Send_message_return: "Send_message os_send c = Inr (r, out, c') \<Longrightarrow> r = 1"
  by (auto simp: Send_message_def Let_def split: if_splits)

lemma SendFinal_loop_return: "SendFinal_loop rs out c = Inr (r, out', c') \<Longrightarrow> r = 0"
proof (induction rs out c rule: SendFinal_loop.induct)
  case (1 rs out c)
  show ?case
  proof (cases "bytes_count c < 4")
    case True
    then obtain x xs where rs: "rs = x # xs" using "1.prems" by (cases rs) auto
    show ?thesis
      using "1.IH" [OF True rs refl] "1.prems" True rs by (simp add: Let_def)
  qed (use "1.prems" in simp)
qed

declare SendFinal_loop.simps [simp del]

text \<open>Calls of Send, each with the number of bytes the socket takes, until one does not return 1.\<close>

fun Send_all :: "nat list \<Rightarrow> connector \<Rightarrow> squeue \<Rightarrow> (string \<times> connector \<times> squeue) result" where
  "Send_all [] c q = Inr ([], c, q)"
| "Send_all (n # ns) c q =
     rbind (Connector_Send (\<lambda>data. int (min n (length data))) [] c q)
       (\<lambda>(r, out, c', q'). if r = 1
          then rbind (Send_all ns c' q') (\<lambda>(out', c'', q''). Inr (out @ out', c'', q''))
          else Inr (out, c', q'))"

text \<open>The connector has sent the first part of a message and owes the rest.\<close>

definition sending :: "string \<Rightarrow> connector \<Rightarrow> bool" where
  "sending todo c \<longleftrightarrow> 0 \<le> bytes_count c \<and> bytes_count c \<le> int (length (message c))
     \<and> int (length (message c)) < 2 ^ 31 \<and> drop (nat (bytes_count c)) (message c) = todo
     \<and> (message c \<noteq> [] \<longrightarrow> todo \<noteq> []) \<and> (message c = [] \<longrightarrow> bytes_count c = 0)"

lemma Send_message_step:
  assumes "sending todo c" "todo \<noteq> []"
  shows "\<exists>c'. Send_message (\<lambda>data. int (min n (length data))) c = Inr (1, take n todo, c')
    \<and> sending (drop n todo) c'"
proof -
  have len: "length todo = length (message c) - nat (bytes_count c)"
    and td: "drop (nat (bytes_count c)) (message c) = todo"
    and b: "0 \<le> bytes_count c" "bytes_count c \<le> int (length (message c))" "int (length (message c)) < 2 ^ 31"
    using assms(1) by (auto simp: sending_def)
  let ?k = "min n (length todo)"
  have w: "uwrap32 (int ?k) = int ?k" "uwrap32 (bytes_count c + int ?k) = bytes_count c + int ?k"
    using len b by (auto simp: uwrap32_def)
  define c1 where "c1 = c\<lparr>bytes_count := bytes_count c + int ?k\<rparr>"
  define c' where "c' = (if bytes_count c1 = int (length (message c1)) then Clear c1 else c1)"
  have "take ?k todo = take n todo" by (simp add: min_def)
  then have s: "Send_message (\<lambda>data. int (min n (length data))) c = Inr (1, take n todo, c')"
    using b td w by (simp add: Send_message_def Let_def c1_def c'_def Clear_def)
  have d: "drop (nat (bytes_count c + int ?k)) (message c) = drop n todo"
  proof -
    have "nat (bytes_count c + int ?k) = ?k + nat (bytes_count c)" using b(1) by linarith
    then have "drop (nat (bytes_count c + int ?k)) (message c) = drop ?k todo"
      using td by (simp flip: drop_drop)
    then show ?thesis by (simp add: min_def)
  qed
  have "sending (drop n todo) c'"
  proof (cases "bytes_count c1 = int (length (message c1))")
    case True
    then have "length todo \<le> n" using len b by (auto simp: c1_def min_def split: if_splits)
    then show ?thesis using True by (simp add: c'_def sending_def Clear_def)
  next
    case False
    then have "n < length todo" using len b by (auto simp: c1_def min_def split: if_splits)
    moreover have "drop n todo \<noteq> []" using \<open>n < length todo\<close> by simp
    ultimately show ?thesis using False b d len by (auto simp: c'_def c1_def sending_def min_def)
  qed
  with s show ?thesis by blast
qed

definition unsent :: "connector \<Rightarrow> squeue \<Rightarrow> string" where
  "unsent c q = drop (nat (bytes_count c)) (message c) @ concat (sq_messages q)"

definition sender_inv :: "connector \<Rightarrow> squeue \<Rightarrow> bool" where
  "sender_inv c q \<longleftrightarrow> (\<exists>todo. sending todo c) \<and> sq_inv q \<and> \<not> no_more_add q \<and> queue_size q < 2 ^ 31"

lemma sending_unsent: "sending todo c \<Longrightarrow> unsent c q = todo @ concat (sq_messages q)"
  by (simp add: sending_def unsent_def)

lemma Connector_Send_step:
  assumes "sender_inv c q"
  shows "\<exists>out c' q'. Connector_Send (\<lambda>data. int (min n (length data))) [] c q = Inr (1, out, c', q')
    \<and> sender_inv c' q' \<and> out @ unsent c' q' = unsent c q"
proof -
  obtain todo where s: "sending todo c" and q: "sq_inv q" "\<not> no_more_add q" "queue_size q < 2 ^ 31"
    using assms by (auto simp: sender_inv_def)
  show ?thesis
  proof (cases "message c = []")
    case False
    then have "todo \<noteq> []" using s by (simp add: sending_def)
    then obtain c' where c': "Send_message (\<lambda>data. int (min n (length data))) c = Inr (1, take n todo, c')"
        "sending (drop n todo) c'"
      using Send_message_step [OF s] by blast
    then have "Connector_Send (\<lambda>data. int (min n (length data))) [] c q = Inr (1, take n todo, c', q)"
      using False by (simp add: Connector_Send_def)
    moreover have "sender_inv c' q" using c' q by (auto simp: sender_inv_def)
    ultimately show ?thesis using sending_unsent [OF s] sending_unsent [OF c'(2)] by auto
  next
    case True
    then have b: "bytes_count c = 0" "todo = []" using s by (auto simp: sending_def)
    show ?thesis
    proof (rule sq_Remove_cases [OF q(1), of "[]" False], goal_cases)
      case 1
      define c1 where "c1 = c\<lparr>message := [], message_size := uwrap32 0\<rparr>"
      have "Connector_Send (\<lambda>data. int (min n (length data))) [] c q = Inr (1, [], c1, q)"
        using 1 True q(2) by (simp add: Connector_Send_def sq_Remove_empty_def Let_def EmptyAndNoMoreAdd_def c1_def)
      moreover have "sending [] c1" using b by (simp add: c1_def sending_def)
      ultimately show ?case
        using q sending_unsent [OF s] sending_unsent [of "[]" c1 q] b by (auto simp: sender_inv_def)
    next
      case (2 m q')
      have k: "queue_size q' = queue_size q" "\<not> no_more_add q'" using sq_Remove_fields [OF 2(2)] q(2) by auto
      have "int (length m) \<le> queue_size q"
        using 2(1) message_weight_bound [OF q(1), of m] by simp
      then have m: "int (length m) < 2 ^ 31" using q(3) by simp
      define c1 where "c1 = c\<lparr>message := m, message_size := uwrap32 (int (length m))\<rparr>"
      have s1: "sending m c1" using b m 2(4) by (simp add: sending_def c1_def)
      obtain c' where c': "Send_message (\<lambda>data. int (min n (length data))) c1 = Inr (1, take n m, c')"
          "sending (drop n m) c'"
        using Send_message_step [OF s1 2(4)] by blast
      then have "Connector_Send (\<lambda>data. int (min n (length data))) [] c q = Inr (1, take n m, c', q')"
        using True 2 by (simp add: Connector_Send_def Let_def c1_def)
      moreover have "sender_inv c' q'" using c'(2) 2(3) k q(3) by (auto simp: sender_inv_def)
      ultimately show ?case
        using sending_unsent [OF s] sending_unsent [OF c'(2)] b 2(1) by auto
    qed
  qed
qed

lemma Send_all_stream:
  assumes "sender_inv c q"
  shows "\<exists>out c' q'. Send_all ns c q = Inr (out, c', q') \<and> out @ unsent c' q' = unsent c q"
  using assms
proof (induction ns arbitrary: c q)
  case (Cons n ns)
  obtain out c' q' where s: "Connector_Send (\<lambda>data. int (min n (length data))) [] c q = Inr (1, out, c', q')"
      "sender_inv c' q'" "out @ unsent c' q' = unsent c q"
    using Connector_Send_step [OF Cons.prems] by blast
  then show ?case using Cons.IH [OF s(2)] by fastforce
qed simp

section \<open>Properties\<close>

text \<open>C14: Receive reassembles a stream: whatever the chunks in which recv delivers the length-prefixed
  encodings of a list of messages, a fresh connector stores exactly these messages in order, every
  call returns 1 and the connector ends up between two messages.\<close>

theorem Receive_reassembles:
  assumes "length garbage = 4096" "sq_inv q" "\<not> no_more_add q"
    "\<forall>m \<in> set ms. m \<noteq> [] \<and> length m < 2 ^ 31"
    "used_size q + (\<Sum>m\<leftarrow>ms. int (length m)) \<le> queue_size q"
    "\<forall>x \<in> set chunks. length x \<le> 4096"
    "concat chunks = concat (map frame ms)"
  shows "\<exists>c' q'. Receive_all chunks (Connector garbage) q = Inr (1, c', q')
    \<and> sq_messages q' = sq_messages q @ ms \<and> bytes_count c' = 0"
proof -
  have "receiver_inv [] ms (Connector garbage) q"
    using assms(1-5) by (simp add: receiver_inv_def receiving_def Connector_def storable_message_def)
  then obtain c' q' where "Receive_all chunks (Connector garbage) q = Inr (1, c', q')"
      "receiver_inv [] [] c' q'" "sq_messages q' = sq_messages q @ ms"
    using Receive_all_frames [of "[]" ms "Connector garbage" q chunks] assms(6,7) by auto
  then show ?thesis by (auto simp: receiver_inv_def receiving_def)
qed

lemma Receive_reassembles_witness:
  "\<exists>q c' q'. SignalingQueue 8 1 = Inr q \<and> sq_messages q' = [''a'', ''bc'']
    \<and> Receive_all [[CHR 0x01, CHR 0x00], [CHR 0x00, CHR 0x00, CHR ''a'', CHR 0x02, CHR 0x00],
        [CHR 0x00, CHR 0x00, CHR ''b''], [CHR ''c'']] (Connector (replicate 4096 (CHR 0x00))) q
      = Inr (1, c', q')"
proof -
  let ?q = "\<lparr>queue_buf = replicate (nat 8) (CHR 0x00), queue_size = 8, free_size = 8,
    write_pointer = 0, num_producers = 1, message_positions = [], finished_producers = {}\<rparr>"
  have q: "SignalingQueue 8 1 = Inr ?q" by (simp add: SignalingQueue_def)
  have f: "concat [[CHR 0x01, CHR 0x00], [CHR 0x00, CHR 0x00, CHR ''a'', CHR 0x02, CHR 0x00],
        [CHR 0x00, CHR 0x00, CHR ''b''], [CHR ''c'']] = concat (map frame [''a'', ''bc''])"
    by code_simp
  have "sq_inv ?q" by (rule sq_inv_new [OF q])
  moreover have "\<not> no_more_add ?q" "sq_messages ?q = []" "used_size ?q = 0"
    by (simp_all add: no_more_add_def sq_messages_def used_size_def)
  ultimately have "\<exists>c' q'. Receive_all [[CHR 0x01, CHR 0x00], [CHR 0x00, CHR 0x00, CHR ''a'', CHR 0x02, CHR 0x00],
        [CHR 0x00, CHR 0x00, CHR ''b''], [CHR ''c'']] (Connector (replicate 4096 (CHR 0x00))) ?q
      = Inr (1, c', q') \<and> sq_messages q' = sq_messages ?q @ [''a'', ''bc''] \<and> bytes_count c' = 0"
    by (intro Receive_reassembles f) simp_all
  then show ?thesis using q \<open>sq_messages ?q = []\<close> by (metis append_Nil)
qed

text \<open>what the sockets get from a connector is the plain concatenation of the messages, whatever
  part of the data each call of send takes: no byte is lost, repeated or reordered, and no length
  is sent before a message.\<close>

theorem Send_concatenates:
  assumes "sq_inv q" "\<not> no_more_add q" "queue_size q < 2 ^ 31"
  shows "\<exists>out c' q'. Send_all ns (Connector garbage) q = Inr (out, c', q')
    \<and> out @ unsent c' q' = concat (sq_messages q)"
proof -
  have s: "sending [] (Connector garbage)" by (simp add: sending_def Connector_def)
  then have "sender_inv (Connector garbage) q" using assms by (auto simp: sender_inv_def)
  then show ?thesis using Send_all_stream sending_unsent [OF s] by fastforce
qed

lemma Send_concatenates_witness:
  "\<exists>q out c' q'. sq_messages q = [''ab''] \<and> Send_all [1, 1] (Connector []) q = Inr (out, c', q')
    \<and> out @ unsent c' q' = ''ab''"
proof -
  obtain q where q: "sq_inv q" "\<not> no_more_add q" "queue_size q < 2 ^ 31" "sq_messages q = [''ab'']"
    using queue_example by force
  show ?thesis
    using Send_concatenates [OF q(1-3), of "[1, 1]" "[]"] q(4) by fastforce
qed

text \<open>an error of the socket is never reported: the result of send is stored in a uint32 before it
  is compared with 0. When send fails on a new message, the byte counter becomes 2^32 - 1 and the
  next call reads outside of the message.\<close>

theorem Send_hides_errors:
  assumes "message c \<noteq> []" "length (message c) < 2 ^ 31" "bytes_count c = 0"
  shows "(\<exists>c1. Connector_Send (\<lambda>_. - 1) [] c q = Inr (1, [], c1, q) \<and> bytes_count c1 = 2 ^ 32 - 1
      \<and> Connector_Send os_send final_sends c1 q = Inl OutOfBounds)
    \<and> (\<forall>os_send final_sends c q r out c' q'.
        Connector_Send os_send final_sends c q = Inr (r, out, c', q') \<longrightarrow> r = 1 \<or> r = 0)"
proof (intro conjI allI impI)
  define c1 where "c1 = c\<lparr>bytes_count := 2 ^ 32 - 1\<rparr>"
  have l: "int (length (message c)) < 2 ^ 32 - 1" using assms(2) by simp
  have "Connector_Send (\<lambda>_. - 1) [] c q = Inr (1, [], c1, q)"
    using assms l by (simp add: Connector_Send_def Send_message_def Let_def uwrap32_def c1_def)
  moreover have "Connector_Send os_send final_sends c1 q = Inl OutOfBounds"
    using assms(1) l by (simp add: Connector_Send_def Send_message_def c1_def)
  ultimately show "\<exists>c1. Connector_Send (\<lambda>_. - 1) [] c q = Inr (1, [], c1, q) \<and> bytes_count c1 = 2 ^ 32 - 1
      \<and> Connector_Send os_send final_sends c1 q = Inl OutOfBounds"
    by (intro exI [of _ c1]) (simp add: c1_def)
next
  fix os_send final_sends c q r out c' q'
  assume "Connector_Send os_send final_sends c q = Inr (r, out, c', q')"
  then show "r = 1 \<or> r = 0"
    by (auto simp: Connector_Send_def Let_def SendFinal_def split: if_splits prod.splits wait.splits
      dest: Send_message_return SendFinal_loop_return)
qed

lemma Send_hides_errors_witness:
  "\<exists>q c1. SignalingQueue 4 1 = Inr q \<and>
     Connector_Send (\<lambda>_. - 1) [] ((Connector [])\<lparr>message := ''ab''\<rparr>) q = Inr (1, [], c1, q)"
proof -
  obtain q where "SignalingQueue 4 1 = Inr q" by (simp add: SignalingQueue_def)
  then show ?thesis
    using Send_hides_errors [of "(Connector [])\<lparr>message := ''ab''\<rparr>" q "\<lambda>_. 1" "[]"] by (auto simp: Connector_def)
qed

text \<open>the final message, a length of zero, ends the reception: Receive returns 0 in this call and in
  every later one, whatever the socket delivers, and the queue is left alone.\<close>

theorem Receive_final:
  assumes "length garbage = 4096" "Connector_Receive (Some (le_bytes 4 0)) (Connector garbage) q = r1"
  shows "\<exists>c'. r1 = Inr (0, c', q) \<and> (\<forall>recv q'. Connector_Receive recv c' q' = Inr (0, c', q'))"
proof -
  let ?z = "replicate 4 (CHR 0x00)"
  define c1 where "c1 = \<lparr>message = [], message_buf = blit garbage 0 ?z, message_size = 0, bytes_count = 0\<rparr>"
  define c2 where "c2 = c1\<lparr>bytes_count := 4\<rparr>"
  have z: "le_bytes 4 0 = ?z" by code_simp
  have len: "Receive_len c1 (4 - 0) = 4" by (simp add: c1_def Receive_len_def)
  have data: "take (nat 4) (drop (nat 0) (message_buf c1)) = ?z" by (simp add: c1_def blit_def)
  have app: "Receive_append c1 ?z = c1"
    by (simp add: c1_def Receive_append_def blit_def z) code_simp
  have "Receive_round 4 0 (c1, q) = Inr (Returned 0 (c2, q))"
  proof -
    have u: "uwrap32 4 = 4" by (simp add: uwrap32_def)
    have c2': "c1\<lparr>bytes_count := uwrap32 (bytes_count c1 + 4)\<rparr> = c2"
      by (simp add: c1_def c2_def uwrap32_def)
    have "bytes_count c2 = 4" "message c2 = []" "message_size c2 = 0"
        "length (message_buf c1) = 4096"
      using assms(1) by (simp_all add: c1_def c2_def)
    then show ?thesis unfolding Receive_round_def Let_def prod.case len u data app c2' by simp
  qed
  then have "Receive_loop 4 0 (c1, q) = Inr (0, c2, q)" by (simp add: Receive_loop.simps)
  then have "r1 = Inr (0, c2, q)"
    using assms(2) unfolding z Connector_Receive_def Connector_def by (simp add: c1_def)
  moreover have "Connector_Receive recv c2 q' = Inr (0, c2, q')" for recv q'
    by (simp add: Connector_Receive_def c2_def c1_def)
  ultimately show ?thesis by blast
qed

lemma Receive_final_witness:
  "\<exists>q c'. SignalingQueue 4 1 = Inr q \<and>
     Connector_Receive (Some (le_bytes 4 0)) (Connector (replicate 4096 (CHR 0x00))) q = Inr (0, c', q)"
proof -
  obtain q where "SignalingQueue 4 1 = Inr q" by (simp add: SignalingQueue_def)
  then show ?thesis using Receive_final [OF _ refl, of "replicate 4096 (CHR 0x00)" q] by auto
qed

end
