(* ===== verification/SplitString.thy ===== *)
theory SplitString
  imports Prelude
begin

text \<open>
  String utilities: splitting at delimiters (src/utils/split_string.h, split_string.cc), joining
  (join_strings.h), replacing and parsing sizes (string_util.cc). The two branches of
  SplitStringToIteratorUsing are given as they are written and shown equal to one specification.
\<close>

section \<open>Splitting\<close>

text \<open>The branch for a single delimiter: a pointer runs over the string.\<close>

function split_single :: "char \<Rightarrow> string \<Rightarrow> string list" where
  "split_single c [] = []"
| "split_single c (x # p) =
     (if x = c then split_single c p
      else (x # takeWhile (\<lambda>y. y \<noteq> c) p) # split_single c (dropWhile (\<lambda>y. y \<noteq> c) p))"
  by pat_completeness auto

termination split_single
  by (relation "measure (\<lambda>(c, p). length p)") (auto simp: less_Suc_eq_le length_dropWhile_le)

text \<open>std::string::find_first_of and find_first_not_of; None is npos.\<close>

definition find_first_of :: "string \<Rightarrow> string \<Rightarrow> nat \<Rightarrow> nat option" where
  "find_first_of full delim pos = List.find (\<lambda>i. full ! i \<in> set delim) [pos..<length full]"

definition find_first_not_of :: "string \<Rightarrow> string \<Rightarrow> nat \<Rightarrow> nat option" where
  "find_first_not_of full delim pos = List.find (\<lambda>i. full ! i \<notin> set delim) [pos..<length full]"

text \<open>The loop of the general branch, from the value of begin_index.\<close>

lemma find_upt_bounds: "List.find P [a..<b] = Some i \<Longrightarrow> a \<le> i \<and> i < b \<and> P i"
  by (auto simp: find_Some_iff)

function split_general :: "string \<Rightarrow> string \<Rightarrow> nat \<Rightarrow> string list" where
  "split_general full delim begin_index =
     (case find_first_of full delim begin_index of
        None \<Rightarrow> [drop begin_index full]
      | Some end_index \<Rightarrow>
          take (end_index - begin_index) (drop begin_index full)
          # (case find_first_not_of full delim end_index of
               None \<Rightarrow> []
             | Some begin_index' \<Rightarrow> split_general full delim begin_index'))"
  by pat_completeness auto

termination split_general
proof (relation "measure (\<lambda>(full, delim, b). length full - b)", goal_cases)
  case (2 full delim b e b')
  then have "b \<le> e" "full ! e \<in> set delim" "e \<le> b'" "b' < length full" "full ! b' \<notin> set delim"
    unfolding find_first_of_def find_first_not_of_def by (auto dest!: find_upt_bounds)
  then have "b < b'" by (cases "e = b'") auto
  then show ?case using \<open>b' < length full\<close> by simp
qed simp

declare split_general.simps [simp del]

definition SplitStringToIteratorUsing :: "string \<Rightarrow> string \<Rightarrow> string list" where
  "SplitStringToIteratorUsing full delim =
     (if length delim = 1 then split_single (hd delim) full
      else (case find_first_not_of full delim 0 of
              None \<Rightarrow> [] | Some begin_index \<Rightarrow> split_general full delim begin_index))"

text \<open>A NULL delimiter fails a CHECK. The results go to the end of a vector or into a set.\<close>

definition SplitStringUsing :: "string \<Rightarrow> string option \<Rightarrow> string list \<Rightarrow> string list result" where
  "SplitStringUsing full delim res =
     (case delim of None \<Rightarrow> Inl Abort | Some d \<Rightarrow> Inr (res @ SplitStringToIteratorUsing full d))"

definition SplitStringToSetUsing :: "string \<Rightarrow> string option \<Rightarrow> string set \<Rightarrow> string set result" where
  "SplitStringToSetUsing full delim res =
     (case delim of None \<Rightarrow> Inl Abort
      | Some d \<Rightarrow> Inr (fold insert (SplitStringToIteratorUsing full d) res))"

text \<open>The estimate for reserve; it is 0 when there is not exactly one delimiter.\<close>

function reserve_count :: "char \<Rightarrow> string \<Rightarrow> nat" where
  "reserve_count c [] = 0"
| "reserve_count c (x # p) =
     (if x = c then reserve_count c p else Suc (reserve_count c (dropWhile (\<lambda>y. y \<noteq> c) p)))"
  by pat_completeness auto

termination reserve_count
  by (relation "measure (\<lambda>(c, p). length p)") (auto simp: less_Suc_eq_le length_dropWhile_le)

definition CalculateReserveForVector :: "string \<Rightarrow> string \<Rightarrow> nat" where
  "CalculateReserveForVector full delim =
     (if length delim = 1 then reserve_count (hd delim) full else 0)"

text \<open>The specification: the maximal runs of characters that are no delimiters.\<close>

function fields :: "(char \<Rightarrow> bool) \<Rightarrow> string \<Rightarrow> string list" where
  "fields sep [] = []"
| "fields sep (x # xs) =
     (if sep x then fields sep xs
      else (x # takeWhile (Not \<circ> sep) xs) # fields sep (dropWhile (Not \<circ> sep) xs))"
  by pat_completeness auto

termination fields
  by (relation "measure (\<lambda>(sep, xs). length xs)") (auto simp: less_Suc_eq_le length_dropWhile_le)

lemma split_single_fields: "split_single c p = fields (\<lambda>x. x = c) p"
  by (induction c p rule: split_single.induct) (auto simp: comp_def)

lemma reserve_count_fields: "reserve_count c p = length (fields (\<lambda>x. x = c) p)"
  by (induction c p rule: reserve_count.induct) (auto simp: comp_def)

lemma find_drop:
  "List.find (\<lambda>i. P (full ! i)) [pos..<length full] =
    (if \<exists>x \<in> set (drop pos full). P x
     then Some (pos + length (takeWhile (Not \<circ> P) (drop pos full))) else None)"
proof (induction "length full - pos" arbitrary: pos)
  case 0
  then show ?case by simp
next
  case (Suc n)
  then have p: "pos < length full" by simp
  then have d: "drop pos full = full ! pos # drop (Suc pos) full" by (simp add: Cons_nth_drop_Suc)
  have "List.find (\<lambda>i. P (full ! i)) [Suc pos..<length full] =
    (if \<exists>x \<in> set (drop (Suc pos) full). P x
     then Some (Suc pos + length (takeWhile (Not \<circ> P) (drop (Suc pos) full))) else None)"
    using Suc by (intro Suc.hyps(1)) simp
  then show ?case using p by (simp add: upt_conv_Cons d)
qed

lemma fields_skip: "fields sep (dropWhile sep xs) = fields sep xs"
  by (induction xs) auto

lemma fields_no_sep: "xs \<noteq> [] \<Longrightarrow> \<forall>x \<in> set xs. \<not> sep x \<Longrightarrow> fields sep xs = [xs]"
proof (cases xs)
  case (Cons x ys)
  moreover assume "\<forall>x \<in> set xs. \<not> sep x"
  ultimately have "takeWhile (Not \<circ> sep) ys = ys" "dropWhile (Not \<circ> sep) ys = []" "\<not> sep x"
    by (auto simp: takeWhile_eq_all_conv dropWhile_eq_Nil_conv)
  then show ?thesis by (simp only: Cons fields.simps if_False)
qed simp

lemma drop_takeWhile_length: "drop (length (takeWhile P xs)) xs = dropWhile P xs"
  by (induction xs) auto

lemma find_first_of_drop: "find_first_of full delim pos =
    (if \<exists>x \<in> set (drop pos full). x \<in> set delim
     then Some (pos + length (takeWhile (\<lambda>x. x \<notin> set delim) (drop pos full))) else None)"
  unfolding find_first_of_def using find_drop [of "\<lambda>x. x \<in> set delim" full pos] by (simp add: comp_def)

lemma find_first_not_of_drop: "find_first_not_of full delim pos =
    (if \<exists>x \<in> set (drop pos full). x \<notin> set delim
     then Some (pos + length (takeWhile (\<lambda>x. x \<in> set delim) (drop pos full))) else None)"
  unfolding find_first_not_of_def using find_drop [of "\<lambda>x. x \<notin> set delim" full pos] by (simp add: comp_def)

lemma fields_all_sep: "\<forall>x \<in> set xs. sep x \<Longrightarrow> fields sep xs = []"
  by (induction xs) auto

lemma split_general_fields:
  assumes "b < length full" "full ! b \<notin> set delim"
  shows "split_general full delim b = fields (\<lambda>x. x \<in> set delim) (drop b full)"
  using assms
proof (induction full delim b rule: split_general.induct)
  case (1 full delim b)
  let ?sep = "\<lambda>x. x \<in> set delim" and ?r = "drop b full"
  have r: "?r = full ! b # drop (Suc b) full" using "1.prems"(1) by (simp add: Cons_nth_drop_Suc)
  show ?case
  proof (cases "\<exists>x \<in> set ?r. ?sep x")
    case False
    then show ?thesis using fields_no_sep [of ?r ?sep] "1.prems"(1)
      by (subst split_general.simps) (auto simp: find_first_of_drop)
  next
    case True
    define tw where "tw = takeWhile (\<lambda>x. \<not> ?sep x) ?r"
    define e where "e = b + length tw"
    have ff: "find_first_of full delim b = Some e" using True by (simp add: find_first_of_drop e_def tw_def)
    have tw: "tw = full ! b # takeWhile (Not \<circ> ?sep) (drop (Suc b) full)"
      using "1.prems"(2) by (simp add: tw_def r comp_def)
    have de: "drop e full = dropWhile (Not \<circ> ?sep) (drop (Suc b) full)"
    proof -
      have "drop e full = dropWhile (\<lambda>x. \<not> ?sep x) ?r"
        unfolding drop_takeWhile_length [symmetric] e_def tw_def by (simp add: add.commute)
      then show ?thesis using "1.prems"(2) by (simp add: r comp_def)
    qed
    have f: "fields ?sep ?r = tw # fields ?sep (drop e full)"
      using "1.prems"(2) by (simp add: r tw de)
    have tk: "take (e - b) ?r = tw" by (simp add: e_def tw_def flip: takeWhile_eq_take)
    have sg: "split_general full delim b = tw # (case find_first_not_of full delim e of
               None \<Rightarrow> [] | Some b' \<Rightarrow> split_general full delim b')"
      by (subst split_general.simps) (simp add: ff tk)
    show ?thesis
    proof (cases "\<exists>x \<in> set (drop e full). \<not> ?sep x")
      case False
      then show ?thesis by (simp add: sg f find_first_not_of_drop fields_all_sep)
    next
      case T2: True
      define b' where "b' = e + length (takeWhile ?sep (drop e full))"
      have fn: "find_first_not_of full delim e = Some b'"
        using T2 by (simp add: find_first_not_of_drop b'_def)
      then have b': "b' < length full" "full ! b' \<notin> set delim"
        unfolding find_first_not_of_def by (auto dest: find_upt_bounds)
      have "drop b' full = dropWhile ?sep (drop e full)"
        unfolding drop_takeWhile_length [symmetric] b'_def by (simp add: add.commute)
      then have "split_general full delim b' = fields ?sep (drop e full)"
        using "1.IH" [OF ff fn b'] by (simp add: fields_skip)
      then show ?thesis by (simp add: sg f fn)
    qed
  qed
qed

lemma SplitStringToIteratorUsing_eq:
  "SplitStringToIteratorUsing full delim = fields (\<lambda>x. x \<in> set delim) full"
proof (cases "length delim = 1")
  case True
  then obtain c where "delim = [c]" by (auto simp: length_Suc_conv)
  then show ?thesis by (simp add: SplitStringToIteratorUsing_def split_single_fields)
next
  case False
  show ?thesis
  proof (cases "find_first_not_of full delim 0")
    case None
    then have "\<forall>x \<in> set full. x \<in> set delim"
      by (auto simp: find_first_not_of_drop split: if_splits)
    then show ?thesis using False None by (simp add: SplitStringToIteratorUsing_def fields_all_sep)
  next
    case (Some b)
    then have b: "b < length full" "full ! b \<notin> set delim"
      unfolding find_first_not_of_def by (auto dest: find_upt_bounds)
    have "b = length (takeWhile (\<lambda>x. x \<in> set delim) full)"
      using Some by (simp add: find_first_not_of_drop split: if_splits)
    then have "fields (\<lambda>x. x \<in> set delim) (drop b full) = fields (\<lambda>x. x \<in> set delim) full"
      by (simp add: drop_takeWhile_length fields_skip)
    then show ?thesis
      using False Some split_general_fields [OF b(1,2)] by (simp add: SplitStringToIteratorUsing_def)
  qed
qed

section \<open>Joining\<close>

text \<open>JoinStrings: the delimiter goes before every element but the first.\<close>

fun JoinStrings_rest :: "string list \<Rightarrow> string \<Rightarrow> string \<Rightarrow> string" where
  "JoinStrings_rest [] delimiter output = output"
| "JoinStrings_rest (x # xs) delimiter output = JoinStrings_rest xs delimiter (output @ delimiter @ x)"

definition JoinStrings :: "string list \<Rightarrow> string \<Rightarrow> string" where
  "JoinStrings container delimiter =
     (case container of [] \<Rightarrow> [] | x # xs \<Rightarrow> JoinStrings_rest xs delimiter ([] @ x))"

lemma JoinStrings_rest_append:
  "JoinStrings_rest xs d out = out @ concat (map (\<lambda>x. d @ x) xs)"
  by (induction xs d out rule: JoinStrings_rest.induct) auto

lemma JoinStrings_simps:
  "JoinStrings [] d = []" "JoinStrings [x] d = x"
  "JoinStrings (x # y # ys) d = x @ d @ JoinStrings (y # ys) d"
  by (simp_all add: JoinStrings_def JoinStrings_rest_append)

lemma fields_token:
  assumes "x \<noteq> []" "\<forall>a \<in> set x. \<not> sep a" "sep c"
  shows "fields sep (x @ c # ys) = x # fields sep ys"
proof -
  obtain a as where x: "x = a # as" using assms(1) by (cases x) auto
  have "takeWhile (Not \<circ> sep) (as @ c # ys) = as" "dropWhile (Not \<circ> sep) (as @ c # ys) = c # ys"
    using assms x by (auto simp: takeWhile_append2 dropWhile_append2)
  then show ?thesis using assms x by simp
qed

lemma fields_Join:
  assumes "\<forall>x \<in> set xs. x \<noteq> [] \<and> (\<forall>a \<in> set x. \<not> sep a)" "sep c"
  shows "fields sep (JoinStrings xs [c]) = xs"
  using assms(1)
proof (induction xs rule: induct_list012)
  case (3 x y ys)
  then show ?case using assms(2) by (simp add: JoinStrings_simps fields_token)
qed (auto simp: JoinStrings_simps fields_no_sep)

lemma fields_members: "x \<in> set (fields sep xs) \<Longrightarrow> x \<noteq> [] \<and> (\<forall>a \<in> set x. \<not> sep a \<and> a \<in> set xs)"
proof (induction sep xs rule: fields.induct)
  case (2 sep y ys)
  show ?case
  proof (cases "sep y")
    case True
    then have "x \<in> set (fields sep ys)" using "2.prems" by simp
    then show ?thesis using "2.IH"(1) [OF True] by simp
  next
    case False
    then consider "x = y # takeWhile (Not \<circ> sep) ys" | "x \<in> set (fields sep (dropWhile (Not \<circ> sep) ys))"
      using "2.prems" by auto
    then show ?thesis
    proof cases
      case 1
      then show ?thesis using False by (auto dest: set_takeWhileD)
    next
      case b: 2
      then show ?thesis using "2.IH"(2) [OF False b] by (auto dest: set_dropWhileD)
    qed
  qed
qed simp

section \<open>Replacing\<close>

text \<open>
  The loop of StringReplace on out and curPos. An empty pattern is found at every position, so that
  the loop does not end: the function is partial, None stands for not returning.
\<close>

partial_function (option) StringReplace_loop :: "string \<Rightarrow> string \<Rightarrow> string \<Rightarrow> nat \<Rightarrow> string option" where
  "StringReplace_loop pat replaceWith out curPos =
     (case str_find out pat curPos of
        None \<Rightarrow> Some out
      | Some pos \<Rightarrow> StringReplace_loop pat replaceWith
          (take pos out @ replaceWith @ drop (pos + length pat) out) (pos + length replaceWith))"

definition StringReplace :: "string \<Rightarrow> string \<Rightarrow> string \<Rightarrow> string option" where
  "StringReplace input pat replaceWith = StringReplace_loop pat replaceWith input 0"

text \<open>The specification on the rest of the input: leftmost occurrences, not overlapping.\<close>

function replace_all :: "string \<Rightarrow> string \<Rightarrow> string \<Rightarrow> string" where
  "replace_all pat r s =
     (if pat = [] then s
      else (case str_find s pat 0 of
              None \<Rightarrow> s
            | Some i \<Rightarrow> take i s @ r @ replace_all pat r (drop (i + length pat) s)))"
  by pat_completeness auto

termination replace_all
proof (relation "measure (\<lambda>(pat, r, s). length s)", goal_cases)
  case (2 pat r s i)
  then have "i + length pat \<le> length s" by (auto simp: str_find_Some_iff occurs_at_def)
  then show ?case using 2(1) by (cases pat) auto
qed simp

declare replace_all.simps [simp del]

lemma occurs_at_append: "occurs_at (u @ s) pat (length u + i) \<longleftrightarrow> occurs_at s pat i"
  by (auto simp: occurs_at_def)

lemma str_find_append:
  "str_find (u @ s) pat (length u) = map_option ((+) (length u)) (str_find s pat 0)"
proof (cases "str_find s pat 0")
  case (Some i)
  then have i: "occurs_at s pat i" "\<forall>j < i. \<not> occurs_at s pat j" by (auto simp: str_find_Some_iff)
  have "\<not> occurs_at (u @ s) pat j" if "length u \<le> j" "j < length u + i" for j
    using i(2) that occurs_at_append [of u s pat "j - length u"] by auto
  then have "str_find (u @ s) pat (length u) = Some (length u + i)"
    using i(1) by (auto simp: str_find_Some_iff occurs_at_append)
  then show ?thesis using Some by simp
next
  case None
  have "\<not> occurs_at s pat i" for i
  proof
    assume o: "occurs_at s pat i"
    then have "i \<in> set [0..<Suc (length s)]" by (auto simp: occurs_at_def)
    then show False using None o unfolding str_find_def find_None_iff by blast
  qed
  then have "str_find (u @ s) pat (length u) \<noteq> Some k" for k
    using occurs_at_append [of u s pat "k - length u"] by (auto simp: str_find_Some_iff)
  then show ?thesis using None by (cases "str_find (u @ s) pat (length u)") auto
qed

lemma StringReplace_loop_spec:
  "pat \<noteq> [] \<Longrightarrow> StringReplace_loop pat r (u @ s) (length u) = Some (u @ replace_all pat r s)"
proof (induction pat r s arbitrary: u rule: replace_all.induct)
  case (1 pat r s)
  show ?case
  proof (cases "str_find s pat 0")
    case None
    then show ?thesis
      by (subst StringReplace_loop.simps, subst replace_all.simps) (simp add: str_find_append)
  next
    case (Some i)
    then have "i + length pat \<le> length s" by (auto simp: str_find_Some_iff occurs_at_def)
    then have e: "length (u @ take i s @ r) = length u + i + length r" by (simp add: min_absorb2)
    have "StringReplace_loop pat r (u @ s) (length u)
        = StringReplace_loop pat r ((u @ take i s @ r) @ drop (i + length pat) s) (length (u @ take i s @ r))"
      by (subst StringReplace_loop.simps) (simp only: e, simp add: str_find_append Some add.assoc)
    also have "\<dots> = Some ((u @ take i s @ r) @ replace_all pat r (drop (i + length pat) s))"
      by (rule "1.IH" [OF "1.prems" Some "1.prems"])
    finally show ?thesis
      using "1.prems" by (subst replace_all.simps) (simp add: Some)
  qed
qed

lemma str_find_empty: "pos \<le> length s \<Longrightarrow> str_find s [] pos = Some pos"
  by (auto simp: str_find_Some_iff occurs_at_def)

lemma StringReplace_empty_raw:
  "StringReplace_loop pat r out pos = Some y \<Longrightarrow> pat = [] \<longrightarrow> length out < pos"
proof (rule StringReplace_loop.raw_induct
    [where P = "\<lambda>pat r out pos y. pat = [] \<longrightarrow> length out < pos"], goal_cases)
  case (1 loop pat r out pos y)
  show ?case
  proof (intro impI, rule ccontr)
    assume a: "pat = []" "\<not> length out < pos"
    then have "loop pat r (take pos out @ r @ drop (pos + length pat) out) (pos + length r) = Some y"
      using 1(3) by (simp add: str_find_empty)
    then have "length (take pos out @ r @ drop (pos + length pat) out) < pos + length r"
      using 1(2) a(1) by blast
    then show False using a by simp
  qed
qed assumption

text \<open>
  ParseBytes. strtol skips blanks, takes a sign and digits and saturates at the range of a long of
  \<open>lb\<close> bits; without digits it leaves the end pointer at the start. The result is the value stored
  in *bytes.
\<close>

definition is_blank :: "char \<Rightarrow> bool" where
  "is_blank c \<longleftrightarrow> c \<in> {CHR '' '', CHR 0x09, CHR 0x0A, CHR 0x0B, CHR 0x0C, CHR 0x0D}"

definition is_digit :: "char \<Rightarrow> bool" where
  "is_digit c \<longleftrightarrow> 48 \<le> (of_char c :: nat) \<and> (of_char c :: nat) \<le> 57"

definition digits_value :: "string \<Rightarrow> int" where
  "digits_value ds = fold (\<lambda>d v. 10 * v + (of_char d - 48)) ds 0"

definition split_sign :: "string \<Rightarrow> bool \<times> string" where
  "split_sign s = (case s of [] \<Rightarrow> (False, s)
     | c # r \<Rightarrow> if c = CHR ''-'' then (True, r) else if c = CHR ''+'' then (False, r) else (False, s))"

definition strtol :: "nat \<Rightarrow> string \<Rightarrow> int \<times> string" where
  "strtol lb s =
     (case split_sign (dropWhile is_blank s) of (neg, r) \<Rightarrow>
        let ds = takeWhile is_digit r; v = (if neg then - digits_value ds else digits_value ds)
        in if ds = [] then (0, s)
           else (max (- (2 ^ (lb - 1))) (min (2 ^ (lb - 1) - 1) v), dropWhile is_digit r))"

text \<open>atoi, in terms of strtol.\<close>

definition atoi :: "string \<Rightarrow> int" where
  "atoi s = wrap32 (fst (strtol 32 s))"

definition ParseBytes :: "nat \<Rightarrow> string \<Rightarrow> int \<Rightarrow> int result" where
  "ParseBytes lb str_bytes default_value =
     (case strtol lb str_bytes of (bytes, reserved_end) \<Rightarrow>
        if \<not> 0 < bytes then Inl Abort
        else Inr (wrap64 (case reserved_end of
             [] \<Rightarrow> bytes * default_value
           | c # _ \<Rightarrow> if c \<in> {CHR ''G'', CHR ''g''} then bytes * (1024 * 1024 * 1024)
                      else if c \<in> {CHR ''M'', CHR ''m''} then bytes * (1024 * 1024)
                      else if c \<in> {CHR ''K'', CHR ''k''} then bytes * 1024
                      else bytes)))"

section \<open>Properties\<close>

text \<open>Both loops of SplitStringToIteratorUsing yield the maximal runs of non-delimiters in order, and
  splitting the join of any list of non-empty fields gives the fields back; the reserve estimate for
  one delimiter is the exact number of fields.\<close>

theorem SplitString_correct:
  assumes "\<forall>x \<in> set xs. x \<noteq> [] \<and> c \<notin> set x"
  shows "SplitStringToIteratorUsing full delim = fields (\<lambda>x. x \<in> set delim) full
    \<and> SplitStringUsing (JoinStrings xs [c]) (Some [c]) res = Inr (res @ xs)
    \<and> CalculateReserveForVector full [c] = length (SplitStringToIteratorUsing full [c])"
proof -
  have "fields (\<lambda>x. x \<in> set [c]) (JoinStrings xs [c]) = xs" using assms by (intro fields_Join) auto
  then show ?thesis
    by (simp add: SplitStringToIteratorUsing_eq SplitStringUsing_def CalculateReserveForVector_def
        reserve_count_fields)
qed

lemma SplitString_correct_witness:
  "SplitStringUsing (JoinStrings [''h1:80'', ''h2:80''] '';'') (Some '';'') [] = Inr [''h1:80'', ''h2:80'']"
  using SplitString_correct [of "[''h1:80'', ''h2:80'']" "CHR '';''" "[]" "[]" "[]"] by simp

text \<open>StringReplace replaces the leftmost non-overlapping occurrences and ends for every non-empty
  pattern; with an empty pattern it never returns.\<close>

theorem StringReplace_correct:
  "StringReplace input pat r = (if pat = [] then None else Some (replace_all pat r input))"
  using StringReplace_loop_spec [of pat r "[]" input] StringReplace_empty_raw [of "[]" r input 0]
  by (cases "StringReplace input pat r") (auto simp: StringReplace_def)

text \<open>ParseBytes of a decimal number: a suffix G, M or K scales it, and a number without a suffix is
  multiplied by default_value, so that the caller's default acts as a unit.\<close>

theorem ParseBytes_suffix:
  assumes "ds \<noteq> []" "\<forall>d \<in> set ds. is_digit d" "0 < digits_value ds" "digits_value ds < 2 ^ 31" "32 \<le> lb"
  shows "ParseBytes lb ds dflt = Inr (wrap64 (digits_value ds * dflt))
    \<and> ParseBytes lb (ds @ ''G'') dflt = Inr (digits_value ds * 2 ^ 30)
    \<and> ParseBytes lb (ds @ ''M'') dflt = Inr (digits_value ds * 2 ^ 20)
    \<and> ParseBytes lb (ds @ ''K'') dflt = Inr (digits_value ds * 2 ^ 10)"
proof -
  obtain d ds' where d: "ds = d # ds'" "is_digit d" using assms(1,2) by (cases ds) auto
  then have nb: "\<not> is_blank d" "d \<noteq> CHR ''-''" "d \<noteq> CHR ''+''"
    by (auto simp: is_blank_def is_digit_def)
  have sign: "split_sign (dropWhile is_blank (ds @ x)) = (False, ds @ x)" for x
    using nb d(1) by (simp add: split_sign_def)
  have tw: "takeWhile is_digit (ds @ x) = ds" "dropWhile is_digit (ds @ x) = x"
    if "x = [] \<or> \<not> is_digit (hd x)" for x
    using assms(2) that by (cases x; auto simp: takeWhile_append2 dropWhile_append2)+
  have "(2::int) ^ 31 \<le> 2 ^ (lb - 1)" using assms(5) by (intro power_increasing) auto
  then have mm: "max (- (2 ^ (lb - 1))) (min (2 ^ (lb - 1) - 1) (digits_value ds)) = digits_value ds"
    using assms(3,4) by (intro trans [OF max_absorb2 min_absorb2]) (auto simp: min_absorb2)
  have st: "strtol lb (ds @ x) = (digits_value ds, x)" if "x = [] \<or> \<not> is_digit (hd x)" for x
    using assms(1) by (simp add: strtol_def sign tw [OF that] Let_def mm del: One_nat_def)
  have w: "wrap64 (digits_value ds * k) = digits_value ds * k" if "k \<in> {2 ^ 30, 2 ^ 20, 2 ^ 10}" for k
  proof (rule wrap64_id)
    have "digits_value ds * k \<le> 2 ^ 31 * 2 ^ 30" using that assms(3,4) by (intro mult_mono) auto
    then show "digits_value ds * k < 2 ^ 63" by simp
    have "0 \<le> digits_value ds * k" using that assms(3) by auto
    then show "- (2 ^ 63) \<le> digits_value ds * k" by (rule order_trans [rotated]) simp
  qed
  show ?thesis
    using st [of "[]"] st [of "''G''"] st [of "''M''"] st [of "''K''"] w [of "2 ^ 30"] w [of "2 ^ 20"] w [of "2 ^ 10"] assms(3)
    by (simp add: ParseBytes_def is_digit_def)
qed

lemma ParseBytes_suffix_witness:
  "ParseBytes 32 ''2K'' 65536 = Inr 2048 \<and> ParseBytes 32 ''2048'' 65536 = Inr 134217728"
  using ParseBytes_suffix [of "''2''" 32 65536] ParseBytes_suffix [of "''2048''" 32 65536]
  by (simp add: is_digit_def digits_value_def wrap64_def)

end
