(* ===== verification/StringCodec.thy ===== *)
theory StringCodec
  imports SplitString
begin

text \<open>
  Encodings of integers as strings, src/utils/string_codec.cc: decimal keys filled with zeros, and
  the bytes of the integer in memory. Also the base-128 integers of src/base/varint32.cc.
\<close>

section \<open>Decimal keys\<close>

text \<open>What an ostream writes for a number that is not negative, with setfill('0') and setw(n).\<close>

function decimal :: "nat \<Rightarrow> string" where
  "decimal n = (if n < 10 then [char_of (48 + n)] else decimal (n div 10) @ [char_of (48 + n mod 10)])"
  by pat_completeness auto

termination decimal by (relation "measure id") auto

declare decimal.simps [simp del]

definition pad :: "nat \<Rightarrow> string \<Rightarrow> string" where
  "pad width s = replicate (width - length s) (CHR ''0'') @ s"

definition kNumericValueFillSize :: nat where
  "kNumericValueFillSize = 10"

definition NumericValueToKey :: "int \<Rightarrow> string result" where
  "NumericValueToKey value =
     (if \<not> value \<ge> 0 then Inl Abort else Inr (pad kNumericValueFillSize (decimal (nat value))))"

text \<open>All four instances use int32: the argument is converted first.\<close>

definition Int32ToKey :: "int \<Rightarrow> string result" where
  "Int32ToKey value = NumericValueToKey value"

definition Uint32ToKey :: "int \<Rightarrow> string result" where
  "Uint32ToKey value = NumericValueToKey (wrap32 value)"

definition Int64ToKey :: "int \<Rightarrow> string result" where
  "Int64ToKey value = NumericValueToKey (wrap32 value)"

definition Uint64ToKey :: "int \<Rightarrow> string result" where
  "Uint64ToKey value = NumericValueToKey (wrap32 value)"

text \<open>
  Extraction of a number from an istream: blanks are skipped; a string of blanks leaves the variable
  as it was (\<open>v0\<close>, not initialised in the code), a missing number sets it to 0, a number out of
  range sets the nearest bound. An unsigned type takes a negated number modulo its range.
\<close>

definition KeyToNumericValue :: "bool \<Rightarrow> nat \<Rightarrow> int \<Rightarrow> string \<Rightarrow> int" where
  "KeyToNumericValue is_signed w v0 key =
     (if dropWhile is_blank key = [] then v0
      else case split_sign (dropWhile is_blank key) of (neg, r) \<Rightarrow>
        let ds = takeWhile is_digit r; v = digits_value ds
        in if ds = [] then 0
           else if is_signed
             then max (- (2 ^ (w - 1))) (min (2 ^ (w - 1) - 1) (if neg then - v else v))
             else if v > 2 ^ w - 1 then 2 ^ w - 1 else if neg then (- v) mod 2 ^ w else v)"

definition KeyToInt32 :: "int \<Rightarrow> string \<Rightarrow> int" where
  "KeyToInt32 v0 key = KeyToNumericValue True 32 v0 key"

definition KeyToUint32 :: "int \<Rightarrow> string \<Rightarrow> int" where
  "KeyToUint32 v0 key = KeyToNumericValue False 32 v0 key"

definition KeyToInt64 :: "int \<Rightarrow> string \<Rightarrow> int" where
  "KeyToInt64 v0 key = KeyToNumericValue True 64 v0 key"

definition KeyToUint64 :: "int \<Rightarrow> string \<Rightarrow> int" where
  "KeyToUint64 v0 key = KeyToNumericValue False 64 v0 key"

section \<open>Memory images\<close>

definition EncodeNumericValue :: "nat \<Rightarrow> int \<Rightarrow> string" where
  "EncodeNumericValue size_of value = le_bytes size_of value"

definition DecodeNumericValue :: "bool \<Rightarrow> nat \<Rightarrow> string \<Rightarrow> int result" where
  "DecodeNumericValue is_signed size_of str =
     (if length str \<noteq> size_of then Inl Abort
      else Inr (if is_signed \<and> le_value str \<ge> 2 ^ (8 * size_of - 1)
                then le_value str - 2 ^ (8 * size_of) else le_value str))"

definition EncodeInt32 :: "int \<Rightarrow> string" where "EncodeInt32 = EncodeNumericValue 4"
definition DecodeInt32 :: "string \<Rightarrow> int result" where "DecodeInt32 = DecodeNumericValue True 4"
definition EncodeUint32 :: "int \<Rightarrow> string" where "EncodeUint32 = EncodeNumericValue 4"
definition DecodeUint32 :: "string \<Rightarrow> int result" where "DecodeUint32 = DecodeNumericValue False 4"
definition EncodeInt64 :: "int \<Rightarrow> string" where "EncodeInt64 = EncodeNumericValue 8"
definition DecodeInt64 :: "string \<Rightarrow> int result" where "DecodeInt64 = DecodeNumericValue True 8"
definition EncodeUint64 :: "int \<Rightarrow> string" where "EncodeUint64 = EncodeNumericValue 8"
definition DecodeUint64 :: "string \<Rightarrow> int result" where "DecodeUint64 = DecodeNumericValue False 8"

section \<open>Variable length integers\<close>

text \<open>
  A FILE for reading: the bytes that are left and the two indicators. getc at the end of the file
  sets the indicator and yields EOF, which the cast turns into 2^32 - 1.
\<close>

record infile =
  bytes_left :: "8 word list"
  at_eof :: bool
  has_error :: bool

definition GetByte :: "infile \<Rightarrow> 32 word \<times> infile" where
  "GetByte f = (case bytes_left f of
      [] \<Rightarrow> (- 1, f\<lparr>at_eof := True\<rparr>)
    | b # bs \<Rightarrow> (ucast b, f\<lparr>bytes_left := bs\<rparr>))"

text \<open>The four steps with a shift, the step at 28 bits, and the loop that discards the rest.\<close>

definition more_bytes :: "32 word \<Rightarrow> bool" where
  "more_bytes b \<longleftrightarrow> and b 0x80 \<noteq> 0"

fun discard_bytes :: "nat \<Rightarrow> infile \<Rightarrow> bool \<times> infile" where
  "discard_bytes 0 f = (False, f)"
| "discard_bytes (Suc n) f =
     (case GetByte f of (b, f') \<Rightarrow> if \<not> more_bytes b then (True, f') else discard_bytes n f')"

fun ReadVarint32_steps :: "nat list \<Rightarrow> 32 word \<Rightarrow> infile \<Rightarrow> 32 word option \<times> infile" where
  "ReadVarint32_steps [] r f =
     (case GetByte f of (b, f') \<Rightarrow>
        let r' = or r (push_bit 28 b)
        in if \<not> more_bytes b then (Some r', f')
           else (case discard_bytes 5 f' of (ok, f'') \<Rightarrow> (if ok then Some r' else None, f'')))"
| "ReadVarint32_steps (k # ks) r f =
     (case GetByte f of (b, f') \<Rightarrow>
        let r' = or r (push_bit k (and b 0x7F))
        in if \<not> more_bytes b then (Some r', f') else ReadVarint32_steps ks r' f')"

definition ReadVarint32 :: "infile \<Rightarrow> 32 word option \<times> infile" where
  "ReadVarint32 f = (if has_error f \<or> at_eof f then (None, f) else ReadVarint32_steps [0, 7, 14, 21] 0 f)"

text \<open>
  WriteVarint32 has the protobuf library write into a buffer of four bytes; the library's function is
  the argument \<open>to_array\<close>, and \<open>written\<close> is what fwrite reports.
\<close>

definition WriteVarint32 :: "(32 word \<Rightarrow> 8 word list) \<Rightarrow> (8 word list \<Rightarrow> nat) \<Rightarrow> 32 word \<Rightarrow> (bool \<times> 8 word list) result" where
  "WriteVarint32 to_array written value =
     (let bytes = to_array value
      in if 4 < length bytes then Inl OutOfBounds
         else Inr (written bytes = length bytes, take (written bytes) bytes))"

text \<open>The documented encoding: groups of seven bits, lowest first, the high bit set in all but the last.\<close>

function varint_bytes :: "nat \<Rightarrow> nat list" where
  "varint_bytes n = (if n < 128 then [n] else (n mod 128 + 128) # varint_bytes (n div 128))"
  by pat_completeness auto

termination varint_bytes by (relation "measure id") auto

declare varint_bytes.simps [simp del]

section \<open>Lemmas\<close>

lemma digits_value_append: "digits_value (ds @ [d]) = 10 * digits_value ds + (int (of_char d) - 48)"
  by (simp add: digits_value_def of_nat_of_char)

lemma digits_value_zeros: "digits_value (replicate k (CHR ''0'') @ ds) = digits_value ds"
  by (induction k) (simp_all add: digits_value_def)

lemma digit_char: "k < 10 \<Longrightarrow> is_digit (char_of (48 + k)) \<and> (of_char (char_of (48 + k)) :: nat) = 48 + k"
  by (simp add: is_digit_def)

lemma decimal_digits: "decimal n \<noteq> [] \<and> (\<forall>d \<in> set (decimal n). is_digit d) \<and> digits_value (decimal n) = int n"
proof (induction n rule: decimal.induct)
  case (1 n)
  show ?case
  proof (cases "n < 10")
    case True
    then show ?thesis
      using digit_char [OF True] digits_value_append [of "[]" "char_of (48 + n)"]
      by (subst (1 2 3) decimal.simps) (simp add: digits_value_def [of "[]"])
  next
    case False
    have k: "n mod 10 < 10" by simp
    have "decimal n = decimal (n div 10) @ [char_of (48 + n mod 10)]"
      using False by (subst decimal.simps) simp
    moreover have "n = 10 * (n div 10) + n mod 10" by simp
    then have "int n = 10 * int (n div 10) + int (n mod 10)" by presburger
    ultimately show ?thesis
      using 1 [OF False] digit_char [OF k] by (simp add: digits_value_append)
  qed
qed

lemma KeyToInt32_digits:
  assumes "s \<noteq> []" "\<forall>d \<in> set s. is_digit d" "0 \<le> digits_value s" "digits_value s < 2 ^ 31"
  shows "KeyToInt32 v0 s = digits_value s"
proof -
  obtain d ds where s: "s = d # ds" "is_digit d" using assms by (cases s) auto
  then have nb: "\<not> is_blank d" "d \<noteq> CHR ''-''" "d \<noteq> CHR ''+''"
    by (auto simp: is_blank_def is_digit_def)
  have tw: "takeWhile is_digit s = s" using assms(2) by (simp add: takeWhile_eq_all_conv)
  have dw: "dropWhile is_blank s = s" "split_sign s = (False, s)"
    using nb s by (simp_all add: split_sign_def)
  show ?thesis
    unfolding KeyToInt32_def KeyToNumericValue_def dw prod.case Let_def tw using assms by simp
qed

lemma KeyToInt32_pad:
  assumes "0 \<le> v" "v < 2 ^ 31"
  shows "KeyToInt32 v0 (pad k (decimal (nat v))) = v"
proof -
  have "\<forall>d \<in> set (pad k (decimal (nat v))). is_digit d" "pad k (decimal (nat v)) \<noteq> []"
      "digits_value (pad k (decimal (nat v))) = v"
    using decimal_digits [of "nat v"] assms by (auto simp: pad_def digits_value_zeros is_digit_def)
  then show ?thesis using KeyToInt32_digits [of "pad k (decimal (nat v))"] assms by simp
qed

lemma DecodeNumericValue_Encode:
  assumes "0 < n" "if s then - (2 ^ (8 * n - 1)) \<le> v \<and> v < 2 ^ (8 * n - 1) else 0 \<le> v \<and> v < 2 ^ (8 * n)"
  shows "DecodeNumericValue s n (EncodeNumericValue n v) = Inr v"
proof -
  have p: "(256::int) ^ n = 2 ^ (8 * n)" by (simp add: power_mult)
  have h: "(2::int) ^ (8 * n) = 2 * 2 ^ (8 * n - 1)" using assms(1) by (simp flip: power_Suc)
  have m: "le_value (le_bytes n v) = (if v < 0 then v + 2 ^ (8 * n) else v)"
  proof (cases "v < 0")
    case True
    then have b: "0 \<le> v + 2 ^ (8 * n)" "v + 2 ^ (8 * n) < 2 ^ (8 * n)" using assms(2) h by (auto split: if_splits)
    have "v mod 2 ^ (8 * n) = (v + 2 ^ (8 * n)) mod 2 ^ (8 * n)" by simp
    also have "\<dots> = v + 2 ^ (8 * n)" using b by (rule mod_pos_pos_trivial)
    finally show ?thesis using True by (simp add: le_value_bytes p)
  next
    case False
    then have "v mod 2 ^ (8 * n) = v" using assms(2) h by (intro mod_pos_pos_trivial) (auto split: if_splits)
    then show ?thesis using False by (simp add: le_value_bytes p)
  qed
  show ?thesis
    using assms(2) h by (auto simp: DecodeNumericValue_def EncodeNumericValue_def m split: if_splits)
qed

subsection \<open>Variable length integers\<close>

lemma ucast_byte: "m < 256 \<Longrightarrow> (ucast (of_nat m :: 8 word) :: 32 word) = of_nat m"
  by (simp add: unsigned_of_nat take_bit_nat_eq_self)

lemma more_bytes_of_nat:
  assumes "m < 256"
  shows "more_bytes (of_nat m) \<longleftrightarrow> 128 \<le> m"
proof -
  have "more_bytes (of_nat m) \<longleftrightarrow> and (of_nat m :: 32 word) (push_bit 7 1) \<noteq> 0"
    by (simp add: more_bytes_def)
  also have "\<dots> \<longleftrightarrow> bit (of_nat m :: 32 word) 7" by (simp only: bit_iff_and_push_bit_not_eq_0)
  also have "\<dots> \<longleftrightarrow> bit m 7" by (simp add: bit_of_nat_iff)
  also have "\<dots> \<longleftrightarrow> odd (m div 128)" by (simp add: bit_iff_odd)
  also have "\<dots> \<longleftrightarrow> 128 \<le> m"
  proof (cases "m < 128")
    case False
    then have "m div 128 = 1" using assms by (intro div_nat_eqI) simp_all
    then show ?thesis using False by simp
  qed simp
  finally show ?thesis .
qed

lemma low_bits: "and (of_nat m :: 32 word) 0x7F = of_nat (m mod 128)"
proof -
  have "and (of_nat m :: 32 word) 0x7F = take_bit 7 (of_nat m)"
    by (simp add: take_bit_eq_mask mask_eq_exp_minus_1)
  also have "\<dots> = of_nat (take_bit 7 m)" by (simp only: take_bit_of_nat)
  also have "take_bit 7 m = m mod 128" by (simp add: take_bit_eq_mod)
  finally show ?thesis .
qed

lemma or_shift:
  assumes "a < 2 ^ k"
  shows "or (of_nat a :: 32 word) (push_bit k (of_nat b)) = of_nat (a + b * 2 ^ k)"
proof -
  have "\<not> bit a i" if "k \<le> i" for i
  proof -
    have "(2::nat) ^ k \<le> 2 ^ i" using that by (intro power_increasing) auto
    then have "a div 2 ^ i = 0" using assms by (intro div_less) linarith
    then show ?thesis by (simp add: bit_iff_odd)
  qed
  then have "and (of_nat a :: 32 word) (push_bit k (of_nat b)) = 0"
    by (intro bit_word_eqI) (auto simp: bit_simps)
  then have "or (of_nat a :: 32 word) (push_bit k (of_nat b)) = of_nat a + push_bit k (of_nat b)"
    by (simp add: disjunctive_add_eq_or)
  also have "\<dots> = of_nat (a + b * 2 ^ k)"
    by (simp add: push_bit_eq_mult)
  finally show ?thesis .
qed

lemma GetByte_Cons: "bytes_left f = of_nat m # bs \<Longrightarrow> m < 256 \<Longrightarrow> GetByte f = (of_nat m, f\<lparr>bytes_left := bs\<rparr>)"
  by (simp add: GetByte_def ucast_byte)

lemma ReadVarint32_last:
  assumes "a < 2 ^ 28" "n < 16" "bytes_left f = map of_nat (varint_bytes n) @ rest"
  shows "ReadVarint32_steps [] (of_nat a) f = (Some (of_nat (a + n * 2 ^ 28)), f\<lparr>bytes_left := rest\<rparr>)"
proof -
  have g: "GetByte f = (of_nat n, f\<lparr>bytes_left := rest\<rparr>)"
    using assms(2,3) by (intro GetByte_Cons) (simp_all add: varint_bytes.simps [of n])
  have "\<not> more_bytes (of_nat n)" using more_bytes_of_nat [of n] assms(2) by simp
  then show ?thesis using or_shift [OF assms(1), of n] by (simp add: g Let_def)
qed

lemma ReadVarint32_step:
  assumes "a < 2 ^ k" "bytes_left f = map of_nat (varint_bytes n) @ rest"
    "\<And>f'. 128 \<le> n \<Longrightarrow> bytes_left f' = map of_nat (varint_bytes (n div 128)) @ rest \<Longrightarrow>
      ReadVarint32_steps ks (of_nat (a + (n mod 128) * 2 ^ k)) f'
      = (Some (of_nat (a + (n mod 128) * 2 ^ k + (n div 128) * 2 ^ (k + 7))), f'\<lparr>bytes_left := rest\<rparr>)"
  shows "ReadVarint32_steps (k # ks) (of_nat a) f = (Some (of_nat (a + n * 2 ^ k)), f\<lparr>bytes_left := rest\<rparr>)"
proof (cases "n < 128")
  case True
  have g: "GetByte f = (of_nat n, f\<lparr>bytes_left := rest\<rparr>)"
    using True assms(2) by (intro GetByte_Cons) (simp_all add: varint_bytes.simps [of n])
  have "\<not> more_bytes (of_nat n)" using more_bytes_of_nat [of n] True by simp
  moreover have "and (of_nat n :: 32 word) 0x7F = of_nat n" using True by (simp only: low_bits mod_less)
  ultimately show ?thesis
    using or_shift [OF assms(1), of n]
    by (simp only: ReadVarint32_steps.simps g prod.case Let_def if_True not_False_eq_True)
next
  case False
  let ?f = "f\<lparr>bytes_left := map of_nat (varint_bytes (n div 128)) @ rest\<rparr>"
  let ?b = "n mod 128 + 128"
  have b: "?b < 256" "128 \<le> ?b" "?b mod 128 = n mod 128" by simp_all
  have g: "GetByte f = (of_nat ?b, ?f)"
    using False assms(2) b(1) by (intro GetByte_Cons) (simp_all add: varint_bytes.simps [of n])
  have m: "more_bytes (of_nat ?b)" using more_bytes_of_nat [OF b(1)] b(2) by blast
  have l: "and (of_nat ?b :: 32 word) 0x7F = of_nat (n mod 128)" by (simp only: low_bits b(3))
  have "a + (n mod 128) * 2 ^ k + (n div 128) * 2 ^ (k + 7) = a + n * 2 ^ k"
  proof -
    obtain q r where "n div 128 = q" "n mod 128 = r" "n = q * 128 + r" using div_mult_mod_eq [of n 128] by metis
    then show ?thesis by (simp add: power_add algebra_simps)
  qed
  then show ?thesis
    using assms(3) [of ?f] False or_shift [OF assms(1), of "n mod 128"]
    by (simp only: ReadVarint32_steps.simps g m l prod.case Let_def if_False not_True_eq_False) simp
qed

lemma ReadVarint32_bytes:
  assumes "\<not> has_error f" "\<not> at_eof f" "bytes_left f = map of_nat (varint_bytes n) @ rest" "n < 2 ^ 32"
  shows "ReadVarint32 f = (Some (of_nat n), f\<lparr>bytes_left := rest\<rparr>)"
proof -
  have d: "m mod 128 * 2 ^ k + a < 2 ^ (k + 7)" if "a < 2 ^ k" for a k m :: nat
  proof -
    have "m mod 128 * 2 ^ k \<le> 127 * 2 ^ k" by (intro mult_right_mono) auto
    then have "m mod 128 * 2 ^ k + a < 127 * 2 ^ k + 1 * 2 ^ k" using that by linarith
    also have "\<dots> = 2 ^ (k + 7)" by (simp add: power_add)
    finally show ?thesis .
  qed
  have s3: "ReadVarint32_steps [21] (of_nat a) g = (Some (of_nat (a + m * 2 ^ 21)), g\<lparr>bytes_left := rest\<rparr>)"
    if "a < 2 ^ 21" "m < 2 ^ 11" "bytes_left g = map of_nat (varint_bytes m) @ rest" for a m g
  proof (rule ReadVarint32_step [OF that(1,3)], goal_cases)
    case (1 f')
    show ?case
      using ReadVarint32_last [OF _ _ 1(2), of "a + m mod 128 * 2 ^ 21"] d [OF that(1), of m] that(2)
      by (simp add: add.commute div_less_iff_less_mult)
  qed
  have s2: "ReadVarint32_steps [14, 21] (of_nat a) g = (Some (of_nat (a + m * 2 ^ 14)), g\<lparr>bytes_left := rest\<rparr>)"
    if "a < 2 ^ 14" "m < 2 ^ 18" "bytes_left g = map of_nat (varint_bytes m) @ rest" for a m g
  proof (rule ReadVarint32_step [OF that(1,3)], goal_cases)
    case (1 f')
    show ?case
      using s3 [OF _ _ 1(2), of "a + m mod 128 * 2 ^ 14"] d [OF that(1), of m] that(2)
      by (simp add: add.commute div_less_iff_less_mult del: ReadVarint32_steps.simps)
  qed
  have s1: "ReadVarint32_steps [7, 14, 21] (of_nat a) g = (Some (of_nat (a + m * 2 ^ 7)), g\<lparr>bytes_left := rest\<rparr>)"
    if "a < 2 ^ 7" "m < 2 ^ 25" "bytes_left g = map of_nat (varint_bytes m) @ rest" for a m g
  proof (rule ReadVarint32_step [OF that(1,3)], goal_cases)
    case (1 f')
    show ?case
      using s2 [OF _ _ 1(2), of "a + m mod 128 * 2 ^ 7"] d [OF that(1), of m] that(2)
      by (simp add: add.commute div_less_iff_less_mult del: ReadVarint32_steps.simps)
  qed
  have "ReadVarint32_steps [0, 7, 14, 21] (of_nat 0) f = (Some (of_nat (0 + n * 2 ^ 0)), f\<lparr>bytes_left := rest\<rparr>)"
  proof (rule ReadVarint32_step [OF _ assms(3)], goal_cases)
    case (2 f')
    show ?case
      using s1 [OF _ _ 2(2), of "n mod 128"] assms(4)
      by (simp add: div_less_iff_less_mult del: ReadVarint32_steps.simps)
  qed simp
  then show ?thesis using assms by (simp add: ReadVarint32_def)
qed

lemma length_varint_bytes_le: "length (varint_bytes m) \<le> Suc k \<longleftrightarrow> m < 128 ^ Suc k"
proof (induction k arbitrary: m)
  case 0
  have "0 < length (varint_bytes (m div 128))" by (subst varint_bytes.simps) simp
  then show ?case by (subst varint_bytes.simps) auto
next
  case (Suc k)
  have "length (varint_bytes m) \<le> Suc (Suc k) \<longleftrightarrow> m < 128 \<or> m div 128 < 128 ^ Suc k"
    by (subst varint_bytes.simps) (simp add: Suc)
  also have "\<dots> \<longleftrightarrow> m < 128 \<or> m < 128 ^ Suc k * 128" by (simp only: div_less_iff_less_mult zero_less_numeral)
  also have "\<dots> \<longleftrightarrow> m < 128 ^ Suc (Suc k)"
  proof -
    have "128 \<le> (128::nat) ^ Suc k * 128" by simp
    then show ?thesis unfolding power_Suc2 [of 128 "Suc k"] by linarith
  qed
  finally show ?case .
qed

lemma length_varint_bytes: "n < 2 ^ 28 \<longleftrightarrow> length (varint_bytes n) \<le> 4"
proof -
  have "Suc 3 = 4" "(128::nat) ^ 4 = 2 ^ 28" by simp_all
  then show ?thesis using length_varint_bytes_le [of n 3] by metis
qed

section \<open>Properties\<close>

text \<open>The decimal key of an int32 that is not negative reads back as the same number, and the memory
  image of every value of the four types decodes to it.\<close>

theorem codec_roundtrip:
  assumes "0 \<le> v" "v < 2 ^ 31" "- (2 ^ 31) \<le> i32" "i32 < 2 ^ 31" "0 \<le> u32" "u32 < 2 ^ 32"
    "- (2 ^ 63) \<le> i64" "i64 < 2 ^ 63" "0 \<le> u64" "u64 < 2 ^ 64"
  shows "rbind (Int32ToKey v) (\<lambda>key. Inr (KeyToInt32 v0 key)) = Inr v
    \<and> DecodeInt32 (EncodeInt32 i32) = Inr i32 \<and> DecodeUint32 (EncodeUint32 u32) = Inr u32
    \<and> DecodeInt64 (EncodeInt64 i64) = Inr i64 \<and> DecodeUint64 (EncodeUint64 u64) = Inr u64"
  using assms by (simp add: Int32ToKey_def NumericValueToKey_def KeyToInt32_pad DecodeInt32_def EncodeInt32_def
      DecodeUint32_def EncodeUint32_def DecodeInt64_def EncodeInt64_def DecodeUint64_def EncodeUint64_def
      DecodeNumericValue_Encode)

lemma codec_roundtrip_witness:
  "rbind (Int32ToKey 42) (\<lambda>key. Inr (KeyToInt32 7 key)) = Inr 42 \<and> DecodeInt32 (EncodeInt32 (- 5)) = Inr (- 5)"
  using codec_roundtrip [of 42 "- 5" 0 0 0 7] by simp

text \<open>the keys of the wider types are lossy: Int64ToKey and Uint64ToKey of a number whose low 32 bits
  read as an int32 v give the key of v, and a CHECK fails when v is negative; Uint32ToKey fails for
  every value from 2^31 on.\<close>

theorem wide_keys_truncate:
  assumes "0 \<le> v" "v < 2 ^ 31" "2 ^ 31 \<le> u" "u < 2 ^ 32"
  shows "Int64ToKey (v + k * 2 ^ 32) = Int32ToKey v \<and> Uint64ToKey (v + k * 2 ^ 32) = Int32ToKey v
    \<and> Uint32ToKey u = Inl Abort \<and> Int64ToKey (u + k * 2 ^ 32) = Inl Abort"
proof -
  have "wrap32 (v + k * 2 ^ 32) = v"
  proof -
    have "(v + k * 2 ^ 32 + 2 ^ 31) mod 2 ^ 32 = (v + 2 ^ 31 + k * 2 ^ 32) mod 2 ^ 32"
      by (simp add: algebra_simps)
    also have "\<dots> = v + 2 ^ 31" using assms by (simp only: mod_mult_self1) simp
    finally show ?thesis by (simp add: wrap32_def)
  qed
  moreover have "wrap32 (u + k * 2 ^ 32) < 0" for k
  proof -
    have "(u + k * 2 ^ 32 + 2 ^ 31) mod 2 ^ 32 = (u - 2 ^ 31 + (k + 1) * 2 ^ 32) mod 2 ^ 32"
      by (simp add: algebra_simps)
    also have "\<dots> = u - 2 ^ 31" using assms by (simp only: mod_mult_self1) simp
    finally show ?thesis using assms by (simp add: wrap32_def)
  qed
  from this [of k] this [of 0] have "wrap32 (u + k * 2 ^ 32) < 0" "wrap32 u < 0" by simp_all
  ultimately show ?thesis
    by (simp add: Int64ToKey_def Uint64ToKey_def Int32ToKey_def Uint32ToKey_def NumericValueToKey_def)
qed

lemma wide_keys_truncate_witness:
  "Int64ToKey 4294967301 = Int32ToKey 5 \<and> Uint32ToKey 3000000000 = Inl Abort"
  using wide_keys_truncate [of 5 3000000000 1] by simp

text \<open>C34: WriteVarint32 followed by ReadVarint32 is the identity below 2^28 and leaves the rest of the
  stream; from 2^28 on the five bytes of the encoding do not fit into the buffer of four.\<close>

theorem varint_roundtrip:
  assumes "\<And>v. to_array v = map of_nat (varint_bytes (unat v))"
    "\<And>bs. written bs = length bs" "\<not> has_error f" "\<not> at_eof f"
  shows "if v < 2 ^ 28
    then \<exists>bytes. WriteVarint32 to_array written v = Inr (True, bytes)
      \<and> ReadVarint32 (f\<lparr>bytes_left := bytes @ rest\<rparr>) = (Some v, f\<lparr>bytes_left := rest\<rparr>)
    else WriteVarint32 to_array written v = Inl OutOfBounds"
proof -
  have "v < 2 ^ 28 \<longleftrightarrow> unat v < 2 ^ 28" by (simp add: word_less_nat_alt)
  moreover have "unat v < 2 ^ 32" using unsigned_less [of v] by simp
  moreover have "ReadVarint32 (f\<lparr>bytes_left := map of_nat (varint_bytes (unat v)) @ rest\<rparr>)
      = (Some (of_nat (unat v)), f\<lparr>bytes_left := map of_nat (varint_bytes (unat v)) @ rest, bytes_left := rest\<rparr>)"
    using assms(3,4) \<open>unat v < 2 ^ 32\<close> by (intro ReadVarint32_bytes) simp_all
  ultimately show ?thesis
    using length_varint_bytes [of "unat v"] assms(1,2) by (simp add: WriteVarint32_def Let_def not_le)
qed

lemma varint_roundtrip_witness:
  "WriteVarint32 (\<lambda>v. map of_nat (varint_bytes (unat v))) length 300000000 = Inl OutOfBounds"
  using varint_roundtrip [of "\<lambda>v. map of_nat (varint_bytes (unat v))" length
    "\<lparr>bytes_left = [], at_eof = False, has_error = False\<rparr>" 300000000 "[]"] by simp

end
