(* ===== verification/Messages.thy ===== *)
theory Messages
  imports StdMap StringCodec
begin

text \<open>
  The protocol messages of src/server/tracker_protocol.proto as the generated classes of
  tracker_protocol.pb.h present them (a field is present or not, a getter of an absent field yields
  the default), and the records of src/server/protofile.cc, which pack messages into the repeated
  bytes of a KeyValuesPair. The wire format belongs to the protobuf library: serialising and
  parsing are arguments, collected in a record.
\<close>

section \<open>Messages\<close>

datatype TrackerType = UNKNOWN_TRACKER | MASTER_TYPE | WORKER_TYPE | CLIENT_TYPE

datatype ProtocolType = UNKNOWN_PROTOCOL | ELECTION | COORDINATOR | MASTER_ASK_TRACKER
  | MASTER_REPORT_STATUS | WORKER_ASK_TRACKER | WORKER_REPORT_STATUS | CREATE_JOB_ID | COMMIT_JOB
  | SYNC_TASK_DUPLICATE | REQUEST_TASK_DUPLICATE | WORKER_REQUEST_TASK | TASK_COMPLETED
  | ASK_TASK_STATUS | MASTER_JOIN_GROUP | MASTER_GROUP_CHANGED

record KeyValuePair =
  kv_key_field :: "string option"
  kv_value_field :: "string option"

record KeyValuesPair =
  kvs_key_field :: "string option"
  kvs_value :: "string list"

record FdcsTask =
  task_id_field :: "string option"
  lease_time_field :: "int option"
  task_key_values_pairs :: "KeyValuesPair list"

record TrackerStatus =
  socket_addr_field :: "string option"
  active_field :: "bool option"
  status_tracker_type_field :: "TrackerType option"
  start_time_field :: "string option"
  run_time_field :: "string option"
  process_num_field :: "int option"
  free_disk_field :: "int option"
  total_disk_field :: "int option"
  free_memory_field :: "int option"
  total_memory_field :: "int option"

record TrackerProtocol =
  id_field :: "int option"
  time_field :: "int option"
  protocol_type_field :: "ProtocolType option"
  tracker_type_field :: "TrackerType option"
  request_sock_addr_field :: "string option"
  request_args_field :: "string option"
  response_sock_addr_field :: "string option"
  forwarding_sock_fd_field :: "int option"
  response_result_field :: "string option"
  tracker_status_list :: "TrackerStatus list"
  key_values_pairs :: "KeyValuesPair list"

definition get :: "'a \<Rightarrow> 'a option \<Rightarrow> 'a" where
  "get dflt f = (case f of None \<Rightarrow> dflt | Some x \<Rightarrow> x)"

lemma get_simps [simp]: "get d None = d" "get d (Some x) = x"
  by (simp_all add: get_def)

text \<open>Getters with the defaults of the .proto file.\<close>

definition kv_key :: "KeyValuePair \<Rightarrow> string" where "kv_key m = get [] (kv_key_field m)"
definition kv_value :: "KeyValuePair \<Rightarrow> string" where "kv_value m = get [] (kv_value_field m)"
definition kvs_key :: "KeyValuesPair \<Rightarrow> string" where "kvs_key m = get [] (kvs_key_field m)"
definition task_id :: "FdcsTask \<Rightarrow> string" where "task_id t = get [] (task_id_field t)"
definition lease_time :: "FdcsTask \<Rightarrow> int" where "lease_time t = get 0 (lease_time_field t)"
definition proto_time :: "TrackerProtocol \<Rightarrow> int" where "proto_time p = get 0 (time_field p)"
definition protocol_type :: "TrackerProtocol \<Rightarrow> ProtocolType" where
  "protocol_type p = get UNKNOWN_PROTOCOL (protocol_type_field p)"
definition request_sock_addr :: "TrackerProtocol \<Rightarrow> string" where
  "request_sock_addr p = get [] (request_sock_addr_field p)"
definition request_args :: "TrackerProtocol \<Rightarrow> string" where
  "request_args p = get [] (request_args_field p)"
definition response_sock_addr :: "TrackerProtocol \<Rightarrow> string" where
  "response_sock_addr p = get [] (response_sock_addr_field p)"
definition forwarding_sock_fd :: "TrackerProtocol \<Rightarrow> int" where
  "forwarding_sock_fd p = get (- 1) (forwarding_sock_fd_field p)"
definition response_result :: "TrackerProtocol \<Rightarrow> string" where
  "response_result p = get [] (response_result_field p)"

lemmas getter_defs = kv_key_def kv_value_def kvs_key_def task_id_def lease_time_def proto_time_def
  protocol_type_def request_sock_addr_def request_args_def response_sock_addr_def
  forwarding_sock_fd_def response_result_def

text \<open>Messages as their constructors leave them, and the setters that the code uses.\<close>

definition new_KeyValuePair :: KeyValuePair where
  "new_KeyValuePair = \<lparr>kv_key_field = None, kv_value_field = None\<rparr>"

definition new_KeyValuesPair :: KeyValuesPair where
  "new_KeyValuesPair = \<lparr>kvs_key_field = None, kvs_value = []\<rparr>"

definition new_FdcsTask :: FdcsTask where
  "new_FdcsTask = \<lparr>task_id_field = None, lease_time_field = None, task_key_values_pairs = []\<rparr>"

definition new_TrackerStatus :: TrackerStatus where
  "new_TrackerStatus = \<lparr>socket_addr_field = None, active_field = None,
     status_tracker_type_field = None, start_time_field = None, run_time_field = None,
     process_num_field = None, free_disk_field = None, total_disk_field = None,
     free_memory_field = None, total_memory_field = None\<rparr>"

definition new_TrackerProtocol :: TrackerProtocol where
  "new_TrackerProtocol = \<lparr>id_field = None, time_field = None, protocol_type_field = None,
     tracker_type_field = None, request_sock_addr_field = None, request_args_field = None,
     response_sock_addr_field = None, forwarding_sock_fd_field = None,
     response_result_field = None, tracker_status_list = [], key_values_pairs = []\<rparr>"

definition set_lease_time :: "int \<Rightarrow> FdcsTask \<Rightarrow> FdcsTask" where
  "set_lease_time z t = t\<lparr>lease_time_field := Some z\<rparr>"

definition clear_lease_time :: "FdcsTask \<Rightarrow> FdcsTask" where
  "clear_lease_time t = t\<lparr>lease_time_field := None\<rparr>"

lemma lease_simps [simp]:
  "task_id (set_lease_time z t) = task_id t" "lease_time (set_lease_time z t) = z"
  "task_id (clear_lease_time t) = task_id t" "lease_time (clear_lease_time t) = 0"
  by (simp_all add: set_lease_time_def clear_lease_time_def getter_defs)

section \<open>Records in a KeyValuesPair\<close>

text \<open>
  Serialising and parsing. Parsing yields the message that ParseFromArray leaves behind after
  Clear, also for bytes it rejects, since the code ignores the result.
\<close>

record codec =
  ser_task :: "FdcsTask \<Rightarrow> string"
  parse_task :: "string \<Rightarrow> FdcsTask"
  ser_pair :: "KeyValuePair \<Rightarrow> string"
  parse_pair :: "string \<Rightarrow> KeyValuePair"
  ser_status :: "TrackerStatus \<Rightarrow> string"
  parse_status :: "string \<Rightarrow> TrackerStatus"
  ser_proto :: "TrackerProtocol \<Rightarrow> string"
  parse_proto :: "string \<Rightarrow> TrackerProtocol"

text \<open>The documented behaviour: parsing the serialised form of a message gives the message.\<close>

definition lossless :: "codec \<Rightarrow> bool" where
  "lossless cd \<longleftrightarrow> (\<forall>m. parse_task cd (ser_task cd m) = m) \<and> (\<forall>m. parse_pair cd (ser_pair cd m) = m)
     \<and> (\<forall>m. parse_status cd (ser_status cd m) = m) \<and> (\<forall>m. parse_proto cd (ser_proto cd m) = m)"

lemma losslessD [simp]:
  assumes "lossless cd"
  shows "parse_task cd (ser_task cd t) = t" "parse_pair cd (ser_pair cd m) = m"
    "parse_status cd (ser_status cd st) = st" "parse_proto cd (ser_proto cd p) = p"
  using assms by (simp_all add: lossless_def)

definition ParseValue :: "(string \<Rightarrow> 'm) \<Rightarrow> string \<Rightarrow> 'm" where
  "ParseValue parse bytes = parse bytes"

fun ReadRecord :: "(string \<Rightarrow> 'm) \<Rightarrow> string list \<Rightarrow> 'm list \<Rightarrow> 'm list" where
  "ReadRecord parse [] values = values"
| "ReadRecord parse (b # bs) values = ReadRecord parse bs (values @ [ParseValue parse b])"

definition ReadRecord_tasks :: "codec \<Rightarrow> KeyValuesPair \<Rightarrow> FdcsTask list \<Rightarrow> FdcsTask list" where
  "ReadRecord_tasks cd pairs values = ReadRecord (parse_task cd) (kvs_value pairs) values"

definition ReadRecord_status :: "codec \<Rightarrow> KeyValuesPair \<Rightarrow> TrackerStatus list \<Rightarrow> TrackerStatus list" where
  "ReadRecord_status cd pairs values = ReadRecord (parse_status cd) (kvs_value pairs) values"

definition ReadRecord_pairs :: "codec \<Rightarrow> KeyValuesPair \<Rightarrow> KeyValuePair list \<Rightarrow> KeyValuePair list" where
  "ReadRecord_pairs cd pairs values = ReadRecord (parse_pair cd) (kvs_value pairs) values"

fun ReadRecord_map_loop :: "codec \<Rightarrow> string list \<Rightarrow> (string, string) smap \<Rightarrow> (string, string) smap" where
  "ReadRecord_map_loop cd [] key_values = key_values"
| "ReadRecord_map_loop cd (b # bs) key_values =
     (let v = ParseValue (parse_pair cd) b
      in ReadRecord_map_loop cd bs (smap_insert (kv_key v) (kv_value v) key_values))"

definition ReadRecord_map :: "codec \<Rightarrow> KeyValuesPair \<Rightarrow> (string, string) smap \<Rightarrow> (string, string) smap" where
  "ReadRecord_map cd pairs key_values = ReadRecord_map_loop cd (kvs_value pairs) key_values"

definition SerializeValue :: "('m \<Rightarrow> string) \<Rightarrow> KeyValuesPair \<Rightarrow> 'm \<Rightarrow> KeyValuesPair" where
  "SerializeValue ser pairs m = pairs\<lparr>kvs_value := kvs_value pairs @ [ser m]\<rparr>"

definition WriteRecord_task :: "codec \<Rightarrow> KeyValuesPair \<Rightarrow> FdcsTask \<Rightarrow> KeyValuesPair" where
  "WriteRecord_task cd pairs value = SerializeValue (ser_task cd) pairs value"

definition WriteRecord_status :: "codec \<Rightarrow> KeyValuesPair \<Rightarrow> TrackerStatus \<Rightarrow> KeyValuesPair" where
  "WriteRecord_status cd pairs value = SerializeValue (ser_status cd) pairs value"

definition WriteRecord_pair :: "codec \<Rightarrow> KeyValuesPair \<Rightarrow> KeyValuePair \<Rightarrow> KeyValuesPair" where
  "WriteRecord_pair cd pairs value = SerializeValue (ser_pair cd) pairs value"

lemma ReadRecord_append: "ReadRecord parse bs vs = vs @ map parse bs"
  by (induction parse bs vs rule: ReadRecord.induct) (auto simp: ParseValue_def)

lemma fold_WriteRecord_task:
  "fold (\<lambda>t p. WriteRecord_task cd p t) ts pairs
    = pairs\<lparr>kvs_value := kvs_value pairs @ map (ser_task cd) ts\<rparr>"
  by (induction ts arbitrary: pairs) (auto simp: WriteRecord_task_def SerializeValue_def)

lemma ReadRecord_map_fold: "ReadRecord_map_loop cd bs m =
    fold (\<lambda>(k, v). smap_insert k v) (map (\<lambda>b. (kv_key (parse_pair cd b), kv_value (parse_pair cd b))) bs) m"
  by (induction cd bs m rule: ReadRecord_map_loop.induct) (auto simp: Let_def ParseValue_def)

text \<open>Reading into a map: of several pairs with the same key the first counts.\<close>

lemma ReadRecord_map_find: "smap_find (ReadRecord_map cd pairs []) =
    map_of (map (\<lambda>b. (kv_key (parse_pair cd b), kv_value (parse_pair cd b))) (kvs_value pairs))"
  unfolding ReadRecord_map_def ReadRecord_map_fold by (rule smap.find_load_empty)

section \<open>A concrete codec\<close>

text \<open>
  A lossless codec exists: the list of the fields of a message, each with its length in unary. The
  witnesses of the properties about messages use it.
\<close>

fun pack :: "string list \<Rightarrow> string" where
  "pack [] = []"
| "pack (s # ss) = replicate (length s) (CHR ''1'') @ CHR ''0'' # s @ pack ss"

function unpack :: "string \<Rightarrow> string list" where
  "unpack x =
     (if x = [] then []
      else let n = length (takeWhile (\<lambda>c. c = CHR ''1'') x)
           in take n (drop (Suc n) x) # unpack (drop (Suc n + n) x))"
  by pat_completeness auto

termination unpack by (relation "measure length") auto

declare unpack.simps [simp del]

lemma takeWhile_unary: "takeWhile (\<lambda>c. c = CHR ''1'') (replicate k (CHR ''1'') @ CHR ''0'' # r) = replicate k (CHR ''1'')"
  by (induction k) simp_all

lemma unpack_pack: "unpack (pack ss) = ss"
proof (induction ss)
  case (Cons s ss)
  let ?x = "pack (s # ss)"
  have n: "length (takeWhile (\<lambda>c. c = CHR ''1'') ?x) = length s"
    by (simp add: takeWhile_unary)
  have "?x \<noteq> []" by simp
  then have "unpack ?x = take (length s) (drop (Suc (length s)) ?x) # unpack (drop (Suc (length s) + length s) ?x)"
    by (subst unpack.simps) (simp only: n Let_def if_False)
  also have "\<dots> = s # unpack (pack ss)" by simp
  finally show ?case using Cons by simp
qed (simp add: unpack.simps)

definition pack_option :: "('a \<Rightarrow> string) \<Rightarrow> 'a option \<Rightarrow> string" where
  "pack_option f x = (case x of None \<Rightarrow> [] | Some y \<Rightarrow> CHR ''+'' # f y)"

definition unpack_option :: "(string \<Rightarrow> 'a) \<Rightarrow> string \<Rightarrow> 'a option" where
  "unpack_option f s = (case s of [] \<Rightarrow> None | c # r \<Rightarrow> Some (f r))"

definition pack_int :: "int \<Rightarrow> string" where
  "pack_int z = (if z < 0 then CHR ''-'' else CHR ''+'') # decimal (nat \<bar>z\<bar>)"

definition unpack_int :: "string \<Rightarrow> int" where
  "unpack_int s = (case s of [] \<Rightarrow> 0 | c # r \<Rightarrow> if c = CHR ''-'' then - digits_value r else digits_value r)"

definition enum_index :: "'a list \<Rightarrow> 'a \<Rightarrow> string" where
  "enum_index xs x = pack_int (int (length (takeWhile (\<lambda>y. y \<noteq> x) xs)))"

definition enum_value :: "'a list \<Rightarrow> string \<Rightarrow> 'a" where
  "enum_value xs s = xs ! nat (unpack_int s)"

lemma unpack_option_pack [simp]: "(\<And>x. g (f x) = x) \<Longrightarrow> unpack_option g (pack_option f v) = v"
  by (cases v) (simp_all add: unpack_option_def pack_option_def)

lemma unpack_int_pack [simp]: "unpack_int (pack_int z) = z"
  using decimal_digits [of "nat \<bar>z\<bar>"] by (simp add: unpack_int_def pack_int_def)

lemma enum_value_index: "x \<in> set xs \<Longrightarrow> enum_value xs (enum_index xs x) = x"
  by (induction xs) (auto simp: enum_value_def enum_index_def nat_add_distrib)

definition tracker_types where "tracker_types = [UNKNOWN_TRACKER, MASTER_TYPE, WORKER_TYPE, CLIENT_TYPE]"
definition protocol_types where "protocol_types = [UNKNOWN_PROTOCOL, ELECTION, COORDINATOR, MASTER_ASK_TRACKER,
  MASTER_REPORT_STATUS, WORKER_ASK_TRACKER, WORKER_REPORT_STATUS, CREATE_JOB_ID, COMMIT_JOB,
  SYNC_TASK_DUPLICATE, REQUEST_TASK_DUPLICATE, WORKER_REQUEST_TASK, TASK_COMPLETED,
  ASK_TASK_STATUS, MASTER_JOIN_GROUP, MASTER_GROUP_CHANGED]"
definition bools :: "bool list" where "bools = [False, True]"

lemma enum_simps [simp]:
  "enum_value tracker_types (enum_index tracker_types x) = x"
  "enum_value protocol_types (enum_index protocol_types y) = y"
  "enum_value bools (enum_index bools b) = b"
proof -
  have "x \<in> set tracker_types" by (cases x) (simp_all add: tracker_types_def)
  moreover have "y \<in> set protocol_types" by (cases y) (simp_all add: protocol_types_def)
  moreover have "b \<in> set bools" by (simp add: bools_def)
  ultimately show "enum_value tracker_types (enum_index tracker_types x) = x"
    "enum_value protocol_types (enum_index protocol_types y) = y"
    "enum_value bools (enum_index bools b) = b"
    by (simp_all add: enum_value_index)
qed

definition pack_pair :: "KeyValuePair \<Rightarrow> string" where
  "pack_pair m = pack [pack_option id (kv_key_field m), pack_option id (kv_value_field m)]"

definition unpack_pair :: "string \<Rightarrow> KeyValuePair" where
  "unpack_pair s = (case unpack s of [a, b] \<Rightarrow>
       \<lparr>kv_key_field = unpack_option id a, kv_value_field = unpack_option id b\<rparr>
     | _ \<Rightarrow> new_KeyValuePair)"

definition pack_pairs :: "KeyValuesPair \<Rightarrow> string" where
  "pack_pairs m = pack (pack_option id (kvs_key_field m) # kvs_value m)"

definition unpack_pairs :: "string \<Rightarrow> KeyValuesPair" where
  "unpack_pairs s = (case unpack s of [] \<Rightarrow> new_KeyValuesPair
     | a # r \<Rightarrow> \<lparr>kvs_key_field = unpack_option id a, kvs_value = r\<rparr>)"

definition pack_task :: "FdcsTask \<Rightarrow> string" where
  "pack_task t = pack (pack_option id (task_id_field t) # pack_option pack_int (lease_time_field t)
     # map pack_pairs (task_key_values_pairs t))"

definition unpack_task :: "string \<Rightarrow> FdcsTask" where
  "unpack_task s = (case unpack s of a # b # r \<Rightarrow>
       \<lparr>task_id_field = unpack_option id a, lease_time_field = unpack_option unpack_int b,
        task_key_values_pairs = map unpack_pairs r\<rparr>
     | _ \<Rightarrow> new_FdcsTask)"

definition pack_status :: "TrackerStatus \<Rightarrow> string" where
  "pack_status t = pack [pack_option id (socket_addr_field t), pack_option (enum_index bools) (active_field t),
     pack_option (enum_index tracker_types) (status_tracker_type_field t),
     pack_option id (start_time_field t), pack_option id (run_time_field t),
     pack_option pack_int (process_num_field t), pack_option pack_int (free_disk_field t),
     pack_option pack_int (total_disk_field t), pack_option pack_int (free_memory_field t),
     pack_option pack_int (total_memory_field t)]"

definition unpack_status :: "string \<Rightarrow> TrackerStatus" where
  "unpack_status s = (case unpack s of [a, b, c, d, e, f, g, h, i, j] \<Rightarrow>
       \<lparr>socket_addr_field = unpack_option id a, active_field = unpack_option (enum_value bools) b,
        status_tracker_type_field = unpack_option (enum_value tracker_types) c,
        start_time_field = unpack_option id d, run_time_field = unpack_option id e,
        process_num_field = unpack_option unpack_int f, free_disk_field = unpack_option unpack_int g,
        total_disk_field = unpack_option unpack_int h, free_memory_field = unpack_option unpack_int i,
        total_memory_field = unpack_option unpack_int j\<rparr>
     | _ \<Rightarrow> new_TrackerStatus)"

definition pack_proto :: "TrackerProtocol \<Rightarrow> string" where
  "pack_proto p = pack [pack_option pack_int (id_field p), pack_option pack_int (time_field p),
     pack_option (enum_index protocol_types) (protocol_type_field p),
     pack_option (enum_index tracker_types) (tracker_type_field p),
     pack_option id (request_sock_addr_field p), pack_option id (request_args_field p),
     pack_option id (response_sock_addr_field p), pack_option pack_int (forwarding_sock_fd_field p),
     pack_option id (response_result_field p), pack (map pack_status (tracker_status_list p)),
     pack (map pack_pairs (key_values_pairs p))]"

definition unpack_proto :: "string \<Rightarrow> TrackerProtocol" where
  "unpack_proto s = (case unpack s of [a, b, c, d, e, f, g, h, i, j, k] \<Rightarrow>
       \<lparr>id_field = unpack_option unpack_int a, time_field = unpack_option unpack_int b,
        protocol_type_field = unpack_option (enum_value protocol_types) c,
        tracker_type_field = unpack_option (enum_value tracker_types) d,
        request_sock_addr_field = unpack_option id e, request_args_field = unpack_option id f,
        response_sock_addr_field = unpack_option id g,
        forwarding_sock_fd_field = unpack_option unpack_int h,
        response_result_field = unpack_option id i,
        tracker_status_list = map unpack_status (unpack j),
        key_values_pairs = map unpack_pairs (unpack k)\<rparr>
     | _ \<Rightarrow> new_TrackerProtocol)"

definition field_codec :: codec where
  "field_codec = \<lparr>ser_task = pack_task, parse_task = unpack_task, ser_pair = pack_pair,
     parse_pair = unpack_pair, ser_status = pack_status, parse_status = unpack_status,
     ser_proto = pack_proto, parse_proto = unpack_proto\<rparr>"

lemma unpack_packs [simp]:
  "unpack_pair (pack_pair m) = m" "unpack_pairs (pack_pairs ps) = ps"
  "unpack_status (pack_status st) = st"
  by (simp_all add: unpack_pair_def pack_pair_def unpack_pairs_def pack_pairs_def unpack_status_def
      pack_status_def unpack_pack del: pack.simps)

lemma field_codec_lossless [simp]: "lossless field_codec"
  by (simp add: lossless_def field_codec_def unpack_task_def pack_task_def unpack_proto_def
      pack_proto_def unpack_pack comp_def del: pack.simps)

section \<open>Properties\<close>

text \<open>Tasks written with WriteRecord into the values of a pair are read back by ReadRecord in order
  after the ones already read, and a map of times read from an empty map holds the first value that
  was written for each key.\<close>

theorem records_roundtrip:
  assumes "lossless cd"
  shows "ReadRecord_tasks cd (fold (\<lambda>t p. WriteRecord_task cd p t) ts new_KeyValuesPair) vs = vs @ ts
    \<and> smap_find (ReadRecord_map cd (fold (\<lambda>m p. WriteRecord_pair cd p m) ms new_KeyValuesPair) [])
        = map_of (map (\<lambda>m. (kv_key m, kv_value m)) ms)"
proof -
  have "fold (\<lambda>m p. WriteRecord_pair cd p m) ms pairs
      = pairs\<lparr>kvs_value := kvs_value pairs @ map (ser_pair cd) ms\<rparr>" for pairs
    by (induction ms arbitrary: pairs) (auto simp: WriteRecord_pair_def SerializeValue_def)
  then show ?thesis
    using assms
    by (simp add: ReadRecord_tasks_def ReadRecord_append fold_WriteRecord_task ReadRecord_map_find
        new_KeyValuesPair_def comp_def)
qed

lemma records_roundtrip_witness:
  "ReadRecord_tasks field_codec (fold (\<lambda>t p. WriteRecord_task field_codec p t) [new_FdcsTask] new_KeyValuesPair) []
    = [new_FdcsTask]"
  using records_roundtrip [of field_codec "[new_FdcsTask]" "[]" "[]"] by simp

end
