(* ===== verification/Settings.thy ===== *)
theory Settings
  imports Prelude
begin

text \<open>
  The settings of a server, struct settings_s of src/base/common_define.h, and the literals of the
  protocol that this header defines. A const char pointer is an option, None for NULL.
\<close>

record settings_s =
  config_file :: string
  run_as_daemon :: bool
  max_core_file :: bool
  info_log :: "string option"
  debug_log :: "string option"
  warn_log :: "string option"
  err_log :: "string option"
  run_by_user :: "string option"
  pid_file :: "string option"
  class_factory :: "string option"
  tracker_group :: "string option"
  tracker_server :: "string option"
  mysql_database :: "string option"
  mysql_host :: "string option"
  mysql_user :: "string option"
  mysql_passwd :: "string option"
  max_connections :: int
  socket_buff_size :: int
  log_max_size :: int
  computing_threads :: int
  preload_tasks :: int
  task_duplicate :: int
  connect_timeout :: int
  network_timeout :: int
  heart_beat_interval :: int
  stat_report_interval :: int
  lease_timeout :: int
  mysql_port :: int

text \<open>The constructor.\<close>

definition default_settings :: settings_s where
  "default_settings = \<lparr>config_file = [], run_as_daemon = False, max_core_file = False,
     info_log = None, debug_log = None, warn_log = None, err_log = None, run_by_user = None, pid_file = None,
     class_factory = None, tracker_group = None, tracker_server = None, mysql_database = None,
     mysql_host = None, mysql_user = None, mysql_passwd = None, max_connections = 256,
     socket_buff_size = 64 * 1024, log_max_size = 10 * 1024 * 1024, computing_threads = 1,
     preload_tasks = 100, task_duplicate = 10, connect_timeout = 30, network_timeout = 30,
     heart_beat_interval = 30, stat_report_interval = 30, lease_timeout = 10, mysql_port = 3306\<rparr>"

definition RESPONSE_RESULT_SUCCESS :: string where "RESPONSE_RESULT_SUCCESS = ''success''"
definition RESPONSE_RESULT_FAILDURE :: string where "RESPONSE_RESULT_FAILDURE = ''faildure''"
definition RESPONSE_RESULT_COMPLETE :: string where "RESPONSE_RESULT_COMPLETE = ''complete''"
definition KEYVALUEPAIRS_TASK :: string where "KEYVALUEPAIRS_TASK = ''FdcsTask''"
definition KEYVALUEPAIRS_TASK_COMPLETE :: string where "KEYVALUEPAIRS_TASK_COMPLETE = ''FdcsTaskComplete''"
definition KEYVALUEPAIRS_FDCS_TIME :: string where "KEYVALUEPAIRS_FDCS_TIME = ''FdcsTime''"

lemmas literals = RESPONSE_RESULT_SUCCESS_def RESPONSE_RESULT_FAILDURE_def RESPONSE_RESULT_COMPLETE_def
  KEYVALUEPAIRS_TASK_def KEYVALUEPAIRS_TASK_COMPLETE_def KEYVALUEPAIRS_FDCS_TIME_def

lemma keys_differ [simp]:
  "KEYVALUEPAIRS_TASK \<noteq> KEYVALUEPAIRS_TASK_COMPLETE" "KEYVALUEPAIRS_TASK_COMPLETE \<noteq> KEYVALUEPAIRS_TASK"
  "KEYVALUEPAIRS_TASK \<noteq> KEYVALUEPAIRS_FDCS_TIME" "KEYVALUEPAIRS_FDCS_TIME \<noteq> KEYVALUEPAIRS_TASK"
  "RESPONSE_RESULT_SUCCESS \<noteq> RESPONSE_RESULT_COMPLETE" "RESPONSE_RESULT_COMPLETE \<noteq> RESPONSE_RESULT_SUCCESS"
  by (simp_all add: literals)

end
