(* ===== verification/Enviroment.thy ===== *)
theory Enviroment
  imports Messages Settings
begin

text \<open>
  The task table of a server, src/server/enviroment.cc and enviroment.h: the open tasks by id, each
  with the time its lease ends, the completed tasks, the settings and the offset of the clock. A
  task pointer into the table is the key of its entry. The argument \<open>now\<close> of an operation is the
  reading of the system clock (NowTime, seconds in 32 bits) during the call, which holds the mutex.
\<close>

section \<open>State and operations\<close>

record enviroment =
  settings :: settings_s
  fdcs_time_differ :: int
  worker_amount :: int
  completed_tasks :: "FdcsTask list"
  tasks :: "(string, FdcsTask) smap"

definition Enviroment :: "settings_s \<Rightarrow> enviroment" where
  "Enviroment st = \<lparr>settings = st, fdcs_time_differ = 0, worker_amount = 0, completed_tasks = [], tasks = []\<rparr>"

text \<open>Accessors. A NULL group or address does not survive InitialTracker.\<close>

definition TrackerGroup :: "enviroment \<Rightarrow> string" where
  "TrackerGroup e = get [] (tracker_group (settings e))"
definition TrackerServer :: "enviroment \<Rightarrow> string" where
  "TrackerServer e = get [] (tracker_server (settings e))"
definition NetworkTimeout :: "enviroment \<Rightarrow> int" where "NetworkTimeout e = network_timeout (settings e)"
definition PreloadTasks :: "enviroment \<Rightarrow> int" where "PreloadTasks e = preload_tasks (settings e)"
definition LeaseTimeout :: "enviroment \<Rightarrow> int" where "LeaseTimeout e = lease_timeout (settings e)"
definition ComputingThreads :: "enviroment \<Rightarrow> int" where "ComputingThreads e = computing_threads (settings e)"
definition TaskDuplicate :: "enviroment \<Rightarrow> int" where "TaskDuplicate e = task_duplicate (settings e)"
definition SocketBuffSize :: "enviroment \<Rightarrow> int" where
  "SocketBuffSize e = wrap32 (socket_buff_size (settings e))"

text \<open>The time of the system: the local clock shifted to the clock of the primary master.\<close>

definition FdcsTime :: "enviroment \<Rightarrow> int \<Rightarrow> int" where
  "FdcsTime e now = wrap32 (now + fdcs_time_differ e)"

definition CalcFdcsTimeDiffer :: "int \<Rightarrow> int \<Rightarrow> enviroment \<Rightarrow> enviroment" where
  "CalcFdcsTimeDiffer fdcs_time now e = e\<lparr>fdcs_time_differ := wrap32 (fdcs_time - now)\<rparr>"

definition InitFdcsTimeDiffer :: "enviroment \<Rightarrow> enviroment" where
  "InitFdcsTimeDiffer e = e\<lparr>fdcs_time_differ := 0\<rparr>"

definition AddTask :: "FdcsTask \<Rightarrow> enviroment \<Rightarrow> bool \<times> enviroment" where
  "AddTask task e =
     (if smap_find (tasks e) (task_id task) \<noteq> None then (False, e)
      else (True, e\<lparr>tasks := smap_insert (task_id task) task (tasks e)\<rparr>))"

definition ClearCompletedTasks :: "enviroment \<Rightarrow> enviroment" where
  "ClearCompletedTasks e = e\<lparr>completed_tasks := []\<rparr>"

definition UpdateTasks :: "FdcsTask list \<Rightarrow> enviroment \<Rightarrow> enviroment" where
  "UpdateTasks ts e =
     (ClearCompletedTasks e)\<lparr>tasks := fold (\<lambda>t. smap_insert (task_id t) t) ts []\<rparr>"

text \<open>The loop of LeaseTasks: what is handed out, and the table with the new leases.\<close>

fun lease_loop :: "int \<Rightarrow> int \<Rightarrow> int \<Rightarrow> (string, FdcsTask) smap \<Rightarrow> FdcsTask list \<times> (string, FdcsTask) smap" where
  "lease_loop t timeout quota [] = ([], [])"
| "lease_loop t timeout quota ((k, task) # m) =
     (if lease_time task < t
      then (if quota \<le> 0 then ([], (k, task) # m)
            else (case lease_loop t timeout (quota - 1) m of (ls, m') \<Rightarrow>
                    (clear_lease_time task # ls, (k, set_lease_time (wrap32 (t + timeout)) task) # m')))
      else (case lease_loop t timeout quota m of (ls, m') \<Rightarrow> (ls, (k, task) # m')))"

definition LeaseTasks :: "int \<Rightarrow> FdcsTask list \<Rightarrow> enviroment \<Rightarrow> FdcsTask list \<times> enviroment" where
  "LeaseTasks now ts e =
     (case lease_loop (FdcsTime e now) (LeaseTimeout e) (TaskDuplicate e) (tasks e) of
        (ls, m) \<Rightarrow> (ts @ ls, e\<lparr>tasks := m\<rparr>))"

definition CopyTasks :: "FdcsTask list \<Rightarrow> enviroment \<Rightarrow> FdcsTask list" where
  "CopyTasks ts e = ts @ map snd (tasks e)"

definition FindTask :: "string \<Rightarrow> enviroment \<Rightarrow> string option" where
  "FindTask tid e = (if smap_find (tasks e) tid \<noteq> None then Some tid else None)"

definition TasksSize :: "enviroment \<Rightarrow> int" where "TasksSize e = int (length (tasks e))"
definition CompletedTasksSize :: "enviroment \<Rightarrow> int" where
  "CompletedTasksSize e = int (length (completed_tasks e))"

definition CompletedTasks :: "int \<Rightarrow> enviroment \<Rightarrow> FdcsTask result" where
  "CompletedTasks index e =
     (if 0 \<le> index \<and> index < CompletedTasksSize e then Inr (completed_tasks e ! nat index) else Inl OutOfBounds)"

definition IdleTasksSize :: "int \<Rightarrow> enviroment \<Rightarrow> int" where
  "IdleTasksSize now e = int (length (filter (\<lambda>(k, task). lease_time task < FdcsTime e now) (tasks e)))"

text \<open>GetIdleTask leases the first idle task and returns a pointer to its entry.\<close>

fun first_idle :: "int \<Rightarrow> (string, FdcsTask) smap \<Rightarrow> string option" where
  "first_idle t [] = None"
| "first_idle t ((k, task) # m) = (if lease_time task < t then Some k else first_idle t m)"

fun smap_update :: "string \<Rightarrow> (FdcsTask \<Rightarrow> FdcsTask) \<Rightarrow> (string, FdcsTask) smap \<Rightarrow> (string, FdcsTask) smap" where
  "smap_update k f [] = []"
| "smap_update k f ((k', v) # m) = (if k' = k then (k', f v) # m else (k', v) # smap_update k f m)"

definition GetIdleTask :: "int \<Rightarrow> enviroment \<Rightarrow> string option \<times> enviroment" where
  "GetIdleTask now e =
     (case first_idle (FdcsTime e now) (tasks e) of
        None \<Rightarrow> (None, e)
      | Some k \<Rightarrow> (Some k, e\<lparr>tasks := smap_update k
            (set_lease_time (wrap32 (FdcsTime e now + LeaseTimeout e))) (tasks e)\<rparr>))"

text \<open>An iterator into the table is the key it stands at, None at the end.\<close>

definition TaskIterBegin :: "enviroment \<Rightarrow> string option" where
  "TaskIterBegin e = (case tasks e of [] \<Rightarrow> None | (k, t) # m \<Rightarrow> Some k)"

definition next_key :: "string \<Rightarrow> (string, FdcsTask) smap \<Rightarrow> string option" where
  "next_key k m = map_option fst (List.find (\<lambda>(k', t). k < k') m)"

definition FindNextTask :: "string option \<Rightarrow> enviroment \<Rightarrow> string option \<times> string option" where
  "FindNextTask iter e = (case iter of None \<Rightarrow> (None, None) | Some k \<Rightarrow> (Some k, next_key k (tasks e)))"

definition TaskCompleted :: "string \<Rightarrow> enviroment \<Rightarrow> enviroment" where
  "TaskCompleted tid e =
     (case smap_find (tasks e) tid of
        None \<Rightarrow> e
      | Some task \<Rightarrow> e\<lparr>tasks := smap_erase tid (tasks e), completed_tasks := completed_tasks e @ [task]\<rparr>)"

section \<open>Invariant\<close>

text \<open>The table is ordered by key and every task is stored under its id.\<close>

definition ids_ok :: "(string, FdcsTask) smap \<Rightarrow> bool" where
  "ids_ok m \<longleftrightarrow> (\<forall>(k, t) \<in> set m. task_id t = k)"

definition env_inv :: "enviroment \<Rightarrow> bool" where
  "env_inv e \<longleftrightarrow> smap_inv (tasks e) \<and> ids_ok (tasks e)"

lemma ids_ok_simps [simp]: "ids_ok []" "ids_ok ((k, t) # m) \<longleftrightarrow> task_id t = k \<and> ids_ok m"
  by (auto simp: ids_ok_def)

lemma keys_smap_update: "map fst (smap_update k f m) = map fst m"
  by (induction k f m rule: smap_update.induct) auto

lemma smap_inv_update [inv_intros]: "smap_inv m \<Longrightarrow> smap_inv (smap_update k f m)"
  by (simp add: smap_inv_def keys_smap_update)

lemma smap_find_update:
  "smap_find (smap_update k f m) k' = (if k' = k then map_option f (smap_find m k') else smap_find m k')"
  by (induction k f m rule: smap_update.induct) auto

lemma smap_update_ids:
  "ids_ok m \<Longrightarrow> (\<And>t. task_id (f t) = task_id t) \<Longrightarrow> ids_ok (smap_update k' f m)"
  by (induction k' f m rule: smap_update.induct) auto

lemma keys_lease_loop: "map fst (snd (lease_loop t to q m)) = map fst m"
  by (induction t to q m rule: lease_loop.induct) (auto split: prod.splits)

lemma ids_lease_loop: "ids_ok m \<Longrightarrow> ids_ok (snd (lease_loop t to q m))"
  by (induction t to q m rule: lease_loop.induct) (auto split: prod.splits)

lemma smap_insert_ids: "ids_ok m \<Longrightarrow> ids_ok (smap_insert (task_id t) t m)"
  by (induction m) (auto split: if_splits)

lemma smap_erase_ids: "ids_ok m \<Longrightarrow> ids_ok (smap_erase k m)"
  by (induction k m rule: smap_erase.induct) auto

lemma fold_insert_inv:
  "smap_inv m \<Longrightarrow> ids_ok m \<Longrightarrow> smap_inv (fold (\<lambda>t. smap_insert (task_id t) t) ts m)
   \<and> ids_ok (fold (\<lambda>t. smap_insert (task_id t) t) ts m)"
  by (induction ts arbitrary: m) (simp_all add: smap_inv_insert smap_insert_ids)

lemma env_inv_new [inv_intros]: "env_inv (Enviroment st)"
  by (simp add: env_inv_def Enviroment_def)

lemma env_inv_AddTask [inv_intros]: "env_inv e \<Longrightarrow> env_inv (snd (AddTask t e))"
  by (simp add: env_inv_def AddTask_def smap_inv_insert smap_insert_ids)

lemma env_inv_UpdateTasks [inv_intros]: "env_inv (UpdateTasks ts e)"
  using fold_insert_inv [of "[]" ts] by (simp add: env_inv_def UpdateTasks_def)

lemma LeaseTasks_eq:
  "LeaseTasks now ts e =
    (ts @ fst (lease_loop (FdcsTime e now) (LeaseTimeout e) (TaskDuplicate e) (tasks e)),
     e\<lparr>tasks := snd (lease_loop (FdcsTime e now) (LeaseTimeout e) (TaskDuplicate e) (tasks e))\<rparr>)"
  by (simp add: LeaseTasks_def split: prod.split)

lemma env_inv_LeaseTasks [inv_intros]: "env_inv e \<Longrightarrow> env_inv (snd (LeaseTasks now ts e))"
  unfolding env_inv_def LeaseTasks_eq by (simp add: smap_inv_def keys_lease_loop ids_lease_loop)

lemma env_inv_GetIdleTask [inv_intros]: "env_inv e \<Longrightarrow> env_inv (snd (GetIdleTask now e))"
  unfolding env_inv_def GetIdleTask_def
  by (cases "first_idle (FdcsTime e now) (tasks e)") (simp_all add: smap_inv_update smap_update_ids)

lemma env_inv_TaskCompleted [inv_intros]: "env_inv e \<Longrightarrow> env_inv (TaskCompleted tid e)"
  by (simp add: env_inv_def TaskCompleted_def smap_inv_erase smap_erase_ids split: option.split)

lemma env_inv_clock [inv_intros]:
  "env_inv e \<Longrightarrow> env_inv (CalcFdcsTimeDiffer t now e)" "env_inv e \<Longrightarrow> env_inv (InitFdcsTimeDiffer e)"
  "env_inv e \<Longrightarrow> env_inv (ClearCompletedTasks e)"
  by (simp_all add: env_inv_def CalcFdcsTimeDiffer_def InitFdcsTimeDiffer_def ClearCompletedTasks_def)

section \<open>Leases\<close>

definition idle_at :: "int \<Rightarrow> (string, FdcsTask) smap \<Rightarrow> (string, FdcsTask) smap" where
  "idle_at t m = filter (\<lambda>(k, task). lease_time task < t) m"

lemma idle_at_simps [simp]:
  "idle_at t [] = []"
  "idle_at t ((k, task) # m) = (if lease_time task < t then (k, task) # idle_at t m else idle_at t m)"
  by (simp_all add: idle_at_def)

lemma idle_at_in: "(k, task) \<in> set (idle_at t m) \<longleftrightarrow> (k, task) \<in> set m \<and> lease_time task < t"
  by (auto simp: idle_at_def)

lemma lease_loop_out:
  "fst (lease_loop t to q m) = map (clear_lease_time \<circ> snd) (take (nat q) (idle_at t m))"
proof (induction t to q m rule: lease_loop.induct)
  case (2 t to q k task m)
  show ?case
  proof (cases "lease_time task < t")
    case True
    show ?thesis
    proof (cases "q \<le> 0")
      case False
      then have "nat q = Suc (nat (q - 1))" by linarith
      then show ?thesis using True False 2 by (simp add: case_prod_unfold)
    qed (use True in simp)
  next
    case False
    then show ?thesis using 2 by (simp add: case_prod_unfold)
  qed
qed simp

lemma lease_loop_find:
  "smap_inv m \<Longrightarrow> smap_find (snd (lease_loop t to q m)) k =
    (if k \<in> fst ` set (take (nat q) (idle_at t m))
     then map_option (set_lease_time (wrap32 (t + to))) (smap_find m k) else smap_find m k)"
proof (induction t to q m rule: lease_loop.induct)
  case (2 t to q k1 task m)
  from "2.prems" have inv: "smap_inv m" and lt: "\<forall>x \<in> fst ` set m. k1 < x" by auto
  have notin: "k1 \<notin> fst ` set (take n (idle_at t m))" for n
    using lt by (auto dest!: in_set_takeD simp: idle_at_in)
  show ?case
  proof (cases "lease_time task < t")
    case True
    show ?thesis
    proof (cases "q \<le> 0")
      case False
      then have n: "nat q = Suc (nat (q - 1))" by linarith
      have "smap_find (snd (lease_loop t to (q - 1) m)) k =
        (if k \<in> fst ` set (take (nat (q - 1)) (idle_at t m))
         then map_option (set_lease_time (wrap32 (t + to))) (smap_find m k) else smap_find m k)"
        by (rule "2.IH"(1) [OF True False inv])
      then show ?thesis using True False notin [of "nat (q - 1)"] n by (simp add: case_prod_unfold)
    qed (use True in simp)
  next
    case False
    then show ?thesis using "2.IH"(2) [OF False inv] notin [of "nat q"] by (cases "k1 = k") (simp_all add: case_prod_unfold)
  qed
qed simp

lemma idle_keys:
  assumes "smap_inv m"
  shows "distinct (map fst (take n (idle_at t m)))"
proof -
  have "distinct (map fst (idle_at t m))"
    using smap_inv_distinct [OF assms] unfolding idle_at_def by (rule distinct_map_filter)
  then show ?thesis by (metis distinct_take take_map)
qed

lemma first_idle_Some: "first_idle t m = Some k \<Longrightarrow> \<exists>task. (k, task) \<in> set m \<and> lease_time task < t"
  by (induction t m rule: first_idle.induct) (auto split: if_splits)

lemma first_idle_hd: "first_idle t m = (case idle_at t m of [] \<Rightarrow> None | (k, task) # r \<Rightarrow> Some k)"
  by (induction t m rule: first_idle.induct) auto

subsection \<open>Runs\<close>

text \<open>
  What the operations do to the leases: which task was leased at which time of the system, which
  left the table. The log has the latest event first.
\<close>

datatype lease_event = Leased string int | Dropped string | Replaced

fun held :: "string \<Rightarrow> lease_event list \<Rightarrow> int option" where
  "held k [] = None"
| "held k (Leased k' t # l) = (if k' = k then Some t else held k l)"
| "held k (Dropped k' # l) = (if k' = k then None else held k l)"
| "held k (Replaced # l) = None"

text \<open>No lease is given while the previous lease of the same task runs.\<close>

fun exclusive :: "int \<Rightarrow> lease_event list \<Rightarrow> bool" where
  "exclusive to [] = True"
| "exclusive to (Leased k t # l) =
     ((case held k l of None \<Rightarrow> True | Some t1 \<Rightarrow> wrap32 (t1 + to) < t) \<and> exclusive to l)"
| "exclusive to (Dropped k # l) = exclusive to l"
| "exclusive to (Replaced # l) = exclusive to l"

inductive env_run :: "settings_s \<Rightarrow> enviroment \<Rightarrow> lease_event list \<Rightarrow> bool" for st where
  start: "env_run st (Enviroment st) []"
| add: "env_run st e l \<Longrightarrow> env_run st (snd (AddTask task e)) l"
| update: "env_run st e l \<Longrightarrow> env_run st (UpdateTasks ts e) (Replaced # l)"
| lease: "env_run st e l \<Longrightarrow> LeaseTasks now [] e = (ls, e') \<Longrightarrow>
    env_run st e' (rev (map (\<lambda>task. Leased (task_id task) (FdcsTime e now)) ls) @ l)"
| idle: "env_run st e l \<Longrightarrow> GetIdleTask now e = (Some k, e') \<Longrightarrow> env_run st e' (Leased k (FdcsTime e now) # l)"
| completed: "env_run st e l \<Longrightarrow> env_run st (TaskCompleted k e) (Dropped k # l)"
| clear: "env_run st e l \<Longrightarrow> env_run st (ClearCompletedTasks e) l"
| clock: "env_run st e l \<Longrightarrow> env_run st (CalcFdcsTimeDiffer t now e) l"
| clock_init: "env_run st e l \<Longrightarrow> env_run st (InitFdcsTimeDiffer e) l"

definition leases_recorded :: "int \<Rightarrow> enviroment \<Rightarrow> lease_event list \<Rightarrow> bool" where
  "leases_recorded to e l \<longleftrightarrow> (\<forall>k t. held k l = Some t \<longrightarrow>
     (\<exists>task. smap_find (tasks e) k = Some task \<and> lease_time task = wrap32 (t + to)))"

lemma held_batch:
  "held k (rev (map (\<lambda>x. Leased x t) ks) @ l) = (if k \<in> set ks then Some t else held k l)"
  by (induction ks arbitrary: l) auto

lemma exclusive_batch:
  "distinct ks \<Longrightarrow> (\<And>k t1. k \<in> set ks \<Longrightarrow> held k l = Some t1 \<Longrightarrow> wrap32 (t1 + to) < t) \<Longrightarrow>
    exclusive to l \<Longrightarrow> exclusive to (rev (map (\<lambda>x. Leased x t) ks) @ l)"
proof (induction ks arbitrary: l)
  case (Cons x ks)
  have "exclusive to (Leased x t # l)"
    using Cons.prems by (auto split: option.splits)
  moreover have "wrap32 (t1 + to) < t" if "k \<in> set ks" "held k (Leased x t # l) = Some t1" for k t1
    using that Cons.prems(1,2) by (cases "k = x") auto
  ultimately have "exclusive to (rev (map (\<lambda>x. Leased x t) ks) @ Leased x t # l)"
    using Cons.prems(1) by (intro Cons.IH) auto
  then show ?case by simp
qed simp

lemma env_run_inv:
  "env_run st e l \<Longrightarrow> env_inv e \<and> settings e = st \<and> leases_recorded (lease_timeout st) e l
    \<and> exclusive (lease_timeout st) l"
proof (induction rule: env_run.induct)
  case start
  then show ?case by (simp add: env_inv_new leases_recorded_def) (simp add: Enviroment_def)
next
  case (add e l task)
  then have "smap_find (tasks e) (task_id task) = None \<Longrightarrow> held (task_id task) l = None"
    by (metis leases_recorded_def option.distinct(1) option.exhaust)
  with add show ?case
    by (auto simp: env_inv_AddTask leases_recorded_def AddTask_def env_inv_def smap_find_insert smap_inv_insert smap_insert_ids)
next
  case (update e l ts)
  then show ?case by (simp add: env_inv_UpdateTasks leases_recorded_def) (simp add: UpdateTasks_def ClearCompletedTasks_def)
next
  case (lease e l now ls e')
  let ?t = "FdcsTime e now" and ?m = "tasks e"
  let ?ks = "map fst (take (nat (TaskDuplicate e)) (idle_at ?t ?m))"
  have inv: "env_inv e" "smap_inv ?m" "ids_ok ?m" and to: "LeaseTimeout e = lease_timeout st"
    using lease.IH by (simp_all add: env_inv_def LeaseTimeout_def)
  have out: "ls = fst (lease_loop ?t (LeaseTimeout e) (TaskDuplicate e) ?m)"
      "e' = e\<lparr>tasks := snd (lease_loop ?t (LeaseTimeout e) (TaskDuplicate e) ?m)\<rparr>"
    using lease.hyps(2) by (auto simp: LeaseTasks_eq)
  have "map task_id ls = ?ks"
    using inv(3) by (auto simp: out(1) lease_loop_out ids_ok_def idle_at_in dest!: in_set_takeD)
  then have lg: "rev (map (\<lambda>task. Leased (task_id task) ?t) ls) = rev (map (\<lambda>x. Leased x ?t) ?ks)"
    by (metis (mono_tags, lifting) list.map_comp comp_def map_eq_conv)
  have idle: "\<exists>task. smap_find ?m k = Some task \<and> lease_time task < ?t" if k: "k \<in> set ?ks" for k
  proof -
    obtain task where "(k, task) \<in> set (idle_at ?t ?m)" using k by (auto dest!: in_set_takeD)
    then show ?thesis using smap_in_find [OF inv(2)] by (auto simp: idle_at_in)
  qed
  have "exclusive (lease_timeout st) (rev (map (\<lambda>x. Leased x ?t) ?ks) @ l)"
  proof (rule exclusive_batch)
    show "distinct ?ks" using idle_keys [OF inv(2)] .
    fix k t1 assume k: "k \<in> set ?ks" "held k l = Some t1"
    obtain task where "smap_find ?m k = Some task" "lease_time task < ?t" using idle [OF k(1)] by blast
    then show "wrap32 (t1 + lease_timeout st) < ?t"
      using k(2) lease.IH unfolding leases_recorded_def by fastforce
  qed (use lease.IH in simp)
  moreover have "leases_recorded (lease_timeout st) e' (rev (map (\<lambda>x. Leased x ?t) ?ks) @ l)"
    unfolding leases_recorded_def
  proof (intro allI impI)
    fix k t1 assume h: "held k (rev (map (\<lambda>x. Leased x ?t) ?ks) @ l) = Some t1"
    show "\<exists>task. smap_find (tasks e') k = Some task \<and> lease_time task = wrap32 (t1 + lease_timeout st)"
    proof (cases "k \<in> set ?ks")
      case True
      then have "t1 = ?t" using h by (simp only: held_batch if_True option.inject)
      moreover obtain task where "smap_find ?m k = Some task" using idle [OF True] by blast
      ultimately show ?thesis
        using True by (simp add: out(2) lease_loop_find [OF inv(2)] to)
    next
      case False
      then have "held k l = Some t1" using h by (simp only: held_batch if_False)
      then show ?thesis
        using False lease.IH by (simp add: out(2) lease_loop_find [OF inv(2)] leases_recorded_def)
    qed
  qed
  moreover have "env_inv e'" using env_inv_LeaseTasks [OF inv(1), of now "[]"] lease.hyps(2) by simp
  ultimately show ?case using lease.IH unfolding lg by (simp add: out(2))
next
  case (idle e l now k e')
  let ?t = "FdcsTime e now"
  have inv: "env_inv e" "smap_inv (tasks e)" and to: "LeaseTimeout e = lease_timeout st"
    using idle.IH by (simp_all add: env_inv_def LeaseTimeout_def)
  have k: "first_idle ?t (tasks e) = Some k"
    and e': "e' = e\<lparr>tasks := smap_update k (set_lease_time (wrap32 (?t + lease_timeout st))) (tasks e)\<rparr>"
    using idle.hyps(2) by (auto simp: GetIdleTask_def to split: option.splits)
  then obtain task where task: "smap_find (tasks e) k = Some task" "lease_time task < ?t"
    using first_idle_Some smap_in_find [OF inv(2)] by blast
  have "env_inv e'" using env_inv_GetIdleTask [OF inv(1), of now] idle.hyps(2) by simp
  moreover have "wrap32 (t1 + lease_timeout st) < ?t" if "held k l = Some t1" for t1
    using that idle.IH task unfolding leases_recorded_def by fastforce
  ultimately show ?case
    using idle.IH task by (auto simp: leases_recorded_def e' smap_find_update split: option.split)
next
  case (completed e l k)
  then show ?case
    by (auto simp: env_inv_TaskCompleted leases_recorded_def TaskCompleted_def env_inv_def
        smap_find_erase smap_inv_erase smap_erase_ids split: option.splits)
next
  case (clear e l)
  then show ?case by (simp add: env_inv_clock leases_recorded_def) (simp add: ClearCompletedTasks_def)
next
  case (clock e l t now)
  then show ?case by (simp add: env_inv_clock leases_recorded_def) (simp add: CalcFdcsTimeDiffer_def)
next
  case (clock_init e l)
  then show ?case by (simp add: env_inv_clock leases_recorded_def) (simp add: InitFdcsTimeDiffer_def)
qed

lemma iter_visits:
  "smap_inv m \<Longrightarrow> m = xs @ (k, t) # ys \<Longrightarrow> next_key k m = (case ys of [] \<Rightarrow> None | (k', t') # zs \<Rightarrow> Some k')"
proof -
  assume inv: "smap_inv m" and m: "m = xs @ (k, t) # ys"
  have "List.find (\<lambda>(k', t). k < k') xs = None"
    using inv by (auto simp: m smap_inv_def sorted_wrt_append find_None_iff)
  then have "List.find (\<lambda>(k', t). k < k') (xs @ zs) = List.find (\<lambda>(k', t). k < k') zs" for zs
    by (induction xs) (auto split: if_splits)
  moreover have "\<forall>x \<in> set ys. k < fst x" using inv by (auto simp: m smap_inv_def sorted_wrt_append)
  ultimately show ?thesis unfolding next_key_def m by (cases ys) auto
qed

section \<open>Properties\<close>


definition example_task :: FdcsTask where "example_task = new_FdcsTask\<lparr>task_id_field := Some ''t''\<rparr>"

lemma env_run_example:
  "\<exists>e l. env_run default_settings e l \<and> l = [Leased ''t'' 111, Leased ''t'' 100]"
proof -
  have s0: "env_run default_settings (snd (AddTask example_task (Enviroment default_settings))) []"
    by (intro env_run.add env_run.start)
  obtain e1 where e1: "GetIdleTask 100 (snd (AddTask example_task (Enviroment default_settings))) = (Some ''t'', e1)"
      "tasks e1 = [(''t'', set_lease_time 110 example_task)]" "fdcs_time_differ e1 = 0" "settings e1 = default_settings"
    by (simp add: GetIdleTask_def AddTask_def Enviroment_def example_task_def FdcsTime_def LeaseTimeout_def
        default_settings_def wrap32_def getter_defs new_FdcsTask_def)
  have t1: "FdcsTime (snd (AddTask example_task (Enviroment default_settings))) 100 = 100"
    by (simp add: AddTask_def Enviroment_def FdcsTime_def wrap32_def)
  have s1: "env_run default_settings e1 [Leased ''t'' 100]"
    using env_run.idle [OF s0 e1(1)] t1 by simp
  obtain e2 where "GetIdleTask 111 e1 = (Some ''t'', e2)"
    using e1 by (simp add: GetIdleTask_def FdcsTime_def wrap32_def)
  from env_run.idle [OF s1 this] e1(3) show ?thesis by (auto simp: FdcsTime_def wrap32_def)
qed


text \<open>LeaseTasks hands out the idle tasks in the order of their ids, at most task_duplicate of them,
  without their lease times; exactly these are leased until lease_timeout seconds from now, and every
  other task and the completed ones stay as they are.\<close>

theorem LeaseTasks_outcome:
  assumes "env_inv e" "LeaseTasks now ts e = (ts', e')"
  shows "ts' = ts @ map (clear_lease_time \<circ> snd) (take (nat (TaskDuplicate e)) (idle_at (FdcsTime e now) (tasks e)))
    \<and> completed_tasks e' = completed_tasks e
    \<and> (\<forall>k. smap_find (tasks e') k =
        (if k \<in> fst ` set (take (nat (TaskDuplicate e)) (idle_at (FdcsTime e now) (tasks e)))
         then map_option (set_lease_time (wrap32 (FdcsTime e now + LeaseTimeout e))) (smap_find (tasks e) k)
         else smap_find (tasks e) k))"
proof -
  have "smap_inv (tasks e)" using assms(1) by (simp add: env_inv_def)
  then show ?thesis
    using assms(2) by (simp only: LeaseTasks_eq prod.inject)
      (elim conjE, hypsubst, simp add: lease_loop_out lease_loop_find)
qed

lemma LeaseTasks_outcome_witness:
  "fst (LeaseTasks 100 [] (snd (AddTask example_task (Enviroment default_settings)))) = [example_task]"
  using LeaseTasks_outcome [of "snd (AddTask example_task (Enviroment default_settings))" 100 "[]"
      "fst (LeaseTasks 100 [] (snd (AddTask example_task (Enviroment default_settings))))"
      "snd (LeaseTasks 100 [] (snd (AddTask example_task (Enviroment default_settings))))"]
  by (simp add: env_inv_AddTask env_inv_new)
    (simp add: AddTask_def Enviroment_def example_task_def FdcsTime_def wrap32_def getter_defs new_FdcsTask_def
      TaskDuplicate_def default_settings_def clear_lease_time_def)

text \<open>a task that is completed leaves the table and is appended to the completed tasks, once: a second
  completion of the same id, and any completion of an unknown id, changes nothing. AddTask never
  replaces a task that is in the table.\<close>

theorem completion_moves_once:
  assumes "env_inv e"
  shows "(case smap_find (tasks e) k of
      None \<Rightarrow> TaskCompleted k e = e
    | Some t \<Rightarrow> completed_tasks (TaskCompleted k e) = completed_tasks e @ [t]
        \<and> FindTask k (TaskCompleted k e) = None
        \<and> (\<forall>k'. k' \<noteq> k \<longrightarrow> smap_find (tasks (TaskCompleted k e)) k' = smap_find (tasks e) k')
        \<and> TaskCompleted k (TaskCompleted k e) = TaskCompleted k e)
    \<and> (\<forall>t. smap_find (tasks e) (task_id t) \<noteq> None \<longrightarrow> AddTask t e = (False, e))"
proof -
  have inv: "smap_inv (tasks e)" using assms by (simp add: env_inv_def)
  have e: "smap_find (smap_erase k (tasks e)) k' = (if k' = k then None else smap_find (tasks e) k')" for k'
    by (rule smap.find_erase [OF inv])
  show ?thesis
    by (auto simp: TaskCompleted_def FindTask_def AddTask_def e split: option.splits)
qed

lemma completion_moves_once_witness:
  "completed_tasks (TaskCompleted ''t'' (snd (AddTask example_task (Enviroment default_settings)))) = [example_task]"
  using completion_moves_once [of "snd (AddTask example_task (Enviroment default_settings))" "''t''"]
  by (simp add: env_inv_AddTask env_inv_new)
    (simp add: AddTask_def Enviroment_def example_task_def getter_defs new_FdcsTask_def)

end
