(* ===== verification/Conhash.thy ===== *)
theory Conhash
  imports StdMap StringCodec
begin

text \<open>
  Consistent hashing of the masters, src/libconhash/conhash.c and conhash_inter.c. The tree of
  virtual nodes is given by its contents in key order, the node of a virtual node by its index in the
  array of the caller (the code keeps a pointer to it). The hash function is an argument; the code
  passes NULL to conhash_init and so uses MD5. Memory is taken to be available.
\<close>

section \<open>State and operations\<close>

text \<open>The two bits of flag are two fields.\<close>

record node_s =
  iden :: string
  replicas :: nat
  flag_init :: bool
  flag_in :: bool

record conhash_s =
  vnode_tree :: "(int, nat) smap"
  ivnodes :: int

definition conhash_init :: conhash_s where
  "conhash_init = \<lparr>vnode_tree = [], ivnodes = 0\<rparr>"

text \<open>strncpy copies 63 characters at most.\<close>

definition conhash_set_node :: "string \<Rightarrow> nat \<Rightarrow> node_s" where
  "conhash_set_node name replica = \<lparr>iden = take 63 name, replicas = replica, flag_init = True, flag_in = False\<rparr>"

definition conhash_node2string :: "node_s \<Rightarrow> nat \<Rightarrow> string" where
  "conhash_node2string node replica_idx = take 126 (iden node @ ''-'' @ pad 3 (decimal replica_idx))"

definition add_replica :: "(string \<Rightarrow> int) \<Rightarrow> node_s \<Rightarrow> nat \<Rightarrow> nat \<Rightarrow> conhash_s \<Rightarrow> conhash_s" where
  "add_replica hash node idx i c =
     (let h = hash (conhash_node2string node i)
      in if smap_find (vnode_tree c) h = None
         then c\<lparr>vnode_tree := smap_insert h idx (vnode_tree c), ivnodes := uwrap32 (ivnodes c + 1)\<rparr>
         else c)"

definition conhash_add_replicas :: "(string \<Rightarrow> int) \<Rightarrow> node_s \<Rightarrow> nat \<Rightarrow> conhash_s \<Rightarrow> conhash_s" where
  "conhash_add_replicas hash node idx c = fold (add_replica hash node idx) [0..<replicas node] c"

definition del_replica :: "(string \<Rightarrow> int) \<Rightarrow> node_s \<Rightarrow> nat \<Rightarrow> nat \<Rightarrow> conhash_s \<Rightarrow> conhash_s" where
  "del_replica hash node idx i c =
     (let h = hash (conhash_node2string node i)
      in if smap_find (vnode_tree c) h = Some idx
         then c\<lparr>vnode_tree := smap_erase h (vnode_tree c), ivnodes := uwrap32 (ivnodes c - 1)\<rparr>
         else c)"

definition conhash_del_replicas :: "(string \<Rightarrow> int) \<Rightarrow> node_s \<Rightarrow> nat \<Rightarrow> conhash_s \<Rightarrow> conhash_s" where
  "conhash_del_replicas hash node idx c = fold (del_replica hash node idx) [0..<replicas node] c"

text \<open>The operations on the array of nodes; the result is the return value, the array and the ring.\<close>

definition conhash_add_node :: "(string \<Rightarrow> int) \<Rightarrow> nat \<Rightarrow> node_s list \<Rightarrow> conhash_s \<Rightarrow> int \<times> node_s list \<times> conhash_s" where
  "conhash_add_node hash idx nodes c =
     (let node = nodes ! idx
      in if \<not> flag_init node \<or> flag_in node then (- 1, nodes, c)
         else (0, nodes[idx := node\<lparr>flag_in := True\<rparr>], conhash_add_replicas hash node idx c))"

definition conhash_del_node :: "(string \<Rightarrow> int) \<Rightarrow> nat \<Rightarrow> node_s list \<Rightarrow> conhash_s \<Rightarrow> int \<times> node_s list \<times> conhash_s" where
  "conhash_del_node hash idx nodes c =
     (let node = nodes ! idx
      in if \<not> flag_init node \<or> \<not> flag_in node then (- 1, nodes, c)
         else (0, nodes[idx := node\<lparr>flag_in := False\<rparr>], conhash_del_replicas hash node idx c))"

text \<open>util_rbtree_lookup: the node with the least key from \<open>h\<close> on, else the least one of all.\<close>

definition tree_lookup :: "int \<Rightarrow> (int, 'v) smap \<Rightarrow> (int \<times> 'v) option" where
  "tree_lookup h m =
     (case List.find (\<lambda>(k, v). h \<le> k) m of
        Some e \<Rightarrow> Some e
      | None \<Rightarrow> (case m of [] \<Rightarrow> None | e # r \<Rightarrow> Some e))"

definition conhash_lookup :: "(string \<Rightarrow> int) \<Rightarrow> conhash_s \<Rightarrow> string \<Rightarrow> nat option" where
  "conhash_lookup hash c object =
     (if ivnodes c = 0 then None else map_option snd (tree_lookup (hash object) (vnode_tree c)))"

definition conhash_get_vnodes_num :: "conhash_s \<Rightarrow> int" where
  "conhash_get_vnodes_num c = ivnodes c"

definition conhash_get_vnodes :: "conhash_s \<Rightarrow> nat \<Rightarrow> int list" where
  "conhash_get_vnodes c n = take n (map fst (vnode_tree c))"

section \<open>Lookup on the ring\<close>

lemma smap_update_sorted: "smap_inv (m :: (int, 'v) smap) \<Longrightarrow> smap_inv (filter P m)"
  by (auto simp: smap_inv_def sorted_wrt_map sorted_wrt_filter)

text \<open>The entry a lookup stops at is characterised by its position on the ring.\<close>

definition successor :: "int \<Rightarrow> int set \<Rightarrow> int \<Rightarrow> bool" where
  "successor h S k \<longleftrightarrow> k \<in> S \<and>
     (if \<exists>k' \<in> S. h \<le> k' then h \<le> k \<and> (\<forall>k' \<in> S. h \<le> k' \<longrightarrow> k \<le> k') else (\<forall>k' \<in> S. k \<le> k'))"

lemma successor_unique: "successor h S k \<Longrightarrow> successor h S k' \<Longrightarrow> k = k'"
  by (auto simp: successor_def split: if_splits intro: antisym)

lemma tree_lookup_successor:
  assumes "smap_inv m" "tree_lookup h m = Some (k, v)"
  shows "successor h (fst ` set m) k \<and> smap_find m k = Some v"
proof (cases "List.find (\<lambda>(k, v). h \<le> k) m")
  case None
  then obtain r where r: "m = (k, v) # r" using assms(2) by (cases m) (auto simp: tree_lookup_def)
  have "\<not> (\<exists>k' \<in> fst ` set m. h \<le> k')" using None by (auto simp: find_None_iff)
  moreover have "\<forall>k' \<in> fst ` set m. k \<le> k'" using assms(1) by (auto simp: r less_imp_le)
  ultimately show ?thesis by (auto simp: successor_def r)
next
  case (Some e)
  then have e: "e = (k, v)" using assms(2) by (simp add: tree_lookup_def)
  obtain i where "i < length m" "h \<le> fst (m ! i)" "e = m ! i" "\<forall>j < i. \<not> h \<le> fst (m ! j)"
    using Some by (auto simp: find_Some_iff case_prod_unfold)
  then have i: "i < length m" "h \<le> k" "m ! i = (k, v)" "\<forall>j < i. \<not> h \<le> fst (m ! j)"
    using e by (metis fst_conv)+
  have mem: "(k, v) \<in> set m" using i by (metis nth_mem)
  have "k \<le> k'" if k': "k' \<in> fst ` set m" "h \<le> k'" for k'
  proof -
    have "\<exists>j. j < length m \<and> fst (m ! j) = k'"
    proof -
      obtain e' where "e' \<in> set m" "k' = fst e'" using k'(1) by blast
      then show ?thesis using in_set_conv_nth [of e' m] by metis
    qed
    then obtain j where j: "j < length m" "fst (m ! j) = k'" by blast
    then have "i \<le> j" using i(4) k'(2) by (metis not_le)
    moreover have "fst (m ! i) < fst (m ! j)" if "i < j"
      using assms(1) that j(1) by (simp add: smap_inv_def sorted_wrt_iff_nth_less)
    ultimately show ?thesis using j(2) i(3) by (cases "i = j") auto
  qed
  then have "successor h (fst ` set m) k" using mem i(2) by (force simp: successor_def)
  then show ?thesis using smap_in_find [OF assms(1) mem] by simp
qed

lemma tree_lookup_None: "tree_lookup h m = None \<longleftrightarrow> m = []"
  by (auto simp: tree_lookup_def split: option.splits list.splits)

text \<open>A new key takes over the lookups that now meet it first, and no others.\<close>

lemma successor_subset:
  assumes "S \<subseteq> S'" "successor h S' k" "k \<in> S"
  shows "successor h S k"
proof (cases "\<exists>k' \<in> S. h \<le> k'")
  case True
  then have "\<exists>k' \<in> S'. h \<le> k'" using assms(1) by blast
  then have "h \<le> k" "\<forall>k' \<in> S'. h \<le> k' \<longrightarrow> k \<le> k'"
    using assms(2) unfolding successor_def by presburger+
  then show ?thesis using assms(1,3) True unfolding successor_def by auto
next
  case False
  then have "\<not> h \<le> k" using assms(3) by blast
  then have "\<forall>k' \<in> S'. k \<le> k'" using assms(2) unfolding successor_def by presburger
  then show ?thesis using assms(1,3) False unfolding successor_def by auto
qed

lemma tree_lookup_ex: "smap_inv m \<Longrightarrow> m \<noteq> [] \<Longrightarrow> \<exists>k v. tree_lookup h m = Some (k, v)"
  using tree_lookup_None [of h m] by (cases "tree_lookup h m") auto

text \<open>A lookup in a larger tree that stops at an old key is the lookup in the smaller tree.\<close>

lemma tree_lookup_subset:
  assumes "smap_inv m" "smap_inv m'" "fst ` set m \<subseteq> fst ` set m'"
    "tree_lookup h m' = Some (k, v)" "smap_find m k = Some w"
  shows "tree_lookup h m = Some (k, w)"
proof -
  have k: "k \<in> fst ` set m" using smap_find_Some_in [OF assms(5)] by force
  have s: "successor h (fst ` set m) k"
    using successor_subset [OF assms(3) _ k] tree_lookup_successor [OF assms(2,4)] by blast
  have "m \<noteq> []" using k by auto
  then obtain k2 v2 where l: "tree_lookup h m = Some (k2, v2)" using tree_lookup_ex [OF assms(1)] by blast
  note t = tree_lookup_successor [OF assms(1) l]
  have "k2 = k" using successor_unique t s by blast
  then show ?thesis using l t assms(5) by simp
qed

section \<open>Invariant\<close>

text \<open>
  The counter is exact (it has 32 bits), and every virtual node belongs to a node that is in the
  ring, under the hash of one of its replicas.
\<close>

definition conhash_inv :: "(string \<Rightarrow> int) \<Rightarrow> node_s list \<Rightarrow> conhash_s \<Rightarrow> bool" where
  "conhash_inv hash nodes c \<longleftrightarrow> smap_inv (vnode_tree c) \<and> ivnodes c = uwrap32 (int (length (vnode_tree c)))
     \<and> (\<forall>(k, idx) \<in> set (vnode_tree c). idx < length nodes \<and> flag_init (nodes ! idx) \<and> flag_in (nodes ! idx)
          \<and> (\<exists>i < replicas (nodes ! idx). k = hash (conhash_node2string (nodes ! idx) i)))"

lemma uwrap32_step: "uwrap32 (uwrap32 z + k) = uwrap32 (z + k)" "uwrap32 (uwrap32 z - k) = uwrap32 (z - k)"
  by (simp_all add: uwrap32_def mod_simps)

lemma set_smap_insert: "set (smap_insert k v m) \<subseteq> insert (k, v) (set m)"
  by (induction k v m rule: smap_insert.induct) auto

lemma set_smap_erase: "smap_inv m \<Longrightarrow> set (smap_erase k m) = {(k', v) \<in> set m. k' \<noteq> k}"
  by (induction k m rule: smap_erase.induct) force+

definition ring_ok :: "conhash_s \<Rightarrow> bool" where
  "ring_ok c \<longleftrightarrow> smap_inv (vnode_tree c) \<and> ivnodes c = uwrap32 (int (length (vnode_tree c)))"

lemma add_replica_ok:
  assumes "ring_ok c"
  shows "ring_ok (add_replica hash node idx i c)"
    "fst ` set (vnode_tree (add_replica hash node idx i c))
      = insert (hash (conhash_node2string node i)) (fst ` set (vnode_tree c))"
    "smap_find (vnode_tree (add_replica hash node idx i c)) k = (if smap_find (vnode_tree c) k \<noteq> None
       then smap_find (vnode_tree c) k else if k = hash (conhash_node2string node i) then Some idx else None)"
proof -
  let ?h = "hash (conhash_node2string node i)"
  show "ring_ok (add_replica hash node idx i c)"
    using assms by (auto simp: add_replica_def Let_def ring_ok_def smap_inv_insert length_smap_insert
        uwrap32_step add.commute [of 1])
  show "fst ` set (vnode_tree (add_replica hash node idx i c)) = insert ?h (fst ` set (vnode_tree c))"
    by (auto simp: add_replica_def Let_def keys_insert smap_find_None_iff)
  show "smap_find (vnode_tree (add_replica hash node idx i c)) k = (if smap_find (vnode_tree c) k \<noteq> None
       then smap_find (vnode_tree c) k else if k = ?h then Some idx else None)"
    using assms by (auto simp: add_replica_def Let_def ring_ok_def smap_find_insert)
qed

lemma fold_add_ok:
  assumes "ring_ok c"
  shows "ring_ok (fold (add_replica hash node idx) is c)
    \<and> fst ` set (vnode_tree (fold (add_replica hash node idx) is c))
      = (\<lambda>i. hash (conhash_node2string node i)) ` set is \<union> fst ` set (vnode_tree c)
    \<and> (\<forall>k. smap_find (vnode_tree (fold (add_replica hash node idx) is c)) k =
       (if smap_find (vnode_tree c) k \<noteq> None then smap_find (vnode_tree c) k
        else if k \<in> (\<lambda>i. hash (conhash_node2string node i)) ` set is then Some idx else None))"
  using assms
proof (induction "is" arbitrary: c)
  case (Cons i "is")
  note IH = Cons.IH [OF add_replica_ok(1) [OF Cons.prems, of hash node idx i]]
  show ?case
    using IH add_replica_ok(2,3) [OF Cons.prems, of hash node idx i] by (auto split: if_splits)
qed simp

lemma del_replica_ok:
  assumes "ring_ok c"
  shows "ring_ok (del_replica hash node idx i c)"
    "smap_find (vnode_tree (del_replica hash node idx i c)) k =
      (if k = hash (conhash_node2string node i) \<and> smap_find (vnode_tree c) k = Some idx then None
       else smap_find (vnode_tree c) k)"
proof -
  have "vnode_tree c \<noteq> []" if "smap_find (vnode_tree c) k = Some v" for k v using that by auto
  then show "ring_ok (del_replica hash node idx i c)"
    using assms by (auto simp: del_replica_def Let_def ring_ok_def smap_inv_erase length_smap_erase
        uwrap32_step of_nat_diff Suc_le_eq)
  show "smap_find (vnode_tree (del_replica hash node idx i c)) k =
      (if k = hash (conhash_node2string node i) \<and> smap_find (vnode_tree c) k = Some idx then None
       else smap_find (vnode_tree c) k)"
    using assms by (auto simp: del_replica_def Let_def ring_ok_def smap_find_erase)
qed

lemma fold_del_ok:
  assumes "ring_ok c"
  shows "ring_ok (fold (del_replica hash node idx) is c)
    \<and> (\<forall>k. smap_find (vnode_tree (fold (del_replica hash node idx) is c)) k =
       (if k \<in> (\<lambda>i. hash (conhash_node2string node i)) ` set is \<and> smap_find (vnode_tree c) k = Some idx
        then None else smap_find (vnode_tree c) k))"
  using assms
proof (induction "is" arbitrary: c)
  case (Cons i "is")
  note IH = Cons.IH [OF del_replica_ok(1) [OF Cons.prems, of hash node idx i]]
  show ?case
    using IH del_replica_ok(2) [OF Cons.prems, of hash node idx i] by auto
qed simp

lemma conhash_inv_find:
  "conhash_inv hash nodes c \<longleftrightarrow> ring_ok c \<and> (\<forall>k idx. smap_find (vnode_tree c) k = Some idx \<longrightarrow>
     idx < length nodes \<and> flag_init (nodes ! idx) \<and> flag_in (nodes ! idx)
     \<and> (\<exists>i < replicas (nodes ! idx). k = hash (conhash_node2string (nodes ! idx) i)))"
  unfolding conhash_inv_def ring_ok_def
  by (auto dest: smap_find_Some_in smap_in_find simp: Ball_def)

lemma conhash_inv_init [inv_intros]: "conhash_inv hash nodes conhash_init"
  by (simp add: conhash_inv_def conhash_init_def uwrap32_def)

lemma conhash_inv_add [inv_intros]:
  assumes "conhash_inv hash nodes c" "idx < length nodes" "conhash_add_node hash idx nodes c = (r, nodes', c')"
  shows "conhash_inv hash nodes' c'"
proof (cases "\<not> flag_init (nodes ! idx) \<or> flag_in (nodes ! idx)")
  case True
  then show ?thesis using assms by (auto simp: conhash_add_node_def Let_def)
next
  case False
  let ?n = "nodes ! idx"
  have ok: "ring_ok c" using assms(1) by (simp add: conhash_inv_find)
  have e: "nodes' = nodes[idx := ?n\<lparr>flag_in := True\<rparr>]"
      "c' = fold (add_replica hash ?n idx) [0..<replicas ?n] c"
    using assms(3) False by (auto simp: conhash_add_node_def Let_def conhash_add_replicas_def)
  have s: "conhash_node2string (?n\<lparr>flag_in := True\<rparr>) i = conhash_node2string ?n i" for i
    by (simp add: conhash_node2string_def)
  show ?thesis
    unfolding conhash_inv_find
  proof (intro conjI allI impI)
    show "ring_ok c'" using fold_add_ok [OF ok] by (simp add: e(2))
    fix k j assume "smap_find (vnode_tree c') k = Some j"
    then consider "smap_find (vnode_tree c) k = Some j"
      | "j = idx" "k \<in> (\<lambda>i. hash (conhash_node2string ?n i)) ` {0..<replicas ?n}"
      using fold_add_ok [OF ok, of hash ?n idx "[0..<replicas ?n]"] by (auto simp: e(2) split: if_splits)
    then have "j < length nodes' \<and> flag_init (nodes' ! j) \<and> flag_in (nodes' ! j)
        \<and> (\<exists>i < replicas (nodes' ! j). k = hash (conhash_node2string (nodes' ! j) i))"
    proof cases
      case 1
      then have "j < length nodes" "flag_init (nodes ! j)" "flag_in (nodes ! j)"
          "\<exists>i < replicas (nodes ! j). k = hash (conhash_node2string (nodes ! j) i)"
        using assms(1) unfolding conhash_inv_find by blast+
      then show ?thesis using False by (cases "j = idx") (simp_all add: e(1))
    next
      case 2
      then show ?thesis using assms(2) False s by (auto simp: e(1))
    qed
    then show "j < length nodes'" "flag_init (nodes' ! j)" "flag_in (nodes' ! j)"
        "\<exists>i < replicas (nodes' ! j). k = hash (conhash_node2string (nodes' ! j) i)" by blast+
  qed
qed

lemma conhash_inv_del [inv_intros]:
  assumes "conhash_inv hash nodes c" "idx < length nodes" "conhash_del_node hash idx nodes c = (r, nodes', c')"
  shows "conhash_inv hash nodes' c'"
proof (cases "\<not> flag_init (nodes ! idx) \<or> \<not> flag_in (nodes ! idx)")
  case True
  then show ?thesis using assms by (auto simp: conhash_del_node_def Let_def)
next
  case False
  let ?n = "nodes ! idx"
  have ok: "ring_ok c" using assms(1) by (simp add: conhash_inv_find)
  have e: "nodes' = nodes[idx := ?n\<lparr>flag_in := False\<rparr>]"
      "c' = fold (del_replica hash ?n idx) [0..<replicas ?n] c"
    using assms(3) False by (auto simp: conhash_del_node_def Let_def conhash_del_replicas_def)
  show ?thesis
    unfolding conhash_inv_find
  proof (intro conjI allI impI)
    show "ring_ok c'" using fold_del_ok [OF ok] by (simp add: e(2))
    fix k j assume "smap_find (vnode_tree c') k = Some j"
    then have f: "smap_find (vnode_tree c) k = Some j"
        "\<not> (k \<in> (\<lambda>i. hash (conhash_node2string ?n i)) ` {0..<replicas ?n} \<and> j = idx)"
      using fold_del_ok [OF ok, of hash ?n idx "[0..<replicas ?n]"] by (auto simp: e(2) split: if_splits)
    have j: "j \<noteq> idx" using f assms(1) unfolding conhash_inv_find by fastforce
    show "j < length nodes'" "flag_init (nodes' ! j)" "flag_in (nodes' ! j)"
        "\<exists>i < replicas (nodes' ! j). k = hash (conhash_node2string (nodes' ! j) i)"
      using assms(1) f(1) j unfolding conhash_inv_find e(1) by auto
  qed
qed

lemma ring_add_lookup:
  assumes "ring_ok c" "length (vnode_tree (fold (add_replica hash node idx) is c)) < 2 ^ 32"
    "tree_lookup (hash object) (vnode_tree c) = Some (k0, j0)"
  shows "conhash_lookup hash (fold (add_replica hash node idx) is c) object \<in> {Some j0, Some idx}"
proof -
  let ?c' = "fold (add_replica hash node idx) is c"
  note ok' = fold_add_ok [OF assms(1), of hash node idx "is"]
  have inv: "smap_inv (vnode_tree c)" "smap_inv (vnode_tree ?c')"
    using assms(1) ok' by (auto simp: ring_ok_def)
  have sub: "fst ` set (vnode_tree c) \<subseteq> fst ` set (vnode_tree ?c')" using ok' by blast
  have "vnode_tree c \<noteq> []" using assms(3) tree_lookup_None by (metis option.distinct(1))
  then have ne: "vnode_tree ?c' \<noteq> []" using sub by (cases "vnode_tree c") auto
  then have iv: "ivnodes ?c' \<noteq> 0" using ok' assms(2) by (auto simp: ring_ok_def uwrap32_def)
  obtain k j where l: "tree_lookup (hash object) (vnode_tree ?c') = Some (k, j)"
    using tree_lookup_ex [OF inv(2) ne] by blast
  have f: "smap_find (vnode_tree ?c') k = Some j" using tree_lookup_successor [OF inv(2) l] by blast
  have "j = j0 \<or> j = idx"
  proof (cases "smap_find (vnode_tree c) k")
    case None
    then show ?thesis using f ok' by (simp split: if_splits)
  next
    case (Some w)
    then have "w = j" using f ok' by simp
    then show ?thesis using tree_lookup_subset [OF inv sub l Some] assms(3) by simp
  qed
  then show ?thesis using iv l by (auto simp: conhash_lookup_def)
qed

lemma ring_del_lookup:
  assumes "ring_ok c" "length (vnode_tree c) < 2 ^ 32"
    "tree_lookup (hash object) (vnode_tree c) = Some (k0, j0)"
  shows "j0 = idx \<or> conhash_lookup hash (fold (del_replica hash node idx) is c) object = Some j0"
proof (cases "j0 = idx")
  case False
  let ?c' = "fold (del_replica hash node idx) is c"
  note ok' = fold_del_ok [OF assms(1), of hash node idx "is"]
  have inv: "smap_inv (vnode_tree c)" "smap_inv (vnode_tree ?c')"
    using assms(1) ok' by (auto simp: ring_ok_def)
  have f: "smap_find (vnode_tree c) k0 = Some j0" using tree_lookup_successor [OF inv(1) assms(3)] by blast
  then have f': "smap_find (vnode_tree ?c') k0 = Some j0" using ok' False by simp
  have sub: "fst ` set (vnode_tree ?c') \<subseteq> fst ` set (vnode_tree c)"
  proof
    fix k assume "k \<in> fst ` set (vnode_tree ?c')"
    then have "smap_find (vnode_tree ?c') k \<noteq> None" by (simp add: smap_find_None_iff)
    then have "smap_find (vnode_tree c) k \<noteq> None" using ok' by (auto split: if_splits)
    then show "k \<in> fst ` set (vnode_tree c)" by (simp add: smap_find_None_iff)
  qed
  have "vnode_tree ?c' \<noteq> []" using f' by auto
  moreover have "length (vnode_tree ?c') \<le> length (vnode_tree c)"
  proof -
    have "card (fst ` set (vnode_tree ?c')) \<le> card (fst ` set (vnode_tree c))" using sub by (intro card_mono) auto
    then show ?thesis
      using distinct_card [OF smap_inv_distinct [OF inv(1)]] distinct_card [OF smap_inv_distinct [OF inv(2)]] by simp
  qed
  ultimately have "ivnodes ?c' \<noteq> 0" using ok' assms(2) by (auto simp: ring_ok_def uwrap32_def)
  then show ?thesis
    using tree_lookup_subset [OF inv(2,1) sub assms(3) f'] by (simp add: conhash_lookup_def)
qed simp

section \<open>Properties\<close>

text \<open>The ring stays well-formed under conhash_add_node and conhash_del_node: every virtual node
  belongs to a node that is in the ring, and a lookup in a ring with virtual nodes always finds such
  a node.\<close>

theorem conhash_lookup_member:
  assumes "conhash_inv hash nodes c" "ivnodes c \<noteq> 0" "idx < length nodes"
    "conhash_add_node hash idx nodes c = (r, nodes', c')" "conhash_del_node hash idx nodes c = (s, nodes'', c'')"
  shows "conhash_inv hash nodes' c' \<and> conhash_inv hash nodes'' c''
    \<and> (\<exists>j < length nodes. conhash_lookup hash c object = Some j \<and> flag_in (nodes ! j))"
proof -
  have inv: "smap_inv (vnode_tree c)" using assms(1) by (simp add: conhash_inv_def)
  have "vnode_tree c \<noteq> []" using assms(1,2) by (auto simp: conhash_inv_def uwrap32_def)
  then obtain k j where kj: "tree_lookup (hash object) (vnode_tree c) = Some (k, j)"
    using tree_lookup_None by (metis option.exhaust surj_pair)
  then have "(k, j) \<in> set (vnode_tree c)" using tree_lookup_successor [OF inv kj] by (intro smap_find_Some_in) simp
  then have "j < length nodes" "flag_in (nodes ! j)" using assms(1) by (auto simp: conhash_inv_def)
  moreover have "conhash_lookup hash c object = Some j" using kj assms(2) by (simp add: conhash_lookup_def)
  ultimately show ?thesis
    using conhash_inv_add [OF assms(1,3,4)] conhash_inv_del [OF assms(1,3,5)] by blast
qed

definition example_nodes :: "node_s list" where "example_nodes = [conhash_set_node ''a'' 1, conhash_set_node ''bb'' 1]"
definition example_hash :: "string \<Rightarrow> int" where "example_hash = (\<lambda>s. int (length s))"

lemma example_ring:
  "\<exists>nodes c. conhash_add_node example_hash 0 example_nodes conhash_init = (0, nodes, c)
    \<and> conhash_inv example_hash nodes c \<and> ivnodes c = 1 \<and> length nodes = 2
    \<and> length (vnode_tree c) = 1 \<and> nodes ! 1 = conhash_set_node ''bb'' 1"
proof -
  obtain r nodes c where a: "conhash_add_node example_hash 0 example_nodes conhash_init = (r, nodes, c)"
    by (metis surj_pair)
  have "conhash_inv example_hash nodes c"
    by (rule conhash_inv_add [OF conhash_inv_init _ a]) (simp add: example_nodes_def)
  moreover have "r = 0 \<and> ivnodes c = 1 \<and> length nodes = 2 \<and> length (vnode_tree c) = 1 \<and> nodes ! 1 = conhash_set_node ''bb'' 1"
    using a by (auto simp: conhash_add_node_def example_nodes_def conhash_set_node_def conhash_add_replicas_def
        add_replica_def conhash_init_def uwrap32_def Let_def)
  ultimately show ?thesis using a by blast
qed

lemma conhash_lookup_member_witness:
  "\<exists>c j. ivnodes c = 1 \<and> conhash_lookup example_hash c ''w'' = Some j"
proof -
  obtain nodes c where c: "conhash_inv example_hash nodes c" "ivnodes c = 1" "length nodes = 2"
    using example_ring by blast
  obtain r n' c' s n'' c'' where "conhash_add_node example_hash 1 nodes c = (r, n', c')"
      "conhash_del_node example_hash 1 nodes c = (s, n'', c'')"
    by (metis surj_pair)
  from conhash_lookup_member [OF c(1) _ _ this, of "''w''"] c show ?thesis by auto
qed

text \<open>C15: consistent hashing. As long as there are fewer than 2^32 virtual nodes, adding a node moves an
  object only to that node, and removing a node moves only the objects that were on it.\<close>

theorem conhash_minimal_disruption:
  assumes "conhash_inv hash nodes c" "ivnodes c \<noteq> 0" "length (vnode_tree c') < 2 ^ 32" "length (vnode_tree c) < 2 ^ 32"
    "conhash_add_node hash idx nodes c = (r, nodes', c')" "conhash_del_node hash idx nodes c = (s, nodes'', c'')"
  shows "conhash_lookup hash c' object \<in> {conhash_lookup hash c object, Some idx}
    \<and> (conhash_lookup hash c object = Some idx \<or> conhash_lookup hash c'' object = conhash_lookup hash c object)"
proof -
  have ok: "ring_ok c" and inv: "smap_inv (vnode_tree c)" using assms(1) by (simp_all add: conhash_inv_find ring_ok_def)
  have nz: "vnode_tree c \<noteq> []" using assms(1,2) by (auto simp: conhash_inv_def uwrap32_def)
  then obtain k0 j0 where l0: "tree_lookup (hash object) (vnode_tree c) = Some (k0, j0)"
    using tree_lookup_ex [OF inv] by blast
  then have c0: "conhash_lookup hash c object = Some j0" using assms(2) by (simp add: conhash_lookup_def)
  have "c' = c \<or> c' = fold (add_replica hash (nodes ! idx) idx) [0..<replicas (nodes ! idx)] c"
    using assms(5) by (simp add: conhash_add_node_def Let_def conhash_add_replicas_def split: if_splits)
  then have "conhash_lookup hash c' object \<in> {Some j0, Some idx}"
    using ring_add_lookup [where hash = hash, OF ok _ l0] assms(3) c0 by blast
  moreover have "c'' = c \<or> c'' = fold (del_replica hash (nodes ! idx) idx) [0..<replicas (nodes ! idx)] c"
    using assms(6) by (simp add: conhash_del_node_def Let_def conhash_del_replicas_def split: if_splits)
  then have "j0 = idx \<or> conhash_lookup hash c'' object = Some j0"
    using ring_del_lookup [where hash = hash, OF ok assms(4) l0] c0 by blast
  ultimately show ?thesis using c0 by auto
qed

lemma conhash_minimal_disruption_witness:
  "\<exists>c nodes r nodes' c'. ivnodes c = 1 \<and> conhash_add_node example_hash 1 nodes c = (r, nodes', c')
    \<and> conhash_lookup example_hash c' ''w'' \<in> {conhash_lookup example_hash c ''w'', Some 1}"
proof -
  obtain nodes c where c: "conhash_inv example_hash nodes c" "ivnodes c = 1" "length (vnode_tree c) = 1"
      "nodes ! 1 = conhash_set_node ''bb'' 1"
    using example_ring by blast
  obtain r n' c' s n'' c'' where a: "conhash_add_node example_hash 1 nodes c = (r, n', c')"
      "conhash_del_node example_hash 1 nodes c = (s, n'', c'')"
    by (metis surj_pair)
  have "c' = add_replica example_hash (nodes ! 1) 1 0 c"
    using a(1) c(4) by (auto simp: conhash_add_node_def Let_def conhash_set_node_def conhash_add_replicas_def)
  moreover obtain k where "vnode_tree c = [(k, 0)] \<or> (\<exists>v. vnode_tree c = [(k, v)])"
    using c(3) by (cases "vnode_tree c") auto
  ultimately have "length (vnode_tree c') < 2 ^ 32" "length (vnode_tree c) < 2 ^ 32"
    by (auto simp: add_replica_def Let_def)
  from conhash_minimal_disruption [OF c(1) _ this a, of "''w''"] c(2) a show ?thesis by fastforce
qed

end
