(* ===== verification/Epoller.thy ===== *)
theory Epoller
  imports StdMap
begin

text \<open>
  The table of watched descriptors, src/server/epoller.cc: registration and removal. The results of
  the system calls are arguments. The dispatch of events to the callbacks is in theory Server, next
  to the state that the callbacks change.
\<close>

text \<open>The callbacks that the program installs.\<close>

datatype callback = EpollReadCallback | EpollCloseCallback | EpollAccentCallback

record poll_event_element =
  elem_fd :: int
  write_callback :: "callback option"
  read_callback :: "callback option"
  close_callback :: "callback option"
  accept_callback :: "callback option"
  connect_callback :: "callback option"
  events :: "32 word"
  cur_event :: "32 word"
  cb_flags :: "8 word"

type_synonym poll_table = "(int, poll_event_element) smap"

definition NewEventElement :: "int \<Rightarrow> 32 word \<Rightarrow> poll_event_element" where
  "NewEventElement fd evs = \<lparr>elem_fd = fd, write_callback = None, read_callback = None,
     close_callback = None, accept_callback = None, connect_callback = None,
     events = evs, cur_event = 0, cb_flags = 0\<rparr>"

definition EPOLLIN :: "32 word" where "EPOLLIN = 0x001"
definition EPOLLPRI :: "32 word" where "EPOLLPRI = 0x002"
definition EPOLLOUT :: "32 word" where "EPOLLOUT = 0x004"
definition EPOLLERR :: "32 word" where "EPOLLERR = 0x008"
definition EPOLLHUP :: "32 word" where "EPOLLHUP = 0x010"
definition EPOLLRDHUP :: "32 word" where "EPOLLRDHUP = 0x2000"
definition ACCEPT_CB :: "8 word" where "ACCEPT_CB = 1"
definition CONNECT_CB :: "8 word" where "CONNECT_CB = 2"

text \<open>The element pointer that AddToPollEvent returns is the entry of \<open>fd\<close>.\<close>

definition AddToPollEvent :: "int \<Rightarrow> 32 word \<Rightarrow> poll_table \<Rightarrow> poll_table" where
  "AddToPollEvent fd flags tab =
     (case smap_find tab fd of
        Some elem \<Rightarrow> smap_set fd (elem\<lparr>events := or (events elem) flags\<rparr>) tab
      | None \<Rightarrow> smap_set fd (NewEventElement fd flags) tab)"

definition RemoveFromPollEvent :: "int \<Rightarrow> poll_table \<Rightarrow> poll_table" where
  "RemoveFromPollEvent fd tab = smap_erase fd tab"

definition set_element :: "int \<Rightarrow> (poll_event_element \<Rightarrow> poll_event_element) \<Rightarrow> poll_table \<Rightarrow> poll_table" where
  "set_element fd f tab = (case smap_find tab fd of None \<Rightarrow> tab | Some e \<Rightarrow> smap_set fd (f e) tab)"

definition poll_inv :: "poll_table \<Rightarrow> bool" where
  "poll_inv tab \<longleftrightarrow> smap_inv tab \<and> (\<forall>fd e. smap_find tab fd = Some e \<longrightarrow> elem_fd e = fd)"

lemma poll_inv_Add [inv_intros]: "poll_inv tab \<Longrightarrow> poll_inv (AddToPollEvent fd flags tab)"
  by (auto simp: poll_inv_def AddToPollEvent_def NewEventElement_def smap_inv_set smap_find_set
      split: option.split)

lemma poll_inv_Remove [inv_intros]: "poll_inv tab \<Longrightarrow> poll_inv (RemoveFromPollEvent fd tab)"
  by (auto simp: poll_inv_def RemoveFromPollEvent_def smap_inv_erase smap_find_erase)

lemma poll_inv_set_element [inv_intros]:
  "poll_inv tab \<Longrightarrow> (\<And>e. elem_fd (f e) = elem_fd e) \<Longrightarrow> poll_inv (set_element fd f tab)"
  by (auto simp: poll_inv_def set_element_def smap_inv_set smap_find_set split: option.split)

lemma find_Add: "poll_inv tab \<Longrightarrow> smap_find (AddToPollEvent fd flags tab) fd' =
    (if fd' = fd then Some (case smap_find tab fd of Some e \<Rightarrow> e\<lparr>events := or (events e) flags\<rparr>
       | None \<Rightarrow> NewEventElement fd flags) else smap_find tab fd')"
  by (auto simp: poll_inv_def AddToPollEvent_def smap_find_set split: option.split)

end
