(* ===== verification/Tracker.thy ===== *)
theory Tracker
  imports Connector Enviroment Conhash Epoller
begin

text \<open>
  What masters and workers share, src/server/tracker.cc and tracker.h: the tables of sockets and
  buffers, the ring of masters, sending of protocols, reaction to closed sockets, and one round of
  the socket thread. An operation maps the state to its result and the new state, or to a fault.
  The world of a call - clock, random numbers, name services, connection attempts, the codec - is a
  record of functions. A pointer to a TCPSocket is its descriptor; NULL entries that operator[]
  leaves behind are kept where the code can tell them from absent ones, in receive_buffers.
\<close>

section \<open>State\<close>

datatype signal = HeartBeatSignal | SocketThreadSignal | TaskExchangeSignal | MasterSignal | ComputingSignal

record tracker =
  is_master :: bool
  primary_sockaddr :: string
  worker_sockaddr :: string
  socket_ids :: "(int, string) smap"
  master_sockets :: "(string, int) smap"
  tracker_statuses :: "(string, TrackerStatus) smap"
  send_buffers :: "(int, squeue) smap"
  receive_buffers :: "(int, squeue option) smap"
  send_connects :: "(int, connector) smap"
  socket_send_events :: "int list"
  socket_receive_events :: "int list"
  fdcs_env :: enviroment
  conhash_nodes :: "node_s list"
  master_conhash :: conhash_s
  epoll :: poll_table
  signals :: "signal list"
  wire :: "(int \<times> string) list"

record world =
  now :: int
  random_num :: int
  os_connect :: "string \<Rightarrow> int \<Rightarrow> int option"
  peer_addr :: "int \<Rightarrow> string"
  local_addr :: "int \<Rightarrow> string"
  os_send :: "int \<Rightarrow> string \<Rightarrow> int"
  hash_function :: "string \<Rightarrow> int"
  message_codec :: codec
  indeterminate :: int
  raw_memory :: string

definition Signal :: "signal \<Rightarrow> tracker \<Rightarrow> tracker" where
  "Signal s t = t\<lparr>signals := signals t @ [s]\<rparr>"

abbreviation own_addr :: "tracker \<Rightarrow> string" where
  "own_addr t \<equiv> TrackerServer (fdcs_env t)"

definition IAmPrimaryMaster :: "tracker \<Rightarrow> bool" where
  "IAmPrimaryMaster t \<longleftrightarrow> is_master t \<and> primary_sockaddr t \<noteq> [] \<and> primary_sockaddr t = own_addr t"

definition IKnowPrimaryMaster :: "tracker \<Rightarrow> bool" where
  "IKnowPrimaryMaster t \<longleftrightarrow> primary_sockaddr t \<noteq> []"

definition split_at :: "string \<Rightarrow> char \<Rightarrow> string list" where
  "split_at s c = SplitStringToIteratorUsing s [c]"

definition master_group :: "tracker \<Rightarrow> string list" where
  "master_group t = split_at (TrackerGroup (fdcs_env t)) (CHR '';'')"

definition CheckIP :: "string \<Rightarrow> unit result" where
  "CheckIP address = (if length (split_at address (CHR '':'')) \<noteq> 2 then Inl Abort else Inr ())"

section \<open>Sockets and buffers\<close>

definition add_send_buffer :: "world \<Rightarrow> int \<Rightarrow> tracker \<Rightarrow> tracker result" where
  "add_send_buffer w fd t =
     (if smap_find (send_buffers t) fd = None
      then rbind (SignalingQueue (SocketBuffSize (fdcs_env t)) 1)
        (\<lambda>q. rbind (Connector_Initialize (Some q) fd)
          (\<lambda>_. Inr (t\<lparr>send_buffers := smap_set fd q (send_buffers t),
                       send_connects := smap_set fd (Connector (raw_memory w)) (send_connects t)\<rparr>)))
      else Inr t)"

definition add_receive_buffer :: "int \<Rightarrow> tracker \<Rightarrow> tracker result" where
  "add_receive_buffer fd t =
     (if smap_find (receive_buffers t) fd = None
      then rbind (SignalingQueue (SocketBuffSize (fdcs_env t)) 1)
        (\<lambda>q. Inr (t\<lparr>receive_buffers := smap_set fd (Some q) (receive_buffers t)\<rparr>))
      else Inr t)"

definition watch_socket :: "int \<Rightarrow> poll_table \<Rightarrow> poll_table" where
  "watch_socket fd tab = set_element fd
     (\<lambda>e. e\<lparr>read_callback := Some EpollReadCallback, close_callback := Some EpollCloseCallback\<rparr>)
     (AddToPollEvent fd (or EPOLLIN (or EPOLLRDHUP EPOLLHUP)) tab)"

definition AddSocketResource :: "world \<Rightarrow> int \<Rightarrow> string \<Rightarrow> tracker \<Rightarrow> tracker result" where
  "AddSocketResource w fd addr t =
     rbind (add_send_buffer w fd (t\<lparr>socket_ids := smap_set fd addr (socket_ids t)\<rparr>))
       (\<lambda>t1. rbind (add_receive_buffer fd t1)
          (\<lambda>t2. Inr (t2\<lparr>epoll := watch_socket fd (epoll t2)\<rparr>)))"

definition RemoveSocketResource :: "int \<Rightarrow> tracker \<Rightarrow> tracker" where
  "RemoveSocketResource fd t =
     t\<lparr>socket_ids := smap_erase fd (socket_ids t),
       send_buffers := smap_erase fd (send_buffers t),
       receive_buffers := smap_erase fd (receive_buffers t),
       send_connects := smap_erase fd (send_connects t)\<rparr>"

definition ConnectMaster :: "world \<Rightarrow> string \<Rightarrow> tracker \<Rightarrow> (bool \<times> tracker) result" where
  "ConnectMaster w addr t =
     (if \<not> contains (TrackerGroup (fdcs_env t)) addr then Inr (False, t)
      else if smap_find (master_sockets t) addr \<noteq> None then Inr (True, t)
      else (case split_at addr (CHR '':'') of
              [ip, port] \<Rightarrow>
                (case os_connect w ip (atoi port mod 2 ^ 16) of
                   None \<Rightarrow> Inr (False, t)
                 | Some fd \<Rightarrow>
                     rbind (AddSocketResource w fd addr (t\<lparr>master_sockets := smap_set addr fd (master_sockets t)\<rparr>))
                       (\<lambda>t'. Inr (True, t')))
            | _ \<Rightarrow> Inl Abort))"

text \<open>master_sockets_[addr]->Socket()\<close>

definition master_fd :: "string \<Rightarrow> tracker \<Rightarrow> int result" where
  "master_fd addr t = (case smap_find (master_sockets t) addr of None \<Rightarrow> Inl NullDeref | Some fd \<Rightarrow> Inr fd)"

section \<open>Protocols\<close>

definition NewTrackerProtocol :: "world \<Rightarrow> ProtocolType \<Rightarrow> tracker \<Rightarrow> TrackerProtocol" where
  "NewTrackerProtocol w ty t =
     new_TrackerProtocol\<lparr>id_field := Some (random_num w), time_field := Some (FdcsTime (fdcs_env t) (now w)),
       tracker_type_field := Some (if is_master t then MASTER_TYPE else WORKER_TYPE),
       request_sock_addr_field := Some (if is_master t then own_addr t else worker_sockaddr t),
       protocol_type_field := Some ty\<rparr>"

text \<open>Every master that sends a protocol appends its address to the list of the responders.\<close>

definition sign_protocol :: "tracker \<Rightarrow> TrackerProtocol \<Rightarrow> TrackerProtocol" where
  "sign_protocol t p = p\<lparr>response_sock_addr_field := Some
     (if is_master t
      then (if response_sock_addr p = [] then own_addr t else response_sock_addr p @ '';'' @ own_addr t)
      else response_sock_addr p)\<rparr>"

definition SendProtocol :: "world \<Rightarrow> TrackerProtocol \<Rightarrow> int \<Rightarrow> tracker \<Rightarrow> (bool \<times> tracker) result" where
  "SendProtocol w p fd t =
     (let buff = ser_proto (message_codec w) (sign_protocol t p)
      in case smap_find (send_buffers t) fd of
           Some q \<Rightarrow>
             (case sq_Add_string q buff True of
                (Wait, q') \<Rightarrow> Inl Blocked
              | (Return r, q') \<Rightarrow>
                  Inr (True, Signal SocketThreadSignal
                    (t\<lparr>send_buffers := smap_set fd q' (send_buffers t),
                       socket_send_events := socket_send_events t @ [fd]\<rparr>)))
         | None \<Rightarrow> Inr (False, t\<lparr>socket_ids := smap_insert fd [] (socket_ids t)\<rparr>))"

section \<open>The ring of masters\<close>

text \<open>The loop of NextMasterAddress: the successor of the address, the last master if it is none.\<close>

fun next_in_ring :: "string \<Rightarrow> string \<Rightarrow> string list \<Rightarrow> string" where
  "next_in_ring first address [] = []"
| "next_in_ring first address [x] = (if x = address then first else x)"
| "next_in_ring first address (x # y # ys) = (if x = address then y else next_in_ring first address (y # ys))"

definition NextMasterAddress :: "string \<Rightarrow> tracker \<Rightarrow> string result" where
  "NextMasterAddress address t =
     (case master_group t of [] \<Rightarrow> Inl Abort | m # ms \<Rightarrow> Inr (next_in_ring m address (m # ms)))"

text \<open>
  The endless loop of FindNextMaster. An attempt that fails changes nothing, so that the addresses
  go round the group; the fuel is one more than their number, see \<open>FindNextMaster_loop_walk\<close>.
\<close>

fun FindNextMaster_loop :: "nat \<Rightarrow> world \<Rightarrow> string \<Rightarrow> tracker \<Rightarrow> (int \<times> tracker) result" where
  "FindNextMaster_loop 0 w addr t = Inl Diverge"
| "FindNextMaster_loop (Suc n) w addr t =
     (if addr = own_addr t then Inr (- 1, t)
      else rbind (ConnectMaster w addr t) (\<lambda>(ok, t').
        if ok then rbind (master_fd addr t') (\<lambda>fd. Inr (fd, t'))
        else rbind (NextMasterAddress addr t') (\<lambda>addr'. FindNextMaster_loop n w addr' t')))"

definition FindNextMaster :: "world \<Rightarrow> tracker \<Rightarrow> (int \<times> tracker) result" where
  "FindNextMaster w t =
     rbind (NextMasterAddress (own_addr t) t)
       (\<lambda>addr. FindNextMaster_loop (Suc (length (master_group t))) w addr t)"

text \<open>The addresses of the connected masters, joined by semicolons.\<close>

fun online_masters :: "string \<Rightarrow> string list \<Rightarrow> tracker \<Rightarrow> string" where
  "online_masters online [] t = online"
| "online_masters online (m # ms) t =
     online_masters (if smap_find (master_sockets t) m \<noteq> None
        then (if online = [] then online @ m else online @ '';'' @ m) else online) ms t"

definition MasterGroupChanged :: "world \<Rightarrow> tracker \<Rightarrow> (bool \<times> tracker) result" where
  "MasterGroupChanged w t =
     (if (is_master t \<and> \<not> IAmPrimaryMaster t) \<or> \<not> is_master t then Inr (False, t)
      else rbind (FindNextMaster w t) (\<lambda>(fd, t').
        if fd = - 1 then Inr (True, t')
        else SendProtocol w ((NewTrackerProtocol w MASTER_GROUP_CHANGED t')
               \<lparr>request_args_field := Some (online_masters [] (master_group t') t')\<rparr>) fd t'))"

definition update_member :: "world \<Rightarrow> nat \<times> string \<Rightarrow> tracker \<Rightarrow> tracker" where
  "update_member w im t =
     (case (if smap_find (master_sockets t) (snd im) \<noteq> None
            then conhash_add_node (hash_function w) (fst im) (conhash_nodes t) (master_conhash t)
            else conhash_del_node (hash_function w) (fst im) (conhash_nodes t) (master_conhash t)) of
        (r, nodes, c) \<Rightarrow> t\<lparr>conhash_nodes := nodes, master_conhash := c\<rparr>)"

definition UpdateMasterConhash :: "world \<Rightarrow> tracker \<Rightarrow> tracker" where
  "UpdateMasterConhash w t = fold (update_member w) (enumerate 0 (master_group t)) t"

definition SocketClose :: "world \<Rightarrow> int \<Rightarrow> tracker \<Rightarrow> (bool \<times> tracker) result" where
  "SocketClose w fd t =
     (let guest = peer_addr w fd in
      rbind (if smap_find (master_sockets t) guest \<noteq> None
             then let t1 = t\<lparr>master_sockets := smap_erase guest (master_sockets t)\<rparr>
                  in if primary_sockaddr t1 = guest then Inr (t1\<lparr>primary_sockaddr := []\<rparr>)
                     else rbind (MasterGroupChanged w (UpdateMasterConhash w t1)) (\<lambda>(r, t2). Inr t2)
             else Inr t)
        (\<lambda>t'. Inr (True, RemoveSocketResource fd t')))"

definition AskTaskStatus :: "world \<Rightarrow> tracker \<Rightarrow> tracker result" where
  "AskTaskStatus w t =
     (if IKnowPrimaryMaster t
      then rbind (master_fd (primary_sockaddr t) t)
        (\<lambda>fd. rbind (SendProtocol w (NewTrackerProtocol w ASK_TASK_STATUS t) fd t) (\<lambda>(r, t'). Inr t'))
      else Inr t)"

definition GetTaskStatus :: "world \<Rightarrow> tracker \<Rightarrow> TrackerProtocol \<Rightarrow> TrackerProtocol" where
  "GetTaskStatus w t p =
     (let kvs = fold (\<lambda>(addr, fd) kvs. WriteRecord_status (message_codec w) kvs
                        (new_TrackerStatus\<lparr>socket_addr_field := Some addr\<rparr>))
                  (master_sockets t) (new_KeyValuesPair\<lparr>kvs_key_field := Some ''TrackerStatus''\<rparr>)
      in p\<lparr>key_values_pairs := key_values_pairs p @ [kvs]\<rparr>)"

section \<open>The socket thread\<close>

definition AddReceiveSocketBuffer :: "int \<Rightarrow> string \<Rightarrow> tracker \<Rightarrow> tracker result" where
  "AddReceiveSocketBuffer fd data t =
     (case smap_find (receive_buffers t) fd of
        None \<Rightarrow> Inr t
      | Some None \<Rightarrow> Inl NullDeref
      | Some (Some q) \<Rightarrow>
          (case sq_Add_string q data True of
             (Wait, q') \<Rightarrow> Inl Blocked
           | (Return r, q') \<Rightarrow>
               Inr (Signal SocketThreadSignal
                 (t\<lparr>receive_buffers := smap_set fd (Some q') (receive_buffers t),
                    socket_receive_events := socket_receive_events t @ [fd]\<rparr>))))"

text \<open>GetSocketEvent empties both queues of events.\<close>

definition GetSocketEvent :: "tracker \<Rightarrow> int list \<times> int list \<times> tracker" where
  "GetSocketEvent t = (socket_receive_events t, socket_send_events t,
     t\<lparr>socket_receive_events := [], socket_send_events := []\<rparr>)"

text \<open>
  The handling of one event; \<open>process\<close> is the virtual ProtocolProcess. operator[] leaves a NULL
  buffer behind for a descriptor that is gone. Remove is the blocking call.
\<close>

definition receive_event :: "world \<Rightarrow> (int \<Rightarrow> TrackerProtocol \<Rightarrow> tracker \<Rightarrow> (bool \<times> tracker) result)
    \<Rightarrow> int \<Rightarrow> tracker \<Rightarrow> tracker result" where
  "receive_event w process fd t =
     (case smap_find (receive_buffers t) fd of
        None \<Rightarrow> Inr (t\<lparr>receive_buffers := smap_set fd None (receive_buffers t)\<rparr>)
      | Some None \<Rightarrow> Inr t
      | Some (Some q) \<Rightarrow>
          (case sq_Remove q [] True of
             (Wait, m, q') \<Rightarrow> Inl Blocked
           | (Return r, m, q') \<Rightarrow>
               rbind (process fd (parse_proto (message_codec w) m)
                       (t\<lparr>receive_buffers := smap_set fd (Some q') (receive_buffers t)\<rparr>))
                 (\<lambda>(ok, t'). Inr t')))"

definition send_event :: "world \<Rightarrow> int \<Rightarrow> tracker \<Rightarrow> tracker result" where
  "send_event w fd t =
     (case smap_find (send_connects t) fd of
        None \<Rightarrow> Inr t
      | Some c \<Rightarrow>
          (case smap_find (send_buffers t) fd of
             None \<Rightarrow> Inl NullDeref
           | Some q \<Rightarrow>
               rbind (Connector_Send (os_send w fd) [] c q) (\<lambda>(r, out, c', q').
                 Inr (t\<lparr>send_connects := smap_set fd c' (send_connects t),
                        send_buffers := smap_set fd q' (send_buffers t),
                        wire := wire t @ [(fd, out)]\<rparr>))))"

fun each_event :: "(int \<Rightarrow> tracker \<Rightarrow> tracker result) \<Rightarrow> int list \<Rightarrow> tracker \<Rightarrow> tracker result" where
  "each_event f [] t = Inr t"
| "each_event f (fd # fds) t = rbind (f fd t) (each_event f fds)"

text \<open>One round of SocketThread; with no event it would wait on cond_socket_ again.\<close>

definition SocketThread :: "world \<Rightarrow> (int \<Rightarrow> TrackerProtocol \<Rightarrow> tracker \<Rightarrow> (bool \<times> tracker) result)
    \<Rightarrow> tracker \<Rightarrow> tracker result" where
  "SocketThread w process t =
     (if socket_send_events t = [] \<and> socket_receive_events t = [] then Inr t
      else case GetSocketEvent t of (queue_receive, queue_send, t1) \<Rightarrow>
        rbind (each_event (receive_event w process) queue_receive t1)
          (\<lambda>t2. each_event (send_event w) queue_send t2))"

section \<open>Start and end\<close>

text \<open>
  InitialTracker of the base class. is_master_ and the nodes of the ring are read as they are in
  fresh memory: a Master sets is_master_ only after this call, a Worker never.
\<close>

definition init_member :: "world \<Rightarrow> nat \<times> string \<Rightarrow> tracker \<Rightarrow> tracker" where
  "init_member w im t =
     (case conhash_add_node (hash_function w) (fst im)
             ((conhash_nodes t)[fst im := conhash_set_node (snd im) 256]) (master_conhash t) of
        (r, nodes, c) \<Rightarrow> t\<lparr>conhash_nodes := nodes, master_conhash := c\<rparr>)"

definition fresh_tracker :: "bool \<Rightarrow> node_s list \<Rightarrow> settings_s \<Rightarrow> tracker" where
  "fresh_tracker raw_is_master raw_nodes st =
     \<lparr>is_master = raw_is_master, primary_sockaddr = [], worker_sockaddr = [], socket_ids = [],
      master_sockets = [], tracker_statuses = [], send_buffers = [], receive_buffers = [],
      send_connects = [], socket_send_events = [], socket_receive_events = [],
      fdcs_env = InitFdcsTimeDiffer (Enviroment st), conhash_nodes = raw_nodes,
      master_conhash = conhash_init, epoll = [], signals = [], wire = []\<rparr>"

definition InitialTracker :: "world \<Rightarrow> bool \<Rightarrow> node_s list \<Rightarrow> settings_s \<Rightarrow> tracker result" where
  "InitialTracker w raw_is_master raw_nodes st =
     (if \<not> 1024 > max_connections st then Inl Abort
      else if tracker_group st = None then Inl Abort
      else let t = fresh_tracker raw_is_master raw_nodes st
           in Inr (if raw_is_master then t else fold (init_member w) (enumerate 0 (master_group t)) t))"

text \<open>FinalizeTracker signals the end to every buffer and deletes them with the sockets.\<close>

definition FinalizeTracker :: "tracker \<Rightarrow> tracker" where
  "FinalizeTracker t = Signal SocketThreadSignal (Signal HeartBeatSignal
     (t\<lparr>send_buffers := [], receive_buffers := [], master_sockets := []\<rparr>))"

section \<open>Invariant\<close>

definition queue_ok :: "int \<Rightarrow> squeue \<Rightarrow> bool" where
  "queue_ok n q \<longleftrightarrow> sq_inv q \<and> queue_size q = n \<and> \<not> no_more_add q"

text \<open>The three tables by descriptor: a connector for every send buffer and no other.\<close>

definition buffers_ok :: "int \<Rightarrow> (int, squeue) smap \<Rightarrow> (int, squeue option) smap \<Rightarrow> (int, connector) smap \<Rightarrow> bool" where
  "buffers_ok n sb rb sc \<longleftrightarrow> smap_inv sb \<and> smap_inv rb \<and> smap_inv sc
     \<and> (\<forall>fd q. smap_find sb fd = Some q \<longrightarrow> queue_ok n q)
     \<and> (\<forall>fd q. smap_find rb fd = Some (Some q) \<longrightarrow> queue_ok n q)
     \<and> (\<forall>fd. smap_find sc fd = None \<longleftrightarrow> smap_find sb fd = None)"

definition tracker_inv :: "tracker \<Rightarrow> bool" where
  "tracker_inv t \<longleftrightarrow> env_inv (fdcs_env t) \<and> smap_inv (socket_ids t) \<and> smap_inv (master_sockets t) \<and> poll_inv (epoll t)
     \<and> buffers_ok (SocketBuffSize (fdcs_env t)) (send_buffers t) (receive_buffers t) (send_connects t)"

lemma queue_ok_new: "SignalingQueue n 1 = Inr q \<Longrightarrow> queue_ok n q"
  using sq_inv_new [of n 1 q]
  by (auto simp: queue_ok_def SignalingQueue_def no_more_add_def split: if_splits)

lemma buffers_ok_new_send [inv_intros]:
  "buffers_ok n sb rb sc \<Longrightarrow> queue_ok n q \<Longrightarrow> buffers_ok n (smap_set fd q sb) rb (smap_set fd c sc)"
  by (auto simp: buffers_ok_def smap_find_set smap_inv_set)

lemma buffers_ok_send [inv_intros]:
  "buffers_ok n sb rb sc \<Longrightarrow> queue_ok n q \<Longrightarrow> smap_find sb fd = Some q0 \<Longrightarrow> buffers_ok n (smap_set fd q sb) rb sc"
  by (auto simp: buffers_ok_def smap_find_set smap_inv_set)

lemma buffers_ok_receive [inv_intros]:
  "buffers_ok n sb rb sc \<Longrightarrow> (\<And>q. oq = Some q \<Longrightarrow> queue_ok n q) \<Longrightarrow> buffers_ok n sb (smap_set fd oq rb) sc"
  by (auto simp: buffers_ok_def smap_find_set smap_inv_set)

lemma buffers_ok_erase [inv_intros]:
  "buffers_ok n sb rb sc \<Longrightarrow> buffers_ok n (smap_erase fd sb) (smap_erase fd rb) (smap_erase fd sc)"
  by (auto simp: buffers_ok_def smap_find_erase smap_inv_erase)

lemma buffers_okD:
  "buffers_ok n sb rb sc \<Longrightarrow> smap_find sb fd = Some q \<Longrightarrow> queue_ok n q"
  "buffers_ok n sb rb sc \<Longrightarrow> smap_find rb fd = Some (Some q) \<Longrightarrow> queue_ok n q"
  "buffers_ok n sb rb sc \<Longrightarrow> smap_find sc fd = None \<longleftrightarrow> smap_find sb fd = None"
  by (auto simp: buffers_ok_def)

lemma wrap32_le: "0 \<le> z \<Longrightarrow> wrap32 z \<le> z"
  using zmod_le_nonneg_dividend [of "z + 2 ^ 31" "2 ^ 32"] by (simp add: wrap32_def)

lemma queue_ok_Add [inv_intros]:
  assumes "queue_ok n q" "sq_Add_string q m b = (r, q')"
  shows "queue_ok n q'"
proof -
  have "nat (wrap32 (int (length m))) \<le> length m" using wrap32_le [of "int (length m)"] by linarith
  then show ?thesis
    using assms sq_inv_Add [of q m "wrap32 (int (length m))" b r q']
      sq_Add_fields [of q m "wrap32 (int (length m))" b r q']
    by (auto simp: queue_ok_def sq_Add_string_def)
qed

lemma queue_ok_Remove [inv_intros]:
  "queue_ok n q \<Longrightarrow> sq_Remove q d b = (r, m, q') \<Longrightarrow> queue_ok n q'"
  using sq_inv_Remove [of q d b r m q'] sq_Remove_fields [of q d b r m q'] by (auto simp: queue_ok_def)

lemma queue_ok_Send [inv_intros]:
  assumes "queue_ok n q" "Connector_Send snd_f [] c q = Inr (r, out, c', q')"
  shows "queue_ok n q'"
  using assms queue_ok_Remove [of n q "message c" False]
  by (auto simp: Connector_Send_def Let_def split: if_splits wait.splits prod.splits)

section \<open>Every operation keeps the invariant\<close>

text \<open>
  What an operation of the class keeps: the invariant, the tasks and settings, the role, and the
  signals to all threads but the socket thread.
\<close>

definition other_signals :: "tracker \<Rightarrow> signal list" where
  "other_signals t = filter (\<lambda>s. s \<noteq> SocketThreadSignal) (signals t)"

definition kept :: "tracker \<Rightarrow> tracker \<Rightarrow> bool" where
  "kept t t' \<longleftrightarrow> (tracker_inv t \<longrightarrow> tracker_inv t') \<and> fdcs_env t' = fdcs_env t \<and> is_master t' = is_master t
     \<and> other_signals t' = other_signals t"

lemma kept_refl [simp]: "kept t t"
  by (simp add: kept_def)

lemma kept_trans [trans]: "kept t1 t2 \<Longrightarrow> kept t2 t3 \<Longrightarrow> kept t1 t3"
  by (auto simp: kept_def)

lemma keptI:
  assumes "fdcs_env t' = fdcs_env t" "is_master t' = is_master t" "signals t' = signals t"
    "tracker_inv t \<Longrightarrow> smap_inv (socket_ids t') \<and> smap_inv (master_sockets t') \<and> poll_inv (epoll t')"
    "buffers_ok (SocketBuffSize (fdcs_env t)) (send_buffers t) (receive_buffers t) (send_connects t) \<Longrightarrow>
     buffers_ok (SocketBuffSize (fdcs_env t)) (send_buffers t') (receive_buffers t') (send_connects t')"
  shows "kept t t'"
  using assms by (auto simp: kept_def tracker_inv_def other_signals_def)

lemma kept_add_send_buffer: "add_send_buffer w fd t = Inr t' \<Longrightarrow> kept t t'"
  by (auto simp: add_send_buffer_def tracker_inv_def intro!: keptI buffers_ok_new_send queue_ok_new split: if_splits)

lemma kept_add_receive_buffer: "add_receive_buffer fd t = Inr t' \<Longrightarrow> kept t t'"
  by (auto simp: add_receive_buffer_def tracker_inv_def intro!: keptI buffers_ok_receive queue_ok_new split: if_splits)

lemma kept_AddSocketResource [inv_intros]:
  assumes "AddSocketResource w fd addr t = Inr t'"
  shows "kept t t'"
proof -
  obtain t1 t2 where 1: "add_send_buffer w fd (t\<lparr>socket_ids := smap_set fd addr (socket_ids t)\<rparr>) = Inr t1"
      "add_receive_buffer fd t1 = Inr t2" "t' = t2\<lparr>epoll := watch_socket fd (epoll t2)\<rparr>"
    using assms by (auto simp: AddSocketResource_def)
  have "kept t (t\<lparr>socket_ids := smap_set fd addr (socket_ids t)\<rparr>)"
    by (intro keptI) (auto simp: tracker_inv_def smap_inv_set)
  moreover have "kept t2 t'"
    unfolding 1(3) by (auto simp: tracker_inv_def watch_socket_def intro!: keptI poll_inv_set_element poll_inv_Add)
  ultimately show ?thesis
    using kept_add_send_buffer [OF 1(1)] kept_add_receive_buffer [OF 1(2)] by (blast intro: kept_trans)
qed

lemma kept_RemoveSocketResource [inv_intros]: "kept t (RemoveSocketResource fd t)"
  by (auto simp: RemoveSocketResource_def tracker_inv_def intro!: keptI buffers_ok_erase smap_inv_erase)

lemma kept_set_master [inv_intros]:
  "kept t (t\<lparr>master_sockets := smap_set a fd (master_sockets t)\<rparr>)"
  "kept t (t\<lparr>master_sockets := smap_erase a (master_sockets t)\<rparr>)"
  "kept t (t\<lparr>primary_sockaddr := a\<rparr>)"
  by (auto simp: tracker_inv_def intro!: keptI smap_inv_set smap_inv_erase)

lemma kept_ConnectMaster [inv_intros]:
  assumes "ConnectMaster w addr t = Inr (ok, t')"
  shows "kept t t'"
proof -
  have "kept t t2" if "AddSocketResource w fd addr (t\<lparr>master_sockets := smap_set addr fd (master_sockets t)\<rparr>) = Inr t2" for fd t2
    using kept_AddSocketResource [OF that] kept_set_master(1) kept_trans by blast
  then show ?thesis
    using assms by (auto simp: ConnectMaster_def split: if_splits list.splits option.splits)
qed

lemma kept_Signal [simp]: "kept t (Signal SocketThreadSignal t') \<longleftrightarrow> kept t t'"
  by (simp add: Signal_def kept_def tracker_inv_def other_signals_def)

lemma kept_SendProtocol [inv_intros]:
  assumes "SendProtocol w p fd t = Inr (ok, t')"
  shows "kept t t'"
proof (cases "smap_find (send_buffers t) fd")
  case None
  then show ?thesis using assms
    by (auto simp: SendProtocol_def tracker_inv_def intro!: keptI smap_inv_insert)
next
  case (Some q)
  then obtain r q' where q': "sq_Add_string q (ser_proto (message_codec w) (sign_protocol t p)) True = (Return r, q')"
      "t' = Signal SocketThreadSignal (t\<lparr>send_buffers := smap_set fd q' (send_buffers t),
                       socket_send_events := socket_send_events t @ [fd]\<rparr>)"
    using assms by (auto simp: SendProtocol_def Let_def split: prod.splits wait.splits)
  show ?thesis
    unfolding q'(2) kept_Signal using Some q'(1)
    by (intro keptI) (auto simp: tracker_inv_def intro!: buffers_ok_send intro: queue_ok_Add buffers_okD)
qed

lemma kept_FindNextMaster_loop: "FindNextMaster_loop n w addr t = Inr (fd, t') \<Longrightarrow> kept t t'"
proof (induction n arbitrary: addr t)
  case (Suc n)
  show ?case
  proof (cases "addr = own_addr t")
    case False
    then obtain ok t1 where c: "ConnectMaster w addr t = Inr (ok, t1)" using Suc.prems by auto
    then show ?thesis
      using Suc False kept_ConnectMaster [OF c] by (cases ok) (auto intro: kept_trans)
  qed (use Suc.prems in auto)
qed simp

lemma kept_FindNextMaster [inv_intros]: "FindNextMaster w t = Inr (fd, t') \<Longrightarrow> kept t t'"
  using kept_FindNextMaster_loop by (auto simp: FindNextMaster_def simp del: FindNextMaster_loop.simps)

lemma kept_MasterGroupChanged [inv_intros]:
  assumes "MasterGroupChanged w t = Inr (ok, t')"
  shows "kept t t'"
proof (cases "(is_master t \<and> \<not> IAmPrimaryMaster t) \<or> \<not> is_master t")
  case False
  then obtain fd t1 where f: "FindNextMaster w t = Inr (fd, t1)"
    using assms by (auto simp: MasterGroupChanged_def)
  show ?thesis
    using False f assms kept_FindNextMaster [OF f] kept_SendProtocol [of w _ fd t1]
    by (auto simp: MasterGroupChanged_def split: if_splits intro: kept_trans)
qed (use assms in \<open>auto simp: MasterGroupChanged_def split: if_splits\<close>)

lemma update_member_only_conhash:
  "\<exists>nodes c. update_member w im t = t\<lparr>conhash_nodes := nodes, master_conhash := c\<rparr>"
  by (auto simp: update_member_def split: prod.split)

lemma UpdateMasterConhash_only_conhash:
  "\<exists>nodes c. UpdateMasterConhash w t = t\<lparr>conhash_nodes := nodes, master_conhash := c\<rparr>"
proof -
  have "\<exists>nodes c. fold (update_member w) ims t = t\<lparr>conhash_nodes := nodes, master_conhash := c\<rparr>" for ims
  proof (induction ims arbitrary: t)
    case Nil
    show ?case by (rule exI [of _ "conhash_nodes t"], rule exI [of _ "master_conhash t"]) simp
  next
    case (Cons im ims)
    obtain n c where "update_member w im t = t\<lparr>conhash_nodes := n, master_conhash := c\<rparr>"
      using update_member_only_conhash by blast
    then show ?case using Cons [of "t\<lparr>conhash_nodes := n, master_conhash := c\<rparr>"] by simp
  qed
  then show ?thesis by (simp add: UpdateMasterConhash_def)
qed

lemma kept_UpdateMasterConhash [inv_intros]: "kept t (UpdateMasterConhash w t)"
  using UpdateMasterConhash_only_conhash [of w t] by (auto simp: tracker_inv_def intro!: keptI)

lemma kept_SocketClose [inv_intros]:
  assumes "SocketClose w fd t = Inr (ok, t')"
  shows "kept t t'"
proof -
  let ?t1 = "t\<lparr>master_sockets := smap_erase (peer_addr w fd) (master_sockets t)\<rparr>"
  have "kept t (?t1\<lparr>primary_sockaddr := []\<rparr>)" using kept_trans [OF kept_set_master(2) kept_set_master(3)] .
  moreover have "kept t t2" if "MasterGroupChanged w (UpdateMasterConhash w ?t1) = Inr (r, t2)" for r t2
    using kept_MasterGroupChanged [OF that] kept_UpdateMasterConhash [of ?t1 w] kept_set_master(2) [of t]
    by (blast intro: kept_trans)
  ultimately show ?thesis
    using assms kept_RemoveSocketResource
    by (auto simp: SocketClose_def Let_def split: if_splits intro: kept_trans)
qed

lemma kept_AskTaskStatus [inv_intros]: "AskTaskStatus w t = Inr t' \<Longrightarrow> kept t t'"
  using kept_SendProtocol by (fastforce simp: AskTaskStatus_def split: if_splits)

lemma kept_AddReceiveSocketBuffer [inv_intros]:
  assumes "AddReceiveSocketBuffer fd data t = Inr t'"
  shows "kept t t'"
proof -
  have "kept t (t\<lparr>receive_buffers := smap_set fd (Some q') (receive_buffers t), socket_receive_events := ev\<rparr>)"
    if "smap_find (receive_buffers t) fd = Some (Some q)" "sq_Add_string q data True = (r, q')" for q q' r ev
    using that by (intro keptI) (auto simp: tracker_inv_def intro!: buffers_ok_receive intro: queue_ok_Add buffers_okD)
  then show ?thesis
    using assms by (auto simp: AddReceiveSocketBuffer_def split: option.splits prod.splits wait.splits)
qed

lemma kept_send_event [inv_intros]:
  assumes "send_event w fd t = Inr t'"
  shows "kept t t'"
proof -
  have "kept t (t\<lparr>send_connects := smap_set fd c' (send_connects t),
                        send_buffers := smap_set fd q' (send_buffers t), wire := x\<rparr>)"
    if "smap_find (send_buffers t) fd = Some q" "Connector_Send (os_send w fd) [] c q = Inr (r, out, c', q')" for q q' r c c' out x
    using that by (intro keptI) (auto simp: tracker_inv_def intro!: buffers_ok_new_send intro: queue_ok_Send buffers_okD)
  then show ?thesis
    using assms by (auto simp: send_event_def split: option.splits)
qed

lemma inv_InitialTracker [inv_intros]:
  assumes "InitialTracker w raw_is_master raw_nodes st = Inr t"
  shows "tracker_inv t"
proof -
  have 1: "tracker_inv (init_member w im t0) = tracker_inv t0" for im t0
    by (simp add: init_member_def tracker_inv_def split: prod.split)
  have 2: "tracker_inv (fold (init_member w) ims t0) = tracker_inv t0" for ims t0
    by (induction ims arbitrary: t0) (simp_all add: 1)
  have 3: "env_inv (InitFdcsTimeDiffer (Enviroment st))"
    using env_inv_clock(2) [OF env_inv_new [of st]] .
  then have 4: "tracker_inv (fresh_tracker raw_is_master raw_nodes st)"
    by (simp add: fresh_tracker_def tracker_inv_def buffers_ok_def poll_inv_def smap_find_map_of)
  show ?thesis
    using assms 4 by (auto simp: InitialTracker_def Let_def 2 split: if_splits)
qed

end
