(* ===== verification/TrackerProps.thy ===== *)
theory TrackerProps
  imports Tracker
begin

text \<open>
  What the shared part of masters and workers guarantees: the search for the next master of the
  ring, the outcome of sending, the path of a protocol from one tracker to another, and the two
  ways in which the socket thread is lost.
\<close>

section \<open>The ring of masters\<close>

lemma next_in_ring_member:
  "distinct (us @ a # vs) \<Longrightarrow> next_in_ring first a (us @ a # vs) = (case vs of [] \<Rightarrow> first | v # vs' \<Rightarrow> v)"
proof (induction us)
  case Nil
  then show ?case by (cases vs) auto
next
  case (Cons u us)
  then have "u \<noteq> a" by auto
  obtain x xs where x: "us @ a # vs = x # xs" by (cases us) auto
  have "next_in_ring first a (u # x # xs) = next_in_ring first a (x # xs)" using \<open>u \<noteq> a\<close> by simp
  then show ?case using Cons x by simp
qed

lemma next_in_ring_other: "a \<notin> set ms \<Longrightarrow> ms \<noteq> [] \<Longrightarrow> next_in_ring first a ms = last ms"
  by (induction first a ms rule: next_in_ring.induct) auto

lemma NextMasterAddress_member:
  assumes "master_group t = us @ a # vs" "distinct (master_group t)"
  shows "NextMasterAddress a t = Inr (hd (vs @ master_group t))"
proof -
  obtain m ms where ms: "master_group t = m # ms" using assms(1) by (cases us) auto
  then have "next_in_ring m a (m # ms) = (case vs of [] \<Rightarrow> m | v # vs' \<Rightarrow> v)"
    using next_in_ring_member [of us a vs m] assms by simp
  then show ?thesis by (simp add: NextMasterAddress_def ms split: list.split)
qed

lemma NextMasterAddress_other:
  "a \<notin> set (master_group t) \<Longrightarrow> master_group t \<noteq> [] \<Longrightarrow> NextMasterAddress a t = Inr (last (master_group t))"
  using next_in_ring_other by (auto simp: NextMasterAddress_def split: list.split)

text \<open>\<open>walk t as b\<close>: NextMasterAddress leads along the addresses \<open>as\<close> and then to \<open>b\<close>.\<close>

fun walk :: "tracker \<Rightarrow> string list \<Rightarrow> string \<Rightarrow> bool" where
  "walk t [] b \<longleftrightarrow> True"
| "walk t (a # as) b \<longleftrightarrow> NextMasterAddress a t = Inr (hd (as @ [b])) \<and> walk t as b"

lemma walk_append: "walk t (as @ as') b \<longleftrightarrow> walk t as (hd (as' @ [b])) \<and> walk t as' b"
proof (induction as)
  case (Cons a as)
  then show ?case by (cases as) auto
qed simp

lemma walk_group:
  assumes "distinct (master_group t)" "master_group t = us @ vs"
  shows "walk t vs (hd (master_group t))"
  using assms(2)
proof (induction vs arbitrary: us)
  case (Cons v vs)
  have "hd (vs @ master_group t) = hd (vs @ [hd (master_group t)])" by (cases vs) auto
  then show ?case
    using Cons.IH [of "us @ [v]"] Cons.prems NextMasterAddress_member [OF Cons.prems assms(1)] by simp
qed simp

lemma walk_round:
  assumes "distinct (master_group t)" "master_group t = xs @ own # ys"
  shows "walk t (ys @ xs) own" "NextMasterAddress own t = Inr (hd (ys @ xs @ [own]))"
proof -
  have "walk t (xs @ own # ys) (hd (master_group t))"
    using walk_group [OF assms(1), of "[]"] assms(2) by simp
  then have w: "walk t xs own" "walk t ys (hd (master_group t))" by (auto simp: walk_append)
  have "hd (master_group t) = hd (xs @ [own])" using assms(2) by (cases xs) auto
  then show "walk t (ys @ xs) own" using w by (simp add: walk_append)
  show "NextMasterAddress own t = Inr (hd (ys @ xs @ [own]))"
    using NextMasterAddress_member [OF assms(2,1)] assms(2) by (cases ys; cases xs) auto
qed

text \<open>An address as the group gives it, and whether a connection to it is there or can be made.\<close>

definition wf_address :: "string \<Rightarrow> bool" where
  "wf_address a \<longleftrightarrow> length (split_at a (CHR '':'')) = 2"

definition dial :: "world \<Rightarrow> string \<Rightarrow> int option" where
  "dial w a = os_connect w (split_at a (CHR '':'') ! 0) (atoi (split_at a (CHR '':'') ! 1) mod 2 ^ 16)"

definition connectable :: "world \<Rightarrow> tracker \<Rightarrow> string \<Rightarrow> bool" where
  "connectable w t a \<longleftrightarrow> smap_find (master_sockets t) a \<noteq> None \<or> dial w a \<noteq> None"

lemma fields_sublist: "x \<in> set (SplitString.fields sep xs) \<Longrightarrow> contains xs x"
proof (induction sep xs rule: SplitString.fields.induct)
  case (2 sep y ys)
  have d: "contains (y # ys) x" if "contains (dropWhile P ys) x" for P
    using contains_append_left [OF that, of "y # takeWhile P ys"] by simp
  have "contains (y # ys) (y # takeWhile (Not \<circ> sep) ys)"
    unfolding contains_iff by (rule exI [of _ "[]"], rule exI [of _ "dropWhile (Not \<circ> sep) ys"]) simp
  then show ?case
    using 2 d contains_append_left [of ys x "[y]"] by (auto split: if_splits)
qed simp

lemma group_contains: "a \<in> set (master_group t) \<Longrightarrow> contains (TrackerGroup (fdcs_env t)) a"
  using fields_sublist by (auto simp: master_group_def split_at_def SplitStringToIteratorUsing_eq)

lemma AddSocketResource_ok:
  assumes "0 < SocketBuffSize (fdcs_env t)" "0 < fd"
  obtains t' where "AddSocketResource w fd addr t = Inr t'" "master_sockets t' = master_sockets t"
    "fdcs_env t' = fdcs_env t" "smap_find (socket_ids t') fd = Some addr \<or> \<not> smap_inv (socket_ids t)"
proof -
  have "\<exists>t'. AddSocketResource w fd addr t = Inr t' \<and> master_sockets t' = master_sockets t
    \<and> fdcs_env t' = fdcs_env t \<and> (smap_find (socket_ids t') fd = Some addr \<or> \<not> smap_inv (socket_ids t))"
    using assms by (auto simp: AddSocketResource_def add_send_buffer_def add_receive_buffer_def
        SignalingQueue_def Connector_Initialize_def smap_find_set)
  then show ?thesis using that by blast
qed

lemma ConnectMaster_unfold:
  assumes "a \<in> set (master_group t)" "wf_address a"
  shows "ConnectMaster w a t =
    (if smap_find (master_sockets t) a \<noteq> None then Inr (True, t)
     else (case dial w a of
             None \<Rightarrow> Inr (False, t)
           | Some fd \<Rightarrow> rbind (AddSocketResource w fd a (t\<lparr>master_sockets := smap_set a fd (master_sockets t)\<rparr>))
                  (\<lambda>t'. Inr (True, t'))))"
proof -
  obtain x y where "split_at a (CHR '':'') = [x, y]"
    using assms(2) by (auto simp: wf_address_def length_Suc_conv numeral_2_eq_2)
  then show ?thesis
    using group_contains [OF assms(1)] by (auto simp: ConnectMaster_def dial_def)
qed

definition dial_positive :: "world \<Rightarrow> bool" where
  "dial_positive w \<longleftrightarrow> (\<forall>ip port fd. os_connect w ip port = Some fd \<longrightarrow> 0 < fd)"

lemma ConnectMaster_outcome:
  assumes "a \<in> set (master_group t)" "wf_address a" "0 < SocketBuffSize (fdcs_env t)" "dial_positive w"
    "smap_inv (master_sockets t)"
  shows "\<not> connectable w t a \<Longrightarrow> ConnectMaster w a t = Inr (False, t)"
    "connectable w t a \<Longrightarrow> \<exists>fd t'. ConnectMaster w a t = Inr (True, t') \<and> master_fd a t' = Inr fd
       \<and> fdcs_env t' = fdcs_env t \<and> (\<forall>b. b \<noteq> a \<longrightarrow> smap_find (master_sockets t') b = smap_find (master_sockets t) b)
       \<and> (smap_find (master_sockets t) a = Some fd \<or> dial w a = Some fd)"
proof -
  show "ConnectMaster w a t = Inr (False, t)" if "\<not> connectable w t a"
    using that by (simp add: ConnectMaster_unfold [OF assms(1,2)] connectable_def)
  assume c: "connectable w t a"
  show "\<exists>fd t'. ConnectMaster w a t = Inr (True, t') \<and> master_fd a t' = Inr fd
       \<and> fdcs_env t' = fdcs_env t \<and> (\<forall>b. b \<noteq> a \<longrightarrow> smap_find (master_sockets t') b = smap_find (master_sockets t) b)
       \<and> (smap_find (master_sockets t) a = Some fd \<or> dial w a = Some fd)"
  proof (cases "smap_find (master_sockets t) a")
    case (Some fd)
    then show ?thesis by (simp add: ConnectMaster_unfold [OF assms(1,2)] master_fd_def)
  next
    case None
    then obtain fd where fd: "dial w a = Some fd" using c by (auto simp: connectable_def)
    then have "0 < fd" using assms(4) by (auto simp: dial_def dial_positive_def)
    let ?t = "t\<lparr>master_sockets := smap_set a fd (master_sockets t)\<rparr>"
    have "0 < SocketBuffSize (fdcs_env ?t)" using assms(3) by simp
    from AddSocketResource_ok [OF this \<open>0 < fd\<close>, of w a]
    obtain t' where t': "AddSocketResource w fd a ?t = Inr t'"
      "master_sockets t' = smap_set a fd (master_sockets t)" "fdcs_env t' = fdcs_env t" by auto
    then show ?thesis
      using None fd assms(5)
      by (auto simp: ConnectMaster_unfold [OF assms(1,2)] master_fd_def smap_find_set)
  qed
qed

text \<open>The socket of \<open>a\<close> was found, old or new, and nothing else changed in the table of masters.\<close>

definition found :: "world \<Rightarrow> tracker \<Rightarrow> string \<Rightarrow> (int \<times> tracker) result \<Rightarrow> bool" where
  "found w t a r \<longleftrightarrow> (\<exists>fd t'. r = Inr (fd, t') \<and> smap_find (master_sockets t') a = Some fd
     \<and> (smap_find (master_sockets t) a = Some fd \<or> dial w a = Some fd)
     \<and> (\<forall>b. b \<noteq> a \<longrightarrow> smap_find (master_sockets t') b = smap_find (master_sockets t) b)
     \<and> fdcs_env t' = fdcs_env t)"

lemma FindNextMaster_loop_walk:
  assumes "walk t rs (own_addr t)" "own_addr t \<notin> set rs" "set rs \<subseteq> set (master_group t)"
    "\<forall>a \<in> set (master_group t). wf_address a" "0 < SocketBuffSize (fdcs_env t)" "dial_positive w"
    "smap_inv (master_sockets t)" "length rs < n"
  shows "case List.find (connectable w t) rs of
      None \<Rightarrow> FindNextMaster_loop n w (hd (rs @ [own_addr t])) t = Inr (- 1, t)
    | Some a \<Rightarrow> found w t a (FindNextMaster_loop n w (hd (rs @ [own_addr t])) t)"
  using assms(1,2,3,8)
proof (induction rs arbitrary: n)
  case Nil
  then show ?case by (cases n) auto
next
  case (Cons a rs)
  then obtain k where n: "n = Suc k" "length rs < k" by (cases n) auto
  have a: "a \<in> set (master_group t)" "wf_address a" "a \<noteq> own_addr t" using Cons.prems assms(4) by auto
  note out = ConnectMaster_outcome [OF a(1,2) assms(5,6,7)]
  show ?case
  proof (cases "connectable w t a")
    case True
    from out(2) [OF this] obtain fd t' where
      t': "ConnectMaster w a t = Inr (True, t')" "master_fd a t' = Inr fd" "fdcs_env t' = fdcs_env t"
        "\<forall>b. b \<noteq> a \<longrightarrow> smap_find (master_sockets t') b = smap_find (master_sockets t) b"
        "smap_find (master_sockets t) a = Some fd \<or> dial w a = Some fd" by blast
    have "smap_find (master_sockets t') a = Some fd"
      using t'(2) by (auto simp: master_fd_def split: option.splits)
    moreover have "FindNextMaster_loop n w (hd ((a # rs) @ [own_addr t])) t = Inr (fd, t')"
      using t'(1,2) a(3) n(1) by simp
    moreover have "List.find (connectable w t) (a # rs) = Some a" using True by simp
    ultimately show ?thesis using t' by (simp only: found_def option.case) blast
  next
    case False
    then have f: "List.find (connectable w t) (a # rs) = List.find (connectable w t) rs" by simp
    have l: "FindNextMaster_loop n w (hd ((a # rs) @ [own_addr t])) t
        = FindNextMaster_loop k w (hd (rs @ [own_addr t])) t"
      using out(1) [OF False] a(3) Cons.prems(1) n(1) by simp
    show ?thesis unfolding f l by (rule Cons.IH) (use Cons.prems n(2) in auto)
  qed
qed

declare FindNextMaster_loop.simps [simp del]

lemma next_in_ring_mem: "ms \<noteq> [] \<Longrightarrow> first \<in> S \<Longrightarrow> set ms \<subseteq> S \<Longrightarrow> next_in_ring first a ms \<in> S"
  by (induction first a ms rule: next_in_ring.induct) auto

lemma NextMasterAddress_mem:
  "master_group t \<noteq> [] \<Longrightarrow> \<exists>b \<in> set (master_group t). NextMasterAddress a t = Inr b"
  using next_in_ring_mem [of "master_group t" "hd (master_group t)" "set (master_group t)" a]
  by (cases "master_group t") (auto simp: NextMasterAddress_def)

lemma FindNextMaster_loop_stuck:
  assumes "own_addr t \<notin> set (master_group t)" "\<forall>a \<in> set (master_group t). wf_address a \<and> \<not> connectable w t a"
    "a \<in> set (master_group t)"
  shows "FindNextMaster_loop n w a t = Inl Diverge"
  using assms(3)
proof (induction n arbitrary: a)
  case (Suc n)
  then obtain b where b: "b \<in> set (master_group t)" "NextMasterAddress a t = Inr b"
    using NextMasterAddress_mem [of t a] by fastforce
  have "ConnectMaster w a t = Inr (False, t)"
    using Suc.prems assms(2) by (simp add: ConnectMaster_unfold connectable_def)
  then show ?case using Suc b assms(1) by (auto simp: FindNextMaster_loop.simps)
qed (simp add: FindNextMaster_loop.simps)

section \<open>Properties\<close>

text \<open>C9: The search for the next master ends and finds the right one: in a group of distinct
  well-formed addresses that contains its own, a master gets the socket of the first master after
  itself around the ring that is connected or can be connected, and -1 if there is none; the failed
  attempts before it change nothing, and no other entry of the table of masters changes.\<close>

theorem FindNextMaster_ring:
  assumes "tracker_inv t" "distinct (master_group t)" "master_group t = xs @ own_addr t # ys"
    "\<forall>a \<in> set (master_group t). wf_address a" "0 < SocketBuffSize (fdcs_env t)" "dial_positive w"
  shows "case List.find (connectable w t) (ys @ xs) of
      None \<Rightarrow> FindNextMaster w t = Inr (- 1, t)
    | Some a \<Rightarrow> found w t a (FindNextMaster w t)"
proof -
  note round = walk_round [OF assms(2,3)]
  have inv: "smap_inv (master_sockets t)" using assms(1) by (simp add: tracker_inv_def)
  have "own_addr t \<notin> set (ys @ xs)" "set (ys @ xs) \<subseteq> set (master_group t)"
    "length (ys @ xs) < Suc (length (master_group t))"
    using assms(2) unfolding assms(3) by auto
  from FindNextMaster_loop_walk [OF round(1) this(1,2) assms(4,5,6) inv this(3)]
  show ?thesis
    using round(2) by (auto simp: FindNextMaster_def split: option.splits)
qed

text \<open>A group of three masters; \<open>own\<close> is the address of the tracker.\<close>

definition example_settings :: "string \<Rightarrow> settings_s" where
  "example_settings own = default_settings\<lparr>tracker_group := Some ''a:1;b:2;c:3'', tracker_server := Some own,
     socket_buff_size := 128\<rparr>"

definition example_tracker :: "string \<Rightarrow> tracker" where
  "example_tracker own = fresh_tracker True [] (example_settings own)"

text \<open>A world in which the masters of the given ports can be reached, on the port as descriptor.\<close>

definition example_world :: "int list \<Rightarrow> world" where
  "example_world ports = \<lparr>now = 0, random_num = 7, os_connect = (\<lambda>ip port. if port \<in> set ports then Some port else None),
     peer_addr = (\<lambda>fd. ''p''), local_addr = (\<lambda>fd. ''l''), os_send = (\<lambda>fd data. int (length data)),
     hash_function = (\<lambda>s. int (length s)), message_codec = field_codec, indeterminate = 0, raw_memory = []\<rparr>"

lemma tracker_inv_fresh [inv_intros]: "tracker_inv (fresh_tracker m nodes st)"
  using env_inv_clock(2) [OF env_inv_new [of st]]
  by (simp add: fresh_tracker_def tracker_inv_def buffers_ok_def poll_inv_def smap_find_map_of)

lemma example_inv: "tracker_inv (example_tracker own)"
  by (simp add: example_tracker_def tracker_inv_fresh)

lemma example_simps:
  "master_group (example_tracker own) = [''a:1'', ''b:2'', ''c:3'']" "own_addr (example_tracker own) = own"
  "SocketBuffSize (fdcs_env (example_tracker own)) = 128"
  "master_sockets (example_tracker own) = []" "is_master (example_tracker own)"
  by code_simp+

lemma example_wf: "\<forall>a \<in> set (master_group (example_tracker own)). wf_address a"
  by code_simp

lemma example_dial: "\<forall>p \<in> set ports. 0 < p \<Longrightarrow> dial_positive (example_world ports)"
  by (auto simp: dial_positive_def example_world_def)

lemma FindNextMaster_ring_witness:
  "found (example_world [1, 2]) (example_tracker ''b:2'') ''a:1'' (FindNextMaster (example_world [1, 2]) (example_tracker ''b:2''))"
proof -
  have find: "List.find (connectable (example_world [1, 2]) (example_tracker ''b:2'')) ([''c:3''] @ [''a:1'']) = Some ''a:1''"
    by code_simp
  have "master_group (example_tracker ''b:2'') = [''a:1''] @ own_addr (example_tracker ''b:2'') # [''c:3'']"
    "distinct (master_group (example_tracker ''b:2''))" "0 < SocketBuffSize (fdcs_env (example_tracker ''b:2''))"
    by (simp_all add: example_simps)
  from FindNextMaster_ring [OF example_inv this(2,1) example_wf this(3) example_dial [of "[1, 2]"]]
  show ?thesis unfolding find by simp
qed

text \<open>A master whose own address is not in the group never comes out of the search when no member can
  be connected: the endless loop goes round the group for any number of steps.\<close>

theorem FindNextMaster_diverges:
  assumes "master_group t \<noteq> []" "own_addr t \<notin> set (master_group t)"
    "\<forall>a \<in> set (master_group t). wf_address a \<and> \<not> connectable w t a"
  shows "\<exists>a. NextMasterAddress (own_addr t) t = Inr a \<and> (\<forall>n. FindNextMaster_loop n w a t = Inl Diverge)
    \<and> FindNextMaster w t = Inl Diverge"
proof -
  obtain a where a: "a \<in> set (master_group t)" "NextMasterAddress (own_addr t) t = Inr a"
    using NextMasterAddress_mem [OF assms(1)] by blast
  then show ?thesis
    using FindNextMaster_loop_stuck [OF assms(2,3) a(1)] by (simp add: FindNextMaster_def)
qed

lemma FindNextMaster_diverges_witness:
  "FindNextMaster (example_world []) (example_tracker ''d:4'') = Inl Diverge"
proof -
  have "\<forall>a \<in> set (master_group (example_tracker ''d:4'')). wf_address a \<and> \<not> connectable (example_world []) (example_tracker ''d:4'') a"
    by code_simp
  then show ?thesis
    using FindNextMaster_diverges [of "example_tracker ''d:4''" "example_world []"] by (auto simp: example_simps)
qed

text \<open>C20: Sending a protocol on every branch: with a send buffer for the descriptor, the message is stored
  behind the waiting ones if it fits; the thread waits if it fits the buffer but not the free part; and
  a message that is empty or larger than the buffer is lost although the result is true and the socket
  thread is told to send. Without a buffer the result is false and only the table of ids changes.\<close>

theorem SendProtocol_outcome:
  assumes "tracker_inv t" "m = ser_proto (message_codec w) (sign_protocol t p)" "length m < 2 ^ 31"
  shows "case smap_find (send_buffers t) fd of
      None \<Rightarrow> SendProtocol w p fd t = Inr (False, t\<lparr>socket_ids := smap_insert fd [] (socket_ids t)\<rparr>)
    | Some q \<Rightarrow>
        (if m \<noteq> [] \<and> int (length m) \<le> queue_size q \<and> free_size q < int (length m)
         then SendProtocol w p fd t = Inl Blocked
         else \<exists>q'. SendProtocol w p fd t = Inr (True, Signal SocketThreadSignal
             (t\<lparr>send_buffers := smap_set fd q' (send_buffers t), socket_send_events := socket_send_events t @ [fd]\<rparr>))
           \<and> queue_ok (SocketBuffSize (fdcs_env t)) q'
           \<and> sq_messages q' = (if m \<noteq> [] \<and> int (length m) \<le> queue_size q then sq_messages q @ [m] else sq_messages q))"
proof (cases "smap_find (send_buffers t) fd")
  case None
  then show ?thesis by (simp add: SendProtocol_def)
next
  case (Some q)
  have ok: "queue_ok (SocketBuffSize (fdcs_env t)) q"
    using assms(1) Some by (auto simp: tracker_inv_def buffers_ok_def)
  obtain r q' where q': "sq_Add_string q m True = (r, q')" by (cases "sq_Add_string q m True") auto
  have ok': "queue_ok (SocketBuffSize (fdcs_env t)) q'" using queue_ok_Add [OF ok q'] .
  have add: "sq_Add q m (int (length m)) True = (r, q')"
    using q' assms(3) by (simp add: sq_Add_string_def wrap32_of_nat)
  have send: "SendProtocol w p fd t = (case r of Wait \<Rightarrow> Inl Blocked
      | Return x \<Rightarrow> Inr (True, Signal SocketThreadSignal
             (t\<lparr>send_buffers := smap_set fd q' (send_buffers t), socket_send_events := socket_send_events t @ [fd]\<rparr>)))"
    using Some q' by (simp add: SendProtocol_def assms(2))
  show ?thesis
  proof (cases "m \<noteq> [] \<and> int (length m) \<le> queue_size q")
    case False
    then have "r = Return (- 1) \<and> q' = q"
      using add by (auto simp: sq_Add_def not_le split: if_splits)
    with False show ?thesis using Some send ok by auto
  next
    case True
    then have "r = (if free_size q < int (length m) then Wait else Return (int (length m)))"
      using add ok by (auto simp: sq_Add_def sq_Add_loop_def queue_ok_def split: if_splits)
    moreover have "sq_messages q' = sq_messages q @ [m]" if "r = Return (int (length m))"
      using sq_Add_stored(2) [OF _ add [unfolded that]] ok True by (simp add: queue_ok_def)
    ultimately show ?thesis using True Some send ok' by auto
  qed
qed

text \<open>The example tracker with a socket, and the queue its buffers start as.\<close>

definition example_connected :: "int \<Rightarrow> tracker" where
  "example_connected fd = (case AddSocketResource (example_world []) fd ''p'' (example_tracker ''b:2'') of
     Inr t \<Rightarrow> t | Inl e \<Rightarrow> example_tracker ''b:2'')"

definition example_queue :: squeue where
  "example_queue = \<lparr>queue_buf = replicate 128 (CHR 0x00), queue_size = 128, free_size = 128, write_pointer = 0,
     num_producers = 1, message_positions = [], finished_producers = {}\<rparr>"

lemma example_connected_inv: "tracker_inv (example_connected fd)"
  using example_inv kept_AddSocketResource
  by (auto simp: example_connected_def kept_def split: sum.split)

lemma example_connected_find:
  "smap_find (send_buffers (example_connected 5)) 5 = Some example_queue"
  "smap_find (receive_buffers (example_connected 5)) 5 = Some (Some example_queue)"
  "smap_find (send_connects (example_connected 5)) 5 = Some (Connector [])"
  "is_master (example_connected 5)" "own_addr (example_connected 5) = ''b:2''"
  "socket_receive_events (example_connected 5) = []" "SocketBuffSize (fdcs_env (example_connected 5)) = 128"
proof -
  have q: "SignalingQueue 128 1 = Inr example_queue" by (simp add: SignalingQueue_def example_queue_def)
  have "AddSocketResource (example_world []) 5 ''p'' (example_tracker ''b:2'')
    = Inr ((example_tracker ''b:2'')\<lparr>socket_ids := [(5, ''p'')], send_buffers := [(5, example_queue)],
        send_connects := [(5, Connector [])], receive_buffers := [(5, Some example_queue)], epoll := watch_socket 5 []\<rparr>)"
    using example_simps(3) [of "''b:2''"] q
    by (simp add: AddSocketResource_def add_send_buffer_def add_receive_buffer_def Connector_Initialize_def
        smap_find_map_of example_tracker_def fresh_tracker_def example_world_def)
  then show "smap_find (send_buffers (example_connected 5)) 5 = Some example_queue"
    "smap_find (receive_buffers (example_connected 5)) 5 = Some (Some example_queue)"
    "smap_find (send_connects (example_connected 5)) 5 = Some (Connector [])"
    "is_master (example_connected 5)" "own_addr (example_connected 5) = ''b:2''"
    "socket_receive_events (example_connected 5) = []" "SocketBuffSize (fdcs_env (example_connected 5)) = 128"
    using example_simps(2,3,5) [of "''b:2''"]
    by (simp_all add: example_connected_def smap_find_map_of example_tracker_def fresh_tracker_def)
qed

lemma example_queue_empty: "sq_messages example_queue = []" "queue_size example_queue = 128" "free_size example_queue = 128"
  by (simp_all add: example_queue_def sq_messages_def)

definition example_protocol :: TrackerProtocol where
  "example_protocol = new_TrackerProtocol\<lparr>request_args_field := Some ''x''\<rparr>"

definition example_message :: string where
  "example_message = ser_proto (message_codec (example_world [])) (sign_protocol (example_connected 5) example_protocol)"

lemma example_message_fits: "example_message \<noteq> [] \<and> length example_message \<le> 128"
  by (simp add: example_message_def sign_protocol_def example_connected_find(4,5) example_world_def) code_simp

lemma SendProtocol_outcome_witness:
  "\<exists>q' t'. SendProtocol (example_world []) example_protocol 5 (example_connected 5) = Inr (True, t')
     \<and> smap_find (send_buffers t') 5 = Some q' \<and> sq_messages q' = [example_message]"
proof -
  have len: "length example_message < 2 ^ 31" using example_message_fits by simp
  have inv: "smap_inv (send_buffers (example_connected 5))"
    using example_connected_inv [of 5] by (simp add: tracker_inv_def buffers_ok_def)
  show ?thesis
    using SendProtocol_outcome [OF example_connected_inv example_message_def len, of 5]
      example_message_fits example_connected_find(1) example_queue_empty inv
    by (auto simp: Signal_def smap_find_set)
qed

text \<open>One message through an empty queue, and through an idle connector.\<close>

lemma queue_put:
  assumes "queue_ok n q" "sq_messages q = []" "storable_message m" "int (length m) \<le> n"
  obtains q' where "sq_Add_string q m True = (Return (int (length m)), q')" "queue_ok n q'" "sq_messages q' = [m]"
proof -
  have "used_size q = 0" using assms(2) by (simp add: sq_messages_def used_size_def)
  then show ?thesis
    using that sq_Add_room [of q m] assms by (auto simp: queue_ok_def)
qed

lemma queue_take:
  assumes "queue_ok n q" "sq_messages q = [m]"
  obtains q' where "\<And>d b. sq_Remove q d b = (Return (int (length m)), m, q')" "queue_ok n q'" "sq_messages q' = []"
proof -
  obtain pos ps where ps: "message_positions q = pos # ps" using assms(2) by (auto simp: sq_messages_def)
  have inv: "sq_inv q" using assms(1) by (simp add: queue_ok_def)
  have "\<exists>q'. sq_Remove q [] True = (Return (int (length m)), m, q') \<and> sq_messages q' = []"
    by (rule sq_Remove_cases [OF inv, of "[]" True]) (use assms(2) in auto)
  then obtain q' where q': "sq_Remove q [] True = (Return (int (length m)), m, q')" "sq_messages q' = []" by blast
  have "sq_Remove q d b = sq_Remove q [] True" for d b by (simp add: sq_Remove_def ps)
  then show ?thesis using that q' queue_ok_Remove [OF assms(1) q'(1)] by simp
qed

lemma Connector_Send_one:
  assumes "queue_ok n q" "sq_messages q = [m]" "sending [] c" "storable_message m"
  obtains c' q' where "Connector_Send (\<lambda>data. int (length data)) [] c q = Inr (1, m, c', q')"
    "queue_ok n q'" "sq_messages q' = []" "sending [] c'"
proof -
  obtain q' where q': "\<And>d b. sq_Remove q d b = (Return (int (length m)), m, q')" "queue_ok n q'" "sq_messages q' = []"
    using queue_take [OF assms(1,2)] by blast
  have c: "message c = []" "bytes_count c = 0" using assms(3) by (auto simp: sending_def)
  have m: "m \<noteq> []" "uwrap32 (int (length m)) = int (length m)"
    using assms(4) by (auto simp: storable_message_def uwrap32_def)
  have "Connector_Send (\<lambda>data. int (length data)) [] c q
      = Inr (1, m, Clear (c\<lparr>message := m, message_size := int (length m), bytes_count := int (length m)\<rparr>), q')"
    using q'(1) c m by (simp add: Connector_Send_def Send_message_def Let_def)
  then show ?thesis by (rule that) (use q' in \<open>simp_all add: sending_def Clear_def\<close>)
qed

text \<open>A message that arrives at an empty receive buffer is the one that the socket thread takes and handles.\<close>

lemma message_received:
  assumes "tracker_inv t2" "storable_message m" "smap_find (receive_buffers t2) fd2 = Some (Some q2)" "sq_messages q2 = []"
    "int (length m) \<le> queue_size q2"
  shows "\<exists>t2' q'. AddReceiveSocketBuffer fd2 m t2 = Inr t2' \<and> socket_receive_events t2' = socket_receive_events t2 @ [fd2]
    \<and> sq_messages q' = [] \<and> (\<forall>process. receive_event w2 process fd2 t2'
         = rbind (process fd2 (parse_proto (message_codec w2) m) (t2'\<lparr>receive_buffers := smap_set fd2 (Some q') (receive_buffers t2')\<rparr>))
             (\<lambda>(ok, t'). Inr t'))"
proof -
  have ok: "queue_ok (SocketBuffSize (fdcs_env t2)) q2" and inv: "smap_inv (receive_buffers t2)"
    using assms(1,3) by (auto simp: tracker_inv_def buffers_ok_def)
  then have len: "int (length m) \<le> SocketBuffSize (fdcs_env t2)" using assms(5) by (auto simp: queue_ok_def)
  obtain r' where r': "sq_Add_string q2 m True = (Return (int (length m)), r')"
      "queue_ok (SocketBuffSize (fdcs_env t2)) r'" "sq_messages r' = [m]"
    using queue_put [OF ok assms(4,2) len] .
  obtain r'' where r'': "\<And>d b. sq_Remove r' d b = (Return (int (length m)), m, r'')" "sq_messages r'' = []"
    using queue_take [OF r'(2,3)] by blast
  define t2' where "t2' = Signal SocketThreadSignal (t2\<lparr>receive_buffers := smap_set fd2 (Some r') (receive_buffers t2),
    socket_receive_events := socket_receive_events t2 @ [fd2]\<rparr>)"
  have "AddReceiveSocketBuffer fd2 m t2 = Inr t2'" "socket_receive_events t2' = socket_receive_events t2 @ [fd2]"
    using assms(3) r'(1) by (simp_all add: AddReceiveSocketBuffer_def t2'_def Signal_def)
  moreover have "smap_find (receive_buffers t2') fd2 = Some (Some r')"
    using inv by (simp add: t2'_def Signal_def smap_find_set)
  then have "receive_event w2 process fd2 t2'
      = rbind (process fd2 (parse_proto (message_codec w2) m) (t2'\<lparr>receive_buffers := smap_set fd2 (Some r'') (receive_buffers t2')\<rparr>))
             (\<lambda>(ok, t'). Inr t')" for process
    using r''(1) by (simp add: receive_event_def)
  ultimately show ?thesis using r''(2) by blast
qed



text \<open>One read that is empty or larger than the receive buffer stops the socket thread for ever: the bytes are
  refused but the event is queued all the same, and the next round waits for a message that is not
  there, whatever the handler of protocols does.\<close>

theorem oversized_read_freezes:
  assumes "tracker_inv t" "smap_find (receive_buffers t) fd = Some (Some q)" "sq_messages q = []"
    "socket_receive_events t = []" "length data < 2 ^ 31" "data = [] \<or> int (length data) > SocketBuffSize (fdcs_env t)"
  shows "\<exists>t'. AddReceiveSocketBuffer fd data t = Inr t' \<and> socket_receive_events t' = [fd]
    \<and> (\<forall>process. SocketThread w process t' = Inl Blocked)"
proof -
  have ok: "queue_ok (SocketBuffSize (fdcs_env t)) q" "smap_inv (receive_buffers t)"
    using assms(1,2) by (auto simp: tracker_inv_def buffers_ok_def)
  then have a: "sq_Add_string q data True = (Return (- 1), q)"
    using assms(5,6) by (auto simp: sq_Add_string_def wrap32_of_nat sq_Add_def queue_ok_def)
  have r: "sq_Remove q [] True = (Wait, [], q)"
    using assms(3) ok by (simp add: sq_Remove_def sq_messages_def sq_Remove_empty_def queue_ok_def)
  let ?t = "Signal SocketThreadSignal (t\<lparr>receive_buffers := smap_set fd (Some q) (receive_buffers t),
      socket_receive_events := socket_receive_events t @ [fd]\<rparr>)"
  have "AddReceiveSocketBuffer fd data t = Inr ?t" using assms(2) a by (simp add: AddReceiveSocketBuffer_def)
  moreover have "SocketThread w process ?t = Inl Blocked" for process
    using assms(4) ok(2) r
    by (simp add: SocketThread_def GetSocketEvent_def Signal_def receive_event_def smap_find_set)
  ultimately show ?thesis using assms(4) by (auto simp: Signal_def)
qed

lemma oversized_read_freezes_witness:
  "\<exists>t'. AddReceiveSocketBuffer 5 (replicate 129 (CHR ''x'')) (example_connected 5) = Inr t'
     \<and> SocketThread (example_world []) (\<lambda>fd p t. Inr (True, t)) t' = Inl Blocked"
  using oversized_read_freezes [OF example_connected_inv example_connected_find(2) example_queue_empty(1)
      example_connected_find(6), of "replicate 129 (CHR ''x'')" "example_world []"]
  by (auto simp: example_connected_find(7))

text \<open>An event that is handled after its socket was closed poisons the descriptor: it leaves a NULL receive
  buffer, which the next connection on the same descriptor takes for its own, so that the first bytes
  it receives are written through the NULL pointer.\<close>

theorem stale_event_poisons:
  assumes "tracker_inv t" "0 < SocketBuffSize (fdcs_env t)" "0 < fd"
  shows "\<exists>t1 t2. receive_event w process fd (RemoveSocketResource fd t) = Inr t1
    \<and> AddSocketResource w fd addr t1 = Inr t2 \<and> AddReceiveSocketBuffer fd data t2 = Inl NullDeref"
proof -
  let ?t0 = "RemoveSocketResource fd t"
  have f: "smap_find (receive_buffers ?t0) fd = None" "smap_inv (receive_buffers ?t0)"
    "smap_find (send_buffers ?t0) fd = None" "SocketBuffSize (fdcs_env ?t0) = SocketBuffSize (fdcs_env t)"
    using assms(1) by (auto simp: RemoveSocketResource_def tracker_inv_def buffers_ok_def smap_find_erase smap_inv_erase)
  let ?t1 = "?t0\<lparr>receive_buffers := smap_set fd None (receive_buffers ?t0)\<rparr>"
  have 1: "receive_event w process fd ?t0 = Inr ?t1" using f(1) by (simp add: receive_event_def)
  have n: "smap_find (receive_buffers ?t1) fd = Some None" using f(2) by (simp add: smap_find_set)
  obtain t2 where t2: "AddSocketResource w fd addr ?t1 = Inr t2" "receive_buffers t2 = receive_buffers ?t1"
    using f(3,4) n assms(2,3)
    by (simp add: AddSocketResource_def add_send_buffer_def add_receive_buffer_def SignalingQueue_def
        Connector_Initialize_def)
  then have "AddReceiveSocketBuffer fd data t2 = Inl NullDeref" using n by (simp add: AddReceiveSocketBuffer_def)
  with 1 t2(1) show ?thesis by blast
qed

lemma stale_event_poisons_witness:
  "\<exists>t2. AddReceiveSocketBuffer 5 ''data'' t2 = Inl NullDeref \<and>
     (\<exists>t1. AddSocketResource (example_world []) 5 ''p'' t1 = Inr t2)"
  using stale_event_poisons [OF example_connected_inv [of 5], of 5 "example_world []" "\<lambda>fd p t. Inr (True, t)" "''p''" "''data''"]
  by (auto simp: example_connected_find(7))

end
