(* ===== verification/Server.thy ===== *)
theory Server
  imports TrackerProps
begin

text \<open>
  The event loop: the dispatch of Epoller::PollEventProcess (src/server/epoller.cc) and the callbacks
  of the class Tracker that it calls (src/server/tracker.cc). What the system delivers with an event
  - the results of read and accept - is part of the event.
\<close>

section \<open>Events\<close>

text \<open>The results of the calls of read on a descriptor: some bytes, end of file, EAGAIN, another error.\<close>

datatype read_result = Bytes string | ReadEnd | ReadAgain | ReadFailed

record epoll_event =
  event_fd :: int
  event_flags :: "32 word"
  event_reads :: "read_result list"
  event_accept :: "int option"

section \<open>Callbacks\<close>

text \<open>The loop of EpollReadCallback: it appends chunks as long as read returns bytes.\<close>

fun read_more :: "read_result list \<Rightarrow> string" where
  "read_more (Bytes b # rs) = (if b = [] then [] else b @ read_more rs)"
| "read_more _ = []"

definition on_read :: "world \<Rightarrow> epoll_event \<Rightarrow> int \<Rightarrow> tracker \<Rightarrow> tracker result" where
  "on_read w ev fd t =
     (case event_reads ev of
        ReadFailed # rs \<Rightarrow> rbind (SocketClose w fd t) (\<lambda>(r, t'). Inr t')
      | rs \<Rightarrow> if read_more rs \<noteq> [] then AddReceiveSocketBuffer fd (read_more rs) t else Inr t)"

text \<open>SetNonBlocking calls exit when accept has failed and returned -1.\<close>

definition on_accept :: "world \<Rightarrow> epoll_event \<Rightarrow> tracker \<Rightarrow> tracker result" where
  "on_accept w ev t =
     (case event_accept ev of None \<Rightarrow> Inl Abort | Some sock_client \<Rightarrow> AddSocketResource w sock_client [] t)"

definition on_close :: "world \<Rightarrow> int \<Rightarrow> tracker \<Rightarrow> tracker result" where
  "on_close w fd t = rbind (SocketClose w fd t) (\<lambda>(r, t'). Inr t')"

definition call :: "world \<Rightarrow> epoll_event \<Rightarrow> int \<Rightarrow> callback option \<Rightarrow> tracker \<Rightarrow> tracker result" where
  "call w ev fd cb t =
     (case cb of
        None \<Rightarrow> Inr t
      | Some EpollReadCallback \<Rightarrow> on_read w ev fd t
      | Some EpollCloseCallback \<Rightarrow> on_close w fd t
      | Some EpollAccentCallback \<Rightarrow> on_accept w ev t)"

section \<open>Dispatch\<close>

text \<open>The element the pointer \<open>value\<close> stands for, as it is at the moment, and its update.\<close>

definition value_of :: "int \<Rightarrow> (poll_event_element \<Rightarrow> 'a) \<Rightarrow> tracker \<Rightarrow> 'a option" where
  "value_of fd field t = map_option field (smap_find (epoll t) fd)"

definition set_cur_event :: "int \<Rightarrow> 32 word \<Rightarrow> tracker \<Rightarrow> tracker" where
  "set_cur_event fd flag t = t\<lparr>epoll := set_element fd (\<lambda>e. e\<lparr>cur_event := and (cur_event e) flag\<rparr>) (epoll t)\<rparr>"

definition has_flag :: "'a::len word \<Rightarrow> 'a word \<Rightarrow> bool" where
  "has_flag flags flag \<longleftrightarrow> and flags flag \<noteq> 0"

definition call_if :: "8 word \<Rightarrow> (poll_event_element \<Rightarrow> callback option) \<Rightarrow> world \<Rightarrow> epoll_event \<Rightarrow> int \<Rightarrow> tracker \<Rightarrow> tracker result" where
  "call_if flag cb w ev fd t =
     (case value_of fd cb_flags t of
        Some flags \<Rightarrow> if has_flag flags flag then call w ev fd (Option.bind (value_of fd cb t) id) t else Inr t
      | None \<Rightarrow> Inr t)"

definition dispatch_in :: "world \<Rightarrow> epoll_event \<Rightarrow> int \<Rightarrow> tracker \<Rightarrow> tracker result" where
  "dispatch_in w ev fd t =
     (let flags = event_flags ev in
      if has_flag flags EPOLLIN \<or> has_flag flags EPOLLPRI
      then rbind (call_if ACCEPT_CB accept_callback w ev fd
             (set_cur_event fd (if has_flag flags EPOLLIN then EPOLLIN else EPOLLPRI) t)) (\<lambda>t1.
           rbind (call_if CONNECT_CB connect_callback w ev fd t1) (\<lambda>t2.
             call w ev fd (Option.bind (value_of fd read_callback t2) id) t2))
      else Inr t)"

definition dispatch_out :: "world \<Rightarrow> epoll_event \<Rightarrow> int \<Rightarrow> tracker \<Rightarrow> tracker result" where
  "dispatch_out w ev fd t =
     (if has_flag (event_flags ev) EPOLLOUT
      then let t1 = set_cur_event fd EPOLLOUT t in call w ev fd (Option.bind (value_of fd write_callback t1) id) t1
      else Inr t)"

definition dispatch_close :: "world \<Rightarrow> epoll_event \<Rightarrow> int \<Rightarrow> tracker \<Rightarrow> tracker result" where
  "dispatch_close w ev fd t =
     (let flags = event_flags ev in
      if has_flag flags EPOLLRDHUP \<or> has_flag flags EPOLLERR \<or> has_flag flags EPOLLHUP
      then let t1 = set_cur_event fd (if has_flag flags EPOLLRDHUP then EPOLLRDHUP else EPOLLERR) t
           in rbind (call w ev fd (Option.bind (value_of fd close_callback t1) id) t1)
                (\<lambda>t2. Inr (t2\<lparr>epoll := RemoveFromPollEvent fd (epoll t2)\<rparr>))
      else Inr t)"

definition PollEvent :: "world \<Rightarrow> epoll_event \<Rightarrow> tracker \<Rightarrow> tracker result" where
  "PollEvent w ev t =
     (let fd = event_fd ev in
      case smap_find (epoll t) fd of
        None \<Rightarrow> Inr t
      | Some v \<Rightarrow> rbind (dispatch_in w ev fd t) (\<lambda>t1. rbind (dispatch_out w ev fd t1) (dispatch_close w ev fd)))"

text \<open>
  PollEventProcess for the events of one epoll_wait. The program installs no timeout callback, so
  that the result is 0 and PollEventLoop goes on for ever.
\<close>

fun PollEventProcess :: "world \<Rightarrow> epoll_event list \<Rightarrow> tracker \<Rightarrow> tracker result" where
  "PollEventProcess w [] t = Inr t"
| "PollEventProcess w (ev # evs) t = rbind (PollEvent w ev t) (PollEventProcess w evs)"

section \<open>The loop keeps the invariant\<close>

definition kept_by :: "(tracker \<Rightarrow> tracker result) \<Rightarrow> bool" where
  "kept_by f \<longleftrightarrow> (\<forall>t t'. f t = Inr t' \<longrightarrow> kept t t')"

lemma kept_byD: "kept_by f \<Longrightarrow> f t = Inr t' \<Longrightarrow> kept t t'"
  by (simp add: kept_by_def)

lemma kept_by_call: "kept_by (call w ev fd cb)"
  using kept_AddReceiveSocketBuffer kept_SocketClose kept_AddSocketResource
  by (auto simp: kept_by_def call_def on_read_def on_close_def on_accept_def
      split: option.splits callback.splits list.splits read_result.splits if_splits)

lemma kept_set_epoll: "(poll_inv (epoll t) \<Longrightarrow> poll_inv tab) \<Longrightarrow> kept t (t\<lparr>epoll := tab\<rparr>)"
  by (intro keptI) (auto simp: tracker_inv_def)

lemma kept_set_cur_event: "kept t (set_cur_event fd flag t)"
  unfolding set_cur_event_def by (rule kept_set_epoll) (simp add: poll_inv_set_element)

lemma kept_by_call_if: "kept_by (call_if flag cb w ev fd)"
  using kept_byD [OF kept_by_call] by (auto simp: kept_by_def call_if_def split: option.splits)

lemma kept_by_dispatch: "kept_by (dispatch_in w ev fd)" "kept_by (dispatch_out w ev fd)" "kept_by (dispatch_close w ev fd)"
proof -
  note rules = kept_trans [OF kept_trans [OF kept_set_cur_event kept_byD [OF kept_by_call_if]]]
    kept_trans [OF kept_byD [OF kept_by_call_if] kept_byD [OF kept_by_call]]
  show "kept_by (dispatch_in w ev fd)"
    unfolding kept_by_def dispatch_in_def Let_def
    by (auto simp del: split_paired_Ex intro: rules(1) [OF _ rules(2)])
  show "kept_by (dispatch_out w ev fd)"
    using kept_trans [OF kept_set_cur_event kept_byD [OF kept_by_call]] by (auto simp: kept_by_def dispatch_out_def Let_def)
  have "kept t (t\<lparr>epoll := RemoveFromPollEvent fd (epoll t)\<rparr>)" for t
    by (rule kept_set_epoll) (rule poll_inv_Remove)
  then show "kept_by (dispatch_close w ev fd)"
    using kept_trans [OF kept_trans [OF kept_set_cur_event kept_byD [OF kept_by_call]]]
    by (auto simp: kept_by_def dispatch_close_def Let_def)
qed

lemma kept_PollEventProcess: "PollEventProcess w evs t = Inr t' \<Longrightarrow> kept t t'"
proof (induction evs arbitrary: t)
  case (Cons ev evs)
  then obtain t1 where t1: "PollEvent w ev t = Inr t1" "PollEventProcess w evs t1 = Inr t'" by auto
  have "kept t t1"
    using t1(1) kept_by_dispatch [of w ev "event_fd ev"] unfolding kept_by_def PollEvent_def
    by (auto simp: Let_def split: option.splits) (meson kept_trans)
  then show ?case using Cons.IH [OF t1(2)] kept_trans by blast
qed simp

section \<open>Properties\<close>

lemma read_more_chunks:
  "\<forall>b \<in> set bs. b \<noteq> [] \<Longrightarrow> read_more (map Bytes bs @ ReadAgain # rs) = concat bs"
  by (induction bs) auto

text \<open>Reads are not cut into messages: all bytes that are there when a descriptor becomes readable, however
  many protocols they hold and however they were cut into pieces, become one message, so that the
  handler is called once, with what the parser makes of the concatenation.\<close>

theorem coalesced_reads:
  assumes "tracker_inv t" "smap_find (receive_buffers t) fd = Some (Some q)" "sq_messages q = []"
    "event_reads ev = map Bytes bs @ ReadAgain # rs" "\<forall>b \<in> set bs. b \<noteq> []" "bs \<noteq> []"
    "length (concat bs) < 2 ^ 31" "int (length (concat bs)) \<le> SocketBuffSize (fdcs_env t)"
  shows "\<exists>t'. call w ev fd (Some EpollReadCallback) t = Inr t' \<and> socket_receive_events t' = socket_receive_events t @ [fd]
    \<and> (\<forall>process. \<exists>q'. sq_messages q' = [] \<and> receive_event w process fd t'
         = rbind (process fd (parse_proto (message_codec w) (concat bs)) (t'\<lparr>receive_buffers := smap_set fd (Some q') (receive_buffers t')\<rparr>))
             (\<lambda>(ok, t''). Inr t''))"
proof -
  let ?m = "concat bs"
  have m: "storable_message ?m" "?m \<noteq> []"
    using assms(5,6,7) by (cases bs; auto simp: storable_message_def)+
  have ok: "queue_ok (SocketBuffSize (fdcs_env t)) q" "smap_inv (receive_buffers t)"
    using assms(1,2) by (auto simp: tracker_inv_def buffers_ok_def)
  obtain q1 where q1: "sq_Add_string q ?m True = (Return (int (length ?m)), q1)"
      "queue_ok (SocketBuffSize (fdcs_env t)) q1" "sq_messages q1 = [?m]"
    using queue_put [OF ok(1) assms(3) m(1) assms(8)] .
  obtain q2 where q2: "\<And>d b. sq_Remove q1 d b = (Return (int (length ?m)), ?m, q2)" "sq_messages q2 = []"
    using queue_take [OF q1(2,3)] by blast
  let ?t = "Signal SocketThreadSignal (t\<lparr>receive_buffers := smap_set fd (Some q1) (receive_buffers t),
      socket_receive_events := socket_receive_events t @ [fd]\<rparr>)"
  have r: "read_more (event_reads ev) = ?m" unfolding assms(4) by (rule read_more_chunks [OF assms(5)])
  obtain b bs' where "bs = b # bs'" using assms(6) by (cases bs) auto
  then have "call w ev fd (Some EpollReadCallback) t = AddReceiveSocketBuffer fd ?m t"
    using r m(2) assms(4) by (simp add: call_def on_read_def)
  also have "\<dots> = Inr ?t" using assms(2) q1(1) by (simp add: AddReceiveSocketBuffer_def)
  finally have 1: "call w ev fd (Some EpollReadCallback) t = Inr ?t" .
  have "smap_find (receive_buffers ?t) fd = Some (Some q1)" using ok(2) by (simp add: Signal_def smap_find_set)
  then have 2: "receive_event w process fd ?t
         = rbind (process fd (parse_proto (message_codec w) ?m) (?t\<lparr>receive_buffers := smap_set fd (Some q2) (receive_buffers ?t)\<rparr>))
             (\<lambda>(ok, t''). Inr t'')" for process
    using q2(1) by (simp add: receive_event_def)
  have 3: "socket_receive_events ?t = socket_receive_events t @ [fd]" by (simp add: Signal_def)
  show ?thesis by (rule exI [of _ ?t]) (use 1 2 3 q2(2) in blast)
qed

definition example_event :: "string list \<Rightarrow> epoll_event" where
  "example_event bs = \<lparr>event_fd = 5, event_flags = EPOLLIN, event_reads = map Bytes bs @ [ReadAgain], event_accept = None\<rparr>"

lemma coalesced_reads_witness:
  "\<exists>t'. call (example_world []) (example_event [''ab'', ''cd'']) 5 (Some EpollReadCallback) (example_connected 5) = Inr t'
     \<and> socket_receive_events t' = [5]"
  using coalesced_reads [OF example_connected_inv example_connected_find(2) example_queue_empty(1),
      of "example_event [''ab'', ''cd'']" "[''ab'', ''cd'']" "[]" "example_world []"]
  by (auto simp: example_event_def example_connected_find)

lemma find_set_element: "poll_inv tab \<Longrightarrow> smap_find (set_element fd f tab) fd' =
    (if fd' = fd then map_option f (smap_find tab fd) else smap_find tab fd')"
  by (auto simp: set_element_def poll_inv_def smap_find_set split: option.split)

lemma find_watch_socket: "poll_inv tab \<Longrightarrow> fd \<noteq> c \<Longrightarrow> smap_find (watch_socket c tab) fd = smap_find tab fd"
  by (simp add: watch_socket_def find_set_element find_Add poll_inv_Add)

lemma epoll_AddSocketResource: "AddSocketResource w c addr t = Inr t1 \<Longrightarrow> epoll t1 = watch_socket c (epoll t)"
  by (auto simp: AddSocketResource_def add_send_buffer_def add_receive_buffer_def split: if_splits)

text \<open>An incoming connection on every branch. The listening descriptor carries the read callback of every
  socket besides the accept callback, so that after the new connection is set up the loop reads from
  the listening descriptor, which fails, and the reaction to a closed peer, SocketClose, runs on the
  listening descriptor itself. When accept fails, the process exits.\<close>

theorem listener_event:
  assumes "smap_find (epoll t) (event_fd ev) = Some e" "has_flag (cb_flags e) ACCEPT_CB" "\<not> has_flag (cb_flags e) CONNECT_CB"
    "accept_callback e = Some EpollAccentCallback" "read_callback e = Some EpollReadCallback"
    "event_flags ev = EPOLLIN" "event_reads ev = [ReadFailed]" "poll_inv (epoll t)"
  shows "case event_accept ev of
      None \<Rightarrow> PollEvent w ev t = Inl Abort
    | Some c \<Rightarrow> c \<noteq> event_fd ev \<longrightarrow> PollEvent w ev t
        = rbind (AddSocketResource w c [] (set_cur_event (event_fd ev) EPOLLIN t)) (\<lambda>t1. rbind (SocketClose w (event_fd ev) t1) (\<lambda>(r, t2). Inr t2))"
proof -
  let ?fd = "event_fd ev"
  let ?t0 = "set_cur_event ?fd EPOLLIN t"
  let ?e = "e\<lparr>cur_event := and (cur_event e) EPOLLIN\<rparr>"
  have flags: "has_flag EPOLLIN EPOLLIN" "\<not> has_flag EPOLLIN EPOLLOUT" "\<not> has_flag EPOLLIN EPOLLRDHUP"
    "\<not> has_flag EPOLLIN EPOLLERR" "\<not> has_flag EPOLLIN EPOLLHUP" by code_simp+
  have e: "smap_find (epoll ?t0) ?fd = Some ?e"
    using assms(1,8) by (auto simp: set_cur_event_def set_element_def smap_find_set poll_inv_def)
  have acc: "call_if ACCEPT_CB accept_callback w ev ?fd ?t0 = on_accept w ev ?t0"
    using e assms(2,4) by (simp add: call_if_def value_of_def call_def)
  show ?thesis
  proof (cases "event_accept ev")
    case None
    then show ?thesis
      using assms(1,6) flags acc by (simp add: PollEvent_def Let_def dispatch_in_def on_accept_def)
  next
    case (Some c)
    have inv: "poll_inv (epoll ?t0)"
      unfolding set_cur_event_def using assms(8) by (simp add: poll_inv_set_element)
    have add: "smap_find (epoll t1) ?fd = Some ?e" if "AddSocketResource w c [] ?t0 = Inr t1" "c \<noteq> ?fd" for t1
      unfolding epoll_AddSocketResource [OF that(1)] find_watch_socket [OF inv that(2) [symmetric]] by (rule e)
    have "dispatch_in w ev ?fd t = rbind (AddSocketResource w c [] ?t0) (\<lambda>t1. rbind (SocketClose w ?fd t1) (\<lambda>(r, t2). Inr t2))"
      if "c \<noteq> ?fd"
    proof (cases "AddSocketResource w c [] ?t0")
      case (Inl x)
      then show ?thesis using flags acc Some assms(6) by (simp add: dispatch_in_def on_accept_def)
    next
      case (Inr t1)
      then show ?thesis
        using flags acc Some assms(3,5,6,7) add [OF Inr that]
        by (simp add: dispatch_in_def on_accept_def call_if_def value_of_def call_def on_read_def)
    qed
    then show ?thesis
      using Some assms(1,6) flags
      by (auto simp: PollEvent_def Let_def dispatch_out_def dispatch_close_def rbind_def split: sum.split)
  qed
qed

definition example_listener :: tracker where
  "example_listener = (example_tracker ''b:2'')\<lparr>epoll := [(3, (NewEventElement 3 EPOLLIN)\<lparr>read_callback := Some EpollReadCallback,
     close_callback := Some EpollCloseCallback, accept_callback := Some EpollAccentCallback, cb_flags := ACCEPT_CB\<rparr>)]\<rparr>"

lemma listener_event_witness:
  "PollEvent (example_world []) \<lparr>event_fd = 3, event_flags = EPOLLIN, event_reads = [ReadFailed], event_accept = None\<rparr>
     example_listener = Inl Abort"
proof -
  let ?ev = "\<lparr>event_fd = 3, event_flags = EPOLLIN, event_reads = [ReadFailed], event_accept = None\<rparr>"
  have "has_flag ACCEPT_CB ACCEPT_CB" "\<not> has_flag ACCEPT_CB CONNECT_CB" by code_simp+
  then show ?thesis
    using listener_event [of example_listener ?ev "snd (hd (epoll example_listener))" "example_world []"]
    by (simp add: example_listener_def NewEventElement_def poll_inv_def)
qed

end
