(* ===== verification/Master.thy ===== *)
theory Master
  imports Server
begin

text \<open>
  The master server, src/server/master.cc: the handler of protocols with everything it calls, the
  election and the joining of the group, the leasing and completion of tasks, the heart beat and the
  round of the thread that exchanges tasks with the user's code. The clock stands still within one
  call; a Signal on a condition variable is recorded in the list of signals of the tracker.
\<close>

section \<open>Circles of protocols\<close>

definition UpgradeTracker :: "tracker \<Rightarrow> bool \<times> tracker" where
  "UpgradeTracker t = (True, Signal MasterSignal (t\<lparr>fdcs_env := InitFdcsTimeDiffer (fdcs_env t)\<rparr>))"

text \<open>The string pass_socket_addr is built but not used.\<close>

definition ClosedCircle :: "tracker \<Rightarrow> TrackerProtocol \<Rightarrow> bool" where
  "ClosedCircle t p =
     (if request_sock_addr p = own_addr t then True
      else contains (response_sock_addr p) (own_addr t))"

definition AddProtoFdcsTime :: "world \<Rightarrow> tracker \<Rightarrow> TrackerProtocol \<Rightarrow> TrackerProtocol result" where
  "AddProtoFdcsTime w t p =
     rbind (Int32ToKey (FdcsTime (fdcs_env t) (now w))) (\<lambda>fdcs_time.
       let key_values_pair = new_KeyValuesPair\<lparr>kvs_key_field := Some KEYVALUEPAIRS_FDCS_TIME\<rparr>;
           key_value_pair = new_KeyValuePair\<lparr>kv_key_field := Some KEYVALUEPAIRS_FDCS_TIME, kv_value_field := Some fdcs_time\<rparr>
       in Inr (p\<lparr>key_values_pairs := key_values_pairs p @ [WriteRecord_pair (message_codec w) key_values_pair key_value_pair]\<rparr>))"

definition ContinueTransferProto :: "world \<Rightarrow> TrackerProtocol \<Rightarrow> tracker \<Rightarrow> tracker result" where
  "ContinueTransferProto w p t =
     rbind (FindNextMaster w t) (\<lambda>(next_master_fd, t').
       if next_master_fd \<noteq> - 1 then rbind (SendProtocol w p next_master_fd t') (\<lambda>(r, t''). Inr t'')
       else Inr t')"

definition Election :: "world \<Rightarrow> tracker \<Rightarrow> (bool \<times> tracker) result" where
  "Election w t =
     rbind (FindNextMaster w t) (\<lambda>(next_master_fd, t').
       if next_master_fd = - 1
       then Inr (True, snd (UpgradeTracker (t'\<lparr>primary_sockaddr := own_addr t'\<rparr>)))
       else SendProtocol w (NewTrackerProtocol w ELECTION t') next_master_fd t')"

definition Coordinator :: "world \<Rightarrow> string \<Rightarrow> tracker \<Rightarrow> (bool \<times> tracker) result" where
  "Coordinator w tracker_addr t =
     rbind (FindNextMaster w t) (\<lambda>(next_master_fd, t').
       if next_master_fd = - 1
       then Inr (True, snd (UpgradeTracker (t'\<lparr>primary_sockaddr := own_addr t'\<rparr>)))
       else rbind (AddProtoFdcsTime w t' ((NewTrackerProtocol w COORDINATOR t')\<lparr>response_result_field := Some tracker_addr\<rparr>))
              (\<lambda>p. SendProtocol w p next_master_fd t'))"

definition AskTracker :: "world \<Rightarrow> tracker \<Rightarrow> (bool \<times> tracker) result" where
  "AskTracker w t =
     rbind (FindNextMaster w t) (\<lambda>(next_master_fd, t').
       if next_master_fd = - 1 then Election w t'
       else SendProtocol w (NewTrackerProtocol w MASTER_ASK_TRACKER t') next_master_fd t')"

text \<open>The loop over the group from its end; no address found means no announcement.\<close>

definition election_result :: "string list \<Rightarrow> string \<Rightarrow> string option" where
  "election_result master_addr pass_master = List.find (contains pass_master) (rev master_addr)"

definition first_pair :: "string \<Rightarrow> TrackerProtocol \<Rightarrow> KeyValuesPair option" where
  "first_pair key p = List.find (\<lambda>kvs. kvs_key kvs = key) (key_values_pairs p)"

definition read_fdcs_time :: "world \<Rightarrow> TrackerProtocol \<Rightarrow> int" where
  "read_fdcs_time w p =
     (let key_values = (case first_pair KEYVALUEPAIRS_FDCS_TIME p of
            None \<Rightarrow> [] | Some kvs \<Rightarrow> ReadRecord_map (message_codec w) kvs [])
      in KeyToInt32 (indeterminate w) (get [] (smap_find key_values KEYVALUEPAIRS_FDCS_TIME)))"

definition JoinMasterGroup :: "world \<Rightarrow> TrackerProtocol \<Rightarrow> tracker \<Rightarrow> (bool \<times> tracker) result" where
  "JoinMasterGroup w p t =
     (if \<not> IKnowPrimaryMaster t \<or> primary_sockaddr t = own_addr t then Inr (False, t)
      else rbind (ConnectMaster w (primary_sockaddr t) t) (\<lambda>(ok, t1).
        if \<not> ok then Inr (False, t1)
        else let t2 = t1\<lparr>fdcs_env := CalcFdcsTimeDiffer (read_fdcs_time w p) (now w) (fdcs_env t1)\<rparr>
             in rbind (master_fd (primary_sockaddr t2) t2)
                  (\<lambda>fd. SendProtocol w (NewTrackerProtocol w MASTER_JOIN_GROUP t2) fd t2)))"

fun ConnectOnlineMaster_loop :: "world \<Rightarrow> string list \<Rightarrow> tracker \<Rightarrow> tracker result" where
  "ConnectOnlineMaster_loop w [] t = Inr t"
| "ConnectOnlineMaster_loop w (a # as) t =
     rbind (ConnectMaster w a t) (\<lambda>(ok, t'). ConnectOnlineMaster_loop w as t')"

definition ConnectOnlineMaster :: "world \<Rightarrow> string \<Rightarrow> tracker \<Rightarrow> tracker result" where
  "ConnectOnlineMaster w all_master t = ConnectOnlineMaster_loop w (split_at all_master (CHR '';'')) t"

text \<open>The name TrackerStatus() in MasterReportStatus creates a message that is dropped.\<close>

definition MasterReportStatus :: "world \<Rightarrow> tracker \<Rightarrow> (bool \<times> tracker) result" where
  "MasterReportStatus w t =
     rbind (ConnectMaster w (primary_sockaddr t) t) (\<lambda>(ok, t').
       if ok then
         let p = (NewTrackerProtocol w MASTER_REPORT_STATUS t')
               \<lparr>tracker_status_list := [get new_TrackerStatus (smap_find (tracker_statuses t') (own_addr t'))]\<rparr>
         in rbind (master_fd (primary_sockaddr t') t') (\<lambda>fd. SendProtocol w p fd t')
       else Inr (False, t'))"

section \<open>Tasks\<close>

text \<open>
  The loop of GetIdleTask over the table: an idle task is leased and written into the pair before
  the quota is looked at. The result tells whether the quota was used up. The lease is computed in
  long and stored in an int64, so that it does not wrap.
\<close>

fun idle_loop :: "codec \<Rightarrow> int \<Rightarrow> int \<Rightarrow> int \<Rightarrow> KeyValuesPair \<Rightarrow> (string, FdcsTask) smap
    \<Rightarrow> bool \<times> KeyValuesPair \<times> (string, FdcsTask) smap" where
  "idle_loop cd fdcs_time timeout quota kvs [] = (False, kvs, [])"
| "idle_loop cd fdcs_time timeout quota kvs ((k, env_task) # m) =
     (if lease_time env_task < fdcs_time
      then let env_task' = set_lease_time (fdcs_time + timeout) env_task;
               kvs' = WriteRecord_task cd kvs (clear_lease_time env_task)
           in if quota - 1 \<le> 0 then (True, kvs', (k, env_task') # m)
              else (case idle_loop cd fdcs_time timeout (quota - 1) kvs' m of
                      (r, kvs'', m') \<Rightarrow> (r, kvs'', (k, env_task') # m'))
      else (case idle_loop cd fdcs_time timeout quota kvs m of
              (r, kvs'', m') \<Rightarrow> (r, kvs'', (k, env_task) # m')))"

definition Master_GetIdleTask :: "world \<Rightarrow> TrackerProtocol \<Rightarrow> tracker \<Rightarrow> bool \<times> TrackerProtocol \<times> tracker" where
  "Master_GetIdleTask w p t =
     (if forwarding_sock_fd p > 0 \<and> IAmPrimaryMaster t then (True, p, t)
      else case idle_loop (message_codec w) (FdcsTime (fdcs_env t) (now w)) (LeaseTimeout (fdcs_env t))
                  (KeyToInt32 (indeterminate w) (request_args p))
                  (new_KeyValuesPair\<lparr>kvs_key_field := Some KEYVALUEPAIRS_TASK\<rparr>) (tasks (fdcs_env t)) of
             (r, kvs, m) \<Rightarrow> (r, p\<lparr>key_values_pairs := [kvs]\<rparr>, t\<lparr>fdcs_env := (fdcs_env t)\<lparr>tasks := m\<rparr>\<rparr>))"

text \<open>All tasks of the pairs with a key.\<close>

definition tasks_of :: "codec \<Rightarrow> string \<Rightarrow> TrackerProtocol \<Rightarrow> FdcsTask list" where
  "tasks_of cd key p =
     fold (\<lambda>kvs ts. if kvs_key kvs = key then ReadRecord_tasks cd kvs ts else ts) (key_values_pairs p) []"

definition complete_one :: "int \<Rightarrow> FdcsTask \<Rightarrow> enviroment \<Rightarrow> enviroment" where
  "complete_one clock ct e =
     (case smap_find (tasks e) (task_id ct) of
        None \<Rightarrow> e
      | Some env_task \<Rightarrow>
          if lease_time env_task < FdcsTime e clock then e
          else TaskCompleted (task_id ct)
                 (e\<lparr>tasks := smap_update (task_id ct) (\<lambda>_. clear_lease_time ct) (tasks e)\<rparr>))"

definition Master_TaskCompleted :: "world \<Rightarrow> TrackerProtocol \<Rightarrow> tracker \<Rightarrow> bool \<times> tracker" where
  "Master_TaskCompleted w p t =
     (let completed = tasks_of (message_codec w) KEYVALUEPAIRS_TASK_COMPLETE p
      in if completed = [] then (False, t)
         else (True, t\<lparr>fdcs_env := fold (complete_one (now w)) completed (fdcs_env t)\<rparr>))"

definition RequestTaskDuplicate :: "world \<Rightarrow> tracker \<Rightarrow> (bool \<times> tracker) result" where
  "RequestTaskDuplicate w t =
     (if IAmPrimaryMaster t \<or> \<not> IKnowPrimaryMaster t \<or> IdleTasksSize (now w) (fdcs_env t) > 0 then Inr (False, t)
      else rbind (master_fd (primary_sockaddr t) t)
             (\<lambda>fd. SendProtocol w (NewTrackerProtocol w REQUEST_TASK_DUPLICATE t) fd t))"

definition SendTaskDuplicate :: "world \<Rightarrow> TrackerProtocol \<Rightarrow> int \<Rightarrow> tracker \<Rightarrow> (bool \<times> tracker) result" where
  "SendTaskDuplicate w p receiver_fd t =
     (if \<not> IAmPrimaryMaster t then Inr (False, t)
      else if IdleTasksSize (now w) (fdcs_env t) > 0
      then (case LeaseTasks (now w) [] (fdcs_env t) of
              (ts, e) \<Rightarrow>
                let t1 = t\<lparr>fdcs_env := e\<rparr>;
                    kvs = fold (\<lambda>task kvs. WriteRecord_task (message_codec w) kvs task) ts
                            (new_KeyValuesPair\<lparr>kvs_key_field := Some KEYVALUEPAIRS_TASK\<rparr>)
                in if ts \<noteq> []
                   then rbind (SendProtocol w (p\<lparr>key_values_pairs := [kvs]\<rparr>) receiver_fd t1) (\<lambda>(r, t2). Inr (True, t2))
                   else Inr (True, t1))
      else Inr (True, t))"

definition save_pair :: "codec \<Rightarrow> KeyValuesPair \<Rightarrow> enviroment \<Rightarrow> enviroment" where
  "save_pair cd kvs e = (if kvs_key kvs \<noteq> KEYVALUEPAIRS_TASK then e else UpdateTasks (ReadRecord_tasks cd kvs []) e)"

definition SaveTaskDuplicate :: "world \<Rightarrow> TrackerProtocol \<Rightarrow> tracker \<Rightarrow> bool \<times> tracker" where
  "SaveTaskDuplicate w p t =
     (True, t\<lparr>fdcs_env := fold (save_pair (message_codec w)) (key_values_pairs p) (fdcs_env t)\<rparr>)"

section \<open>The handler of protocols\<close>

text \<open>One definition per case of the switch. The argument \<open>closed\<close> is closed_circle.\<close>

type_synonym handled = "(bool \<times> tracker) result"

abbreviation succeeded :: "tracker result \<Rightarrow> handled" where
  "succeeded r \<equiv> rbind r (\<lambda>t. Inr (True, t))"

definition on_ELECTION :: "world \<Rightarrow> bool \<Rightarrow> TrackerProtocol \<Rightarrow> tracker \<Rightarrow> handled" where
  "on_ELECTION w closed p t =
     (if closed
      then (case election_result (master_group t) (response_sock_addr p @ '';'' @ own_addr t) of
              None \<Rightarrow> Inr (True, t)
            | Some tracker_addr \<Rightarrow> rbind (Coordinator w tracker_addr t) (\<lambda>(r, t'). Inr (True, t')))
      else succeeded (ContinueTransferProto w p t))"

definition on_COORDINATOR :: "world \<Rightarrow> bool \<Rightarrow> TrackerProtocol \<Rightarrow> tracker \<Rightarrow> handled" where
  "on_COORDINATOR w closed p t =
     rbind (CheckIP (response_result p)) (\<lambda>_.
       let t1 = t\<lparr>primary_sockaddr := response_result p\<rparr>
       in if closed
          then Inr (True, if primary_sockaddr t1 = own_addr t1 then snd (UpgradeTracker t1) else t1)
          else rbind (JoinMasterGroup w p t1) (\<lambda>(r, t2). succeeded (ContinueTransferProto w p t2)))"

definition on_MASTER_ASK_TRACKER :: "world \<Rightarrow> bool \<Rightarrow> TrackerProtocol \<Rightarrow> tracker \<Rightarrow> handled" where
  "on_MASTER_ASK_TRACKER w closed p0 t =
     rbind (if IAmPrimaryMaster t then AddProtoFdcsTime w t p0 else Inr p0) (\<lambda>p.
       if closed
       then (if response_result p0 = [] then Election w t
             else rbind (CheckIP (response_result p0)) (\<lambda>_.
               let t1 = t\<lparr>primary_sockaddr := response_result p0\<rparr>
               in rbind (ConnectMaster w (primary_sockaddr t1) t1) (\<lambda>(ok, t2).
                    rbind (JoinMasterGroup w p t2) (\<lambda>(r, t3). Inr (True, t3)))))
       else if response_result p0 = []
       then succeeded (ContinueTransferProto w
              (if primary_sockaddr t \<noteq> [] then p\<lparr>response_result_field := Some (primary_sockaddr t)\<rparr> else p) t)
       else if primary_sockaddr t \<noteq> response_result p0 \<and> primary_sockaddr t \<noteq> [] then Election w t
       else succeeded (ContinueTransferProto w p t))"

definition on_MASTER_REPORT_STATUS :: "TrackerProtocol \<Rightarrow> tracker \<Rightarrow> handled" where
  "on_MASTER_REPORT_STATUS p t =
     (if IAmPrimaryMaster t
      then (case tracker_status_list p of
              [] \<Rightarrow> Inr (True, t)
            | s # _ \<Rightarrow> Inr (True, t\<lparr>tracker_statuses := smap_set (own_addr t) s (tracker_statuses t)\<rparr>))
      else Inr (True, t))"

definition on_WORKER_ASK_TRACKER :: "world \<Rightarrow> int \<Rightarrow> TrackerProtocol \<Rightarrow> tracker \<Rightarrow> handled" where
  "on_WORKER_ASK_TRACKER w fd p t =
     (if primary_sockaddr t \<noteq> []
      then rbind (AddProtoFdcsTime w t (p\<lparr>response_result_field := Some (primary_sockaddr t)\<rparr>)) (\<lambda>p'.
        rbind (SendProtocol w p' fd (t\<lparr>socket_ids := smap_set fd (request_sock_addr p) (socket_ids t)\<rparr>))
          (\<lambda>(r, t'). Inr (True, t')))
      else Inr (True, t))"

definition on_MASTER_JOIN_GROUP :: "world \<Rightarrow> TrackerProtocol \<Rightarrow> tracker \<Rightarrow> handled" where
  "on_MASTER_JOIN_GROUP w p t =
     rbind (ConnectMaster w (request_sock_addr p) t) (\<lambda>(ok, t1).
       rbind (MasterGroupChanged w t1) (\<lambda>(r, t2). Inr (True, t2)))"

definition on_MASTER_GROUP_CHANGED :: "world \<Rightarrow> bool \<Rightarrow> TrackerProtocol \<Rightarrow> tracker \<Rightarrow> handled" where
  "on_MASTER_GROUP_CHANGED w closed p t =
     (if closed then Inr (True, t)
      else rbind (ConnectOnlineMaster w (request_args p) t) (\<lambda>t1. succeeded (ContinueTransferProto w p t1)))"

text \<open>The result of the request as it is set from a success flag.\<close>

definition set_result :: "bool \<Rightarrow> TrackerProtocol \<Rightarrow> TrackerProtocol" where
  "set_result ok p = p\<lparr>response_result_field :=
     Some (if ok then RESPONSE_RESULT_SUCCESS else RESPONSE_RESULT_COMPLETE)\<rparr>"

definition request_at_primary :: "world \<Rightarrow> int \<Rightarrow> TrackerProtocol \<Rightarrow> tracker \<Rightarrow> tracker result" where
  "request_at_primary w fd p t =
     (case Master_TaskCompleted w p t of
        (done, t1) \<Rightarrow>
          (case Master_GetIdleTask w (set_result done p) t1 of
             (ok, p2, t2) \<Rightarrow> rbind (SendProtocol w (set_result ok p2) fd t2) (\<lambda>(r, t3). Inr t3)))"

definition request_forward :: "world \<Rightarrow> int \<Rightarrow> TrackerProtocol \<Rightarrow> tracker \<Rightarrow> tracker result" where
  "request_forward w fd p t =
     (if IKnowPrimaryMaster t
      then rbind (master_fd (primary_sockaddr t) t) (\<lambda>primary_fd.
             rbind (SendProtocol w (p\<lparr>forwarding_sock_fd_field := Some fd\<rparr>) primary_fd t) (\<lambda>(r, t1). Inr t1))
      else Inr t)"

definition request_back :: "world \<Rightarrow> TrackerProtocol \<Rightarrow> tracker \<Rightarrow> tracker result" where
  "request_back w p t =
     (case (if response_result p = RESPONSE_RESULT_SUCCESS
            then (case Master_TaskCompleted w p t of (done, t1) \<Rightarrow> (set_result done p, t1)) else (p, t)) of
        (p1, t1) \<Rightarrow>
          (case Master_GetIdleTask w p1 t1 of
             (ok, p2, t2) \<Rightarrow>
               rbind (SendProtocol w (set_result ok p2) (forwarding_sock_fd p2) (if ok then t2 else Signal HeartBeatSignal t2))
                 (\<lambda>(r, t3). Inr t3)))"

definition on_WORKER_REQUEST_TASK :: "world \<Rightarrow> int \<Rightarrow> TrackerProtocol \<Rightarrow> tracker \<Rightarrow> handled" where
  "on_WORKER_REQUEST_TASK w fd p t =
     rbind (if IAmPrimaryMaster t then request_at_primary w fd p t
            else if \<not> contains (response_sock_addr p) (own_addr t) then request_forward w fd p t
            else request_back w p t)
       (\<lambda>t'. Inr (True, Signal TaskExchangeSignal t'))"

definition Master_ProtocolProcess :: "world \<Rightarrow> int \<Rightarrow> TrackerProtocol \<Rightarrow> tracker \<Rightarrow> handled" where
  "Master_ProtocolProcess w socket_fd p t =
     (let closed = ClosedCircle t p in
      case protocol_type p of
        ELECTION \<Rightarrow> on_ELECTION w closed p t
      | COORDINATOR \<Rightarrow> on_COORDINATOR w closed p t
      | MASTER_ASK_TRACKER \<Rightarrow> on_MASTER_ASK_TRACKER w closed p t
      | MASTER_REPORT_STATUS \<Rightarrow> on_MASTER_REPORT_STATUS p t
      | WORKER_ASK_TRACKER \<Rightarrow> on_WORKER_ASK_TRACKER w socket_fd p t
      | SYNC_TASK_DUPLICATE \<Rightarrow> if \<not> IAmPrimaryMaster t then Inr (True, snd (SaveTaskDuplicate w p t)) else Inr (True, t)
      | REQUEST_TASK_DUPLICATE \<Rightarrow>
          if IAmPrimaryMaster t then rbind (SendTaskDuplicate w p socket_fd t) (\<lambda>(r, t'). Inr (True, t'))
          else Inr (True, snd (SaveTaskDuplicate w p t))
      | MASTER_JOIN_GROUP \<Rightarrow> on_MASTER_JOIN_GROUP w p t
      | MASTER_GROUP_CHANGED \<Rightarrow> on_MASTER_GROUP_CHANGED w closed p t
      | ASK_TASK_STATUS \<Rightarrow> rbind (SendProtocol w (GetTaskStatus w t p) socket_fd t) (\<lambda>(r, t'). Inr (True, t'))
      | WORKER_REQUEST_TASK \<Rightarrow> on_WORKER_REQUEST_TASK w socket_fd p t
      | _ \<Rightarrow> Inr (True, t))"

definition Master_HeartBeat :: "world \<Rightarrow> tracker \<Rightarrow> (bool \<times> tracker) result" where
  "Master_HeartBeat w t =
     (if IKnowPrimaryMaster t
      then (if \<not> IAmPrimaryMaster t then rbind (RequestTaskDuplicate w t) (\<lambda>(r, t'). Inr (True, t')) else Inr (True, t))
      else rbind (AskTracker w t) (\<lambda>(r, t'). Inr (True, t')))"

section \<open>Start, end, and the exchange of tasks\<close>

text \<open>
  InitialTracker up to the event loop, which does not return. \<open>listen\<close> is the descriptor of the
  socket if Bind and Listen succeed.
\<close>

definition listen_callbacks :: "poll_event_element \<Rightarrow> poll_event_element" where
  "listen_callbacks e = e\<lparr>accept_callback := Some EpollAccentCallback, close_callback := Some EpollCloseCallback,
     cb_flags := or (cb_flags e) ACCEPT_CB\<rparr>"

definition Master_InitialTracker :: "world \<Rightarrow> (string \<Rightarrow> int \<Rightarrow> int option) \<Rightarrow> bool \<Rightarrow> node_s list \<Rightarrow> settings_s \<Rightarrow> tracker result" where
  "Master_InitialTracker w listen raw_is_master raw_nodes st =
     rbind (InitialTracker w raw_is_master raw_nodes st) (\<lambda>t0.
       let t1 = t0\<lparr>is_master := True\<rparr> in
       case tracker_server st of
         None \<Rightarrow> Inl Abort
       | Some addr \<Rightarrow>
           (case split_at addr (CHR '':'') of
              [ip, port] \<Rightarrow>
                (case listen ip (atoi port mod 2 ^ 16) of
                   None \<Rightarrow> Inl Abort
                 | Some fd \<Rightarrow>
                     rbind (AddSocketResource w fd addr (t1\<lparr>master_sockets := smap_set addr fd (master_sockets t1)\<rparr>))
                       (\<lambda>t2. Inr (t2\<lparr>epoll := set_element fd listen_callbacks (AddToPollEvent fd EPOLLIN (epoll t2))\<rparr>)))
            | _ \<Rightarrow> Inl Abort))"

definition Master_FinalizeTracker :: "tracker \<Rightarrow> tracker" where
  "Master_FinalizeTracker t = FinalizeTracker (Signal TaskExchangeSignal (Signal MasterSignal t))"

text \<open>
  One round of TaskExchangeThread in the pieces between which other threads run: the waiting loops,
  the copying of the completed tasks, the export with the clearing of the list, and the import.
  \<open>import_udf\<close> gives the tasks of the user's code.
\<close>

definition exchange_ready :: "world \<Rightarrow> tracker \<Rightarrow> bool" where
  "exchange_ready w t \<longleftrightarrow> IAmPrimaryMaster t \<and> \<not> IdleTasksSize (now w) (fdcs_env t) \<ge> PreloadTasks (fdcs_env t)"

fun copy_completed :: "nat \<Rightarrow> enviroment \<Rightarrow> FdcsTask list result" where
  "copy_completed 0 e = Inr []"
| "copy_completed (Suc n) e = rbind (copy_completed n e)
     (\<lambda>ts. rbind (CompletedTasks (int n) e) (\<lambda>task. Inr (ts @ [task])))"

definition exchange_export :: "tracker \<Rightarrow> FdcsTask list result" where
  "exchange_export t = copy_completed (nat (CompletedTasksSize (fdcs_env t))) (fdcs_env t)"

definition exchange_clear :: "tracker \<Rightarrow> tracker" where
  "exchange_clear t = t\<lparr>fdcs_env := ClearCompletedTasks (fdcs_env t)\<rparr>"

definition exchange_import :: "world \<Rightarrow> FdcsTask list \<Rightarrow> tracker \<Rightarrow> tracker" where
  "exchange_import w imported t =
     (if IdleTasksSize (now w) (fdcs_env t) < PreloadTasks (fdcs_env t)
      then t\<lparr>fdcs_env := fold (\<lambda>task e. snd (AddTask task e)) imported (fdcs_env t)\<rparr> else t)"

text \<open>The round when no other thread runs in between: the exported tasks and the new state.\<close>

definition TaskExchange_round :: "world \<Rightarrow> FdcsTask list \<Rightarrow> tracker \<Rightarrow> (FdcsTask list \<times> tracker) wait result" where
  "TaskExchange_round w imported t =
     (if exchange_ready w t
      then rbind (exchange_export t) (\<lambda>ts. Inr (Return (ts, exchange_import w imported (exchange_clear t))))
      else Inr Wait)"

end
