(* ===== verification/MasterInv.thy ===== *)
theory MasterInv
  imports Master "HOL-Library.Multiset"
begin

text \<open>
  Every operation of a master keeps the invariant of its tracker and its settings, and no operation
  loses a task: what is open or completed stays open or completed until it is exported or replaced
  by a copy from the primary master.
\<close>

section \<open>The task table\<close>

lemma settings_ops [simp]:
  "settings (snd (AddTask task e)) = settings e" "settings (UpdateTasks ts e) = settings e"
  "settings (TaskCompleted tid e) = settings e" "settings (snd (LeaseTasks now_t ts e)) = settings e"
  "settings (CalcFdcsTimeDiffer d now_t e) = settings e" "settings (InitFdcsTimeDiffer e) = settings e"
  "settings (ClearCompletedTasks e) = settings e"
  by (simp_all add: AddTask_def UpdateTasks_def ClearCompletedTasks_def TaskCompleted_def LeaseTasks_def
      CalcFdcsTimeDiffer_def InitFdcsTimeDiffer_def split: option.split prod.split)

lemma idle_loop_keys: "map fst (snd (snd (idle_loop cd ti lt q kvs m))) = map fst m"
  by (induction cd ti lt q kvs m rule: idle_loop.induct) (auto simp: Let_def case_prod_unfold)

lemma idle_loop_ids: "ids_ok m \<Longrightarrow> ids_ok (snd (snd (idle_loop cd ti lt q kvs m)))"
  by (induction cd ti lt q kvs m rule: idle_loop.induct) (auto simp: Let_def case_prod_unfold)

lemma smap_inv_keys: "map fst m' = map fst m \<Longrightarrow> smap_inv m' = smap_inv m"
  by (simp add: smap_inv_def)

lemma env_inv_idle_loop: "env_inv e \<Longrightarrow> env_inv (e\<lparr>tasks := snd (snd (idle_loop cd ti lt q kvs (tasks e)))\<rparr>)"
  using smap_inv_keys [OF idle_loop_keys] idle_loop_ids by (auto simp: env_inv_def)

lemma smap_erase_update: "smap_erase k (smap_update k f m) = smap_erase k m"
  by (induction k f m rule: smap_update.induct) auto

text \<open>What completing a task does: the result that came in replaces the open task.\<close>

lemma complete_one_eq: "complete_one clock ct e =
    (case smap_find (tasks e) (task_id ct) of
       None \<Rightarrow> e
     | Some task \<Rightarrow> if lease_time task < FdcsTime e clock then e
         else e\<lparr>tasks := smap_erase (task_id ct) (tasks e), completed_tasks := completed_tasks e @ [clear_lease_time ct]\<rparr>)"
  by (auto simp: complete_one_def TaskCompleted_def smap_find_update smap_erase_update split: option.split)

lemma complete_one_inv: "env_inv e \<Longrightarrow> env_inv (complete_one clock ct e)"
  by (auto simp: complete_one_eq env_inv_def smap_inv_erase smap_erase_ids split: option.split)

lemma complete_one_settings [simp]:
  "settings (complete_one clock ct e) = settings e" "fdcs_time_differ (complete_one clock ct e) = fdcs_time_differ e"
  by (auto simp: complete_one_eq split: option.split)

lemma fold_env_inv:
  assumes "\<And>x e. env_inv e \<Longrightarrow> env_inv (f x e)" "\<And>x e. settings (f x e) = settings e"
  shows "env_inv e \<Longrightarrow> env_inv (fold f xs e)" "settings (fold f xs e) = settings e"
proof -
  show "env_inv e \<Longrightarrow> env_inv (fold f xs e)" by (induction xs arbitrary: e) (auto simp: assms(1))
  show "settings (fold f xs e) = settings e" by (induction xs arbitrary: e) (auto simp: assms(2))
qed

named_theorems ev_intros \<open>steps of a tracker respect a relation\<close>

lemma kept_dequeue:
  assumes "smap_find (receive_buffers t) fd = Some (Some q)" "sq_Remove q [] True = (r, m, q')"
  shows "kept t (t\<lparr>receive_buffers := smap_set fd (Some q') (receive_buffers t)\<rparr>)"
  using assms by (intro keptI) (auto simp: tracker_inv_def intro!: buffers_ok_receive intro: queue_ok_Remove buffers_okD)

lemma kept_stale: "kept t (t\<lparr>receive_buffers := smap_set fd None (receive_buffers t)\<rparr>)"
  by (intro keptI) (auto simp: tracker_inv_def intro!: buffers_ok_receive)

lemma kept_events: "kept t (t\<lparr>socket_receive_events := evs, socket_send_events := evs'\<rparr>)"
  by (intro keptI) (auto simp: tracker_inv_def)

text \<open>
  A relation between the state before and after that the elementary changes of a server respect; its
  operations then respect it. \<open>kept\<close> covers what the base class does.
\<close>

locale tracker_steps =
  fixes R :: "tracker \<Rightarrow> tracker \<Rightarrow> bool"
  assumes R_refl: "R t t"
    and R_trans: "R t1 t2 \<Longrightarrow> R t2 t3 \<Longrightarrow> R t1 t3"
    and R_kept: "kept t t' \<Longrightarrow> R t t'"
    and R_signal: "R t (Signal sg t)"
    and R_clock: "R t (t\<lparr>fdcs_env := CalcFdcsTimeDiffer d now_t (fdcs_env t)\<rparr>)"
begin

definition ev :: "tracker \<Rightarrow> ('a \<times> tracker) result \<Rightarrow> bool" where
  "ev s r \<longleftrightarrow> (\<forall>x t. r = Inr (x, t) \<longrightarrow> R s t)"

definition ev1 :: "tracker \<Rightarrow> tracker result \<Rightarrow> bool" where
  "ev1 s r \<longleftrightarrow> (\<forall>t. r = Inr t \<longrightarrow> R s t)"

text \<open>
  The rules follow the text of an operation from the state \<open>s\<close> in which it was called to the state
  \<open>t\<close> it has reached.
\<close>

lemma ev_Inr [ev_intros]: "R s t \<Longrightarrow> ev s (Inr (x, t))" "R s t \<Longrightarrow> ev1 s (Inr t)"
  by (simp_all add: ev_def ev1_def)

lemma ev_if [ev_intros]:
  "(c \<Longrightarrow> ev s a) \<Longrightarrow> (\<not> c \<Longrightarrow> ev s b) \<Longrightarrow> ev s (if c then a else b)"
  "(c \<Longrightarrow> ev1 s a1) \<Longrightarrow> (\<not> c \<Longrightarrow> ev1 s b1) \<Longrightarrow> ev1 s (if c then a1 else b1)"
  "R s a2 \<Longrightarrow> R s b2 \<Longrightarrow> R s (if c then a2 else b2)"
  by simp_all

lemma ev_rbind [ev_intros]:
  "ev s m \<Longrightarrow> (\<And>x t. R s t \<Longrightarrow> ev s (f x t)) \<Longrightarrow> ev s (rbind m (\<lambda>(x, t). f x t))"
  "ev s m \<Longrightarrow> (\<And>x t. R s t \<Longrightarrow> ev1 s (g x t)) \<Longrightarrow> ev1 s (rbind m (\<lambda>(x, t). g x t))"
  "ev1 s m1 \<Longrightarrow> (\<And>t. R s t \<Longrightarrow> ev s (h t)) \<Longrightarrow> ev s (rbind m1 h)"
  "ev1 s m1 \<Longrightarrow> (\<And>t. R s t \<Longrightarrow> ev1 s (k t)) \<Longrightarrow> ev1 s (rbind m1 k)"
  by (auto simp: ev_def ev1_def)

text \<open>Steps that compute a value.\<close>

lemma ev_value [ev_intros]:
  "(\<And>fd. ev s (f fd)) \<Longrightarrow> ev s (rbind (master_fd a t) f)"
  "(\<And>fd. ev1 s (g fd)) \<Longrightarrow> ev1 s (rbind (master_fd a t) g)"
  "(\<And>u. ev s (h u)) \<Longrightarrow> ev s (rbind (CheckIP x) h)"
  "(\<And>p'. ev s (i p')) \<Longrightarrow> ev s (rbind (AddProtoFdcsTime w t p) i)"
  "(\<And>p'. ev s (i p')) \<Longrightarrow> ev s (rbind (if c then AddProtoFdcsTime w t p else Inr p) i)"
  by (auto simp: ev_def ev1_def)

lemma ev_kept: "(\<And>x t'. r = Inr (x, t') \<Longrightarrow> kept t t') \<Longrightarrow> R s t \<Longrightarrow> ev s r"
  "(\<And>t'. r1 = Inr t' \<Longrightarrow> kept t t') \<Longrightarrow> R s t \<Longrightarrow> ev1 s r1"
  unfolding ev_def ev1_def by (blast intro: R_kept R_trans)+

lemma ev_tracker [ev_intros]:
  "R s t \<Longrightarrow> ev s (SendProtocol w p fd t)" "R s t \<Longrightarrow> ev s (ConnectMaster w a t)"
  "R s t \<Longrightarrow> ev s (FindNextMaster w t)" "R s t \<Longrightarrow> ev s (MasterGroupChanged w t)"
  "R s t \<Longrightarrow> ev s (SocketClose w fd t)" "R s t \<Longrightarrow> ev1 s (AskTaskStatus w t)"
  by (erule ev_kept [rotated], erule kept_SendProtocol kept_ConnectMaster kept_FindNextMaster kept_MasterGroupChanged
      kept_SocketClose kept_AskTaskStatus)+

lemma R_fields [ev_intros]:
  "R s t \<Longrightarrow> R s (t\<lparr>primary_sockaddr := a\<rparr>)" "R s t \<Longrightarrow> R s (Signal sg t)"
  "R s t \<Longrightarrow> R s (t\<lparr>tracker_statuses := ts\<rparr>)"
  "R s t \<Longrightarrow> R s (t\<lparr>socket_ids := smap_set fd a (socket_ids t)\<rparr>)"
proof -
  show "R s t \<Longrightarrow> R s (Signal sg t)" using R_signal R_trans by blast
qed (erule R_trans, rule R_kept, simp add: kept_def tracker_inv_def smap_inv_set other_signals_def)+

lemma R_set_clock [ev_intros]:
  "R s t \<Longrightarrow> R s (t\<lparr>fdcs_env := CalcFdcsTimeDiffer d now_t (fdcs_env t)\<rparr>)"
  using R_clock by (blast intro: R_trans)

text \<open>The socket thread respects what the handler of protocols respects.\<close>

lemma R_each_event:
  assumes "each_event f fds t = Inr t'" "\<And>fd t t'. f fd t = Inr t' \<Longrightarrow> R t t'"
  shows "R t t'"
  using assms(1)
proof (induction fds arbitrary: t)
  case (Cons fd fds)
  then obtain t1 where "f fd t = Inr t1" "each_event f fds t1 = Inr t'" by auto
  then show ?case using assms(2) Cons.IH R_trans by blast
qed (simp add: R_refl)

lemma R_receive_event:
  assumes "receive_event w process fd t = Inr t'" "\<And>fd p t. ev t (process fd p t)"
  shows "R t t'"
proof -
  consider (absent) "smap_find (receive_buffers t) fd = None" | (null) "smap_find (receive_buffers t) fd = Some None"
    | (queue) q where "smap_find (receive_buffers t) fd = Some (Some q)" by (metis not_None_eq)
  then show ?thesis
  proof cases
    case (queue q)
    obtain r m q' where q': "sq_Remove q [] True = (r, m, q')" by (cases "sq_Remove q [] True") auto
    let ?t1 = "t\<lparr>receive_buffers := smap_set fd (Some q') (receive_buffers t)\<rparr>"
    obtain p ok where "process fd p ?t1 = Inr (ok, t')"
      using assms(1) queue q' by (auto simp: receive_event_def split: wait.splits)
    then have "R ?t1 t'" using assms(2) [of ?t1 fd p] by (simp add: ev_def)
    then show ?thesis using R_kept [OF kept_dequeue [OF queue q']] R_trans by blast
  qed (use assms(1) R_kept [OF kept_stale] in \<open>auto simp: receive_event_def R_refl\<close>)
qed

lemma R_SocketThread:
  assumes "SocketThread w process t = Inr t'" "\<And>fd p t. ev t (process fd p t)"
  shows "R t t'"
proof (cases "socket_send_events t = [] \<and> socket_receive_events t = []")
  case True
  then show ?thesis using assms(1) by (simp add: SocketThread_def R_refl)
next
  case False
  let ?t1 = "t\<lparr>socket_receive_events := [], socket_send_events := []\<rparr>"
  obtain t2 where t2: "each_event (receive_event w process) (socket_receive_events t) ?t1 = Inr t2"
      "each_event (send_event w) (socket_send_events t) t2 = Inr t'"
    using assms(1) False by (auto simp: SocketThread_def GetSocketEvent_def split: if_splits)
  have "R t ?t1" by (rule R_kept [OF kept_events])
  moreover have "R ?t1 t2" using R_each_event [OF t2(1)] R_receive_event assms(2) by blast
  moreover have "R t2 t'" using R_each_event [OF t2(2)] R_kept [OF kept_send_event] by blast
  ultimately show ?thesis by (blast intro: R_trans)
qed

end

text \<open>The changes of a master to its clock and its tasks.\<close>

locale tracker_relation = tracker_steps +
  assumes R_reset: "R t (t\<lparr>fdcs_env := InitFdcsTimeDiffer (fdcs_env t)\<rparr>)"
    and R_lease: "R t (t\<lparr>fdcs_env := snd (LeaseTasks now_t [] (fdcs_env t))\<rparr>)"
    and R_idle: "R t (snd (snd (Master_GetIdleTask w p t)))"
    and R_completed: "R t (snd (Master_TaskCompleted w p t))"
begin

lemma R_tasks [ev_intros]:
  "R s t \<Longrightarrow> R s (t\<lparr>fdcs_env := snd (LeaseTasks now_t [] (fdcs_env t))\<rparr>)"
  "R s t \<Longrightarrow> R s (snd (snd (Master_GetIdleTask w p t)))"
  "R s t \<Longrightarrow> R s (snd (Master_TaskCompleted w p t))"
  using R_lease R_idle R_completed by (blast intro: R_trans)+

lemma R_UpgradeTracker [ev_intros]: "R s t \<Longrightarrow> R s (snd (UpgradeTracker t))"
  using R_trans [OF _ R_reset] by (simp add: UpgradeTracker_def R_fields(2))

lemma ev_circle [ev_intros]:
  "R s t \<Longrightarrow> ev1 s (ContinueTransferProto w p t)"
  "R s t \<Longrightarrow> ev s (Election w t)"
  "R s t \<Longrightarrow> ev s (Coordinator w a t)"
  unfolding ContinueTransferProto_def Election_def Coordinator_def
  by (intro ev_intros; assumption)+

lemma ev_AskTracker [ev_intros]: "R s t \<Longrightarrow> ev s (AskTracker w t)"
  unfolding AskTracker_def by (intro ev_intros; assumption)

lemma ev_JoinMasterGroup [ev_intros]: "R s t \<Longrightarrow> ev s (JoinMasterGroup w p t)"
  unfolding JoinMasterGroup_def Let_def by (intro ev_intros; assumption)

lemma ev_ConnectOnlineMaster_loop: "R s t \<Longrightarrow> ev1 s (ConnectOnlineMaster_loop w as t)"
proof (induction as arbitrary: t)
  case (Cons a as)
  show ?case unfolding ConnectOnlineMaster_loop.simps by (intro ev_intros Cons)
qed (simp add: ev_intros)

lemma ev_ConnectOnlineMaster [ev_intros]: "R s t \<Longrightarrow> ev1 s (ConnectOnlineMaster w a t)"
  unfolding ConnectOnlineMaster_def by (rule ev_ConnectOnlineMaster_loop)

lemma ev_MasterReportStatus: "R s t \<Longrightarrow> ev s (MasterReportStatus w t)"
  unfolding MasterReportStatus_def Let_def by (intro ev_intros; assumption)

lemma ev_RequestTaskDuplicate [ev_intros]: "R s t \<Longrightarrow> ev s (RequestTaskDuplicate w t)"
  unfolding RequestTaskDuplicate_def by (intro ev_intros; assumption)

lemma ev_SendTaskDuplicate [ev_intros]: "R s t \<Longrightarrow> ev s (SendTaskDuplicate w p fd t)"
  unfolding SendTaskDuplicate_def Let_def prod.case_eq_if by (intro ev_intros [unfolded prod.case_eq_if]; assumption)

section \<open>The handlers\<close>

lemma ev_on_ELECTION [ev_intros]: "R s t \<Longrightarrow> ev s (on_ELECTION w closed p t)"
  unfolding on_ELECTION_def
  by (cases "election_result (master_group t) (response_sock_addr p @ '';'' @ own_addr t)"; simp only: option.case;
      intro ev_intros; assumption)

lemma ev_on_COORDINATOR [ev_intros]: "R s t \<Longrightarrow> ev s (on_COORDINATOR w closed p t)"
  unfolding on_COORDINATOR_def Let_def by (intro ev_intros; assumption)

lemma ev_on_MASTER_ASK_TRACKER [ev_intros]: "R s t \<Longrightarrow> ev s (on_MASTER_ASK_TRACKER w closed p t)"
  unfolding on_MASTER_ASK_TRACKER_def Let_def by (intro ev_intros; assumption)

lemma ev_on_MASTER_REPORT_STATUS [ev_intros]: "R s t \<Longrightarrow> ev s (on_MASTER_REPORT_STATUS p t)"
  unfolding on_MASTER_REPORT_STATUS_def
  by (cases "tracker_status_list p"; simp only: list.case; intro ev_intros; assumption)

lemma ev_handlers [ev_intros]:
  "R s t \<Longrightarrow> ev s (on_MASTER_JOIN_GROUP w p t)"
  "R s t \<Longrightarrow> ev s (on_MASTER_GROUP_CHANGED w closed p t)"
  "R s t \<Longrightarrow> ev s (on_WORKER_ASK_TRACKER w fd p t)"
  unfolding on_MASTER_JOIN_GROUP_def on_MASTER_GROUP_CHANGED_def on_WORKER_ASK_TRACKER_def
  by (intro ev_intros; assumption)+

lemma ev_request [ev_intros]:
  "R s t \<Longrightarrow> ev1 s (request_at_primary w fd p t)" "R s t \<Longrightarrow> ev1 s (request_forward w fd p t)"
  "R s t \<Longrightarrow> ev1 s (request_back w p t)"
proof -
  assume s: "R s t"
  show "ev1 s (request_at_primary w fd p t)"
    unfolding request_at_primary_def case_prod_unfold by (intro ev_intros [unfolded case_prod_unfold] s)
  show "ev1 s (request_forward w fd p t)"
    unfolding request_forward_def by (intro ev_intros s)
  show "ev1 s (request_back w p t)"
    unfolding request_back_def case_prod_unfold if_distrib [of fst] if_distrib [of snd] fst_conv snd_conv
    by (intro ev_intros [unfolded case_prod_unfold] s)
qed

lemma ev_on_WORKER_REQUEST_TASK [ev_intros]: "R s t \<Longrightarrow> ev s (on_WORKER_REQUEST_TASK w fd p t)"
  unfolding on_WORKER_REQUEST_TASK_def by (intro ev_intros; assumption)

text \<open>Only a copy from the primary master, which the primary itself does not take, is left open.\<close>

lemma ev_Master_ProtocolProcess:
  assumes "IAmPrimaryMaster s \<or> R s (snd (SaveTaskDuplicate w p s))"
  shows "ev s (Master_ProtocolProcess w fd p s)"
proof -
  have save: "\<not> IAmPrimaryMaster s \<Longrightarrow> R s (snd (SaveTaskDuplicate w p s))" using assms by blast
  show ?thesis
    unfolding Master_ProtocolProcess_def Let_def
    by (cases "protocol_type p"; simp only: ProtocolType.case; intro ev_intros; (rule R_refl | erule save | assumption))
qed

lemma ev_Master_HeartBeat [ev_intros]: "R s t \<Longrightarrow> ev s (Master_HeartBeat w t)"
  unfolding Master_HeartBeat_def by (intro ev_intros; assumption)

end

section \<open>The invariant\<close>

definition evolves :: "tracker \<Rightarrow> tracker \<Rightarrow> bool" where
  "evolves t t' \<longleftrightarrow> (tracker_inv t \<longrightarrow> tracker_inv t') \<and> settings (fdcs_env t') = settings (fdcs_env t)
     \<and> is_master t' = is_master t"

lemma evolves_env:
  assumes "env_inv (fdcs_env t) \<Longrightarrow> env_inv e" "settings e = settings (fdcs_env t)"
  shows "evolves t (t\<lparr>fdcs_env := e\<rparr>)"
  using assms by (auto simp: evolves_def tracker_inv_def SocketBuffSize_def)

lemma evolves_tasks:
  "evolves t (snd (snd (Master_GetIdleTask w p t)))" "evolves t (snd (Master_TaskCompleted w p t))"
  "evolves t (t\<lparr>fdcs_env := InitFdcsTimeDiffer (fdcs_env t)\<rparr>)"
  "evolves t (t\<lparr>fdcs_env := CalcFdcsTimeDiffer d now_t (fdcs_env t)\<rparr>)"
  "evolves t (t\<lparr>fdcs_env := snd (LeaseTasks now_t [] (fdcs_env t))\<rparr>)"
proof -
  show "evolves t (snd (snd (Master_GetIdleTask w p t)))"
    using evolves_env [of t] env_inv_idle_loop
    by (simp add: Master_GetIdleTask_def case_prod_unfold) (simp add: evolves_def)
  show "evolves t (snd (Master_TaskCompleted w p t))"
    using evolves_env [of t] fold_env_inv [of "complete_one (now w)"] complete_one_inv
    by (simp add: Master_TaskCompleted_def Let_def) (simp add: evolves_def)
qed (rule evolves_env; simp add: env_inv_clock env_inv_LeaseTasks)+

lemma save_pair_inv: "env_inv e \<Longrightarrow> env_inv (save_pair cd kvs e)" "settings (save_pair cd kvs e) = settings e"
  by (simp_all add: save_pair_def env_inv_UpdateTasks)

lemma evolves_SaveTaskDuplicate: "evolves t (snd (SaveTaskDuplicate w p t))"
  unfolding SaveTaskDuplicate_def snd_conv
  by (rule evolves_env; rule fold_env_inv; simp add: save_pair_inv)

interpretation inv: tracker_relation evolves
  by unfold_locales (simp_all only: evolves_tasks, auto simp: evolves_def kept_def Signal_def tracker_inv_def)

section \<open>Conservation of tasks\<close>

text \<open>Open tasks only turn into completed ones, which are appended to the list in some order.\<close>

definition moved :: "enviroment \<Rightarrow> enviroment \<Rightarrow> bool" where
  "moved e e' \<longleftrightarrow> (\<exists>new. completed_tasks e' = completed_tasks e @ new
     \<and> mset (map fst (tasks e)) = mset (map fst (tasks e')) + mset (map task_id new))"

definition conserves :: "tracker \<Rightarrow> tracker \<Rightarrow> bool" where
  "conserves t t' \<longleftrightarrow> evolves t t' \<and> (tracker_inv t \<longrightarrow> moved (fdcs_env t) (fdcs_env t'))"

lemma moved_same: "completed_tasks e' = completed_tasks e \<Longrightarrow> map fst (tasks e') = map fst (tasks e) \<Longrightarrow> moved e e'"
  by (simp add: moved_def)

lemma moved_trans: "moved e1 e2 \<Longrightarrow> moved e2 e3 \<Longrightarrow> moved e1 e3"
  by (auto simp: moved_def ac_simps)

lemma mset_smap_erase: "smap_find m k = Some v \<Longrightarrow> mset (map fst m) = add_mset k (mset (map fst (smap_erase k m)))"
  by (induction k m rule: smap_erase.induct) (auto split: if_splits)

lemma moved_complete_one: "moved e (complete_one clock ct e)"
proof (cases "smap_find (tasks e) (task_id ct)")
  case None
  then show ?thesis by (simp add: complete_one_eq moved_same)
next
  case (Some task)
  then show ?thesis
    using mset_smap_erase [OF Some] by (auto simp: complete_one_eq moved_def)
qed

lemma moved_completions: "moved e (fold (complete_one clock) cts e)"
  by (induction cts arbitrary: e) (auto intro: moved_same moved_trans moved_complete_one)

lemma conserves_tasks:
  "conserves t (snd (snd (Master_GetIdleTask w p t)))" "conserves t (snd (Master_TaskCompleted w p t))"
  "conserves t (t\<lparr>fdcs_env := InitFdcsTimeDiffer (fdcs_env t)\<rparr>)"
  "conserves t (t\<lparr>fdcs_env := CalcFdcsTimeDiffer d now_t (fdcs_env t)\<rparr>)"
  "conserves t (t\<lparr>fdcs_env := snd (LeaseTasks now_t [] (fdcs_env t))\<rparr>)"
proof -
  show "conserves t (snd (snd (Master_GetIdleTask w p t)))"
    using evolves_tasks(1) by (auto simp: conserves_def Master_GetIdleTask_def case_prod_unfold idle_loop_keys intro: moved_same)
  show "conserves t (snd (Master_TaskCompleted w p t))"
    using evolves_tasks(2) by (auto simp: conserves_def Master_TaskCompleted_def Let_def intro: moved_same moved_completions)
qed (auto simp: conserves_def evolves_tasks InitFdcsTimeDiffer_def CalcFdcsTimeDiffer_def LeaseTasks_eq keys_lease_loop
      simp del: settings_ops intro!: moved_same evolves_tasks [unfolded InitFdcsTimeDiffer_def CalcFdcsTimeDiffer_def LeaseTasks_eq, simplified])

interpretation cons: tracker_relation conserves
  by unfold_locales
    (simp_all only: conserves_tasks,
     auto simp: conserves_def evolves_def kept_def Signal_def tracker_inv_def intro: moved_same moved_trans)

end
