(* ===== verification/MasterTasks.thy ===== *)
theory MasterTasks
  imports MasterInv
begin

text \<open>
  The life of a master as a step relation, and what a master does with tasks: requests of workers,
  completions, the exchange with the user's code.
\<close>

section \<open>The life of a master\<close>

text \<open>
  The threads of a master as interleaved steps. The worlds of two steps need not agree: the clock
  goes on, connections come and go. A step that faults has no successor.
\<close>

inductive master_step :: "tracker \<Rightarrow> tracker \<Rightarrow> bool" where
  socket_thread: "SocketThread w (Master_ProtocolProcess w) t = Inr t' \<Longrightarrow> master_step t t'"
| heart_beat: "Master_HeartBeat w t = Inr (r, t') \<Longrightarrow> master_step t t'"
| event_loop: "PollEventProcess w evs t = Inr t' \<Longrightarrow> master_step t t'"
| task_exchange: "TaskExchange_round w imported t = Inr (Return (ts, t')) \<Longrightarrow> master_step t t'"

inductive master_run :: "settings_s \<Rightarrow> tracker \<Rightarrow> bool" where
  start: "Master_InitialTracker w listen raw_is_master raw_nodes st = Inr t \<Longrightarrow> master_run st t"
| step: "master_run st t \<Longrightarrow> master_step t t' \<Longrightarrow> master_run st t'"

lemma evolves_trans [trans]: "evolves t1 t2 \<Longrightarrow> evolves t2 t3 \<Longrightarrow> evolves t1 t3"
  by (simp add: evolves_def)

lemma kept_evolves: "kept t t' \<Longrightarrow> evolves t t'"
  by (simp add: kept_def evolves_def)

lemma evolves_handler: "inv.ev t (Master_ProtocolProcess w fd p t)"
  using inv.ev_Master_ProtocolProcess evolves_SaveTaskDuplicate by blast

lemma env_inv_imports: "env_inv e \<Longrightarrow> env_inv (fold (\<lambda>task e. snd (AddTask task e)) ts e)"
  "settings (fold (\<lambda>task e. snd (AddTask task e)) ts e) = settings e"
  by (intro fold_env_inv; simp add: env_inv_AddTask)+

lemma evolves_exchange: "evolves t (exchange_clear t)" "evolves t (exchange_import w imported t)"
  by (auto simp: exchange_clear_def exchange_import_def env_inv_clock env_inv_imports evolves_def tracker_inv_def
      SocketBuffSize_def)

lemma evolves_step: "master_step t t' \<Longrightarrow> evolves t t'"
proof (induction rule: master_step.induct)
  case (socket_thread w t t')
  then show ?case by (rule inv.R_SocketThread) (rule evolves_handler)
next
  case (heart_beat w t r t')
  have "evolves t t" by (simp add: evolves_def)
  from inv.ev_Master_HeartBeat [OF this, of w] show ?case using heart_beat by (auto simp: inv.ev_def)
next
  case (task_exchange w imported t ts t')
  then show ?case using evolves_exchange evolves_trans
    by (fastforce simp: TaskExchange_round_def split: if_splits)
qed (auto intro: kept_evolves kept_PollEventProcess)

lemma InitialTracker_settings:
  assumes "InitialTracker w m nodes st = Inr t"
  shows "settings (fdcs_env t) = st"
proof -
  have 1: "fdcs_env (init_member w im t0) = fdcs_env t0" for im t0
    by (simp add: init_member_def split: prod.split)
  have 2: "fdcs_env (fold (init_member w) ims t0) = fdcs_env t0" for ims t0
    by (induction ims arbitrary: t0) (simp_all add: 1)
  then show ?thesis
    using assms by (auto simp: InitialTracker_def Let_def fresh_tracker_def Enviroment_def split: if_splits)
qed

lemma Master_InitialTracker_inv:
  assumes "Master_InitialTracker w listen m nodes st = Inr t"
  shows "tracker_inv t \<and> is_master t \<and> settings (fdcs_env t) = st"
proof -
  obtain t0 where t0: "InitialTracker w m nodes st = Inr t0" using assms by (auto simp: Master_InitialTracker_def)
  obtain addr fd t2 where t2: "AddSocketResource w fd addr (t0\<lparr>is_master := True, master_sockets := smap_set addr fd (master_sockets t0)\<rparr>) = Inr t2"
      "t = t2\<lparr>epoll := set_element fd listen_callbacks (AddToPollEvent fd EPOLLIN (epoll t2))\<rparr>"
    using assms t0 by (auto simp: Master_InitialTracker_def Let_def split: option.splits list.splits)
  let ?t1 = "t0\<lparr>is_master := True, master_sockets := smap_set addr fd (master_sockets t0)\<rparr>"
  have 1: "tracker_inv ?t1" "settings (fdcs_env ?t1) = st"
    using inv_InitialTracker [OF t0] InitialTracker_settings [OF t0] by (auto simp: tracker_inv_def smap_inv_set)
  have "tracker_inv t2" "is_master t2" "settings (fdcs_env t2) = st"
    using kept_AddSocketResource [OF t2(1)] 1 by (auto simp: kept_def)
  then show ?thesis
    unfolding t2(2) by (auto simp: tracker_inv_def listen_callbacks_def intro!: poll_inv_set_element poll_inv_Add)
qed

lemma master_run_inv: "master_run st t \<Longrightarrow> tracker_inv t \<and> is_master t \<and> settings (fdcs_env t) = st"
  by (induction rule: master_run.induct) (auto dest: Master_InitialTracker_inv evolves_step simp: evolves_def)

section \<open>Completions\<close>

text \<open>
  The reports that are adopted: of the tasks in \<open>S\<close>, those open under a lease that has not ended,
  the first report each.
\<close>

fun first_reports :: "(string \<Rightarrow> bool) \<Rightarrow> FdcsTask list \<Rightarrow> FdcsTask list" where
  "first_reports S [] = []"
| "first_reports S (ct # cts) =
     (if S (task_id ct) then ct # first_reports (\<lambda>k. S k \<and> k \<noteq> task_id ct) cts else first_reports S cts)"

definition live :: "enviroment \<Rightarrow> int \<Rightarrow> string \<Rightarrow> bool" where
  "live e clock k \<longleftrightarrow> (case smap_find (tasks e) k of None \<Rightarrow> False | Some task \<Rightarrow> \<not> lease_time task < FdcsTime e clock)"

lemma FdcsTime_complete_one [simp]: "FdcsTime (complete_one clock ct e) = FdcsTime e"
  by (simp add: FdcsTime_def fun_eq_iff)

lemma complete_one_find:
  assumes "smap_inv (tasks e)"
  shows "smap_find (tasks (complete_one clock ct e)) k
    = (if k = task_id ct \<and> live e clock k then None else smap_find (tasks e) k)"
  using assms by (auto simp: complete_one_eq live_def smap_find_erase split: option.split)

lemma complete_one_live:
  "smap_inv (tasks e) \<Longrightarrow> live (complete_one clock ct e) clock = (\<lambda>k. live e clock k \<and> k \<noteq> task_id ct)"
  by (rule ext) (auto simp: live_def complete_one_find split: option.split)

lemma complete_one_completed: "completed_tasks (complete_one clock ct e)
    = completed_tasks e @ (if live e clock (task_id ct) then [clear_lease_time ct] else [])"
  by (auto simp: complete_one_eq live_def split: option.split)

lemma complete_one_smap: "smap_inv (tasks e) \<Longrightarrow> smap_inv (tasks (complete_one clock ct e))"
  by (auto simp: complete_one_eq smap_inv_erase split: option.split)

lemma first_reports_mem: "S k \<Longrightarrow> k \<in> task_id ` set cts \<longleftrightarrow> k \<in> task_id ` set (first_reports S cts)"
  by (induction S cts rule: first_reports.induct) auto

lemma first_reports_sound:
  "distinct (map task_id (first_reports S cts)) \<and> (\<forall>ct \<in> set (first_reports S cts). ct \<in> set cts \<and> S (task_id ct))"
proof (induction S cts rule: first_reports.induct)
  case (2 S ct cts)
  show ?case
  proof (cases "S (task_id ct)")
    case True
    then have "first_reports S (ct # cts) = ct # first_reports (\<lambda>k. S k \<and> k \<noteq> task_id ct) cts" by simp
    then show ?thesis using 2(1) [OF True] True by auto
  next
    case False
    then have "first_reports S (ct # cts) = first_reports S cts" by simp
    then show ?thesis using 2(2) [OF False] by auto
  qed
qed simp

lemma completions_outcome:
  assumes "smap_inv (tasks e)"
  shows "smap_find (tasks (fold (complete_one clock) cts e)) k
      = (if live e clock k \<and> k \<in> task_id ` set cts then None else smap_find (tasks e) k)"
    "completed_tasks (fold (complete_one clock) cts e)
      = completed_tasks e @ map clear_lease_time (first_reports (live e clock) cts)"
proof -
  show "smap_find (tasks (fold (complete_one clock) cts e)) k
      = (if live e clock k \<and> k \<in> task_id ` set cts then None else smap_find (tasks e) k)"
    using assms by (induction cts arbitrary: e) (auto simp: complete_one_find complete_one_live complete_one_smap)
  show "completed_tasks (fold (complete_one clock) cts e)
      = completed_tasks e @ map clear_lease_time (first_reports (live e clock) cts)"
    using assms
  proof (induction cts arbitrary: e)
    case (Cons ct cts)
    have "(\<lambda>k. live e clock k \<and> k \<noteq> task_id ct) = live e clock" if "\<not> live e clock (task_id ct)"
      using that by (auto simp: fun_eq_iff)
    then show ?case using Cons by (auto simp: complete_one_completed complete_one_live complete_one_smap)
  qed simp
qed

section \<open>Requests\<close>

lemma idle_loop_out: "fst (idle_loop cd ti lt q kvs m) \<longleftrightarrow> max 1 q \<le> int (length (idle_at ti m))"
  "fst (snd (idle_loop cd ti lt q kvs m))
    = kvs\<lparr>kvs_value := kvs_value kvs @ map (ser_task cd \<circ> clear_lease_time \<circ> snd) (take (nat (max 1 q)) (idle_at ti m))\<rparr>"
proof (induction cd ti lt q kvs m rule: idle_loop.induct)
  case (2 cd ti lt q kvs k task m)
  {
    case 1
    show ?case using 2 by (auto simp: Let_def case_prod_unfold)
  next
    case 2
    have n: "nat q = Suc (nat (q - 1))" if "\<not> q \<le> 1" using that by simp
    show ?case
      using "2.IH" by (auto simp: Let_def case_prod_unfold WriteRecord_task_def SerializeValue_def n)
  }
qed auto

lemma idle_loop_find:
  "smap_inv m \<Longrightarrow> smap_find (snd (snd (idle_loop cd ti lt q kvs m))) k =
    (if k \<in> fst ` set (take (nat (max 1 q)) (idle_at ti m))
     then map_option (set_lease_time (ti + lt)) (smap_find m k) else smap_find m k)"
proof (induction cd ti lt q kvs m rule: idle_loop.induct)
  case (2 cd ti lt q kvs k1 task m)
  from "2.prems" have inv: "smap_inv m" and lt: "\<forall>x \<in> fst ` set m. k1 < x" by auto
  have notin: "k1 \<notin> fst ` set (take n (idle_at ti m))" for n
    using lt by (auto dest!: in_set_takeD simp: idle_at_in)
  show ?case
  proof (cases "lease_time task < ti")
    case True
    show ?thesis
    proof (cases "q - 1 \<le> 0")
      case False
      then have n: "nat q = Suc (nat (q - 1))" by linarith
      show ?thesis using "2.IH"(1) [OF True refl refl False inv] True False notin
        by (auto simp add: case_prod_unfold Let_def n)
    qed (use True in simp)
  next
    case False
    then show ?thesis using "2.IH"(2) [OF False inv] notin by (cases "k1 = k") (simp_all add: case_prod_unfold)
  qed
qed simp

lemma idle_loop_kvs_key: "kvs_key_field (fst (snd (idle_loop cd ti lt q kvs m))) = kvs_key_field kvs"
  by (simp add: idle_loop_out(2))

text \<open>What a request is given: the idle tasks up to the quota of the request, which counts as at least 1.\<close>

definition quota :: "world \<Rightarrow> TrackerProtocol \<Rightarrow> nat" where
  "quota w p = nat (max 1 (KeyToInt32 (indeterminate w) (request_args p)))"

definition idle_tasks :: "world \<Rightarrow> tracker \<Rightarrow> (string, FdcsTask) smap" where
  "idle_tasks w t = idle_at (FdcsTime (fdcs_env t) (now w)) (tasks (fdcs_env t))"

lemma GetIdleTask_outcome:
  assumes "tracker_inv t" "\<not> (forwarding_sock_fd p > 0 \<and> IAmPrimaryMaster t)" "lossless (message_codec w)"
    "Master_GetIdleTask w p t = (ok, p', t')"
  shows "ok \<longleftrightarrow> quota w p \<le> length (idle_tasks w t)"
    "tasks_of (message_codec w) KEYVALUEPAIRS_TASK p' = map (clear_lease_time \<circ> snd) (take (quota w p) (idle_tasks w t))"
    "smap_find (tasks (fdcs_env t')) k =
      (if k \<in> fst ` set (take (quota w p) (idle_tasks w t))
       then map_option (set_lease_time (FdcsTime (fdcs_env t) (now w) + LeaseTimeout (fdcs_env t)))
              (smap_find (tasks (fdcs_env t)) k)
       else smap_find (tasks (fdcs_env t)) k)"
    "completed_tasks (fdcs_env t') = completed_tasks (fdcs_env t)"
    "\<exists>kvs e. p' = p\<lparr>key_values_pairs := kvs\<rparr> \<and> t' = t\<lparr>fdcs_env := e\<rparr>"
proof -
  have inv: "smap_inv (tasks (fdcs_env t))" using assms(1) by (simp add: tracker_inv_def env_inv_def)
  let ?l = "idle_loop (message_codec w) (FdcsTime (fdcs_env t) (now w)) (LeaseTimeout (fdcs_env t))
     (KeyToInt32 (indeterminate w) (request_args p)) (new_KeyValuesPair\<lparr>kvs_key_field := Some KEYVALUEPAIRS_TASK\<rparr>) (tasks (fdcs_env t))"
  have eq: "ok = fst ?l" "p' = p\<lparr>key_values_pairs := [fst (snd ?l)]\<rparr>" "t' = t\<lparr>fdcs_env := (fdcs_env t)\<lparr>tasks := snd (snd ?l)\<rparr>\<rparr>"
    using assms(2,4) by (auto simp: Master_GetIdleTask_def case_prod_unfold)
  show "ok \<longleftrightarrow> quota w p \<le> length (idle_tasks w t)"
    unfolding eq(1) idle_loop_out(1) quota_def idle_tasks_def by linarith
  have "kvs_key (fst (snd ?l)) = KEYVALUEPAIRS_TASK" by (simp add: kvs_key_def idle_loop_kvs_key)
  then show "tasks_of (message_codec w) KEYVALUEPAIRS_TASK p'
      = map (clear_lease_time \<circ> snd) (take (quota w p) (idle_tasks w t))"
    using losslessD [OF assms(3)]
    by (simp add: eq(2) tasks_of_def ReadRecord_tasks_def ReadRecord_append idle_loop_out(2) quota_def idle_tasks_def
        new_KeyValuesPair_def comp_def)
  show "smap_find (tasks (fdcs_env t')) k =
      (if k \<in> fst ` set (take (quota w p) (idle_tasks w t))
       then map_option (set_lease_time (FdcsTime (fdcs_env t) (now w) + LeaseTimeout (fdcs_env t)))
              (smap_find (tasks (fdcs_env t)) k)
       else smap_find (tasks (fdcs_env t)) k)"
    by (simp add: eq(3) idle_loop_find [OF inv] quota_def idle_tasks_def)
  show "completed_tasks (fdcs_env t') = completed_tasks (fdcs_env t)" by (simp add: eq(3))
  show "\<exists>kvs e. p' = p\<lparr>key_values_pairs := kvs\<rparr> \<and> t' = t\<lparr>fdcs_env := e\<rparr>" using eq(2,3) by blast
qed

text \<open>The answer of the primary master to a request, and the state it is sent from.\<close>

lemma primary_answer:
  assumes "tracker_inv t" "lossless (message_codec w)" "IAmPrimaryMaster t" "protocol_type p = WORKER_REQUEST_TASK"
    "forwarding_sock_fd p \<le> 0" "Master_ProtocolProcess w fd p t = Inr (ok, t')"
  obtains found t1 p2 t2 sent t3 where "Master_TaskCompleted w p t = (found, t1)"
    "SendProtocol w p2 fd t2 = Inr (sent, t3)" "t' = Signal TaskExchangeSignal t3"
    "tasks_of (message_codec w) KEYVALUEPAIRS_TASK p2 = map (clear_lease_time \<circ> snd) (take (quota w p) (idle_tasks w t1))"
    "response_result p2 = (if quota w p \<le> length (idle_tasks w t1) then RESPONSE_RESULT_SUCCESS else RESPONSE_RESULT_COMPLETE)"
    "\<And>k. smap_find (tasks (fdcs_env t2)) k =
        (if k \<in> fst ` set (take (quota w p) (idle_tasks w t1))
         then map_option (set_lease_time (FdcsTime (fdcs_env t1) (now w) + LeaseTimeout (fdcs_env t1)))
                (smap_find (tasks (fdcs_env t1)) k)
         else smap_find (tasks (fdcs_env t1)) k)"
    "completed_tasks (fdcs_env t2) = completed_tasks (fdcs_env t1)" "protocol_type p2 = WORKER_REQUEST_TASK"
proof -
  obtain found t1 where c: "Master_TaskCompleted w p t = (found, t1)" by (cases "Master_TaskCompleted w p t") auto
  let ?p1 = "set_result found p"
  obtain ok2 p2 t2 where g: "Master_GetIdleTask w ?p1 t1 = (ok2, p2, t2)" by (cases "Master_GetIdleTask w ?p1 t1") auto
  obtain sent t3 where s: "SendProtocol w (set_result ok2 p2) fd t2 = Inr (sent, t3)" "t' = Signal TaskExchangeSignal t3"
    using assms(3,4,6) c g by (auto simp: Master_ProtocolProcess_def Let_def on_WORKER_REQUEST_TASK_def request_at_primary_def)
  have inv: "tracker_inv t1" using evolves_tasks(2) [of t w p] assms(1) c by (simp add: evolves_def)
  have f: "\<not> (forwarding_sock_fd ?p1 > 0 \<and> IAmPrimaryMaster t1)"
    using assms(5) by (simp add: set_result_def forwarding_sock_fd_def)
  have q: "quota w ?p1 = quota w p" by (simp add: quota_def set_result_def request_args_def)
  note out = GetIdleTask_outcome [OF inv f assms(2) g, unfolded q]
  have r: "tasks_of (message_codec w) KEYVALUEPAIRS_TASK (set_result ok2 p2) = tasks_of (message_codec w) KEYVALUEPAIRS_TASK p2"
    "response_result (set_result ok2 p2) = (if ok2 then RESPONSE_RESULT_SUCCESS else RESPONSE_RESULT_COMPLETE)"
    by (simp_all add: set_result_def tasks_of_def response_result_def)
  have "protocol_type (set_result ok2 p2) = WORKER_REQUEST_TASK"
    using out(5) assms(4) by (auto simp: set_result_def protocol_type_def)
  then show ?thesis by (intro that [OF c s]) (use out r in simp_all)
qed

text \<open>Completions leave the idle tasks alone.\<close>

lemma idle_at_complete_one:
  assumes "smap_inv (tasks e)"
  shows "idle_at (FdcsTime e clock) (tasks (complete_one clock ct e)) = idle_at (FdcsTime e clock) (tasks e)"
proof -
  have "idle_at ti (smap_erase k m) = idle_at ti m" if "smap_find m k = Some task" "\<not> lease_time task < ti" for ti k task m
    using that by (induction k m rule: smap_erase.induct) (auto split: if_splits)
  then show ?thesis by (auto simp: complete_one_eq split: option.split)
qed

lemma idle_tasks_completed:
  assumes "tracker_inv t" "Master_TaskCompleted w p t = (any, t1)"
  shows "idle_tasks w t1 = idle_tasks w t" "FdcsTime (fdcs_env t1) = FdcsTime (fdcs_env t)"
    "LeaseTimeout (fdcs_env t1) = LeaseTimeout (fdcs_env t)"
proof -
  let ?f = "fold (complete_one (now w))"
  have "smap_inv (tasks e) \<Longrightarrow> idle_at (FdcsTime e (now w)) (tasks (?f cts e)) = idle_at (FdcsTime e (now w)) (tasks e)
    \<and> FdcsTime (?f cts e) = FdcsTime e \<and> LeaseTimeout (?f cts e) = LeaseTimeout e" for cts e
  proof (induction cts arbitrary: e)
    case (Cons ct cts)
    have "LeaseTimeout (complete_one (now w) ct e) = LeaseTimeout e" by (simp add: LeaseTimeout_def)
    then show ?case
      using Cons.IH [OF complete_one_smap [OF Cons.prems], of "now w" ct] idle_at_complete_one [OF Cons.prems, of "now w" ct] by simp
  qed simp
  moreover have "smap_inv (tasks (fdcs_env t))" using assms(1) by (simp add: tracker_inv_def env_inv_def)
  ultimately show "idle_tasks w t1 = idle_tasks w t" "FdcsTime (fdcs_env t1) = FdcsTime (fdcs_env t)"
    "LeaseTimeout (fdcs_env t1) = LeaseTimeout (fdcs_env t)"
    using assms(2) by (auto simp: Master_TaskCompleted_def Let_def idle_tasks_def split: if_splits)
qed

text \<open>An example: the primary master with one task leased until 10 and one idle task.\<close>

definition task_named :: "string \<Rightarrow> FdcsTask" where
  "task_named k = new_FdcsTask\<lparr>task_id_field := Some k\<rparr>"

definition example_primary :: tracker where
  "example_primary = (example_tracker ''b:2'')\<lparr>primary_sockaddr := ''b:2'',
     fdcs_env := (fdcs_env (example_tracker ''b:2''))\<lparr>tasks := [(''t'', set_lease_time 10 (task_named ''t'')),
       (''u'', set_lease_time (- 1) (task_named ''u''))]\<rparr>\<rparr>"

definition report_of :: "string list \<Rightarrow> TrackerProtocol" where
  "report_of ks = new_TrackerProtocol\<lparr>protocol_type_field := Some WORKER_REQUEST_TASK, request_args_field := Some ''1'',
     key_values_pairs := [fold (\<lambda>k kvs. WriteRecord_task field_codec kvs (task_named k)) ks
       (new_KeyValuesPair\<lparr>kvs_key_field := Some KEYVALUEPAIRS_TASK_COMPLETE\<rparr>)]\<rparr>"

lemma example_primary_inv: "tracker_inv example_primary"
  using example_inv [of "''b:2''"]
  by (simp add: example_primary_def tracker_inv_def env_inv_def SocketBuffSize_def task_named_def getter_defs
      set_lease_time_def)

lemma example_primary_is: "IAmPrimaryMaster example_primary"
  by code_simp

lemma example_primary_tasks: "map fst (tasks (fdcs_env example_primary)) = [''t'', ''u'']"
  by code_simp

lemma example_primary_completed: "completed_tasks (fdcs_env example_primary) = []"
  by code_simp

lemma example_report:
  "\<exists>t'. Master_ProtocolProcess (example_world []) 9 (report_of [''t'']) example_primary = Inr (True, t')
     \<and> map fst (tasks (fdcs_env t')) = [''u'']"
proof -
  have "(case Master_ProtocolProcess (example_world []) 9 (report_of [''t'']) example_primary of
      Inr (b, t') \<Rightarrow> b \<and> map fst (tasks (fdcs_env t')) = [''u''] | Inl e \<Rightarrow> False)" by code_simp
  then show ?thesis by (auto split: sum.splits)
qed

section \<open>Properties\<close>



text \<open>C1: A primary master loses no task and completes none twice, whatever protocol it handles: the ids of the
  open tasks before are those of the open tasks after together with those of the tasks it appended to
  the completed ones.\<close>

theorem primary_conserves_tasks:
  assumes "tracker_inv t" "IAmPrimaryMaster t" "Master_ProtocolProcess w fd p t = Inr (ok, t')"
  shows "\<exists>new. completed_tasks (fdcs_env t') = completed_tasks (fdcs_env t) @ new
    \<and> mset (map fst (tasks (fdcs_env t))) = mset (map fst (tasks (fdcs_env t'))) + mset (map task_id new)"
proof -
  have "conserves t t'"
    using cons.ev_Master_ProtocolProcess [of t w p fd] assms(2,3) by (auto simp: cons.ev_def)
  then show ?thesis using assms(1) by (simp add: conserves_def moved_def)
qed

lemma primary_conserves_tasks_witness:
  "\<exists>t' new. Master_ProtocolProcess (example_world []) 9 (report_of [''t'']) example_primary = Inr (True, t')
     \<and> completed_tasks (fdcs_env t') = new \<and> {#''t'', ''u''#} = {#''u''#} + mset (map task_id new)"
proof -
  obtain t' where t': "Master_ProtocolProcess (example_world []) 9 (report_of [''t'']) example_primary = Inr (True, t')"
      "map fst (tasks (fdcs_env t')) = [''u'']" using example_report by (elim exE conjE) (rule that)
  obtain new where "completed_tasks (fdcs_env t') = new" "mset [''t'', ''u''] = mset [''u''] + mset (map task_id new)"
    using primary_conserves_tasks [OF example_primary_inv example_primary_is t'(1)]
    unfolding t'(2) example_primary_completed example_primary_tasks by (metis append_Nil)
  then have "{#''t'', ''u''#} = {#''u''#} + mset (map task_id new)" by (simp only: mset.simps add_mset_commute)
  with t'(1) \<open>completed_tasks (fdcs_env t') = new\<close> show ?thesis by blast
qed

text \<open>C10: Reports of completed tasks are adopted exactly while the lease runs: a task leaves the table if and only
  if it is open, its lease has not ended and a report names it; the first such report, without its
  lease time, is appended to the completed tasks. A report without tasks is the only failure.\<close>

theorem completion_outcome:
  assumes "tracker_inv t" "cts = tasks_of (message_codec w) KEYVALUEPAIRS_TASK_COMPLETE p"
    "Master_TaskCompleted w p t = (ok, t')"
  shows "ok = (cts \<noteq> [])
    \<and> (\<forall>k. smap_find (tasks (fdcs_env t')) k =
         (if live (fdcs_env t) (now w) k \<and> k \<in> task_id ` set cts then None else smap_find (tasks (fdcs_env t)) k))
    \<and> completed_tasks (fdcs_env t') = completed_tasks (fdcs_env t)
        @ map clear_lease_time (first_reports (live (fdcs_env t) (now w)) cts)"
proof -
  have inv: "smap_inv (tasks (fdcs_env t))" using assms(1) by (simp add: tracker_inv_def env_inv_def)
  show ?thesis
    using assms(2,3) completions_outcome [OF inv, of "now w" cts]
    by (auto simp: Master_TaskCompleted_def Let_def split: if_splits)
qed

lemma completion_outcome_witness:
  "\<exists>t'. Master_TaskCompleted (example_world []) (report_of [''t'', ''u'', ''t'']) example_primary = (True, t')
     \<and> smap_find (tasks (fdcs_env t')) ''t'' = None \<and> completed_tasks (fdcs_env t') = [clear_lease_time (task_named ''t'')]"
proof -
  obtain ok t' where t': "Master_TaskCompleted (example_world []) (report_of [''t'', ''u'', ''t'']) example_primary = (ok, t')"
    by (cases "Master_TaskCompleted (example_world []) (report_of [''t'', ''u'', ''t'']) example_primary") auto
  have cts: "tasks_of (message_codec (example_world [])) KEYVALUEPAIRS_TASK_COMPLETE (report_of [''t'', ''u'', ''t''])
      = [task_named ''t'', task_named ''u'', task_named ''t'']" by code_simp
  have "first_reports (live (fdcs_env example_primary) (now (example_world []))) [task_named ''t'', task_named ''u'', task_named ''t'']
      = [task_named ''t'']" by code_simp
  moreover have "live (fdcs_env example_primary) (now (example_world [])) ''t''" by code_simp
  moreover have "task_id (task_named ''t'') = ''t''" by code_simp
  ultimately show ?thesis
    using completion_outcome [OF example_primary_inv cts [symmetric] t'] t' example_primary_completed by auto
qed

text \<open>C11: A worker's request to the primary master: the reports in it are adopted, then the worker gets the idle
  tasks in the order of their ids up to its quota, each leased from now for the configured time, in an
  answer that says success exactly if the quota was filled, and complete otherwise - also when some
  tasks were handed out. The exchange thread is woken.\<close>

theorem worker_request_served:
  assumes "tracker_inv t" "lossless (message_codec w)" "IAmPrimaryMaster t" "protocol_type p = WORKER_REQUEST_TASK"
    "forwarding_sock_fd p \<le> 0" "Master_ProtocolProcess w fd p t = Inr (ok, t')"
  shows "\<exists>found t1 p2 t2 sent t3. Master_TaskCompleted w p t = (found, t1)
    \<and> SendProtocol w p2 fd t2 = Inr (sent, t3) \<and> t' = Signal TaskExchangeSignal t3
    \<and> tasks_of (message_codec w) KEYVALUEPAIRS_TASK p2 = map (clear_lease_time \<circ> snd) (take (quota w p) (idle_tasks w t1))
    \<and> response_result p2 = (if quota w p \<le> length (idle_tasks w t1) then RESPONSE_RESULT_SUCCESS else RESPONSE_RESULT_COMPLETE)
    \<and> (\<forall>k. smap_find (tasks (fdcs_env t2)) k =
        (if k \<in> fst ` set (take (quota w p) (idle_tasks w t1))
         then map_option (set_lease_time (FdcsTime (fdcs_env t1) (now w) + LeaseTimeout (fdcs_env t1)))
                (smap_find (tasks (fdcs_env t1)) k)
         else smap_find (tasks (fdcs_env t1)) k))"
proof -
  obtain found t1 p2 t2 sent t3 where "Master_TaskCompleted w p t = (found, t1)"
    "SendProtocol w p2 fd t2 = Inr (sent, t3)" "t' = Signal TaskExchangeSignal t3"
    "tasks_of (message_codec w) KEYVALUEPAIRS_TASK p2 = map (clear_lease_time \<circ> snd) (take (quota w p) (idle_tasks w t1))"
    "response_result p2 = (if quota w p \<le> length (idle_tasks w t1) then RESPONSE_RESULT_SUCCESS else RESPONSE_RESULT_COMPLETE)"
    "\<And>k. smap_find (tasks (fdcs_env t2)) k =
        (if k \<in> fst ` set (take (quota w p) (idle_tasks w t1))
         then map_option (set_lease_time (FdcsTime (fdcs_env t1) (now w) + LeaseTimeout (fdcs_env t1)))
                (smap_find (tasks (fdcs_env t1)) k)
         else smap_find (tasks (fdcs_env t1)) k)"
    using primary_answer [OF assms] by metis
  then show ?thesis
    by (intro exI [of _ found] exI [of _ t1] exI [of _ p2] exI [of _ t2] exI [of _ sent] exI [of _ t3]) simp
qed

lemma worker_request_served_witness:
  "\<exists>p2. tasks_of field_codec KEYVALUEPAIRS_TASK p2 = [task_named ''u''] \<and> response_result p2 = RESPONSE_RESULT_SUCCESS
     \<and> (\<exists>t2 sent t3. SendProtocol (example_world []) p2 9 t2 = Inr (sent, t3))"
proof -
  obtain t' where t': "Master_ProtocolProcess (example_world []) 9 (report_of [''t'']) example_primary = Inr (True, t')"
    using example_report by (elim exE conjE) (rule that)
  have p: "lossless (message_codec (example_world []))" by (simp add: example_world_def)
  have c: "protocol_type (report_of [''t'']) = WORKER_REQUEST_TASK" by code_simp
  have f: "forwarding_sock_fd (report_of [''t'']) \<le> 0" by code_simp
  have m: "message_codec (example_world []) = field_codec" by (simp add: example_world_def)
  have v: "map (clear_lease_time \<circ> snd) (take (quota (example_world []) (report_of [''t'']))
        (idle_tasks (example_world []) (snd (Master_TaskCompleted (example_world []) (report_of [''t'']) example_primary))))
      = [task_named ''u'']" by code_simp
  have v2: "quota (example_world []) (report_of [''t'']) \<le> length (idle_tasks (example_world [])
        (snd (Master_TaskCompleted (example_world []) (report_of [''t'']) example_primary)))"
    by code_simp
  obtain found t1 p2 t2 sent t3 where "Master_TaskCompleted (example_world []) (report_of [''t'']) example_primary = (found, t1)"
    "SendProtocol (example_world []) p2 9 t2 = Inr (sent, t3)"
    "tasks_of (message_codec (example_world [])) KEYVALUEPAIRS_TASK p2 = map (clear_lease_time \<circ> snd)
       (take (quota (example_world []) (report_of [''t''])) (idle_tasks (example_world []) t1))"
    "response_result p2 = (if quota (example_world []) (report_of [''t'']) \<le> length (idle_tasks (example_world []) t1)
       then RESPONSE_RESULT_SUCCESS else RESPONSE_RESULT_COMPLETE)"
    using worker_request_served [OF example_primary_inv p example_primary_is c f t'] by blast
  then show ?thesis using v v2 m by auto
qed

end
