(* ===== verification/MasterElection.thy ===== *)
theory MasterElection
  imports MasterTasks
begin

text \<open>
  The election of the primary master: how a protocol goes round the ring of masters, who is elected,
  and what the masters do with the announcement.
\<close>

section \<open>Lists of responders\<close>

text \<open>The list of responders after the masters with the addresses \<open>as\<close> have sent the protocol.\<close>

definition responders :: "string \<Rightarrow> string list \<Rightarrow> string" where
  "responders r as = fold (\<lambda>a r. if r = [] then a else r @ '';'' @ a) as r"

lemma responders_simps [simp]:
  "responders r [] = r" "responders r (a # as) = responders (if r = [] then a else r @ '';'' @ a) as"
  by (simp_all add: responders_def)

definition address :: "string \<Rightarrow> bool" where
  "address a \<longleftrightarrow> a \<noteq> [] \<and> CHR '';'' \<notin> set a"

lemma contains_around:
  assumes "address a"
  shows "contains (x @ CHR '';'' # y) a \<longleftrightarrow> contains x a \<or> contains y a"
proof
  assume "contains (x @ CHR '';'' # y) a"
  then obtain u v where uv: "x @ CHR '';'' # y = u @ a @ v" by (auto simp: contains_iff)
  have semi: "CHR '';'' \<notin> set a" "a \<noteq> []" using assms by (auto simp: address_def)
  from uv consider (left) z where "u = x @ z" "z @ a @ v = CHR '';'' # y" | (right) z where "x = u @ z" "z @ CHR '';'' # y = a @ v"
    by (auto simp: append_eq_append_conv2)
  then show "contains x a \<or> contains y a"
  proof cases
    case (left z)
    show ?thesis
    proof (cases z)
      case Nil
      then show ?thesis using left(2) semi by (cases a) auto
    next
      case (Cons c z')
      then have "y = z' @ a @ v" using left(2) by simp
      then show ?thesis by (auto simp: contains_iff)
    qed
  next
    case (right z)
    then consider (in_z) z' where "z = a @ z'" | (cross) z' where "a = z @ z'" "CHR '';'' # y = z' @ v"
      by (auto simp: append_eq_append_conv2)
    then show ?thesis
    proof cases
      case (in_z z')
      then show ?thesis using right(1) by (auto simp: contains_iff)
    next
      case (cross z')
      then have "z' = []" using semi by (cases z') auto
      then have "contains x a" using cross(1) right(1) by (auto simp: contains_iff intro: exI [of _ u] exI [of _ "[]"])
      then show ?thesis ..
    qed
  qed
next
  assume "contains x a \<or> contains y a"
  then show "contains (x @ CHR '';'' # y) a"
    using contains_append_right contains_append_left [of y a "x @ [CHR '';'']"] by auto
qed

lemma responders_contains:
  assumes "address a" "\<forall>b \<in> set as. b \<noteq> []"
  shows "contains (responders r as) a \<longleftrightarrow> contains r a \<or> (\<exists>b \<in> set as. contains b a)"
  using assms(2)
proof (induction as arbitrary: r)
  case (Cons b as)
  have "a \<noteq> []" using assms(1) by (simp add: address_def)
  then show ?case
    using Cons contains_around [OF assms(1), of r b] by (auto simp: )
qed simp

section \<open>Once round the ring\<close>

lemma sign_fields:
  "request_sock_addr (sign_protocol t p) = request_sock_addr p" "protocol_type (sign_protocol t p) = protocol_type p"
  "response_result (sign_protocol t p) = response_result p"
  by (simp_all add: sign_protocol_def getter_defs)

lemma sign_all_fields:
  "request_sock_addr (fold sign_protocol ts p) = request_sock_addr p" "protocol_type (fold sign_protocol ts p) = protocol_type p"
  "response_result (fold sign_protocol ts p) = response_result p"
  by (induction ts arbitrary: p) (simp_all add: sign_fields)

lemma sign_responders:
  "\<forall>t \<in> set ts. is_master t \<Longrightarrow>
    response_sock_addr (fold sign_protocol ts p) = responders (response_sock_addr p) (map own_addr ts)"
proof (induction ts arbitrary: p)
  case (Cons t ts)
  have "response_sock_addr (sign_protocol t p) = (if response_sock_addr p = [] then own_addr t
      else response_sock_addr p @ '';'' @ own_addr t)"
    using Cons.prems by (simp add: sign_protocol_def response_sock_addr_def)
  then show ?case using Cons by simp
qed simp

lemma New_fields:
  "is_master t \<Longrightarrow> request_sock_addr (NewTrackerProtocol w ty t) = own_addr t"
  "protocol_type (NewTrackerProtocol w ty t) = ty" "response_sock_addr (NewTrackerProtocol w ty t) = []"
  by (simp_all add: NewTrackerProtocol_def new_TrackerProtocol_def getter_defs)

text \<open>Addresses none of which is a part of another.\<close>

definition separate :: "string list \<Rightarrow> bool" where
  "separate as \<longleftrightarrow> (\<forall>a \<in> set as. address a) \<and> (\<forall>a \<in> set as. \<forall>b \<in> set as. contains b a \<longrightarrow> a = b)"

lemma separate_contains:
  assumes "separate all_addr" "set as \<subseteq> set all_addr" "a \<in> set all_addr"
  shows "contains (responders [] as) a \<longleftrightarrow> a \<in> set as"
proof -
  have "address a" "\<forall>b \<in> set as. b \<noteq> []" "a \<noteq> []" using assms by (auto simp: separate_def address_def)
  then show ?thesis
    using responders_contains [of a as "[]"] assms(1,2,3) unfolding separate_def
    by (metis contains_Nil contains_self subsetD)
qed

text \<open>The protocol as the master after \<open>ts\<close> receives it.\<close>

definition passed :: "world \<Rightarrow> ProtocolType \<Rightarrow> tracker \<Rightarrow> tracker list \<Rightarrow> TrackerProtocol" where
  "passed w ty t0 ts = fold sign_protocol (t0 # ts) (NewTrackerProtocol w ty t0)"

lemma passed_fields:
  assumes "\<forall>t \<in> set (t0 # ts). is_master t"
  shows "request_sock_addr (passed w ty t0 ts) = own_addr t0" "protocol_type (passed w ty t0 ts) = ty"
    "response_sock_addr (passed w ty t0 ts) = responders [] (map own_addr (t0 # ts))"
proof -
  have "is_master t0" using assms by simp
  then show "request_sock_addr (passed w ty t0 ts) = own_addr t0" "protocol_type (passed w ty t0 ts) = ty"
    unfolding passed_def sign_all_fields by (simp_all only: New_fields)
  show "response_sock_addr (passed w ty t0 ts) = responders [] (map own_addr (t0 # ts))"
    unfolding passed_def sign_responders [OF assms] New_fields ..
qed

lemma passed_circle:
  assumes "\<forall>t \<in> set (t0 # ts). is_master t" "separate (own_addr t # map own_addr (t0 # ts))"
  shows "ClosedCircle t (passed w ty t0 ts) \<longleftrightarrow> own_addr t \<in> own_addr ` set (t0 # ts)"
proof -
  have "contains (responders [] (map own_addr (t0 # ts))) (own_addr t) \<longleftrightarrow> own_addr t \<in> set (map own_addr (t0 # ts))"
    by (rule separate_contains [OF assms(2)]) auto
  then show ?thesis unfolding ClosedCircle_def passed_fields [OF assms(1)] by auto
qed

lemma find_rev_last: "List.find P (rev xs) = (case filter P xs of [] \<Rightarrow> None | y # ys \<Rightarrow> Some (last (y # ys)))"
proof (induction xs rule: rev_induct)
  case (snoc x xs)
  then show ?case by (auto split: list.splits)
qed simp

section \<open>Announcement\<close>

lemma primary_ConnectMaster: "ConnectMaster w a t = Inr (ok, t') \<Longrightarrow> primary_sockaddr t' = primary_sockaddr t"
  by (auto simp: ConnectMaster_def AddSocketResource_def add_send_buffer_def add_receive_buffer_def
      split: if_splits list.splits option.splits)

lemma primary_SendProtocol: "SendProtocol w p fd t = Inr (ok, t') \<Longrightarrow> primary_sockaddr t' = primary_sockaddr t"
  by (auto simp: SendProtocol_def Let_def Signal_def split: option.splits prod.splits wait.splits)

lemma primary_FindNextMaster_loop:
  "FindNextMaster_loop n w a t = Inr (fd, t') \<Longrightarrow> primary_sockaddr t' = primary_sockaddr t"
proof (induction n arbitrary: a t)
  case (Suc n)
  show ?case
  proof (cases "a = own_addr t")
    case False
    then obtain ok t1 where c: "ConnectMaster w a t = Inr (ok, t1)"
      using Suc.prems by (auto simp: FindNextMaster_loop.simps)
    show ?thesis
      using Suc False c primary_ConnectMaster [OF c] by (cases ok) (auto simp: FindNextMaster_loop.simps)
  qed (use Suc.prems in \<open>simp add: FindNextMaster_loop.simps\<close>)
qed (simp add: FindNextMaster_loop.simps)

lemma primary_ContinueTransferProto:
  assumes "ContinueTransferProto w p t = Inr t'"
  shows "primary_sockaddr t' = primary_sockaddr t" "kept t t'"
proof -
  obtain fd t1 where f: "FindNextMaster w t = Inr (fd, t1)" using assms by (auto simp: ContinueTransferProto_def)
  have p: "primary_sockaddr t1 = primary_sockaddr t" "kept t t1"
    using f primary_FindNextMaster_loop kept_FindNextMaster [OF f] by (auto simp: FindNextMaster_def)
  show "primary_sockaddr t' = primary_sockaddr t" "kept t t'"
    using assms f p primary_SendProtocol kept_SendProtocol kept_trans
    by (auto simp: ContinueTransferProto_def split: if_splits)
qed

section \<open>Examples\<close>

definition example_ring :: "tracker list" where
  "example_ring = [example_tracker ''a:1'', example_tracker ''c:3'']"

lemma example_separate: "separate [''a:1'', ''b:2'', ''c:3'']"
proof -
  have "(\<forall>a \<in> set [''a:1'', ''b:2'', ''c:3'']. \<forall>b \<in> set [''a:1'', ''b:2'', ''c:3'']. contains b a \<longrightarrow> a = b)"
    by code_simp
  then show ?thesis unfolding separate_def by (simp add: address_def)
qed

section \<open>Properties\<close>



text \<open>The check that a circle is closed looks for the own address anywhere in the list of responders: a
  master whose address is a part of the address of one that took part takes the protocol for its own,
  does not pass it on, and announces a result, in which it counts itself as a participant.\<close>

theorem prefix_address_ends_election:
  assumes "is_master t0" "protocol_type p = ELECTION" "response_sock_addr p = own_addr t0"
    "own_addr t0 = own_addr t @ z" "z \<noteq> []"
  shows "ClosedCircle t p \<and> own_addr t \<notin> own_addr ` {t0}
    \<and> (\<exists>winner. election_result (master_group t) (own_addr t0 @ '';'' @ own_addr t) = winner
        \<and> (own_addr t \<in> set (master_group t) \<longrightarrow> winner \<noteq> None)
        \<and> Master_ProtocolProcess w fd p t = (case winner of None \<Rightarrow> Inr (True, t)
            | Some a \<Rightarrow> rbind (Coordinator w a t) (\<lambda>(r, t'). Inr (True, t'))))"
proof -
  have c: "contains (own_addr t0) (own_addr t)"
    using assms(4) by (auto simp: contains_iff intro: exI [of _ "[]"])
  then have closed: "ClosedCircle t p" using assms(3) by (simp add: ClosedCircle_def)
  have "contains (own_addr t0 @ '';'' @ own_addr t) (own_addr t)" using contains_append_right [OF c] .
  then have "election_result (master_group t) (own_addr t0 @ '';'' @ own_addr t) \<noteq> None" if "own_addr t \<in> set (master_group t)"
    using that by (auto simp: election_result_def find_None_iff)
  then show ?thesis
    using closed assms by (simp add: Master_ProtocolProcess_def Let_def on_ELECTION_def)
qed

lemma prefix_address_ends_election_witness:
  "ClosedCircle (example_tracker ''b:2'') (passed (example_world []) ELECTION (example_tracker ''b:20'') [])"
proof -
  have m: "\<forall>t \<in> set [example_tracker ''b:20'']. is_master t" by (simp add: example_simps)
  show ?thesis
    using prefix_address_ends_election [of "example_tracker ''b:20''" "passed (example_world []) ELECTION (example_tracker ''b:20'') []"
        "example_tracker ''b:2''" "''0''"] passed_fields [OF m]
    by (simp add: example_simps)
qed

text \<open>C35: A master that learns from an announcement on its way that it was elected is the primary master from
  then on, but nobody wakes its thread that exchanges tasks, which waits without a limit: only an
  announcement that comes back to its initiator is followed by the signal.\<close>

theorem elected_master_not_woken:
  assumes "is_master t" "protocol_type p = COORDINATOR" "response_result p = own_addr t" "own_addr t \<noteq> []"
    "\<not> ClosedCircle t p" "Master_ProtocolProcess w fd p t = Inr (ok, t')"
  shows "IAmPrimaryMaster t' \<and> filter (\<lambda>s. s = MasterSignal) (signals t') = filter (\<lambda>s. s = MasterSignal) (signals t)"
proof -
  let ?t1 = "t\<lparr>primary_sockaddr := own_addr t\<rparr>"
  have join: "JoinMasterGroup w p ?t1 = Inr (False, ?t1)" by (simp add: JoinMasterGroup_def)
  have "ContinueTransferProto w p ?t1 = Inr t'"
    using assms(2,3,5,6) join by (auto simp: Master_ProtocolProcess_def on_COORDINATOR_def Let_def)
  note k = primary_ContinueTransferProto [OF this]
  have "filter (\<lambda>s. s = MasterSignal) (other_signals x) = filter (\<lambda>s. s = MasterSignal) (signals x)" for x
    by (auto simp: other_signals_def intro!: filter_cong)
  then have "filter (\<lambda>s. s = MasterSignal) (signals t') = filter (\<lambda>s. s = MasterSignal) (signals ?t1)"
    using k(2) by (metis kept_def)
  then show ?thesis using k assms(1,4) by (auto simp: IAmPrimaryMaster_def kept_def)
qed

definition example_announcement :: TrackerProtocol where
  "example_announcement = new_TrackerProtocol\<lparr>protocol_type_field := Some COORDINATOR, response_result_field := Some ''b:2'',
     request_sock_addr_field := Some ''a:1'', response_sock_addr_field := Some ''a:1''\<rparr>"

lemma example_announced:
  "\<exists>t'. Master_ProtocolProcess (example_world []) 5 example_announcement (example_tracker ''b:2'') = Inr (True, t')"
proof -
  have "(case Master_ProtocolProcess (example_world []) 5 example_announcement (example_tracker ''b:2'') of
      Inr (b, t') \<Rightarrow> b | Inl e \<Rightarrow> False)" by code_simp
  then show ?thesis by (auto split: sum.splits)
qed

lemma elected_master_not_woken_witness:
  "\<exists>t'. Master_ProtocolProcess (example_world []) 5 example_announcement (example_tracker ''b:2'') = Inr (True, t')
     \<and> IAmPrimaryMaster t' \<and> filter (\<lambda>s. s = MasterSignal) (signals t') = []"
proof -
  obtain t' where t': "Master_ProtocolProcess (example_world []) 5 example_announcement (example_tracker ''b:2'') = Inr (True, t')"
    using example_announced by (elim exE) (rule that)
  have p: "protocol_type example_announcement = COORDINATOR" "response_result example_announcement = ''b:2''"
    "signals (example_tracker ''b:2'') = []"
    by (simp_all add: example_announcement_def getter_defs example_tracker_def fresh_tracker_def)
  have "\<not> ClosedCircle (example_tracker ''b:2'') example_announcement" by code_simp
  from elected_master_not_woken [OF _ p(1) _ _ this t'] show ?thesis using t' p by (simp add: example_simps)
qed

end
