(* ===== verification/Worker.thy ===== *)
theory Worker
  imports MasterTasks
begin

text \<open>
  The worker server, src/server/worker.cc: finding a master, asking for the primary master, requests
  for tasks with the report of the completed ones, the answers, and the computing threads. A worker
  is a tracker with the positions of its computing threads. ComputingUDF, the user's code, is an
  argument that maps the task to the task it leaves behind.
\<close>

section \<open>Finding a master\<close>

fun FindMaster_loop :: "world \<Rightarrow> string list \<Rightarrow> tracker \<Rightarrow> (int \<times> tracker) result" where
  "FindMaster_loop w [] t = Inr (- 1, t)"
| "FindMaster_loop w (a # as) t =
     rbind (ConnectMaster w a t) (\<lambda>(ok, t').
       if ok then rbind (master_fd a t') (\<lambda>fd. Inr (fd, t'\<lparr>socket_ids := smap_set fd a (socket_ids t')\<rparr>))
       else FindMaster_loop w as t')"

definition FindMaster :: "world \<Rightarrow> tracker \<Rightarrow> (int \<times> tracker) result" where
  "FindMaster w t = (if master_group t = [] then Inl Abort else FindMaster_loop w (master_group t) t)"

definition FindOwnerMaster :: "world \<Rightarrow> tracker \<Rightarrow> (int \<times> tracker) result" where
  "FindOwnerMaster w t =
     (case conhash_lookup (hash_function w) (master_conhash t) (worker_sockaddr t) of
        None \<Rightarrow> Inr (- 1, t)
      | Some idx \<Rightarrow>
          (let owner_master = iden (conhash_nodes t ! idx)
           in rbind (ConnectMaster w owner_master t) (\<lambda>(ok, t1).
                if ok then rbind (master_fd owner_master t1) (\<lambda>fd. Inr (fd, t1))
                else rbind (ConnectMaster w (primary_sockaddr t1) t1) (\<lambda>(ok2, t2).
                  if ok2 then rbind (master_fd (primary_sockaddr t2) t2) (\<lambda>fd. Inr (fd, t2))
                  else Inr (- 1, t2)))))"

section \<open>Requests and answers\<close>

definition Worker_AskTracker :: "world \<Rightarrow> tracker \<Rightarrow> (bool \<times> tracker) result" where
  "Worker_AskTracker w t =
     rbind (FindMaster w t) (\<lambda>(fd, t').
       if fd = - 1 then Inr (False, t') else SendProtocol w (NewTrackerProtocol w WORKER_ASK_TRACKER t') fd t')"

text \<open>The request with the completed tasks; the loop over them is that of \<open>copy_completed\<close>.\<close>

definition request_protocol :: "world \<Rightarrow> string \<Rightarrow> FdcsTask list \<Rightarrow> tracker \<Rightarrow> TrackerProtocol" where
  "request_protocol w args ts t =
     (NewTrackerProtocol w WORKER_REQUEST_TASK t)\<lparr>request_args_field := Some args,
        key_values_pairs := [fold (\<lambda>task kvs. WriteRecord_task (message_codec w) kvs task) ts
           (new_KeyValuesPair\<lparr>kvs_key_field := Some KEYVALUEPAIRS_TASK_COMPLETE\<rparr>)]\<rparr>"

definition RequestTask :: "world \<Rightarrow> tracker \<Rightarrow> (bool \<times> tracker) result" where
  "RequestTask w t =
     (if TasksSize (fdcs_env t) > 0 then Inr (False, t)
      else rbind (FindOwnerMaster w t) (\<lambda>(fd, t1).
        if fd = - 1 then Inr (False, t1)
        else rbind (Int32ToKey (TaskDuplicate (fdcs_env t1))) (\<lambda>args.
          rbind (copy_completed (nat (CompletedTasksSize (fdcs_env t1))) (fdcs_env t1)) (\<lambda>ts.
            SendProtocol w (request_protocol w args ts t1) fd
              (t1\<lparr>fdcs_env := ClearCompletedTasks (fdcs_env t1)\<rparr>)))))"

text \<open>ComputingSignal wakes every computing thread.\<close>

definition SignalComputing :: "tracker \<Rightarrow> tracker" where
  "SignalComputing t = (Signal ComputingSignal ^^ nat (ComputingThreads (fdcs_env t))) t"

definition SaveNewTask :: "world \<Rightarrow> TrackerProtocol \<Rightarrow> tracker \<Rightarrow> bool \<times> tracker" where
  "SaveNewTask w p t =
     (if TasksSize (fdcs_env t) > 0 then (False, t)
      else let new_tasks = tasks_of (message_codec w) KEYVALUEPAIRS_TASK p
           in (True, if new_tasks = [] then t
                     else SignalComputing (t\<lparr>fdcs_env := UpdateTasks new_tasks (fdcs_env t)\<rparr>)))"

definition Worker_ProtocolProcess :: "world \<Rightarrow> int \<Rightarrow> TrackerProtocol \<Rightarrow> tracker \<Rightarrow> (bool \<times> tracker) result" where
  "Worker_ProtocolProcess w socket_fd p t =
     (case protocol_type p of
        WORKER_ASK_TRACKER \<Rightarrow>
          (let t1 = t\<lparr>primary_sockaddr := response_result p\<rparr>;
               t2 = t1\<lparr>fdcs_env := CalcFdcsTimeDiffer (read_fdcs_time w p) (now w) (fdcs_env t1)\<rparr>
           in rbind (ConnectMaster w (primary_sockaddr t2) t2) (\<lambda>(ok, t3). Inr (True, Signal HeartBeatSignal t3)))
      | WORKER_REQUEST_TASK \<Rightarrow> Inr (True, snd (SaveNewTask w p t))
      | _ \<Rightarrow> Inr (True, t))"

definition Worker_HeartBeat :: "world \<Rightarrow> tracker \<Rightarrow> (bool \<times> tracker) result" where
  "Worker_HeartBeat w t =
     rbind (if IKnowPrimaryMaster t then RequestTask w t else Worker_AskTracker w t) (\<lambda>(r, t'). Inr (True, t'))"

section \<open>Computing threads\<close>

text \<open>
  Position of a thread in Computing: looking for a task, or in ComputingUDF with a pointer to the
  entry of the table with the key. A pass is cut in two pieces at ComputingUDF, between which other
  threads run; the effect of ComputingUDF on the entry is put at its end.
\<close>

datatype computing = Looking | Running string

record worker =
  server :: tracker
  threads :: "computing list"

definition Computing_begin :: "world \<Rightarrow> tracker \<Rightarrow> string option \<times> tracker" where
  "Computing_begin w t =
     (if TasksSize (fdcs_env t) = 0 then (None, Signal HeartBeatSignal t)
      else case GetIdleTask (now w) (fdcs_env t) of (task, e) \<Rightarrow> (task, t\<lparr>fdcs_env := e\<rparr>))"

definition Computing_end :: "(FdcsTask \<Rightarrow> FdcsTask) \<Rightarrow> string \<Rightarrow> tracker \<Rightarrow> tracker result" where
  "Computing_end udf k t =
     (case smap_find (tasks (fdcs_env t)) k of
        None \<Rightarrow> Inl UseAfterFree
      | Some task \<Rightarrow>
          (let e1 = (fdcs_env t)\<lparr>tasks := smap_update k udf (tasks (fdcs_env t))\<rparr>;
               t' = t\<lparr>fdcs_env := TaskCompleted (task_id (udf task)) e1\<rparr>
           in Inr (if TasksSize (fdcs_env t') = 0 then Signal HeartBeatSignal t' else t')))"

text \<open>The loop of one thread while no other changes the tasks, until no idle task is left.\<close>

fun Computing :: "nat \<Rightarrow> (FdcsTask \<Rightarrow> FdcsTask) \<Rightarrow> world \<Rightarrow> tracker \<Rightarrow> tracker result" where
  "Computing 0 udf w t = Inl Diverge"
| "Computing (Suc n) udf w t =
     (case Computing_begin w t of
        (None, t') \<Rightarrow> Inr t'
      | (Some k, t') \<Rightarrow> rbind (Computing_end udf k t') (Computing n udf w))"

text \<open>
  InitialTracker up to the event loop. FinalizeTracker signals the computing threads, which it joins,
  before the base class finishes.
\<close>

definition Worker_InitialTracker :: "world \<Rightarrow> bool \<Rightarrow> node_s list \<Rightarrow> settings_s \<Rightarrow> worker result" where
  "Worker_InitialTracker w raw_is_master raw_nodes st =
     rbind (InitialTracker w raw_is_master raw_nodes st) (\<lambda>t0.
       rbind (FindMaster w t0) (\<lambda>(fd, t1).
         if \<not> fd > 0 then Inl Abort
         else Inr \<lparr>server = t1\<lparr>worker_sockaddr := local_addr w fd, epoll := watch_socket fd (epoll t1)\<rparr>,
                   threads = replicate (nat (computing_threads st)) Looking\<rparr>))"

definition Worker_FinalizeTracker :: "tracker \<Rightarrow> tracker" where
  "Worker_FinalizeTracker t = FinalizeTracker (SignalComputing t)"

end
