(* ===== verification/WorkerProps.thy ===== *)
theory WorkerProps
  imports Worker
begin

text \<open>
  What a worker guarantees: its invariant over all interleavings of its threads, the safety of the
  computing threads as long as no lease ends, the outcome of requests and answers, and the path of a
  task from the primary master to a worker and back.
\<close>

section \<open>Operations respect relations\<close>

locale worker_relation = tracker_steps +
  assumes R_clear: "R t (t\<lparr>fdcs_env := ClearCompletedTasks (fdcs_env t)\<rparr>)"
    and R_save: "R t (snd (SaveNewTask w p t))"
begin

lemma R_answers [ev_intros]:
  "R s t \<Longrightarrow> R s (t\<lparr>fdcs_env := ClearCompletedTasks (fdcs_env t)\<rparr>)"
  "R s t \<Longrightarrow> R s (snd (SaveNewTask w p t))"
  using R_clear R_save by (blast intro: R_trans)+

lemma ev_FindMaster_loop: "R s t \<Longrightarrow> ev s (FindMaster_loop w as t)"
proof (induction as arbitrary: t)
  case (Cons a as)
  show ?case unfolding FindMaster_loop.simps by (intro ev_intros Cons)
qed (simp add: ev_intros)

lemma ev_fault [ev_intros]: "ev s (Inl e)" "ev1 s (Inl e)"
  by (simp_all add: ev_def ev1_def)

lemma ev_FindMaster [ev_intros]: "R s t \<Longrightarrow> ev s (FindMaster w t)"
  unfolding FindMaster_def by (intro ev_intros ev_FindMaster_loop)

lemma ev_FindOwnerMaster [ev_intros]: "R s t \<Longrightarrow> ev s (FindOwnerMaster w t)"
  unfolding FindOwnerMaster_def Let_def
  by (cases "conhash_lookup (hash_function w) (master_conhash t) (worker_sockaddr t)"; simp only: option.case;
      intro ev_intros; assumption)

lemma ev_Worker_AskTracker [ev_intros]: "R s t \<Longrightarrow> ev s (Worker_AskTracker w t)"
  unfolding Worker_AskTracker_def by (intro ev_intros; assumption)

lemma ev_report [ev_intros]:
  "(\<And>x. ev s (f x)) \<Longrightarrow> ev s (rbind (Int32ToKey n) f)"
  "(\<And>x. ev s (g x)) \<Longrightarrow> ev s (rbind (copy_completed m e) g)"
  by (auto simp: ev_def)

lemma ev_RequestTask [ev_intros]: "R s t \<Longrightarrow> ev s (RequestTask w t)"
  unfolding RequestTask_def by (intro ev_intros; assumption)

lemma ev_Worker_ProtocolProcess: "ev t (Worker_ProtocolProcess w fd p t)"
  unfolding Worker_ProtocolProcess_def Let_def
  by (cases "protocol_type p"; simp only: ProtocolType.case; intro ev_intros; (rule R_refl | assumption))

lemma ev_Worker_HeartBeat: "ev t (Worker_HeartBeat w t)"
  unfolding Worker_HeartBeat_def by (intro ev_intros; (rule R_refl | assumption))

end

section \<open>The life of a worker\<close>

text \<open>
  The threads of a worker as interleaved steps in a world \<open>w\<close>, with the user's code \<open>udf\<close>. A step
  that faults has no successor.
\<close>

inductive worker_step :: "(FdcsTask \<Rightarrow> FdcsTask) \<Rightarrow> world \<Rightarrow> worker \<Rightarrow> worker \<Rightarrow> bool" for udf w where
  socket_thread: "SocketThread w (Worker_ProtocolProcess w) t = Inr t' \<Longrightarrow>
    worker_step udf w \<lparr>server = t, threads = ths\<rparr> \<lparr>server = t', threads = ths\<rparr>"
| heart_beat: "Worker_HeartBeat w t = Inr (r, t') \<Longrightarrow>
    worker_step udf w \<lparr>server = t, threads = ths\<rparr> \<lparr>server = t', threads = ths\<rparr>"
| event_loop: "PollEventProcess w evs t = Inr t' \<Longrightarrow>
    worker_step udf w \<lparr>server = t, threads = ths\<rparr> \<lparr>server = t', threads = ths\<rparr>"
| begin_task: "i < length ths \<Longrightarrow> ths ! i = Looking \<Longrightarrow> Computing_begin w t = (Some k, t') \<Longrightarrow>
    worker_step udf w \<lparr>server = t, threads = ths\<rparr> \<lparr>server = t', threads = ths[i := Running k]\<rparr>"
| no_task: "i < length ths \<Longrightarrow> ths ! i = Looking \<Longrightarrow> Computing_begin w t = (None, t') \<Longrightarrow>
    worker_step udf w \<lparr>server = t, threads = ths\<rparr> \<lparr>server = t', threads = ths\<rparr>"
| end_task: "i < length ths \<Longrightarrow> ths ! i = Running k \<Longrightarrow> Computing_end udf k t = Inr t' \<Longrightarrow>
    worker_step udf w \<lparr>server = t, threads = ths\<rparr> \<lparr>server = t', threads = ths[i := Looking]\<rparr>"

inductive_cases worker_stepE: "worker_step udf w s s'"

text \<open>All that can happen to a worker.\<close>

inductive worker_run :: "(FdcsTask \<Rightarrow> FdcsTask) \<Rightarrow> settings_s \<Rightarrow> worker \<Rightarrow> bool" for udf st where
  start: "Worker_InitialTracker w raw_is_master raw_nodes st = Inr s \<Longrightarrow> worker_run udf st s"
| step: "worker_run udf st s \<Longrightarrow> worker_step udf w s s' \<Longrightarrow> worker_run udf st s'"

section \<open>Relations\<close>

definition keeps_id :: "(FdcsTask \<Rightarrow> FdcsTask) \<Rightarrow> bool" where
  "keeps_id udf \<longleftrightarrow> (\<forall>task. task_id (udf task) = task_id task)"

lemma fdcs_env_Signal [simp]: "fdcs_env (Signal sg t) = fdcs_env t"
  by (simp add: Signal_def)

lemma SignalComputing_fields:
  "fdcs_env (SignalComputing t) = fdcs_env t" "evolves t (SignalComputing t)"
proof -
  have "fdcs_env ((Signal ComputingSignal ^^ n) t) = fdcs_env t \<and> evolves t ((Signal ComputingSignal ^^ n) t)" for n
    by (induction n) (auto simp: inv.R_refl intro: evolves_trans [OF _ inv.R_signal])
  then show "fdcs_env (SignalComputing t) = fdcs_env t" "evolves t (SignalComputing t)"
    by (simp_all add: SignalComputing_def)
qed

lemma evolves_SaveNewTask: "evolves t (snd (SaveNewTask w p t))"
proof -
  have "evolves t (t\<lparr>fdcs_env := UpdateTasks ts (fdcs_env t)\<rparr>)" for ts
    by (rule evolves_env) (simp_all add: env_inv_UpdateTasks)
  then have "evolves t (SignalComputing (t\<lparr>fdcs_env := UpdateTasks ts (fdcs_env t)\<rparr>))" for ts
    using SignalComputing_fields(2) by (rule evolves_trans)
  then show ?thesis by (simp add: SaveNewTask_def Let_def inv.R_refl)
qed

lemma evolves_clear: "evolves t (t\<lparr>fdcs_env := ClearCompletedTasks (fdcs_env t)\<rparr>)"
  by (rule evolves_env) (simp_all add: env_inv_clock)

interpretation winv: worker_relation evolves
  by unfold_locales (simp_all only: evolves_SaveNewTask evolves_clear)

text \<open>Apart from the computing threads, nobody changes a table of tasks that is not empty.\<close>

definition keeps_open :: "tracker \<Rightarrow> tracker \<Rightarrow> bool" where
  "keeps_open t t' \<longleftrightarrow> evolves t t' \<and> (tasks (fdcs_env t) \<noteq> [] \<longrightarrow> tasks (fdcs_env t') = tasks (fdcs_env t))"

lemma keeps_open_SaveNewTask: "keeps_open t (snd (SaveNewTask w p t))"
  using evolves_SaveNewTask by (auto simp: keeps_open_def SaveNewTask_def TasksSize_def)

interpretation keep: worker_relation keeps_open
  by unfold_locales
    (simp_all only: keeps_open_SaveNewTask,
     auto simp: keeps_open_def kept_evolves kept_def evolves_clear inv.R_signal inv.R_clock inv.R_refl ClearCompletedTasks_def
       Signal_def CalcFdcsTimeDiffer_def intro: evolves_trans evolves_clear [unfolded ClearCompletedTasks_def]
       inv.R_clock [unfolded CalcFdcsTimeDiffer_def] inv.R_signal [unfolded Signal_def])

section \<open>Computing threads\<close>

lemma Computing_begin_None: "Computing_begin w t = (None, t') \<Longrightarrow> t' = t \<or> t' = Signal HeartBeatSignal t"
  by (auto simp: Computing_begin_def GetIdleTask_def split: if_splits option.splits)

text \<open>A thread that gets a task: the task was idle and is leased, nothing else changes.\<close>

lemma Computing_begin_Some:
  assumes "Computing_begin w t = (Some k, t')" "smap_inv (tasks (fdcs_env t))"
  shows "t' = t\<lparr>fdcs_env := (fdcs_env t)\<lparr>tasks := smap_update k
      (set_lease_time (wrap32 (FdcsTime (fdcs_env t) (now w) + LeaseTimeout (fdcs_env t)))) (tasks (fdcs_env t))\<rparr>\<rparr>"
    "\<exists>task. smap_find (tasks (fdcs_env t)) k = Some task \<and> lease_time task < FdcsTime (fdcs_env t) (now w)"
proof -
  have f: "first_idle (FdcsTime (fdcs_env t) (now w)) (tasks (fdcs_env t)) = Some k"
    and "t' = t\<lparr>fdcs_env := (fdcs_env t)\<lparr>tasks := smap_update k
      (set_lease_time (wrap32 (FdcsTime (fdcs_env t) (now w) + LeaseTimeout (fdcs_env t)))) (tasks (fdcs_env t))\<rparr>\<rparr>"
    using assms(1) by (auto simp: Computing_begin_def GetIdleTask_def split: if_splits option.splits)
  then show "t' = t\<lparr>fdcs_env := (fdcs_env t)\<lparr>tasks := smap_update k
      (set_lease_time (wrap32 (FdcsTime (fdcs_env t) (now w) + LeaseTimeout (fdcs_env t)))) (tasks (fdcs_env t))\<rparr>\<rparr>" by simp
  show "\<exists>task. smap_find (tasks (fdcs_env t)) k = Some task \<and> lease_time task < FdcsTime (fdcs_env t) (now w)"
    using first_idle_Some [OF f] smap_in_find [OF assms(2)] by blast
qed

text \<open>A thread that finishes moves the result of its task to the completed tasks.\<close>

lemma Computing_end_outcome:
  assumes "smap_find (tasks (fdcs_env t)) k = Some task" "env_inv (fdcs_env t)" "keeps_id udf"
  shows "\<exists>t'. Computing_end udf k t = Inr t' \<and> fdcs_env t' = (fdcs_env t)\<lparr>tasks := smap_erase k (tasks (fdcs_env t)),
      completed_tasks := completed_tasks (fdcs_env t) @ [udf task]\<rparr>
    \<and> t' = (let t1 = t\<lparr>fdcs_env := fdcs_env t'\<rparr> in if tasks (fdcs_env t') = [] then Signal HeartBeatSignal t1 else t1)"
proof -
  have "(k, task) \<in> set (tasks (fdcs_env t))" using smap_find_Some_in [OF assms(1)] .
  then have "task_id task = k" using assms(2) by (auto simp: env_inv_def ids_ok_def)
  then have "task_id (udf task) = k" using assms(3) by (simp add: keeps_id_def)
  then show ?thesis
    using assms(1) by (simp add: Computing_end_def TaskCompleted_def smap_find_update smap_erase_update Let_def TasksSize_def)
qed

lemma evolves_Computing:
  assumes "keeps_id udf"
  shows "evolves t (snd (Computing_begin w t))" "Computing_end udf k t = Inr t' \<Longrightarrow> evolves t t'"
proof -
  have "settings (snd (GetIdleTask now_t e)) = settings e" for now_t e
    by (simp add: GetIdleTask_def split: option.split)
  then have "evolves t (t\<lparr>fdcs_env := snd (GetIdleTask (now w) (fdcs_env t))\<rparr>)"
    by (intro evolves_env) (simp_all add: env_inv_GetIdleTask)
  then show "evolves t (snd (Computing_begin w t))"
    by (simp add: Computing_begin_def inv.R_signal case_prod_unfold)
  assume e: "Computing_end udf k t = Inr t'"
  have step: "evolves t (t\<lparr>fdcs_env := TaskCompleted tid ((fdcs_env t)\<lparr>tasks := smap_update k udf (tasks (fdcs_env t))\<rparr>)\<rparr>)" for tid
    using assms by (intro evolves_env env_inv_TaskCompleted)
      (simp_all add: env_inv_def smap_inv_update smap_update_ids keeps_id_def)
  then show "evolves t t'"
    using e evolves_trans [OF step inv.R_signal] by (auto simp: Computing_end_def Let_def split: option.splits if_splits)
qed

section \<open>The invariant\<close>

lemma Worker_InitialTracker_inv:
  assumes "Worker_InitialTracker w m nodes st = Inr s"
  shows "tracker_inv (server s) \<and> settings (fdcs_env (server s)) = st \<and> length (threads s) = nat (computing_threads st)"
proof -
  obtain t0 fd t1 where t: "InitialTracker w m nodes st = Inr t0" "FindMaster w t0 = Inr (fd, t1)"
      "s = \<lparr>server = t1\<lparr>worker_sockaddr := local_addr w fd, epoll := watch_socket fd (epoll t1)\<rparr>,
            threads = replicate (nat (computing_threads st)) Looking\<rparr>"
    using assms by (auto simp: Worker_InitialTracker_def split: if_splits)
  have "evolves t0 t1" using winv.ev_FindMaster [OF inv.R_refl] t(2) by (auto simp: inv.ev_def)
  then have "tracker_inv t1" "settings (fdcs_env t1) = st"
    using inv_InitialTracker [OF t(1)] InitialTracker_settings [OF t(1)] by (auto simp: evolves_def)
  then show ?thesis
    unfolding t(3) by (auto simp: tracker_inv_def watch_socket_def intro!: poll_inv_set_element poll_inv_Add)
qed

lemma keep_handler: "SocketThread w (Worker_ProtocolProcess w) t = Inr t' \<Longrightarrow> keeps_open t t'"
  by (erule keep.R_SocketThread) (rule keep.ev_Worker_ProtocolProcess)

lemma keep_heart_beat: "Worker_HeartBeat w t = Inr (r, t') \<Longrightarrow> keeps_open t t'"
  using keep.ev_Worker_HeartBeat by (auto simp: keep.ev_def)

lemma worker_step_evolves:
  assumes "keeps_id udf" "worker_step udf w s s'"
  shows "evolves (server s) (server s') \<and> length (threads s') = length (threads s)"
  using assms(2)
proof (induction rule: worker_step.induct)
  case (begin_task i ths t k t')
  then show ?case using evolves_Computing(1) [OF assms(1), of t w] by simp
next
  case (no_task i ths t t')
  then show ?case using evolves_Computing(1) [OF assms(1), of t w] by simp
next
  case (end_task i ths k t t')
  then show ?case using evolves_Computing(2) [OF assms(1)] by simp
qed (auto dest: keep_handler keep_heart_beat simp: keeps_open_def
      intro: kept_evolves kept_PollEventProcess)

section \<open>Exclusive computing\<close>

text \<open>Every running thread has a task of its own, which is in the table.\<close>

definition exclusive_computing :: "worker \<Rightarrow> bool" where
  "exclusive_computing s \<longleftrightarrow>
     (\<forall>i < length (threads s). \<forall>j < length (threads s). \<forall>k.
        threads s ! i = Running k \<longrightarrow> threads s ! j = Running k \<longrightarrow> i = j)
   \<and> (\<forall>i < length (threads s). \<forall>k. threads s ! i = Running k \<longrightarrow> smap_find (tasks (fdcs_env (server s))) k \<noteq> None)"

definition leases_run :: "world \<Rightarrow> worker \<Rightarrow> bool" where
  "leases_run w s \<longleftrightarrow> (\<forall>k. Running k \<in> set (threads s) \<longrightarrow> live (fdcs_env (server s)) (now w) k)"

text \<open>Runs in which the lease of a task lasts as long as a thread computes it.\<close>

inductive timely_run :: "(FdcsTask \<Rightarrow> FdcsTask) \<Rightarrow> worker \<Rightarrow> worker \<Rightarrow> bool" for udf s0 where
  start: "tracker_inv (server s0) \<Longrightarrow> \<forall>c \<in> set (threads s0). c = Looking \<Longrightarrow> timely_run udf s0 s0"
| step: "timely_run udf s0 s \<Longrightarrow> leases_run w s \<Longrightarrow> worker_step udf w s s' \<Longrightarrow> timely_run udf s0 s'"

lemma exclusive_keeps_open:
  assumes "exclusive_computing \<lparr>server = t, threads = ths\<rparr>" "keeps_open t t'"
  shows "exclusive_computing \<lparr>server = t', threads = ths\<rparr>"
proof -
  have "tasks (fdcs_env t') = tasks (fdcs_env t)" if "i < length ths" "ths ! i = Running k" for i k
  proof -
    have "smap_find (tasks (fdcs_env t)) k \<noteq> None" using assms(1) that by (auto simp: exclusive_computing_def)
    then have "tasks (fdcs_env t) \<noteq> []" by auto
    then show ?thesis using assms(2) by (simp add: keeps_open_def)
  qed
  then show ?thesis using assms(1) by (auto simp: exclusive_computing_def)
qed

lemma exclusive_begin:
  assumes "exclusive_computing \<lparr>server = t, threads = ths\<rparr>" "leases_run w \<lparr>server = t, threads = ths\<rparr>"
    "tracker_inv t" "Computing_begin w t = (Some k, t')"
  shows "exclusive_computing \<lparr>server = t', threads = ths[i := Running k]\<rparr>"
proof -
  have inv: "smap_inv (tasks (fdcs_env t))" using assms(3) by (simp add: tracker_inv_def env_inv_def)
  note out = Computing_begin_Some [OF assms(4) inv]
  have "\<not> live (fdcs_env t) (now w) k" using out(2) by (auto simp: live_def)
  then have free: "ths ! j \<noteq> Running k" if "j < length ths" for j
    using assms(2) nth_mem [OF that] unfolding leases_run_def worker.select_convs by metis
  have dom: "smap_find (tasks (fdcs_env t')) k' = None \<longleftrightarrow> smap_find (tasks (fdcs_env t)) k' = None" for k'
    by (simp add: out(1) smap_find_update)
  have new: "smap_find (tasks (fdcs_env t)) k \<noteq> None" using out(2) by auto
  have running: "j < length ths \<Longrightarrow> ths[i := Running k] ! j = Running k' \<Longrightarrow>
      (if j = i then k' = k else k' \<noteq> k \<and> ths ! j = Running k')" for j k'
    using free by (auto simp: nth_list_update)
  show ?thesis
    unfolding exclusive_computing_def worker.select_convs length_list_update dom
  proof (intro conjI allI impI)
    fix j1 j2 k' assume j: "j1 < length ths" "j2 < length ths" "ths[i := Running k] ! j1 = Running k'" "ths[i := Running k] ! j2 = Running k'"
    show "j1 = j2"
      using running [OF j(1,3)] running [OF j(2,4)] assms(1) j(1,2)
      unfolding exclusive_computing_def worker.select_convs by (metis (full_types))
  next
    fix j k' assume j: "j < length ths" "ths[i := Running k] ! j = Running k'"
    show "smap_find (tasks (fdcs_env t)) k' \<noteq> None"
      using running [OF j] assms(1) j(1) new unfolding exclusive_computing_def worker.select_convs by (cases "j = i") auto
  qed
qed

lemma exclusive_end:
  assumes "exclusive_computing \<lparr>server = t, threads = ths\<rparr>" "tracker_inv t" "keeps_id udf"
    "i < length ths" "ths ! i = Running k"
  shows "\<exists>t'. Computing_end udf k t = Inr t' \<and> exclusive_computing \<lparr>server = t', threads = ths[i := Looking]\<rparr>"
proof -
  obtain task where task: "smap_find (tasks (fdcs_env t)) k = Some task"
    using assms(1,4,5) unfolding exclusive_computing_def worker.select_convs by blast
  have inv: "env_inv (fdcs_env t)" using assms(2) by (simp add: tracker_inv_def)
  obtain t' where t': "Computing_end udf k t = Inr t'" "tasks (fdcs_env t') = smap_erase k (tasks (fdcs_env t))"
    using Computing_end_outcome [OF task inv assms(3)] by auto
  have f: "smap_find (tasks (fdcs_env t')) k' = smap_find (tasks (fdcs_env t)) k'" if "k' \<noteq> k" for k'
    using that inv by (simp add: t'(2) env_inv_def smap_find_erase)
  have other: "ths ! j \<noteq> Running k" if "j < length ths" "j \<noteq> i" for j
    using assms(1,4,5) that by (auto simp: exclusive_computing_def)
  have running: "j < length ths \<Longrightarrow> ths[i := Looking] ! j = Running k' \<Longrightarrow> k' \<noteq> k \<and> ths ! j = Running k'" for j k'
    using other by (cases "j = i") auto
  have "exclusive_computing \<lparr>server = t', threads = ths[i := Looking]\<rparr>"
    unfolding exclusive_computing_def worker.select_convs length_list_update
  proof (intro conjI allI impI)
    fix j1 j2 k' assume j: "j1 < length ths" "j2 < length ths" "ths[i := Looking] ! j1 = Running k'" "ths[i := Looking] ! j2 = Running k'"
    show "j1 = j2"
      using running [OF j(1,3)] running [OF j(2,4)] assms(1) j(1,2)
      unfolding exclusive_computing_def worker.select_convs by blast
  next
    fix j k' assume j: "j < length ths" "ths[i := Looking] ! j = Running k'"
    show "smap_find (tasks (fdcs_env t')) k' \<noteq> None"
      using running [OF j] assms(1) j(1) f unfolding exclusive_computing_def worker.select_convs by metis
  qed
  with t'(1) show ?thesis by blast
qed

lemma timely_run_exclusive:
  assumes "keeps_id udf" "timely_run udf s0 s"
  shows "tracker_inv (server s) \<and> exclusive_computing s"
  using assms(2)
proof (induction rule: timely_run.induct)
  case (step s w s')
  then have inv: "tracker_inv (server s)" "tracker_inv (server s')"
    using worker_step_evolves [OF assms(1)] by (auto simp: evolves_def)
  from step.hyps(3) step.hyps(2) step.IH inv(1) have "exclusive_computing s'"
  proof (cases rule: worker_step.cases)
    case (begin_task i ths t k t')
    then show ?thesis using exclusive_begin [of t ths w k t' i] step inv by auto
  next
    case (no_task i ths t t')
    then show ?thesis
      using step Computing_begin_None [OF no_task(5)] by (auto simp: exclusive_computing_def)
  next
    case (end_task i ths k t t')
    then show ?thesis using exclusive_end [of t ths udf i k] step inv assms(1) by auto
  next
    case (event_loop evs t t' ths)
    then show ?thesis
      using exclusive_keeps_open [of t ths t'] step keep.R_kept [OF kept_PollEventProcess] by auto
  qed (use step exclusive_keeps_open keep_handler keep_heart_beat in auto)
  with inv(2) show ?case by blast
next
  case start
  then have "threads s0 ! i \<noteq> Running k" if "i < length (threads s0)" for i k using nth_mem [OF that] by auto
  then show ?case using start by (auto simp: exclusive_computing_def)
qed

lemma copy_completed_take: "n \<le> length (completed_tasks e) \<Longrightarrow> copy_completed n e = Inr (take n (completed_tasks e))"
proof (induction n)
  case (Suc n)
  then show ?case by (simp add: CompletedTasks_def CompletedTasksSize_def take_Suc_conv_app_nth)
qed simp

lemma copy_completed_all: "copy_completed (nat (CompletedTasksSize e)) e = Inr (completed_tasks e)"
  by (simp add: CompletedTasksSize_def copy_completed_take)

lemma kept_FindOwnerMaster:
  assumes "FindOwnerMaster w t = Inr (fd, t')"
  shows "kept t t'"
  using assms kept_ConnectMaster kept_trans [OF kept_ConnectMaster kept_ConnectMaster]
  by (fastforce simp: FindOwnerMaster_def Let_def split: option.splits if_splits)

lemma RequestTask_sends:
  assumes "tasks (fdcs_env t) = []" "FindOwnerMaster w t = Inr (fd, t1)" "fd \<noteq> - 1"
    "Int32ToKey (TaskDuplicate (fdcs_env t)) = Inr args"
  shows "RequestTask w t = SendProtocol w (request_protocol w args (completed_tasks (fdcs_env t)) t1) fd
      (t1\<lparr>fdcs_env := ClearCompletedTasks (fdcs_env t)\<rparr>)"
proof -
  have "fdcs_env t1 = fdcs_env t" using kept_FindOwnerMaster [OF assms(2)] by (simp add: kept_def)
  then show ?thesis using assms by (simp add: RequestTask_def TasksSize_def copy_completed_all)
qed

lemma request_reports:
  assumes "lossless (message_codec w)"
  shows "tasks_of (message_codec w) KEYVALUEPAIRS_TASK_COMPLETE (request_protocol w args ts t) = ts"
    "protocol_type (request_protocol w args ts t) = WORKER_REQUEST_TASK" "request_args (request_protocol w args ts t) = args"
    "forwarding_sock_fd (request_protocol w args ts t) \<le> 0"
  using losslessD [OF assms]
  by (simp_all add: request_protocol_def NewTrackerProtocol_def new_TrackerProtocol_def getter_defs tasks_of_def
      fold_WriteRecord_task ReadRecord_tasks_def ReadRecord_append new_KeyValuesPair_def comp_def)

lemma SaveNewTask_table:
  assumes "tasks (fdcs_env t) = []" "ts = tasks_of (message_codec w) KEYVALUEPAIRS_TASK p" "ts \<noteq> []"
  shows "fdcs_env (snd (SaveNewTask w p t)) = UpdateTasks ts (fdcs_env t)"
    "smap_find (tasks (UpdateTasks ts e)) k = map_of (map (\<lambda>task. (task_id task, task)) ts) k"
proof -
  show "fdcs_env (snd (SaveNewTask w p t)) = UpdateTasks ts (fdcs_env t)"
    using assms by (simp add: SaveNewTask_def TasksSize_def SignalComputing_fields)
  have "fold (\<lambda>t. smap_insert (task_id t) t) ts [] = fold (\<lambda>(k, v). smap_insert k v) (map (\<lambda>task. (task_id task, task)) ts) []"
    by (simp add: fold_map comp_def)
  then show "smap_find (tasks (UpdateTasks ts e)) k = map_of (map (\<lambda>task. (task_id task, task)) ts) k"
    by (simp add: UpdateTasks_def smap.find_load_empty)
qed

text \<open>One thread alone completes all tasks in the order of their ids.\<close>

lemma Computing_all:
  assumes "keeps_id udf" "env_inv (fdcs_env t)" "idle_at (FdcsTime (fdcs_env t) (now w)) (tasks (fdcs_env t)) = tasks (fdcs_env t)"
    "length (tasks (fdcs_env t)) < n"
  shows "\<exists>t'. Computing n udf w t = Inr t' \<and> fdcs_env t' = (fdcs_env t)\<lparr>tasks := [],
      completed_tasks := completed_tasks (fdcs_env t) @ map (\<lambda>(k, task). udf (set_lease_time
         (wrap32 (FdcsTime (fdcs_env t) (now w) + LeaseTimeout (fdcs_env t))) task)) (tasks (fdcs_env t))\<rparr>"
  using assms(2-)
proof (induction "tasks (fdcs_env t)" arbitrary: t n)
  case Nil
  then obtain k where "n = Suc k" by (cases n) auto
  then show ?case using Nil by (simp add: Computing_begin_def TasksSize_def)
next
  case (Cons x m)
  obtain k task where x: "x = (k, task)" by (cases x)
  obtain n' where n: "n = Suc n'" using Cons.prems(3) by (cases n) auto
  let ?e = "fdcs_env t" and ?ti = "FdcsTime (fdcs_env t) (now w)"
  let ?lt = "set_lease_time (wrap32 (?ti + LeaseTimeout ?e))"
  have tk: "tasks ?e = (k, task) # m" using Cons.hyps(2) x by simp
  have "length (idle_at ?ti m) \<le> length m" by (simp add: idle_at_def)
  then have idle: "lease_time task < ?ti" "idle_at ?ti m = m"
    using Cons.prems(2) unfolding tk by (auto split: if_splits)
  let ?t1 = "t\<lparr>fdcs_env := ?e\<lparr>tasks := (k, ?lt task) # m\<rparr>\<rparr>"
  have 1: "Computing_begin w t = (Some k, ?t1)"
    using idle(1) by (simp add: Computing_begin_def TasksSize_def GetIdleTask_def tk)
  have inv: "env_inv (fdcs_env ?t1)" using Cons.prems(1) by (auto simp: env_inv_def tk)
  have k: "smap_find (tasks (fdcs_env ?t1)) k = Some (?lt task)" by simp
  obtain t2 where t2: "Computing_end udf k ?t1 = Inr t2"
      "fdcs_env t2 = ?e\<lparr>tasks := m, completed_tasks := completed_tasks ?e @ [udf (?lt task)]\<rparr>"
    using Computing_end_outcome [OF k inv assms(1)] by auto
  have e2: "FdcsTime (fdcs_env t2) (now w) = ?ti" "LeaseTimeout (fdcs_env t2) = LeaseTimeout ?e" "tasks (fdcs_env t2) = m"
    "completed_tasks (fdcs_env t2) = completed_tasks ?e @ [udf (?lt task)]" "env_inv (fdcs_env t2)"
    using inv by (simp_all add: t2(2) FdcsTime_def LeaseTimeout_def env_inv_def)
  obtain t' where "Computing n' udf w t2 = Inr t'" "fdcs_env t' = (fdcs_env t2)\<lparr>tasks := [],
      completed_tasks := completed_tasks (fdcs_env t2) @ map (\<lambda>(k, task). udf (?lt task)) (tasks (fdcs_env t2))\<rparr>"
    using Cons.hyps(1) [of t2 n'] idle(2) Cons.prems(3) n e2 tk by auto
  then show ?case using 1 t2(1) n by (simp add: e2 tk t2(2))
qed

section \<open>Examples\<close>

definition example_server :: tracker where
  "example_server = (example_connected 5)\<lparr>is_master := False, worker_sockaddr := ''w:9'', primary_sockaddr := ''b:2'',
     master_sockets := [(''a:1'', 5)], conhash_nodes := [conhash_set_node ''a:1'' 256],
     master_conhash := \<lparr>vnode_tree = [(3, 0)], ivnodes = 1\<rparr>\<rparr>"

definition with_tasks :: "string list \<Rightarrow> tracker \<Rightarrow> tracker" where
  "with_tasks ks t = t\<lparr>fdcs_env := (fdcs_env t)\<lparr>tasks := map (\<lambda>k. (k, set_lease_time (- 1) (task_named k))) ks\<rparr>\<rparr>"

lemma with_tasks_fields [simp]:
  "tasks (fdcs_env (with_tasks ks t)) = map (\<lambda>k. (k, set_lease_time (- 1) (task_named k))) ks"
  "completed_tasks (fdcs_env (with_tasks ks t)) = completed_tasks (fdcs_env t)"
  "fdcs_time_differ (fdcs_env (with_tasks ks t)) = fdcs_time_differ (fdcs_env t)"
  "settings (fdcs_env (with_tasks ks t)) = settings (fdcs_env t)"
  by (simp_all add: with_tasks_def)

lemma example_server_inv: "tracker_inv example_server"
  using example_connected_inv [of 5] by (simp add: example_server_def tracker_inv_def)

lemma with_tasks_inv:
  assumes "tracker_inv t" "sorted_wrt (<) ks"
  shows "tracker_inv (with_tasks ks t)"
proof -
  have "env_inv (fdcs_env (with_tasks ks t))"
    using assms(2) by (auto simp: env_inv_def smap_inv_def comp_def ids_ok_def task_named_def getter_defs set_lease_time_def)
  then show ?thesis
    using assms(1) by (simp add: tracker_inv_def with_tasks_def SocketBuffSize_def)
qed

lemma example_server_env: "fdcs_env example_server = fdcs_env (example_tracker ''b:2'')"
  by (auto simp: example_server_def example_connected_def kept_def split: sum.split dest!: kept_AddSocketResource)

lemma example_env: "fdcs_time_differ (fdcs_env (example_tracker own)) = 0" "tasks (fdcs_env (example_tracker own)) = []"
  "completed_tasks (fdcs_env (example_tracker own)) = []" "LeaseTimeout (fdcs_env (example_tracker own)) = 10"
  "TaskDuplicate (fdcs_env (example_tracker own)) = 10"
  by code_simp+

lemma example_lease: "lease_time (set_lease_time n (task_named k)) = n" "task_id (set_lease_time n (task_named k)) = k"
  by (simp_all add: task_named_def set_lease_time_def getter_defs)

definition example_worker :: worker where
  "example_worker = \<lparr>server = with_tasks [''t'', ''u''] example_server, threads = [Looking, Looking]\<rparr>"

lemma Computing_begin_first:
  assumes "first_idle (FdcsTime (fdcs_env t) (now w)) (tasks (fdcs_env t)) = Some k"
  shows "\<exists>t'. Computing_begin w t = (Some k, t')"
proof -
  have "tasks (fdcs_env t) \<noteq> []" using assms by auto
  then show ?thesis using assms by (simp add: Computing_begin_def TasksSize_def GetIdleTask_def)
qed

section \<open>Properties\<close>



text \<open>C4: No task is computed twice at the same time as long as its lease lasts: in every interleaving of the
  threads of a worker in which no lease ends while the task is computed, different threads compute
  different tasks, and every one of them finds its task in the table when it finishes.\<close>

theorem computing_exclusive:
  assumes "keeps_id udf" "timely_run udf s0 s"
  shows "(\<forall>i < length (threads s). \<forall>j < length (threads s). \<forall>k.
        threads s ! i = Running k \<longrightarrow> threads s ! j = Running k \<longrightarrow> i = j)
    \<and> (\<forall>i < length (threads s). \<forall>k. threads s ! i = Running k \<longrightarrow> (\<exists>t'. Computing_end udf k (server s) = Inr t'))"
proof -
  have s: "tracker_inv (server s)" "exclusive_computing s" using timely_run_exclusive [OF assms] by auto
  have "exclusive_computing \<lparr>server = server s, threads = threads s\<rparr>" using s(2) by (cases s) simp
  from exclusive_end [OF this s(1) assms(1)] s(2) show ?thesis
    unfolding exclusive_computing_def by blast
qed

lemma example_timely:
  "\<exists>t'. timely_run id example_worker \<lparr>server = t', threads = [Running ''t'', Running ''u'']\<rparr>"
proof -
  let ?w = "example_world []" and ?t = "with_tasks [''t'', ''u''] example_server"
  have inv: "tracker_inv ?t" by (rule with_tasks_inv [OF example_server_inv]) simp
  have 0: "timely_run id example_worker \<lparr>server = ?t, threads = [Looking, Looking]\<rparr>"
    using timely_run.start [of example_worker] inv by (simp add: example_worker_def)
  have e: "FdcsTime (fdcs_env ?t) (now ?w) = 0" "LeaseTimeout (fdcs_env ?t) = 10"
    by (simp_all add: FdcsTime_def example_server_env example_env wrap32_def LeaseTimeout_def example_world_def)
      (use example_env(4) [of "''b:2''"] in \<open>simp add: LeaseTimeout_def\<close>)
  obtain t1 where 1: "Computing_begin ?w ?t = (Some ''t'', t1)"
    using Computing_begin_first [of ?t ?w "''t''"] e(1) by (auto simp: example_lease)
  have t1: "tasks (fdcs_env t1) = [(''t'', set_lease_time 10 (set_lease_time (- 1) (task_named ''t''))), (''u'', set_lease_time (- 1) (task_named ''u''))]"
    "FdcsTime (fdcs_env t1) (now ?w) = 0"
    using Computing_begin_Some(1) [OF 1] inv e by (auto simp: tracker_inv_def env_inv_def wrap32_def FdcsTime_def)
  have "first_idle 0 (tasks (fdcs_env t1)) = Some ''u''"
    unfolding t1(1) by (simp add: set_lease_time_def task_named_def getter_defs)
  then obtain t2 where 2: "Computing_begin ?w t1 = (Some ''u'', t2)"
    using Computing_begin_first [of t1 ?w "''u''"] t1(2) by auto
  have s1: "timely_run id example_worker \<lparr>server = t1, threads = [Running ''t'', Looking]\<rparr>"
    using timely_run.step [OF 0 _ worker_step.begin_task [of 0 "[Looking, Looking]", OF _ _ 1]] by (simp add: leases_run_def)
  have "leases_run ?w \<lparr>server = t1, threads = [Running ''t'', Looking]\<rparr>"
    using t1(2) by (simp add: leases_run_def live_def t1(1) set_lease_time_def task_named_def getter_defs)
  from timely_run.step [OF s1 this worker_step.begin_task [of 1 "[Running ''t'', Looking]", OF _ _ 2]]
  show ?thesis by auto
qed

lemma computing_exclusive_witness:
  "\<exists>s. timely_run id example_worker s \<and> threads s = [Running ''t'', Running ''u'']
     \<and> (\<exists>t'. Computing_end id ''u'' (server s) = Inr t')"
proof -
  obtain t' where t': "timely_run id example_worker \<lparr>server = t', threads = [Running ''t'', Running ''u'']\<rparr>"
    using example_timely by (elim exE) (rule that)
  have "keeps_id id" by (simp add: keeps_id_def)
  from computing_exclusive [OF this t'] have "\<exists>t''. Computing_end id ''u'' t' = Inr t''" by (auto dest: spec [of _ 1])
  with t' show ?thesis by (intro exI [of _ "\<lparr>server = t', threads = [Running ''t'', Running ''u'']\<rparr>"]) simp
qed



text \<open>C22: A request of a worker that has no open tasks reports all its completed tasks and forgets them, before it
  knows whether the message is taken: when the encoded request is larger than the send buffer, the
  buffer refuses it, RequestTask reports success, and the results are lost.\<close>

theorem reports_lost:
  assumes "tracker_inv t" "tasks (fdcs_env t) = []" "FindOwnerMaster w t = Inr (fd, t1)" "fd \<noteq> - 1"
    "Int32ToKey (TaskDuplicate (fdcs_env t)) = Inr args" "lossless (message_codec w)"
    "p = request_protocol w args (completed_tasks (fdcs_env t)) t1" "m = ser_proto (message_codec w) (sign_protocol t1 p)"
    "smap_find (send_buffers t1) fd = Some q" "SocketBuffSize (fdcs_env t) < int (length m)" "length m < 2 ^ 31"
  shows "tasks_of (message_codec w) KEYVALUEPAIRS_TASK_COMPLETE p = completed_tasks (fdcs_env t)
    \<and> (\<exists>t'. RequestTask w t = Inr (True, t') \<and> completed_tasks (fdcs_env t') = []
         \<and> smap_find (send_buffers t') fd = Some q \<and> wire t' = wire t1)"
proof -
  have k: "fdcs_env t1 = fdcs_env t" "tracker_inv t1"
    using kept_FindOwnerMaster [OF assms(3)] assms(1) by (simp_all add: kept_def)
  then have q: "queue_ok (SocketBuffSize (fdcs_env t)) q" "smap_inv (send_buffers t1)"
    using assms(9) by (auto simp: tracker_inv_def buffers_ok_def)
  then have a: "sq_Add_string q m True = (Return (- 1), q)"
    using assms(10,11) by (auto simp: sq_Add_string_def wrap32_of_nat sq_Add_def queue_ok_def)
  let ?t1 = "t1\<lparr>fdcs_env := ClearCompletedTasks (fdcs_env t)\<rparr>"
  have own: "is_master ?t1 = is_master t1" "own_addr ?t1 = own_addr t1"
    by (simp_all add: TrackerServer_def ClearCompletedTasks_def k)
  have s: "sign_protocol ?t1 p = sign_protocol t1 p" by (simp only: sign_protocol_def own)
  have f: "smap_find (send_buffers ?t1) fd = Some q" using assms(9) by simp
  have "RequestTask w t = SendProtocol w p fd ?t1" using RequestTask_sends [OF assms(2-5)] assms(7) by simp
  also have "\<dots> = Inr (True, Signal SocketThreadSignal (?t1\<lparr>send_buffers := smap_set fd q (send_buffers ?t1),
      socket_send_events := socket_send_events ?t1 @ [fd]\<rparr>))"
    unfolding SendProtocol_def s assms(8) [symmetric] Let_def f option.case a prod.case wait.case ..
  finally show ?thesis
    using request_reports(1) [OF assms(6)] q(2) assms(7)
    by (simp add: Signal_def smap_find_set ClearCompletedTasks_def)
qed

text \<open>A worker with the result of a long task.\<close>

definition big_result :: FdcsTask where
  "big_result = task_named (replicate 200 (CHR ''x''))"

definition example_reporter :: tracker where
  "example_reporter = example_server\<lparr>fdcs_env := (fdcs_env example_server)\<lparr>completed_tasks := [big_result]\<rparr>\<rparr>"

lemma example_reporter_simps:
  "tracker_inv example_reporter" "tasks (fdcs_env example_reporter) = []" "completed_tasks (fdcs_env example_reporter) = [big_result]"
  "smap_find (send_buffers example_reporter) 5 = Some example_queue" "SocketBuffSize (fdcs_env example_reporter) = 128"
  "TaskDuplicate (fdcs_env example_reporter) = 10"
proof -
  show "tracker_inv example_reporter"
    using example_server_inv by (simp add: example_reporter_def tracker_inv_def env_inv_def SocketBuffSize_def)
  show "smap_find (send_buffers example_reporter) 5 = Some example_queue"
    using example_connected_find(1) by (simp add: example_reporter_def example_server_def)
  show "SocketBuffSize (fdcs_env example_reporter) = 128"
    using example_simps(3) [of "''b:2''"] by (simp add: example_reporter_def SocketBuffSize_def example_server_env)
  show "TaskDuplicate (fdcs_env example_reporter) = 10"
    using example_env(5) [of "''b:2''"] by (simp add: example_reporter_def TaskDuplicate_def example_server_env)
qed (simp_all add: example_reporter_def example_server_env example_env)

lemma example_report_length:
  "let n = length (ser_proto (message_codec (example_world [])) (sign_protocol example_reporter
     (request_protocol (example_world []) ''0000000010'' [big_result] example_reporter))) in 128 < n \<and> n < 4000"
  by code_simp

lemma reports_lost_witness:
  "\<exists>t'. RequestTask (example_world []) example_reporter = Inr (True, t') \<and> completed_tasks (fdcs_env t') = []"
proof -
  let ?w = "example_world []"
  have 0: "conhash_lookup (hash_function ?w) (master_conhash example_reporter) (worker_sockaddr example_reporter) = Some 0"
    by code_simp
  have 1: "iden (conhash_nodes example_reporter ! 0) = ''a:1''" "contains (TrackerGroup (fdcs_env example_reporter)) ''a:1''"
    by code_simp+
  have 2: "master_sockets example_reporter = [(''a:1'', 5)]" by (simp add: example_reporter_def example_server_def)
  have o: "FindOwnerMaster ?w example_reporter = Inr (5, example_reporter)"
    unfolding FindOwnerMaster_def 0 option.case Let_def 1(1) by (simp add: ConnectMaster_def master_fd_def 1(2) 2)
  have l: "lossless (message_codec ?w)" by (simp add: example_world_def)
  have k: "Int32ToKey (TaskDuplicate (fdcs_env example_reporter)) = Inr ''0000000010''"
    unfolding example_reporter_simps by code_simp
  note len = example_report_length [unfolded Let_def]
  have c: "completed_tasks (fdcs_env example_reporter) = [big_result]" by (rule example_reporter_simps)
  show ?thesis
    using reports_lost [OF example_reporter_simps(1,2) o _ k l refl refl example_reporter_simps(4)]
      len unfolding c example_reporter_simps(5) by auto
qed

lemma SignalComputing_signals:
  "signals (SignalComputing t) = signals t @ replicate (nat (ComputingThreads (fdcs_env t))) ComputingSignal"
proof -
  have "signals ((Signal ComputingSignal ^^ n) t) = signals t @ replicate n ComputingSignal" for n
    by (induction n) (simp_all add: Signal_def replicate_append_same)
  then show ?thesis by (simp add: SignalComputing_def)
qed

text \<open>C21: An answer of a master on every branch: it is ignored while tasks are open and when it has no tasks;
  otherwise its tasks, the first of every id, become the table, all computing threads are woken, and
  the completed tasks that have not been reported yet are dropped.\<close>

theorem answer_outcome:
  assumes "protocol_type p = WORKER_REQUEST_TASK" "ts = tasks_of (message_codec w) KEYVALUEPAIRS_TASK p"
  shows "\<exists>t'. Worker_ProtocolProcess w fd p t = Inr (True, t')
    \<and> (if tasks (fdcs_env t) \<noteq> [] \<or> ts = [] then t' = t
       else completed_tasks (fdcs_env t') = []
         \<and> (\<forall>k. smap_find (tasks (fdcs_env t')) k = map_of (map (\<lambda>task. (task_id task, task)) ts) k)
         \<and> signals t' = signals t @ replicate (nat (ComputingThreads (fdcs_env t))) ComputingSignal)"
proof (cases "tasks (fdcs_env t) \<noteq> [] \<or> ts = []")
  case True
  then show ?thesis using assms by (auto simp: Worker_ProtocolProcess_def SaveNewTask_def TasksSize_def)
next
  case False
  then have "fdcs_env (snd (SaveNewTask w p t)) = UpdateTasks ts (fdcs_env t)"
    "\<forall>k. smap_find (tasks (UpdateTasks ts (fdcs_env t))) k = map_of (map (\<lambda>task. (task_id task, task)) ts) k"
    using SaveNewTask_table [OF _ assms(2)] by auto
  moreover have "ComputingThreads (UpdateTasks ts (fdcs_env t)) = ComputingThreads (fdcs_env t)"
    by (simp add: ComputingThreads_def)
  then have "signals (snd (SaveNewTask w p t)) = signals t @ replicate (nat (ComputingThreads (fdcs_env t))) ComputingSignal"
    using False assms(2) by (auto simp: SaveNewTask_def TasksSize_def SignalComputing_signals)
  moreover have "completed_tasks (UpdateTasks ts (fdcs_env t)) = []" by (simp add: UpdateTasks_def ClearCompletedTasks_def)
  ultimately show ?thesis using False assms(1) by (simp add: Worker_ProtocolProcess_def)
qed

definition answer_of :: "string list \<Rightarrow> TrackerProtocol" where
  "answer_of ks = new_TrackerProtocol\<lparr>protocol_type_field := Some WORKER_REQUEST_TASK,
     key_values_pairs := [fold (\<lambda>k kvs. WriteRecord_task field_codec kvs (task_named k)) ks
       (new_KeyValuesPair\<lparr>kvs_key_field := Some KEYVALUEPAIRS_TASK\<rparr>)]\<rparr>"

lemma answer_of_simps:
  "protocol_type (answer_of ks) = WORKER_REQUEST_TASK" "tasks_of field_codec KEYVALUEPAIRS_TASK (answer_of [''u'']) = [task_named ''u'']"
  by (simp add: answer_of_def getter_defs) code_simp

lemma answer_outcome_witness:
  "\<exists>t'. Worker_ProtocolProcess (example_world []) 5 (answer_of [''u'']) example_reporter = Inr (True, t')
     \<and> completed_tasks (fdcs_env example_reporter) = [big_result] \<and> completed_tasks (fdcs_env t') = []
     \<and> smap_find (tasks (fdcs_env t')) ''u'' = Some (task_named ''u'')"
proof -
  have "message_codec (example_world []) = field_codec" by (simp add: example_world_def)
  moreover have "task_id (task_named ''u'') = ''u''" by (simp add: task_named_def getter_defs)
  ultimately show ?thesis
    using answer_outcome [OF answer_of_simps(1) [of "[''u'']"] refl, where w = "example_world []" and fd = 5 and t = example_reporter] example_reporter_simps
    by (auto simp: answer_of_simps)
qed

text \<open>A computing thread that has the tasks to itself returns after one pass per task and leaves no task: all
  idle tasks are completed in the order of their ids, each with the result of the user's code.\<close>

theorem computing_alone:
  assumes "keeps_id udf" "tracker_inv t" "\<forall>(k, task) \<in> set (tasks (fdcs_env t)). lease_time task < FdcsTime (fdcs_env t) (now w)"
    "length (tasks (fdcs_env t)) < n"
  shows "\<exists>t'. Computing n udf w t = Inr t' \<and> tasks (fdcs_env t') = []
    \<and> completed_tasks (fdcs_env t') = completed_tasks (fdcs_env t) @ map (\<lambda>(k, task). udf (set_lease_time
         (wrap32 (FdcsTime (fdcs_env t) (now w) + LeaseTimeout (fdcs_env t))) task)) (tasks (fdcs_env t))"
proof -
  have "env_inv (fdcs_env t)" using assms(2) by (simp add: tracker_inv_def)
  moreover have "idle_at (FdcsTime (fdcs_env t) (now w)) (tasks (fdcs_env t)) = tasks (fdcs_env t)"
    using assms(3) by (simp add: idle_at_def filter_id_conv)
  ultimately show ?thesis using Computing_all [OF assms(1) _ _ assms(4), of w] by auto
qed

lemma computing_alone_witness:
  "\<exists>t'. Computing 3 id (example_world []) (with_tasks [''t'', ''u''] example_server) = Inr t'
     \<and> map task_id (completed_tasks (fdcs_env t')) = [''t'', ''u'']"
proof -
  let ?t = "with_tasks [''t'', ''u''] example_server"
  have "FdcsTime (fdcs_env ?t) (now (example_world [])) = 0"
    by (simp add: FdcsTime_def example_server_env example_env wrap32_def example_world_def)
  then have "\<forall>(k, task) \<in> set (tasks (fdcs_env ?t)). lease_time task < FdcsTime (fdcs_env ?t) (now (example_world []))"
    by (simp add: example_lease)
  moreover have "keeps_id id" by (simp add: keeps_id_def)
  moreover have "tracker_inv ?t" by (rule with_tasks_inv [OF example_server_inv]) simp
  ultimately show ?thesis
    using computing_alone [of id ?t "example_world []" 3]
    by (auto simp: example_server_env example_env) (simp_all add: task_named_def set_lease_time_def getter_defs)
qed

section \<open>The way of a task\<close>

lemma KeyToInt32_Int32ToKey: "Int32ToKey v = Inr key \<Longrightarrow> v < 2 ^ 31 \<Longrightarrow> KeyToInt32 v0 key = v"
  by (auto simp: Int32ToKey_def NumericValueToKey_def KeyToInt32_pad split: if_splits)

lemma sign_protocol_fields:
  "protocol_type (sign_protocol t p) = protocol_type p" "request_args (sign_protocol t p) = request_args p"
  "forwarding_sock_fd (sign_protocol t p) = forwarding_sock_fd p" "tasks_of cd key (sign_protocol t p) = tasks_of cd key p"
  by (simp_all add: sign_protocol_def getter_defs tasks_of_def)

lemma map_of_cleared:
  assumes "ids_ok m"
  shows "map_of (map (\<lambda>task. (task_id task, task)) (map (clear_lease_time \<circ> snd) m)) k = map_option clear_lease_time (map_of m k)"
  using assms by (induction m) auto

text \<open>A worker without tasks takes over the tasks of an answer.\<close>

lemma answer_taken:
  assumes "tasks (fdcs_env v) = []" "protocol_type p = WORKER_REQUEST_TASK"
    "map (clear_lease_time \<circ> snd) given = tasks_of (message_codec w) KEYVALUEPAIRS_TASK p" "ids_ok given"
  shows "\<exists>v'. Worker_ProtocolProcess w fd p v = Inr (True, v')
    \<and> (\<forall>k. smap_find (tasks (fdcs_env v')) k = map_option clear_lease_time (map_of given k))"
proof (cases "given = []")
  case True
  then show ?thesis using assms by (simp add: Worker_ProtocolProcess_def SaveNewTask_def TasksSize_def)
next
  case False
  then show ?thesis
    using assms(2) SaveNewTask_table [OF assms(1,3)] map_of_cleared [OF assms(4)] by (simp add: Worker_ProtocolProcess_def)
qed

text \<open>A lease that is handed out was not running.\<close>

lemma idle_not_live:
  assumes "smap_inv (tasks (fdcs_env t))" "k \<in> fst ` set (take n (idle_tasks w t))"
  shows "\<not> live (fdcs_env t) (now w) k"
  using assms(2) smap_in_find [OF assms(1)] unfolding idle_tasks_def
  by (auto dest!: in_set_takeD simp: idle_at_in live_def)

text \<open>C7: The way of a task from the primary master to a worker and back. The request of a worker carries its
  completed tasks; the master adopts those whose lease still runs, the first report of each, leases
  the first idle tasks up to the worker's task_duplicate (at least one) for the configured time and
  sends exactly these; a worker without open tasks that gets the answer has exactly these tasks in its
  table, without a lease, for its threads to compute.\<close>

theorem task_cycle:
  assumes cd: "lossless (message_codec w)" "message_codec wm = message_codec w" "message_codec w2 = message_codec w"
    and args: "Int32ToKey (TaskDuplicate (fdcs_env v)) = Inr args" "TaskDuplicate (fdcs_env v) < 2 ^ 31"
    and master: "tracker_inv t" "IAmPrimaryMaster t"
      "Master_ProtocolProcess wm fd (sign_protocol v (request_protocol w args reports v)) t = Inr (ok, t')"
    and worker: "tasks (fdcs_env v2) = []"
    and given: "given = take (nat (max 1 (TaskDuplicate (fdcs_env v)))) (idle_tasks wm t)"
  shows "\<exists>p2 t2 sent t3. SendProtocol wm p2 fd t2 = Inr (sent, t3) \<and> t' = Signal TaskExchangeSignal t3
    \<and> completed_tasks (fdcs_env t2) = completed_tasks (fdcs_env t)
        @ map clear_lease_time (first_reports (live (fdcs_env t) (now wm)) reports)
    \<and> (\<forall>k. smap_find (tasks (fdcs_env t2)) k =
        (if k \<in> fst ` set given then map_option (set_lease_time (FdcsTime (fdcs_env t) (now wm) + LeaseTimeout (fdcs_env t)))
                (smap_find (tasks (fdcs_env t)) k)
         else if live (fdcs_env t) (now wm) k \<and> k \<in> task_id ` set reports then None
         else smap_find (tasks (fdcs_env t)) k))
    \<and> (\<exists>v3. Worker_ProtocolProcess w2 fd2 (sign_protocol t2 p2) v2 = Inr (True, v3)
        \<and> (\<forall>k. smap_find (tasks (fdcs_env v3)) k = map_option clear_lease_time (map_of given k)))"
proof -
  let ?p = "sign_protocol v (request_protocol w args reports v)"
  note rq = request_reports [OF cd(1), of args reports v, folded cd(2)]
  have p: "protocol_type ?p = WORKER_REQUEST_TASK" "forwarding_sock_fd ?p \<le> 0" "request_args ?p = args"
    "tasks_of (message_codec wm) KEYVALUEPAIRS_TASK_COMPLETE ?p = reports"
    using rq by (simp_all add: sign_protocol_fields cd(2))
  have q: "quota wm ?p = nat (max 1 (TaskDuplicate (fdcs_env v)))"
    unfolding quota_def p(3) KeyToInt32_Int32ToKey [OF args] ..
  have inv: "smap_inv (tasks (fdcs_env t))" "ids_ok (tasks (fdcs_env t))" using master(1) by (simp_all add: tracker_inv_def env_inv_def)
  have lossless: "lossless (message_codec wm)" using cd by simp
  obtain fnd t1 p2 t2 sent t3 where 1: "Master_TaskCompleted wm ?p t = (fnd, t1)"
    "SendProtocol wm p2 fd t2 = Inr (sent, t3)" "t' = Signal TaskExchangeSignal t3"
    "tasks_of (message_codec wm) KEYVALUEPAIRS_TASK p2 = map (clear_lease_time \<circ> snd) (take (quota wm ?p) (idle_tasks wm t1))"
    "\<And>k. smap_find (tasks (fdcs_env t2)) k =
        (if k \<in> fst ` set (take (quota wm ?p) (idle_tasks wm t1))
         then map_option (set_lease_time (FdcsTime (fdcs_env t1) (now wm) + LeaseTimeout (fdcs_env t1)))
                (smap_find (tasks (fdcs_env t1)) k)
         else smap_find (tasks (fdcs_env t1)) k)"
    "completed_tasks (fdcs_env t2) = completed_tasks (fdcs_env t1)" "protocol_type p2 = WORKER_REQUEST_TASK"
    using primary_answer [OF master(1) lossless master(2) p(1,2) master(3)] by metis
  note idle = idle_tasks_completed [OF master(1) 1(1)]
  have g: "take (quota wm ?p) (idle_tasks wm t1) = given" by (simp add: idle(1) q given)
  have t1: "smap_find (tasks (fdcs_env t1)) k
      = (if live (fdcs_env t) (now wm) k \<and> k \<in> task_id ` set reports then None else smap_find (tasks (fdcs_env t)) k)"
    "completed_tasks (fdcs_env t1) = completed_tasks (fdcs_env t)
        @ map clear_lease_time (first_reports (live (fdcs_env t) (now wm)) reports)" for k
    using 1(1) completions_outcome [OF inv(1), of "now wm" reports] p(4)
    by (auto simp: Master_TaskCompleted_def Let_def split: if_splits)
  have "\<not> live (fdcs_env t) (now wm) k" if "k \<in> fst ` set given" for k
    using that idle_not_live [OF inv(1)] unfolding given by blast
  then have find: "smap_find (tasks (fdcs_env t2)) k =
        (if k \<in> fst ` set given then map_option (set_lease_time (FdcsTime (fdcs_env t) (now wm) + LeaseTimeout (fdcs_env t)))
                (smap_find (tasks (fdcs_env t)) k)
         else if live (fdcs_env t) (now wm) k \<and> k \<in> task_id ` set reports then None
         else smap_find (tasks (fdcs_env t)) k)" for k
    unfolding 1(5) g t1(1) idle(2,3) by simp
  let ?p2 = "sign_protocol t2 p2" and ?ts = "map (clear_lease_time \<circ> snd) given"
  have p2: "protocol_type ?p2 = WORKER_REQUEST_TASK" "?ts = tasks_of (message_codec w2) KEYVALUEPAIRS_TASK ?p2"
    using 1(4,7) g cd(2,3) by (simp_all add: sign_protocol_fields)
  have ids: "ids_ok given" using inv(2) unfolding given idle_tasks_def
    by (auto simp: ids_ok_def idle_at_in dest!: in_set_takeD)
  note answer_taken [OF worker p2 ids, of fd2]
  then show ?thesis
    using 1(2,3) find t1(2) 1(6) by (intro exI [of _ p2] exI [of _ t2] exI [of _ sent] exI [of _ t3]) simp
qed

definition example_request :: TrackerProtocol where
  "example_request = sign_protocol example_server (request_protocol (example_world []) ''0000000010'' [task_named ''t''] example_server)"

lemma example_request_served:
  "\<exists>ok t'. Master_ProtocolProcess (example_world []) 9 example_request example_primary = Inr (ok, t')"
proof -
  have "(case Master_ProtocolProcess (example_world []) 9 example_request example_primary of
      Inr (b, t') \<Rightarrow> b | Inl e \<Rightarrow> False)" by code_simp
  then show ?thesis by (auto split: sum.splits)
qed

lemma task_cycle_witness:
  "\<exists>p2 t2 v3. completed_tasks (fdcs_env t2) = [task_named ''t'']
     \<and> Worker_ProtocolProcess (example_world []) 5 (sign_protocol t2 p2) example_server = Inr (True, v3)
     \<and> smap_find (tasks (fdcs_env v3)) ''u'' = Some (task_named ''u'')"
proof -
  let ?w = "example_world []"
  obtain ok t' where m: "Master_ProtocolProcess ?w 9 example_request example_primary = Inr (ok, t')"
    using example_request_served by (elim exE) (rule that)
  have l: "lossless (message_codec ?w)" by (simp add: example_world_def)
  have d: "TaskDuplicate (fdcs_env example_server) = 10" "tasks (fdcs_env example_server) = []"
    by (simp_all add: example_server_env example_env)
  have a: "Int32ToKey (TaskDuplicate (fdcs_env example_server)) = Inr ''0000000010''" unfolding d by code_simp
  have g: "take 10 (idle_tasks ?w example_primary) = [(''u'', set_lease_time (- 1) (task_named ''u''))]" by code_simp
  have f: "map clear_lease_time (first_reports (live (fdcs_env example_primary) (now ?w)) [task_named ''t'']) = [task_named ''t'']"
    "clear_lease_time (set_lease_time (- 1) (task_named ''u'')) = task_named ''u''" by code_simp+
  from task_cycle [OF l refl refl a _ example_primary_inv example_primary_is m [unfolded example_request_def] d(2) refl, of 5]
  obtain p2 t2 v3 where "completed_tasks (fdcs_env t2) = [task_named ''t'']"
     "Worker_ProtocolProcess ?w 5 (sign_protocol t2 p2) example_server = Inr (True, v3)"
     "smap_find (tasks (fdcs_env v3)) ''u'' = Some (task_named ''u'')"
    unfolding d f example_primary_completed by (auto simp: f g)
  then show ?thesis by blast
qed

end
