(* ===== verification/ConfigBst.thy ===== *)
theory ConfigBst
  imports StdMap "HOL-Library.Tree"
begin

text \<open>
  The binary search tree of the configuration, src/base/config_bst.cc, with the items of the only
  client: pairs of a key and a value, compared by key. A pointer to a node is the subtree that hangs at
  it, Leaf for NULL. Memory is taken to be available. A tree is a representation of the ordered
  sequence of its items, which is the model of std::map in theory StdMap.
\<close>

type_synonym ('k, 'v) bst_node = "('k \<times> 'v) tree"

record ('k, 'v) bst_table =
  bst_root :: "('k, 'v) bst_node"
  bst_count :: nat
  bst_generation :: nat

definition bst_create :: "('k, 'v) bst_table" where
  "bst_create = \<lparr>bst_root = Leaf, bst_count = 0, bst_generation = 0\<rparr>"

section \<open>Search and change\<close>

fun find_node :: "('k::linorder, 'v) bst_node \<Rightarrow> 'k \<Rightarrow> ('k \<times> 'v) option" where
  "find_node Leaf k = None"
| "find_node (Node l x r) k = (if k < fst x then find_node l k else if k > fst x then find_node r k else Some x)"

definition bst_find :: "('k::linorder, 'v) bst_table \<Rightarrow> 'k \<Rightarrow> ('k \<times> 'v) option" where
  "bst_find tree k = find_node (bst_root tree) k"

text \<open>bst_probe returns the item of the node, the old one or the one it inserts.\<close>

fun probe_node :: "('k::linorder, 'v) bst_node \<Rightarrow> 'k \<times> 'v \<Rightarrow> ('k, 'v) bst_node" where
  "probe_node Leaf x = Node Leaf x Leaf"
| "probe_node (Node l y r) x =
     (if fst x = fst y then Node l y r else if fst x > fst y then Node l y (probe_node r x) else Node (probe_node l x) y r)"

definition bst_probe :: "('k::linorder, 'v) bst_table \<Rightarrow> 'k \<times> 'v \<Rightarrow> ('k \<times> 'v) \<times> ('k, 'v) bst_table" where
  "bst_probe tree item =
     (case bst_find tree (fst item) of
        Some old \<Rightarrow> (old, tree)
      | None \<Rightarrow> (item, tree\<lparr>bst_root := probe_node (bst_root tree) item, bst_count := bst_count tree + 1\<rparr>))"

definition bst_insert :: "('k::linorder, 'v) bst_table \<Rightarrow> 'k \<times> 'v \<Rightarrow> ('k \<times> 'v) option \<times> ('k, 'v) bst_table" where
  "bst_insert tree item =
     (case bst_probe tree item of (p, tree') \<Rightarrow> (if bst_find tree (fst item) = None then None else Some p, tree'))"

text \<open>bst_replace stores the item through the pointer that bst_probe returns.\<close>

fun assign_node :: "('k::linorder, 'v) bst_node \<Rightarrow> 'k \<times> 'v \<Rightarrow> ('k, 'v) bst_node" where
  "assign_node Leaf x = Leaf"
| "assign_node (Node l y r) x =
     (if fst x = fst y then Node l x r else if fst x > fst y then Node l y (assign_node r x) else Node (assign_node l x) y r)"

definition bst_replace :: "('k::linorder, 'v) bst_table \<Rightarrow> 'k \<times> 'v \<Rightarrow> ('k \<times> 'v) option \<times> ('k, 'v) bst_table" where
  "bst_replace tree item =
     (case bst_probe tree item of (p, tree') \<Rightarrow>
        if bst_find tree (fst item) = None then (None, tree')
        else (Some p, tree'\<lparr>bst_root := assign_node (bst_root tree') item\<rparr>))"

text \<open>
  The loop of bst_delete that goes down to the node \<open>s\<close> without a left child below \<open>r\<close>: its item, and the
  tree at \<open>r\<close> with \<open>s\<close> replaced by its right child.
\<close>

fun detach_least :: "('k, 'v) bst_node \<Rightarrow> ('k \<times> 'v) option \<times> ('k, 'v) bst_node" where
  "detach_least Leaf = (None, Leaf)"
| "detach_least (Node l x r) =
     (if l = Leaf then (Some x, r) else case detach_least l of (y, l') \<Rightarrow> (y, Node l' x r))"

fun unlink_node :: "('k, 'v) bst_node \<Rightarrow> ('k, 'v) bst_node" where
  "unlink_node Leaf = Leaf"
| "unlink_node (Node l x Leaf) = l"
| "unlink_node (Node l x (Node Leaf y r)) = Node l y r"
| "unlink_node (Node l x r) = (case detach_least r of (Some s, r') \<Rightarrow> Node l s r' | (None, r') \<Rightarrow> l)"

fun delete_node :: "('k::linorder, 'v) bst_node \<Rightarrow> 'k \<Rightarrow> ('k, 'v) bst_node" where
  "delete_node Leaf k = Leaf"
| "delete_node (Node l x r) k =
     (if k = fst x then unlink_node (Node l x r)
      else if k > fst x then Node l x (delete_node r k) else Node (delete_node l k) x r)"

definition bst_delete :: "('k::linorder, 'v) bst_table \<Rightarrow> 'k \<Rightarrow> ('k \<times> 'v) option \<times> ('k, 'v) bst_table" where
  "bst_delete tree k =
     (case bst_find tree k of
        None \<Rightarrow> (None, tree)
      | Some item \<Rightarrow> (Some item, tree\<lparr>bst_root := delete_node (bst_root tree) k, bst_count := bst_count tree - 1,
                                     bst_generation := bst_generation tree + 1\<rparr>))"

section \<open>Balance\<close>

text \<open>tree_to_vine: rotations to the left until no node has a right child.\<close>

function tree_to_vine :: "('k, 'v) bst_node \<Rightarrow> ('k, 'v) bst_node" where
  "tree_to_vine Leaf = Leaf"
| "tree_to_vine (Node l x Leaf) = Node (tree_to_vine l) x Leaf"
| "tree_to_vine (Node l x (Node l2 y r2)) = tree_to_vine (Node (Node l x l2) y r2)"
  by pat_completeness auto
termination by (relation "measures [size, \<lambda>t. case t of Leaf \<Rightarrow> 0 | Node l x r \<Rightarrow> size r]") auto

text \<open>compress rotates pairs of the left spine; a missing node would be a NULL pointer.\<close>

fun compress :: "nat \<Rightarrow> ('k, 'v) bst_node \<Rightarrow> ('k, 'v) bst_node result" where
  "compress 0 t = Inr t"
| "compress (Suc n) (Node (Node l b r2) a r1) = rbind (compress n l) (\<lambda>l'. Inr (Node l' b (Node r2 a r1)))"
| "compress (Suc n) t = Inl NullDeref"

text \<open>The loop that clears the low bits of \<open>leaves\<close> until only the highest one is left.\<close>

fun highest_bit :: "nat \<Rightarrow> nat \<Rightarrow> nat result" where
  "highest_bit 0 leaves = Inl Diverge"
| "highest_bit (Suc n) leaves =
     (let next_leaves = and leaves (leaves - 1) in if next_leaves = 0 then Inr leaves else highest_bit n next_leaves)"

fun compress_loop :: "nat \<Rightarrow> nat \<Rightarrow> int \<Rightarrow> ('k, 'v) bst_node \<Rightarrow> (int \<times> ('k, 'v) bst_node) result" where
  "compress_loop 0 vine ht t = Inl Diverge"
| "compress_loop (Suc n) vine ht t =
     (if vine > 1 then rbind (compress (vine div 2) t) (\<lambda>t'. compress_loop n (vine div 2) (ht + 1) t') else Inr (ht, t))"

definition BST_MAX_HEIGHT :: nat where "BST_MAX_HEIGHT = 32"

text \<open>The count of items bounds both loops; a tree that is too big ends the process.\<close>

definition vine_to_tree :: "('k, 'v) bst_table \<Rightarrow> ('k, 'v) bst_table result" where
  "vine_to_tree tree =
     (let n = bst_count tree in
      rbind (highest_bit (n + 1) (n + 1)) (\<lambda>high.
        let leaves = n + 1 - high in
        rbind (compress leaves (bst_root tree)) (\<lambda>t1.
          rbind (compress_loop (n + 1) (n - leaves) (if leaves > 0 then 2 else 1) t1) (\<lambda>(ht, t2).
            if ht > int BST_MAX_HEIGHT then Inl Abort else Inr (tree\<lparr>bst_root := t2\<rparr>)))))"

definition bst_balance :: "('k, 'v) bst_table \<Rightarrow> ('k, 'v) bst_table result" where
  "bst_balance tree =
     rbind (vine_to_tree (tree\<lparr>bst_root := tree_to_vine (bst_root tree)\<rparr>))
       (\<lambda>tree'. Inr (tree'\<lparr>bst_generation := bst_generation tree' + 1\<rparr>))"

section \<open>The tree represents an ordered map\<close>

definition bst_inv :: "('k::linorder, 'v) bst_table \<Rightarrow> bool" where
  "bst_inv tree \<longleftrightarrow> smap_inv (inorder (bst_root tree)) \<and> bst_count tree = size (bst_root tree)"

definition items :: "('k::linorder, 'v) bst_table \<Rightarrow> ('k, 'v) smap" where
  "items tree = inorder (bst_root tree)"

lemma smap_inv_node:
  "smap_inv (inorder (Node l x r)) \<longleftrightarrow> smap_inv (inorder l) \<and> smap_inv (inorder r)
     \<and> (\<forall>y \<in> fst ` set_tree l. y < fst x) \<and> (\<forall>y \<in> fst ` set_tree r. fst x < y)"
  by (cases x) (auto simp: smap_inv_append, fastforce)

declare inorder.simps(2) [simp del]
lemma inorder_node: "inorder (Node l x r) = inorder l @ x # inorder r"
  by (simp add: inorder.simps(2))

lemma find_node_items: "smap_inv (inorder t) \<Longrightarrow> map_option snd (find_node t k) = smap_find (inorder t) k
    \<and> (\<forall>y. find_node t k = Some y \<longrightarrow> fst y = k)"
proof (induction t)
  case (Node l x r)
  obtain a b where x: "x = (a, b)" by (cases x)
  have lt: "\<forall>y \<in> fst ` set (inorder l). y < a" "\<forall>y \<in> fst ` set (inorder r). a < y" and inv: "smap_inv (inorder l)" "smap_inv (inorder r)"
    using Node.prems unfolding smap_inv_node by (auto simp: x)
  consider "k < a" "\<not> a < k" "k \<noteq> a" | "k = a" | "a < k" "\<not> k < a" "k \<noteq> a" by fastforce
  then show ?case
  proof cases
    case 1
    then have "smap_find (inorder r) k = None" using lt by (intro smap_find_outside(2)) auto
    then show ?thesis using 1 Node.IH(1) [OF inv(1)] by (auto simp: inorder_node x smap_find_append split: option.split)
  next
    case 2
    then have "smap_find (inorder l) k = None" using lt by (intro smap_find_outside(1)) auto
    then show ?thesis using 2 by (simp add: inorder_node x smap_find_append)
  next
    case 3
    then have "smap_find (inorder l) k = None" using lt by (intro smap_find_outside(1)) auto
    then show ?thesis using 3 Node.IH(2) [OF inv(2)] by (auto simp: inorder_node x smap_find_append)
  qed
qed simp

lemma probe_node_items: "smap_inv (inorder t) \<Longrightarrow> inorder (probe_node t (k, v)) = smap_insert k v (inorder t)"
proof (induction t)
  case (Node l x r)
  obtain a b where x: "x = (a, b)" by (cases x)
  have lt: "\<forall>y \<in> fst ` set (inorder l). y < a" and inv: "smap_inv (inorder l)" "smap_inv (inorder r)"
    using Node.prems unfolding smap_inv_node by (auto simp: x)
  consider "k < a" "\<not> a < k" "k \<noteq> a" | "k = a" | "a < k" "\<not> k < a" "k \<noteq> a" by fastforce
  then show ?case
  proof cases
    case 1
    then show ?thesis using Node.IH(1) [OF inv(1)] by (simp add: inorder_node x smap_insert_left)
  next
    case 2
    then have "\<forall>y \<in> fst ` set (inorder l). y < k" using lt by simp
    then show ?thesis using 2 by (simp add: inorder_node x smap_insert_right)
  next
    case 3
    then have "\<forall>y \<in> fst ` set (inorder l). y < k" using lt by fastforce
    then show ?thesis using 3 Node.IH(2) [OF inv(2)] by (simp add: inorder_node x smap_insert_right)
  qed
qed (simp add: inorder_node)

lemma detach_least_inorder:
  "t \<noteq> Leaf \<Longrightarrow> \<exists>y t'. detach_least t = (Some y, t') \<and> inorder t = y # inorder t'"
proof (induction t rule: detach_least.induct)
  case (2 l x r)
  then show ?case by (cases "l = Leaf") (auto simp: inorder_node)
qed simp

lemma unlink_node_inorder: "inorder (unlink_node (Node l x r)) = inorder l @ inorder r"
proof (cases r)
  case (Node l2 y r2)
  then obtain s r' where "detach_least r = (Some s, r')" "inorder r = s # inorder r'"
    using detach_least_inorder [of r] by auto
  then show ?thesis using Node by (cases l2) (auto simp: inorder_node simp del: detach_least.simps)
qed simp

lemma delete_node_items: "smap_inv (inorder t) \<Longrightarrow> inorder (delete_node t k) = smap_erase k (inorder t)"
proof (induction t)
  case (Node l x r)
  obtain a b where x: "x = (a, b)" by (cases x)
  have lt: "\<forall>y \<in> fst ` set (inorder l). y < a" "\<forall>y \<in> fst ` set (inorder r). a < y" and inv: "smap_inv (inorder l)" "smap_inv (inorder r)"
    using Node.prems unfolding smap_inv_node by (auto simp: x)
  consider "k < a" "\<not> a < k" "k \<noteq> a" | "k = a" | "a < k" "\<not> k < a" "k \<noteq> a" by fastforce
  then show ?case
  proof cases
    case 1
    then have "smap_erase k (inorder r) = inorder r"
      using lt by (intro smap_erase_absent smap_find_outside(2)) auto
    then show ?thesis using 1 Node.IH(1) [OF inv(1)] by (auto simp: inorder_node x smap_erase_append smap_erase_absent)
  next
    case 2
    then have "smap_find (inorder l) k = None" using lt by (intro smap_find_outside(1)) auto
    then show ?thesis using 2 by (simp add: inorder_node [of l] unlink_node_inorder x smap_erase_append)
  next
    case 3
    then have "smap_find (inorder l) k = None" using lt by (intro smap_find_outside(1)) auto
    then show ?thesis using 3 Node.IH(2) [OF inv(2)] by (simp add: inorder_node x smap_erase_append)
  qed
qed simp

section \<open>Balancing\<close>

text \<open>\<open>spine m h t\<close>: the left spine has \<open>m\<close> nodes with right subtrees of height \<open>h\<close> at most, and so is its end.\<close>

fun spine :: "nat \<Rightarrow> nat \<Rightarrow> ('k, 'v) bst_node \<Rightarrow> bool" where
  "spine 0 h t \<longleftrightarrow> height t \<le> h"
| "spine (Suc m) h Leaf \<longleftrightarrow> False"
| "spine (Suc m) h (Node l x r) \<longleftrightarrow> height r \<le> h \<and> spine m h l"

lemma spine_mono: "spine m h t \<Longrightarrow> h \<le> h' \<Longrightarrow> spine m h' t"
  by (induction m h t rule: spine.induct) auto

lemma spine_height: "spine m h t \<Longrightarrow> height t \<le> h + m"
  by (induction m h t rule: spine.induct) auto

lemma tree_to_vine_spine: "inorder (tree_to_vine t) = inorder t \<and> size (tree_to_vine t) = size t \<and> spine (size t) 0 (tree_to_vine t)"
  by (induction t rule: tree_to_vine.induct) (auto simp: inorder_node add.assoc)

lemma compress_spine:
  fixes t :: "('k, 'v) bst_node"
  assumes "\<And>u :: ('k, 'v) bst_node. spine k h u \<Longrightarrow> spine j (h + 1) u"
  shows "spine (2 * n + k) h t \<Longrightarrow> \<exists>t'. compress n t = Inr t' \<and> inorder t' = inorder t \<and> size t' = size t \<and> spine (n + j) (h + 1) t'"
proof (induction n arbitrary: t)
  case 0
  then show ?case using assms by simp
next
  case (Suc n)
  then obtain l b r2 a r1 where t: "t = Node (Node l b r2) a r1" "height r1 \<le> h" "height r2 \<le> h" "spine (2 * n + k) h l"
    by (cases t rule: tree.exhaust; simp; metis (no_types, lifting) spine.simps(2,3) tree.exhaust)
  then show ?case using Suc.IH [OF t(4)] by (auto simp: inorder_node)
qed

lemma and_pred_nat:
  fixes x :: nat
  assumes "2 ^ k \<le> x" "x < 2 ^ Suc k"
  shows "x = 2 ^ k \<Longrightarrow> and x (x - 1) = 0" "x \<noteq> 2 ^ k \<Longrightarrow> 2 ^ k \<le> and x (x - 1) \<and> and x (x - 1) < x"
proof -
  assume "x = 2 ^ k"
  then have "and x (x - 1) = take_bit k (2 ^ k :: nat)" by (simp add: take_bit_eq_mask mask_eq_exp_minus_1)
  then show "and x (x - 1) = 0" by simp
next
  assume x: "x \<noteq> 2 ^ k"
  have "bit y k" if "2 ^ k \<le> y" "y < 2 ^ Suc k" for y :: nat
  proof -
    have "y div 2 ^ k < 2" using that(2) less_mult_imp_div_less [of y 2 "2 ^ k"] by simp
    moreover have "1 \<le> y div 2 ^ k" using that(1) div_le_mono [of "2 ^ k" y "2 ^ k"] by simp
    ultimately have "y div 2 ^ k = 1" by linarith
    then show ?thesis by (simp add: bit_iff_odd)
  qed
  then have "bit (and x (x - 1)) k" using assms x by (simp add: bit_and_iff)
  then have odd: "odd (and x (x - 1) div 2 ^ k)" unfolding bit_iff_odd .
  have "2 ^ k \<le> and x (x - 1)"
  proof (rule ccontr)
    assume "\<not> 2 ^ k \<le> and x (x - 1)"
    then have "and x (x - 1) div 2 ^ k = 0" by (intro div_less) linarith
    then show False using odd by (metis even_zero)
  qed
  moreover have "int (and x (x - 1)) \<le> int (x - 1)" unfolding of_nat_and_eq by (rule AND_upper2) simp
  moreover have "0 < x" using assms(1) by (metis gr0I le_zero_eq power_not_zero zero_neq_numeral)
  ultimately have "2 ^ k \<le> and x (x - 1)" "and x (x - 1) < x" by linarith+
  then show "2 ^ k \<le> and x (x - 1) \<and> and x (x - 1) < x" by simp
qed

lemma highest_bit_power: "2 ^ k \<le> x \<Longrightarrow> x < 2 ^ Suc k \<Longrightarrow> x - 2 ^ k < n \<Longrightarrow> highest_bit n x = Inr (2 ^ k)"
proof (induction n arbitrary: x)
  case (Suc n)
  show ?case
  proof (cases "x = 2 ^ k")
    case True
    then show ?thesis using and_pred_nat(1) [OF Suc.prems(1,2)] by (simp add: Let_def)
  next
    case False
    then have a: "2 ^ k \<le> and x (x - 1)" "and x (x - 1) < x" using and_pred_nat(2) [OF Suc.prems(1,2)] by auto
    then have "and x (x - 1) \<noteq> 0" by (metis le_zero_eq power_not_zero zero_neq_numeral)
    moreover have "highest_bit n (and x (x - 1)) = Inr (2 ^ k)"
      using a Suc.prems by (intro Suc.IH) auto
    ultimately show ?thesis by (simp add: Let_def)
  qed
qed simp

lemma compress_loop_height:
  "spine (2 ^ i - 1) h t \<Longrightarrow> i < n \<Longrightarrow> 0 < i \<Longrightarrow>
    \<exists>t'. compress_loop n (2 ^ i - 1) ht t = Inr (ht + int i - 1, t') \<and> inorder t' = inorder t \<and> size t' = size t \<and> height t' \<le> h + i"
proof (induction i arbitrary: n h ht t)
  case (Suc i)
  obtain m where m: "n = Suc m" "i < m" using Suc.prems(2) by (cases n) auto
  show ?case
  proof (cases "i = 0")
    case True
    then show ?thesis using Suc.prems(1) m spine_height [of 1 h t] by simp
  next
    case False
    obtain q where q: "2 ^ i = Suc q" by (metis not0_implies_Suc power_not_zero zero_neq_numeral)
    then have v: "2 ^ Suc i - 1 = 2 * (2 ^ i - 1) + (1 :: nat)" by simp
    then have half: "(2 ^ Suc i - 1) div 2 = (2 ^ i - 1 :: nat)" "2 ^ Suc i - 1 > (1 :: nat)"
      using False one_less_power [of "2 :: nat" i] by auto
    have "spine 1 h u \<Longrightarrow> spine 0 (h + 1) u" for u :: "('a, 'b) bst_node" using spine_height [of 1 h u] by simp
    from compress_spine [of 1 h 0 "2 ^ i - 1" t, OF this] Suc.prems(1) v
    obtain t1 where t1: "compress (2 ^ i - 1) t = Inr t1" "inorder t1 = inorder t" "size t1 = size t" "spine (2 ^ i - 1) (h + 1) t1"
      by auto
    from Suc.IH [OF t1(4) m(2), of "ht + 1"] False t1 half m(1) show ?thesis by auto
  qed
qed simp

lemma vine_to_treeI:
  assumes "n = bst_count tree" "highest_bit (n + 1) (n + 1) = Inr high" "compress (n + 1 - high) (bst_root tree) = Inr t1"
    "compress_loop (n + 1) (n - (n + 1 - high)) (if n + 1 - high > 0 then 2 else 1) t1 = Inr (ht, t2)" "ht \<le> int BST_MAX_HEIGHT"
  shows "vine_to_tree tree = Inr (tree\<lparr>bst_root := t2\<rparr>)"
  using assms by (simp add: vine_to_tree_def Let_def del: highest_bit.simps compress_loop.simps)

text \<open>Balancing keeps the items and gives a tree of the least height, up to one level.\<close>

lemma bst_balance_outcome:
  assumes "bst_count tree = size (bst_root tree)" "bst_count tree < 2 ^ 31"
  shows "\<exists>tree'. bst_balance tree = Inr tree' \<and> items tree' = items tree \<and> bst_count tree' = bst_count tree
    \<and> size (bst_root tree') = size (bst_root tree) \<and> bst_generation tree' = bst_generation tree + 1
    \<and> 2 ^ height (bst_root tree') \<le> 2 * (bst_count tree + 1) \<and> height (bst_root tree') \<le> BST_MAX_HEIGHT"
proof -
  let ?n = "bst_count tree" and ?v = "tree_to_vine (bst_root tree)"
  have v: "inorder ?v = inorder (bst_root tree)" "size ?v = ?n" "spine ?n 0 ?v"
    using tree_to_vine_spine [of "bst_root tree"] assms(1) by auto
  obtain k where k: "2 ^ k \<le> ?n + 1" "?n + 1 < 2 ^ Suc k"
    using ex_power_ivl1 [of 2 "?n + 1"] by auto
  have high: "highest_bit (?n + 1) (?n + 1) = Inr (2 ^ k)" using k by (intro highest_bit_power) auto
  define L where "L = ?n + 1 - 2 ^ k"
  have n: "2 * L + (?n - 2 * L) = ?n" "?n - L = 2 ^ k - 1" "L + (?n - 2 * L) = 2 ^ k - 1"
    using k by (auto simp: L_def)
  define h where "h = (if L > 0 then 1 else 0 :: nat)"
  obtain t1 where t1: "compress L ?v = Inr t1" "inorder t1 = inorder ?v" "size t1 = size ?v" "spine (2 ^ k - 1) h t1"
  proof (cases "L > 0")
    case True
    have "spine (?n - 2 * L) 0 u \<Longrightarrow> spine (?n - 2 * L) (0 + 1) u" for u :: "('a, 'b) bst_node"
      by (rule spine_mono) auto
    moreover have "spine (2 * L + (?n - 2 * L)) 0 ?v" unfolding n(1) by (rule v(3))
    ultimately obtain t1 where "compress L ?v = Inr t1" "inorder t1 = inorder ?v" "size t1 = size ?v" "spine (L + (?n - 2 * L)) (0 + 1) t1"
      using compress_spine [of "?n - 2 * L" 0 "?n - 2 * L" L ?v] by blast
    then show ?thesis using that True unfolding n(3) by (simp add: h_def)
  next
    case False
    then have "compress L ?v = Inr ?v" "spine (2 ^ k - 1) h ?v" using v(3) n by (auto simp: h_def)
    then show ?thesis using that by blast
  qed
  have kn: "k < ?n + 1" using k(1) less_exp [of k] by linarith
  have hk: "h + k \<le> 32" "2 ^ (h + k) \<le> 2 * (?n + 1)"
  proof -
    have "(2 :: nat) ^ k < 2 ^ 32" using k(1) assms(2) by simp
    then have "k < 32" by (rule power_less_imp_less_exp [rotated]) simp
    then show "h + k \<le> 32" "2 ^ (h + k) \<le> 2 * (?n + 1)" using k(1) by (auto simp: h_def L_def)
  qed
  obtain ht t2 where t2: "compress_loop (?n + 1) (2 ^ k - 1) (1 + int h) t1 = Inr (ht, t2)" "inorder t2 = inorder t1"
      "size t2 = size t1" "height t2 \<le> h + k" "ht \<le> 1 + int (h + k) - (if k = 0 then 0 else 1)"
  proof (cases "k = 0")
    case True
    then show ?thesis using that [of "1 + int h" t1] t1(4) by simp
  next
    case False
    then show ?thesis using compress_loop_height [OF t1(4) kn, of "1 + int h"] that by fastforce
  qed
  have "h = 0" if "k = 0" using that k by (simp add: h_def L_def)
  then have le: "ht \<le> int BST_MAX_HEIGHT" "height t2 \<le> BST_MAX_HEIGHT"
    using hk(1) t2(4,5) by (auto simp: BST_MAX_HEIGHT_def split: if_splits)
  have pw: "2 ^ height t2 \<le> 2 * (?n + 1)"
    using hk(2) power_increasing [OF t2(4), of "2 :: nat"] by linarith
  have init: "(if L > 0 then 2 else 1) = 1 + int h" by (simp add: h_def)
  have "vine_to_tree (tree\<lparr>bst_root := ?v\<rparr>) = Inr ((tree\<lparr>bst_root := ?v\<rparr>)\<lparr>bst_root := t2\<rparr>)"
  proof (rule vine_to_treeI [where n = ?n])
    show "compress (?n + 1 - 2 ^ k) (bst_root (tree\<lparr>bst_root := ?v\<rparr>)) = Inr t1"
      unfolding L_def [symmetric] using t1(1) by simp
    show "compress_loop (?n + 1) (?n - (?n + 1 - 2 ^ k)) (if ?n + 1 - 2 ^ k > 0 then 2 else 1) t1 = Inr (ht, t2)"
      unfolding L_def [symmetric] init n(2) by (rule t2(1))
  qed (use high le(1) in simp_all)
  then show ?thesis
    using le(2) pw t1(2,3) t2(2,3) v assms(1) by (simp add: bst_balance_def items_def)
qed

end
