(* ===== verification/ConfigIter.thy ===== *)
theory ConfigIter
  imports ConfigBst
begin

text \<open>
  The traverser of the binary search tree, src/base/config_bst.cc: a position in the tree with the
  stack of the nodes above it, at most 32 of them; a deeper tree is balanced on the way. The nodes of
  a tree have different keys, so that comparing subtrees is comparing pointers. The table changes
  under a traverser only through balancing, after which the stack is built again.
\<close>

record ('k, 'v) bst_traverser =
  trav_node :: "('k, 'v) bst_node"
  trav_stack :: "('k, 'v) bst_node list"
  trav_generation :: nat

definition bst_t_init :: "('k, 'v) bst_table \<Rightarrow> ('k, 'v) bst_traverser" where
  "bst_t_init tree = \<lparr>trav_node = Leaf, trav_stack = [], trav_generation = bst_generation tree\<rparr>"

definition item_of :: "('k, 'v) bst_node \<Rightarrow> ('k \<times> 'v) option" where
  "item_of t = (case t of Leaf \<Rightarrow> None | Node l x r \<Rightarrow> Some x)"

text \<open>The loop of trav_refresh from the root down to the node of the traverser; its asserts.\<close>

fun refresh_loop :: "('k::linorder, 'v) bst_node list \<Rightarrow> ('k, 'v) bst_node \<Rightarrow> 'k \<Rightarrow>
    (('k, 'v) bst_node list \<times> ('k, 'v) bst_node) result" where
  "refresh_loop st Leaf k = Inl Abort"
| "refresh_loop st (Node l x r) k =
     (if fst x = k then Inr (st, Node l x r)
      else if length st \<ge> BST_MAX_HEIGHT then Inl Abort
      else if k > fst x then refresh_loop (Node l x r # st) r k else refresh_loop (Node l x r # st) l k)"

definition trav_refresh :: "('k::linorder, 'v) bst_table \<Rightarrow> ('k, 'v) bst_traverser \<Rightarrow> ('k, 'v) bst_traverser result" where
  "trav_refresh tree trav =
     (let trav1 = trav\<lparr>trav_generation := bst_generation tree\<rparr> in
      case trav_node trav of
        Leaf \<Rightarrow> Inr trav1
      | Node l x r \<Rightarrow> rbind (refresh_loop [] (bst_root tree) (fst x))
          (\<lambda>(st, node). Inr (trav1\<lparr>trav_stack := st, trav_node := node\<rparr>)))"

text \<open>Down the links of one side; None when the stack is full.\<close>

fun go_left :: "('k, 'v) bst_node list \<Rightarrow> ('k, 'v) bst_node \<Rightarrow> (('k, 'v) bst_node list \<times> ('k, 'v) bst_node) option" where
  "go_left st Leaf = Some (st, Leaf)"
| "go_left st (Node l x r) =
     (if l = Leaf then Some (st, Node l x r)
      else if length st \<ge> BST_MAX_HEIGHT then None else go_left (Node l x r # st) l)"

fun go_right :: "('k, 'v) bst_node list \<Rightarrow> ('k, 'v) bst_node \<Rightarrow> (('k, 'v) bst_node list \<times> ('k, 'v) bst_node) option" where
  "go_right st Leaf = Some (st, Leaf)"
| "go_right st (Node l x r) =
     (if r = Leaf then Some (st, Node l x r)
      else if length st \<ge> BST_MAX_HEIGHT then None else go_right (Node l x r # st) r)"

text \<open>
  The operations return the item, the traverser and the table. Each may start again after balancing;
  \<open>first_stands\<close> and \<open>next_stands\<close> show that it does so once at most, so that the fuel 2 is enough.
\<close>

type_synonym ('k, 'v) moved = "(('k \<times> 'v) option \<times> ('k, 'v) bst_traverser \<times> ('k, 'v) bst_table) result"

definition at_node :: "('k, 'v) bst_node list \<Rightarrow> ('k, 'v) bst_node \<Rightarrow> ('k, 'v) bst_table \<Rightarrow> ('k, 'v) moved" where
  "at_node st node tree = Inr (item_of node, \<lparr>trav_node = node, trav_stack = st, trav_generation = bst_generation tree\<rparr>, tree)"

fun t_first :: "nat \<Rightarrow> ('k, 'v) bst_table \<Rightarrow> ('k, 'v) moved" where
  "t_first 0 tree = Inl Diverge"
| "t_first (Suc n) tree =
     (case go_left [] (bst_root tree) of
        Some (st, node) \<Rightarrow> at_node st node tree
      | None \<Rightarrow> rbind (bst_balance tree) (t_first n))"

fun t_last :: "nat \<Rightarrow> ('k, 'v) bst_table \<Rightarrow> ('k, 'v) moved" where
  "t_last 0 tree = Inl Diverge"
| "t_last (Suc n) tree =
     (case go_right [] (bst_root tree) of
        Some (st, node) \<Rightarrow> at_node st node tree
      | None \<Rightarrow> rbind (bst_balance tree) (t_last n))"

definition bst_t_first :: "('k, 'v) bst_table \<Rightarrow> ('k, 'v) moved" where "bst_t_first tree = t_first 2 tree"
definition bst_t_last :: "('k, 'v) bst_table \<Rightarrow> ('k, 'v) moved" where "bst_t_last tree = t_last 2 tree"

text \<open>Up the stack to the first ancestor that is reached from the other side, None at the end.\<close>

fun up_from_right :: "('k, 'v) bst_node \<Rightarrow> ('k, 'v) bst_node list \<Rightarrow> (('k, 'v) bst_node list \<times> ('k, 'v) bst_node) option" where
  "up_from_right y [] = None"
| "up_from_right y (x # st) = (if y = right x then up_from_right x st else Some (st, x))"

fun up_from_left :: "('k, 'v) bst_node \<Rightarrow> ('k, 'v) bst_node list \<Rightarrow> (('k, 'v) bst_node list \<times> ('k, 'v) bst_node) option" where
  "up_from_left y [] = None"
| "up_from_left y (x # st) = (if y = left x then up_from_left x st else Some (st, x))"

definition fresh_trav :: "('k::linorder, 'v) bst_table \<Rightarrow> ('k, 'v) bst_traverser \<Rightarrow> ('k, 'v) bst_traverser result" where
  "fresh_trav tree trav = (if trav_generation trav \<noteq> bst_generation tree then trav_refresh tree trav else Inr trav)"

fun t_next :: "nat \<Rightarrow> ('k::linorder, 'v) bst_traverser \<Rightarrow> ('k, 'v) bst_table \<Rightarrow> ('k, 'v) moved" where
  "t_next 0 trav tree = Inl Diverge"
| "t_next (Suc n) trav tree =
     rbind (fresh_trav tree trav) (\<lambda>tr.
       case trav_node tr of
         Leaf \<Rightarrow> bst_t_first tree
       | Node l x r \<Rightarrow>
           if r \<noteq> Leaf
           then (case (if length (trav_stack tr) \<ge> BST_MAX_HEIGHT then None else go_left (Node l x r # trav_stack tr) r) of
                   Some (st, node) \<Rightarrow> at_node st node tree
                 | None \<Rightarrow> rbind (bst_balance tree) (t_next n tr))
           else (case up_from_right (Node l x r) (trav_stack tr) of
                   Some (st, node) \<Rightarrow> at_node st node tree
                 | None \<Rightarrow> at_node [] Leaf tree))"

fun t_prev :: "nat \<Rightarrow> ('k::linorder, 'v) bst_traverser \<Rightarrow> ('k, 'v) bst_table \<Rightarrow> ('k, 'v) moved" where
  "t_prev 0 trav tree = Inl Diverge"
| "t_prev (Suc n) trav tree =
     rbind (fresh_trav tree trav) (\<lambda>tr.
       case trav_node tr of
         Leaf \<Rightarrow> bst_t_last tree
       | Node l x r \<Rightarrow>
           if l \<noteq> Leaf
           then (case (if length (trav_stack tr) \<ge> BST_MAX_HEIGHT then None else go_right (Node l x r # trav_stack tr) l) of
                   Some (st, node) \<Rightarrow> at_node st node tree
                 | None \<Rightarrow> rbind (bst_balance tree) (t_prev n tr))
           else (case up_from_left (Node l x r) (trav_stack tr) of
                   Some (st, node) \<Rightarrow> at_node st node tree
                 | None \<Rightarrow> at_node [] Leaf tree))"

definition bst_t_next :: "('k::linorder, 'v) bst_traverser \<Rightarrow> ('k, 'v) bst_table \<Rightarrow> ('k, 'v) moved" where
  "bst_t_next trav tree = t_next 2 trav tree"

definition bst_t_prev :: "('k::linorder, 'v) bst_traverser \<Rightarrow> ('k, 'v) bst_table \<Rightarrow> ('k, 'v) moved" where
  "bst_t_prev trav tree = t_prev 2 trav tree"

definition bst_t_cur :: "('k, 'v) bst_traverser \<Rightarrow> ('k \<times> 'v) option" where
  "bst_t_cur trav = item_of (trav_node trav)"

text \<open>bst_t_find; None for the item when it is not there.\<close>

fun find_path :: "('k::linorder, 'v) bst_node list \<Rightarrow> ('k, 'v) bst_node \<Rightarrow> 'k \<Rightarrow> (('k, 'v) bst_node list \<times> ('k, 'v) bst_node) option" where
  "find_path st Leaf k = Some ([], Leaf)"
| "find_path st (Node l x r) k =
     (if k = fst x then Some (st, Node l x r)
      else if length st \<ge> BST_MAX_HEIGHT then None
      else find_path (Node l x r # st) (if k < fst x then l else r) k)"

fun t_find :: "nat \<Rightarrow> 'k::linorder \<Rightarrow> ('k, 'v) bst_table \<Rightarrow> ('k, 'v) moved" where
  "t_find 0 k tree = Inl Diverge"
| "t_find (Suc n) k tree =
     (case find_path [] (bst_root tree) k of
        Some (st, node) \<Rightarrow> at_node st node tree
      | None \<Rightarrow> rbind (bst_balance tree) (t_find n k))"

definition bst_t_find :: "'k::linorder \<Rightarrow> ('k, 'v) bst_table \<Rightarrow> ('k, 'v) moved" where "bst_t_find k tree = t_find 2 k tree"

text \<open>The order in which bst_destroy hands the items to the destructor: it rotates left children up.\<close>

function bst_destroy :: "('k, 'v) bst_node \<Rightarrow> ('k \<times> 'v) list" where
  "bst_destroy Leaf = []"
| "bst_destroy (Node Leaf x r) = x # bst_destroy r"
| "bst_destroy (Node (Node l y r2) x r) = bst_destroy (Node l y (Node r2 x r))"
  by pat_completeness auto
termination by (relation "measures [size, \<lambda>t. case t of Leaf \<Rightarrow> 0 | Node l x r \<Rightarrow> size l]") auto

section \<open>Positions\<close>

text \<open>The stack leads from the root to the node; what comes after the subtree \<open>y\<close> in order.\<close>

fun path :: "('k, 'v) bst_node list \<Rightarrow> ('k, 'v) bst_node \<Rightarrow> ('k, 'v) bst_node \<Rightarrow> bool" where
  "path [] root node \<longleftrightarrow> node = root"
| "path (p # st) root node \<longleftrightarrow> p \<noteq> Leaf \<and> (node = left p \<or> node = right p) \<and> path st root p"

fun after :: "('k, 'v) bst_node \<Rightarrow> ('k, 'v) bst_node list \<Rightarrow> ('k \<times> 'v) list" where
  "after y [] = []"
| "after y (p # st) = (if y = right p then after p st else (case p of Leaf \<Rightarrow> [] | Node l x r \<Rightarrow> x # inorder r) @ after p st)"

lemma path_inorder: "path st root node \<Longrightarrow> \<exists>pre. inorder root = pre @ inorder node @ after node st"
proof (induction st arbitrary: node)
  case (Cons p st)
  obtain l x r where p1: "p = Node l x r" using Cons.prems by (cases p) simp_all
  obtain pre where "inorder root = pre @ inorder p @ after p st" using Cons.IH [of p] Cons.prems by auto
  note p = p1 this
  show ?case
  proof (cases "node = r")
    case True
    then show ?thesis using p by (intro exI [of _ "pre @ inorder l @ [x]"]) (simp add: inorder_node)
  next
    case False
    then show ?thesis using p Cons.prems by (intro exI [of _ pre]) (simp add: inorder_node)
  qed
qed simp

lemma path_inv: "path st root node \<Longrightarrow> smap_inv (inorder root) \<Longrightarrow> smap_inv (inorder node)"
  using path_inorder [of st root node] by (auto simp: smap_inv_append)

lemma path_height: "path st root node \<Longrightarrow> length st + height node \<le> height root"
proof (induction st arbitrary: node)
  case (Cons p st)
  then have "height node < height p" by (cases p) auto
  then show ?case using Cons by fastforce
qed simp

lemma left_not_right: "smap_inv (inorder (Node l x r)) \<Longrightarrow> l \<noteq> Leaf \<Longrightarrow> l \<noteq> r"
proof -
  assume inv: "smap_inv (inorder (Node l x r))" and "l \<noteq> Leaf"
  then obtain y where y: "y \<in> fst ` set_tree l" by (cases l) auto
  then have "y < fst x" using inv by (auto simp: smap_inv_node)
  moreover have "fst x < y" if "l = r" using y that inv by (auto simp: smap_inv_node)
  ultimately show "l \<noteq> r" by auto
qed

lemma go_left_Some:
  assumes "go_left st t = Some (st', node)" "t \<noteq> Leaf" "path st root t" "smap_inv (inorder root)"
  shows "path st' root node \<and> (\<exists>x r. node = Node Leaf x r) \<and> inorder node @ after node st' = inorder t @ after t st"
  using assms(1,2,3)
proof (induction st t rule: go_left.induct)
  case (2 st l x r)
  show ?case
  proof (cases "l = Leaf")
    case False
    have "smap_inv (inorder (Node l x r))" using path_inv [OF 2(4) assms(4)] .
    then have "after l (Node l x r # st) = x # inorder r @ after (Node l x r) st" using left_not_right False by simp
    moreover have "path (Node l x r # st) root l" using 2(4) by simp
    moreover have "\<not> BST_MAX_HEIGHT \<le> length st" "go_left (Node l x r # st) l = Some (st', node)" using 2(2) False by (auto split: if_splits)
    ultimately show ?thesis using 2(1) [OF False _ _ False] by (simp add: inorder_node)
  qed (use 2 in auto)
qed simp

lemma go_left_None: "go_left st t = None \<Longrightarrow> BST_MAX_HEIGHT < length st + height t"
proof (induction st t rule: go_left.induct)
  case (2 st l x r)
  then show ?case by (cases l) (auto split: if_splits)
qed simp

lemma up_from_right_Some:
  "up_from_right y st = Some (st', node) \<Longrightarrow> path st root y \<Longrightarrow>
    path st' root node \<and> (\<exists>l x r. node = Node l x r \<and> after y st = x # inorder r @ after node st')"
proof (induction y st rule: up_from_right.induct)
  case (2 y p st)
  then show ?case by (cases p) (auto split: if_splits)
qed simp

lemma up_from_right_None: "up_from_right y st = None \<Longrightarrow> after y st = []"
  by (induction y st rule: up_from_right.induct) (auto split: if_splits)

lemma refresh_loop_Some:
  "k \<in> fst ` set_tree t \<Longrightarrow> path st root t \<Longrightarrow> smap_inv (inorder root) \<Longrightarrow> height root \<le> BST_MAX_HEIGHT \<Longrightarrow>
    \<exists>st' l x r. refresh_loop st t k = Inr (st', Node l x r) \<and> fst x = k \<and> path st' root (Node l x r)"
proof (induction st t k rule: refresh_loop.induct)
  case (2 st l x r k)
  have inv: "smap_inv (inorder (Node l x r))" using path_inv [OF 2(4,5)] .
  show ?case
  proof (cases "fst x = k")
    case False
    have h: "\<not> BST_MAX_HEIGHT \<le> length st" using path_height [OF 2(4)] 2(6) by simp
    have "k \<in> fst ` set_tree (if k > fst x then r else l)"
      using 2(3) False inv by (force simp: smap_inv_node)
    then show ?thesis using 2(1,2) [OF False h] 2(4-6) False h by (cases "k > fst x") auto
  qed (use 2 in auto)
qed simp

section \<open>The traversal\<close>

text \<open>The traverser stands at \<open>x\<close> with \<open>rest\<close> to come.\<close>

definition stands :: "('k::linorder, 'v) bst_table \<Rightarrow> ('k, 'v) bst_traverser \<Rightarrow> 'k \<times> 'v \<Rightarrow> ('k \<times> 'v) list \<Rightarrow> bool" where
  "stands tree trav x rest \<longleftrightarrow> trav_generation trav = bst_generation tree
     \<and> (\<exists>l r. trav_node trav = Node l x r \<and> path (trav_stack trav) (bst_root tree) (trav_node trav)
          \<and> rest = inorder r @ after (trav_node trav) (trav_stack trav))"

definition tree_ok :: "('k::linorder, 'v) bst_table \<Rightarrow> bool" where
  "tree_ok tree \<longleftrightarrow> bst_inv tree \<and> bst_count tree < 2 ^ 31"

lemma stands_items:
  assumes "stands tree trav x rest" "tree_ok tree"
  shows "\<exists>pre. items tree = pre @ x # rest" "smap_inv (items tree)"
proof -
  obtain l r where n: "trav_node trav = Node l x r" "path (trav_stack trav) (bst_root tree) (Node l x r)"
      "rest = inorder r @ after (Node l x r) (trav_stack trav)" using assms(1) by (auto simp: stands_def)
  from path_inorder [OF n(2)] obtain pre where "items tree = pre @ inorder (Node l x r) @ after (Node l x r) (trav_stack trav)"
    by (auto simp: items_def)
  then show "\<exists>pre. items tree = pre @ x # rest" using n(3) by (intro exI [of _ "pre @ inorder l"]) (simp add: inorder_node)
  show "smap_inv (items tree)" using assms(2) by (simp add: tree_ok_def bst_inv_def items_def)
qed

lemma dropWhile_key:
  "distinct (map fst (pre @ z # r)) \<Longrightarrow> dropWhile (\<lambda>y. fst y \<noteq> fst z) (pre @ z # r) = z # r"
  by (induction pre) auto

lemma same_key_cut:
  assumes "smap_inv m" "m = pre @ x # rest" "m = pre' @ x' # rest'" "fst x = fst x'"
  shows "x = x' \<and> rest = rest'"
proof -
  have d: "distinct (map fst m)" by (rule smap_inv_distinct [OF assms(1)])
  have "x # rest = dropWhile (\<lambda>y. fst y \<noteq> fst x) m"
    using dropWhile_key [of pre x rest, folded assms(2), OF d] by (rule sym)
  also have "\<dots> = x' # rest'"
    using dropWhile_key [of pre' x' rest', folded assms(3), OF d] unfolding assms(4) .
  finally show ?thesis by simp
qed

lemma balanced:
  assumes "tree_ok tree"
  obtains tree' where "bst_balance tree = Inr tree'" "tree_ok tree'" "items tree' = items tree"
    "bst_generation tree' \<noteq> bst_generation tree" "height (bst_root tree') \<le> BST_MAX_HEIGHT" "bst_count tree' = bst_count tree"
  using assms bst_balance_outcome [of tree] that by (auto simp: tree_ok_def bst_inv_def items_def)

lemma go_left_stands:
  assumes "go_left st t = Some (st', node)" "t \<noteq> Leaf" "path st (bst_root tree) t" "tree_ok tree"
    "inorder t @ after t st = y # ys"
  shows "\<exists>tr. at_node st' node tree = Inr (Some y, tr, tree) \<and> stands tree tr y ys"
proof -
  have "smap_inv (inorder (bst_root tree))" using assms(4) by (simp add: tree_ok_def bst_inv_def)
  from go_left_Some [OF assms(1-3) this] obtain x r where
    n: "path st' (bst_root tree) node" "node = Node Leaf x r" "inorder node @ after node st' = y # ys" using assms(5) by metis
  have "x # (inorder r @ after node st') = y # ys" using n(3) unfolding n(2) inorder_node inorder.simps(1) append_Nil append_Cons .
  then have "x = y" "inorder r @ after node st' = ys" unfolding list.inject by blast+
  then show ?thesis using n(1) unfolding n(2) by (simp add: at_node_def item_of_def stands_def)
qed

lemma t_first_Some:
  assumes "tree_ok tree" "items tree = y # ys" "go_left [] (bst_root tree) \<noteq> None"
  shows "\<exists>tr. t_first (Suc n) tree = Inr (Some y, tr, tree) \<and> stands tree tr y ys"
proof -
  obtain st node where p: "go_left [] (bst_root tree) = Some (st, node)" using assms(3) by auto
  have "bst_root tree \<noteq> Leaf" "inorder (bst_root tree) = y # ys" using assms(2) by (auto simp: items_def)
  then show ?thesis using go_left_stands [OF p _ _ assms(1), of y ys] p by simp
qed

lemma first_stands:
  assumes "tree_ok tree" "items tree = y # ys"
  shows "\<exists>tr tree'. bst_t_first tree = Inr (Some y, tr, tree') \<and> stands tree' tr y ys \<and> tree_ok tree' \<and> items tree' = items tree"
proof (cases "go_left [] (bst_root tree)")
  case (Some p)
  then show ?thesis using t_first_Some [OF assms, of 1] assms(1) by (auto simp: bst_t_first_def numeral_2_eq_2)
next
  case None
  obtain tree' where b: "bst_balance tree = Inr tree'" "tree_ok tree'" "items tree' = items tree" "height (bst_root tree') \<le> BST_MAX_HEIGHT"
    using balanced [OF assms(1)] by metis
  then have "go_left [] (bst_root tree') \<noteq> None" using go_left_None [of "[]" "bst_root tree'"] by fastforce
  from t_first_Some [OF b(2) _ this, of y ys 0] show ?thesis
    using None b assms(2) by (auto simp: bst_t_first_def numeral_2_eq_2)
qed

lemma first_empty: "items tree = [] \<Longrightarrow> \<exists>tr. bst_t_first tree = Inr (None, tr, tree)"
proof -
  assume "items tree = []"
  then have "bst_root tree = Leaf" by (cases "bst_root tree") (auto simp: items_def inorder_node)
  then show ?thesis by (simp add: bst_t_first_def numeral_2_eq_2 at_node_def item_of_def)
qed

text \<open>One step forward: from \<open>x\<close> to the item after it, through balancing if the stack is full.\<close>

lemma refreshed:
  assumes "stands tree trav x rest" "tree_ok tree" "tree_ok tree'" "items tree' = items tree"
    "bst_generation tree' \<noteq> bst_generation tree" "height (bst_root tree') \<le> BST_MAX_HEIGHT"
  shows "\<exists>tr. fresh_trav tree' trav = Inr tr \<and> stands tree' tr x rest"
proof -
  obtain l r where n: "trav_node trav = Node l x r" "trav_generation trav = bst_generation tree"
    using assms(1) by (auto simp: stands_def)
  obtain pre where pre: "items tree = pre @ x # rest" and inv: "smap_inv (items tree)"
    using stands_items [OF assms(1,2)] by blast
  have "fst x \<in> fst ` set (inorder (bst_root tree'))" using pre assms(4) by (simp add: items_def)
  then have k: "fst x \<in> fst ` set_tree (bst_root tree')" by simp
  have inv': "smap_inv (inorder (bst_root tree'))" using inv assms(4) by (simp add: items_def)
  obtain st l' x' r' where st: "refresh_loop [] (bst_root tree') (fst x) = Inr (st, Node l' x' r')" "fst x' = fst x"
      "path st (bst_root tree') (Node l' x' r')"
    using refresh_loop_Some [OF k path.simps(1) [THEN iffD2, OF refl] inv' assms(6)] by blast
  let ?tr = "\<lparr>trav_node = Node l' x' r', trav_stack = st, trav_generation = bst_generation tree'\<rparr>"
  have s: "stands tree' ?tr x' (inorder r' @ after (Node l' x' r') st)" using st(3) by (simp add: stands_def)
  obtain pre' where "items tree' = pre' @ x' # (inorder r' @ after (Node l' x' r') st)"
    using stands_items(1) [OF s assms(3)] by blast
  then have "x = x' \<and> rest = inorder r' @ after (Node l' x' r') st"
    using same_key_cut [OF inv pre] assms(4) st(2) by metis
  then have "stands tree' ?tr x rest" using s by simp
  moreover have "fresh_trav tree' trav = Inr ?tr"
    using n assms(5) st(1) by (simp add: fresh_trav_def trav_refresh_def Let_def)
  ultimately show ?thesis by blast
qed

definition room :: "('k, 'v) bst_traverser \<Rightarrow> bool" where
  "room trav \<longleftrightarrow> right (trav_node trav) = Leaf \<or> length (trav_stack trav) < BST_MAX_HEIGHT
     \<and> go_left (trav_node trav # trav_stack trav) (right (trav_node trav)) \<noteq> None"

lemma room_low:
  assumes "stands tree trav x rest" "height (bst_root tree) \<le> BST_MAX_HEIGHT"
  shows "room trav"
proof -
  obtain l r where n: "trav_node trav = Node l x r" "path (trav_stack trav) (bst_root tree) (Node l x r)"
    using assms(1) by (auto simp: stands_def)
  have "length (trav_stack trav) + height (Node l x r) \<le> BST_MAX_HEIGHT" using path_height [OF n(2)] assms(2) by linarith
  then have "length (trav_stack trav) < BST_MAX_HEIGHT" "length (Node l x r # trav_stack trav) + height r \<le> BST_MAX_HEIGHT" by auto
  then show ?thesis using go_left_None [of "Node l x r # trav_stack trav" r] n(1) by (fastforce simp: room_def)
qed

lemma next_room:
  assumes "stands tree trav x rest" "tree_ok tree" "room tr" "fresh_trav tree trav0 = Inr tr" "tr = trav"
  shows "case rest of [] \<Rightarrow> \<exists>t'. t_next (Suc n) trav0 tree = Inr (None, t', tree)
    | y # ys \<Rightarrow> \<exists>t'. t_next (Suc n) trav0 tree = Inr (Some y, t', tree) \<and> stands tree t' y ys"
proof -
  obtain l r where n: "trav_node trav = Node l x r" "path (trav_stack trav) (bst_root tree) (Node l x r)"
    "rest = inorder r @ after (Node l x r) (trav_stack trav)"
    using assms(1) by (auto simp: stands_def)
  show ?thesis
  proof (cases "r = Leaf")
    case True
    show ?thesis
    proof (cases "up_from_right (Node l x r) (trav_stack trav)")
      case None
      then have "rest = []" using up_from_right_None n(3) True by simp
      then show ?thesis using None True n(1) assms(4,5) by (simp add: at_node_def item_of_def)
    next
      case (Some p)
      obtain st node where p: "p = (st, node)" by (cases p)
      from up_from_right_Some [OF Some [unfolded p] n(2)] obtain l' y r' where
        y: "path st (bst_root tree) node" "node = Node l' y r'" "after (Node l x r) (trav_stack trav) = y # inorder r' @ after node st" by metis
      have "rest = y # (inorder r' @ after node st)" using n(3) True y(3) by simp
      moreover have "stands tree \<lparr>trav_node = node, trav_stack = st, trav_generation = bst_generation tree\<rparr> y (inorder r' @ after node st)"
        using y(1) unfolding y(2) by (simp add: stands_def)
      ultimately show ?thesis using Some p True n(1) assms(4,5) y(2) by (simp add: at_node_def item_of_def)
    qed
  next
    case False
    obtain st node where g: "go_left (Node l x r # trav_stack trav) r = Some (st, node)" "length (trav_stack trav) < BST_MAX_HEIGHT"
      using assms(3,5) False n(1) by (auto simp: room_def)
    have p: "path (Node l x r # trav_stack trav) (bst_root tree) r" using n(2) by simp
    have "inorder r @ after r (Node l x r # trav_stack trav) = rest" using n(3) by simp
    moreover from this obtain y ys where "rest = y # ys" using False by (cases rest; cases r) (auto simp: inorder_node)
    ultimately show ?thesis
      using go_left_stands [OF g(1) False p assms(2), of y ys] g False n(1) assms(4,5) by simp
  qed
qed

lemma next_stands:
  assumes "stands tree trav x rest" "tree_ok tree"
  shows "case rest of [] \<Rightarrow> \<exists>t' tree'. bst_t_next trav tree = Inr (None, t', tree') \<and> tree_ok tree' \<and> items tree' = items tree
    | y # ys \<Rightarrow> \<exists>t' tree'. bst_t_next trav tree = Inr (Some y, t', tree') \<and> stands tree' t' y ys
        \<and> tree_ok tree' \<and> items tree' = items tree"
proof -
  have fresh: "fresh_trav tree trav = Inr trav" using assms(1) by (simp add: fresh_trav_def stands_def)
  show ?thesis
  proof (cases "room trav")
    case True
    then show ?thesis using next_room [OF assms True fresh refl, of 1] assms(2)
      by (auto simp: bst_t_next_def numeral_2_eq_2 simp del: t_next.simps split: list.splits)
  next
    case False
    obtain tree' where b: "bst_balance tree = Inr tree'" "tree_ok tree'" "items tree' = items tree"
        "bst_generation tree' \<noteq> bst_generation tree" "height (bst_root tree') \<le> BST_MAX_HEIGHT"
      using balanced [OF assms(2)] by metis
    obtain tr where tr: "fresh_trav tree' trav = Inr tr" "stands tree' tr x rest"
      using refreshed [OF assms b(2-5)] by blast
    obtain l r where n: "trav_node trav = Node l x r" using assms(1) by (auto simp: stands_def)
    have "t_next 2 trav tree = t_next 1 trav tree'"
      using False fresh n b(1) unfolding room_def numeral_2_eq_2 by (auto split: option.splits)
    then show ?thesis using next_room [OF tr(2) b(2) room_low [OF tr(2) b(5)] tr(1) refl, of 0] b(2,3)
      by (auto simp: bst_t_next_def simp del: t_next.simps split: list.splits)
  qed
qed

text \<open>The loop of a client that takes items until bst_t_next returns NULL.\<close>

fun bst_walk :: "nat \<Rightarrow> ('k::linorder, 'v) bst_traverser \<Rightarrow> ('k, 'v) bst_table \<Rightarrow> ('k \<times> 'v) list result" where
  "bst_walk 0 trav tree = Inl Diverge"
| "bst_walk (Suc n) trav tree =
     rbind (bst_t_next trav tree) (\<lambda>(item, trav', tree').
       case item of None \<Rightarrow> Inr [] | Some x \<Rightarrow> rbind (bst_walk n trav' tree') (\<lambda>xs. Inr (x # xs)))"

lemma bst_walk_stands:
  "stands tree trav x rest \<Longrightarrow> tree_ok tree \<Longrightarrow> length rest < n \<Longrightarrow> bst_walk n trav tree = Inr rest"
proof (induction rest arbitrary: n tree trav x)
  case Nil
  then obtain m where "n = Suc m" by (cases n) auto
  then show ?case using next_stands [OF Nil.prems(1,2)] by auto
next
  case (Cons y ys)
  then obtain m where m: "n = Suc m" "length ys < m" by (cases n) auto
  obtain t' tree' where "bst_t_next trav tree = Inr (Some y, t', tree')" "stands tree' t' y ys" "tree_ok tree'"
    using next_stands [OF Cons.prems(1,2)] by auto
  then show ?case using Cons.IH m by simp
qed

section \<open>The tree as a map\<close>

lemma bst_find_items:
  assumes "bst_inv tree"
  shows "bst_find tree k = map_option (Pair k) (smap_find (items tree) k)"
proof -
  have "smap_inv (inorder (bst_root tree))" using assms by (simp add: bst_inv_def)
  from find_node_items [OF this, of k] show ?thesis
    unfolding bst_find_def items_def by (cases "find_node (bst_root tree) k") (auto simp: prod_eq_iff split: option.splits dest!: sym [of "Some _"])
qed

lemma bst_probe_items:
  assumes "bst_inv tree"
  shows "items (snd (bst_probe tree (k, v))) = smap_insert k v (items tree) \<and> bst_inv (snd (bst_probe tree (k, v)))"
proof -
  have inv: "smap_inv (inorder (bst_root tree))" "bst_count tree = size (bst_root tree)" using assms by (auto simp: bst_inv_def)
  show ?thesis
  proof (cases "smap_find (items tree) k")
    case None
    have "size (probe_node (bst_root tree) (k, v)) = size (bst_root tree) + 1"
      using length_smap_insert [OF inv(1), of k v] None probe_node_items [OF inv(1), of k v]
      by (metis items_def length_inorder)
    then show ?thesis
      using None inv bst_find_items [OF assms, of k]
      by (simp add: bst_probe_def items_def probe_node_items bst_inv_def smap_inv_insert)
  next
    case (Some w)
    then show ?thesis
      using assms bst_find_items [OF assms, of k] smap_insert_present [OF inv(1), of k w v] by (simp add: bst_probe_def items_def)
  qed
qed

lemma bst_delete_items:
  assumes "bst_inv tree"
  shows "items (snd (bst_delete tree k)) = smap_erase k (items tree) \<and> bst_inv (snd (bst_delete tree k))"
proof -
  have inv: "smap_inv (inorder (bst_root tree))" "bst_count tree = size (bst_root tree)" using assms by (auto simp: bst_inv_def)
  show ?thesis
  proof (cases "smap_find (items tree) k")
    case None
    then show ?thesis using assms bst_find_items [OF assms, of k] by (simp add: bst_delete_def smap_erase_absent)
  next
    case (Some w)
    have "size (delete_node (bst_root tree) k) = size (bst_root tree) - 1"
      using length_smap_erase [of k "inorder (bst_root tree)"] Some delete_node_items [OF inv(1), of k]
      by (metis items_def length_inorder option.distinct(1))
    then show ?thesis
      using Some inv bst_find_items [OF assms, of k]
      by (simp add: bst_delete_def items_def delete_node_items bst_inv_def smap_inv_erase)
  qed
qed

definition get_value :: "('k::linorder, 'v) bst_table \<Rightarrow> 'k \<Rightarrow> 'v option" where
  "get_value tree k = map_option snd (bst_find tree k)"

lemma get_value_items: "bst_inv tree \<Longrightarrow> get_value tree k = smap_find (items tree) k"
  by (simp add: get_value_def bst_find_items option.map_comp comp_def option.map_ident)

interpretation bst: erasable bst_create get_value "\<lambda>k v tree. snd (bst_probe tree (k, v))" bst_inv "\<lambda>k tree. snd (bst_delete tree k)"
proof
  fix m :: "('a, 'b) bst_table" and k k' :: 'a and v :: 'b
  show "get_value bst_create k = None" by (simp add: get_value_def bst_find_def bst_create_def)
  show "bst_inv bst_create" by (simp add: bst_inv_def bst_create_def)
  assume m: "bst_inv m"
  have s: "smap_inv (items m)" using m by (simp add: bst_inv_def items_def)
  show "bst_inv (snd (bst_probe m (k, v)))" "bst_inv (snd (bst_delete m k))"
    using bst_probe_items [OF m] bst_delete_items [OF m] by auto
  then show "get_value (snd (bst_probe m (k, v))) k' = (if k' = k \<and> get_value m k = None then Some v else get_value m k')"
    "get_value (snd (bst_delete m k)) k' = (if k' = k then None else get_value m k')"
    using bst_probe_items [OF m, of k v] bst_delete_items [OF m, of k] m s
    by (simp_all add: get_value_items smap_find_insert smap_find_erase)
qed

lemma bst_destroy_inorder: "bst_destroy t = inorder t"
  by (induction t rule: bst_destroy.induct) (simp_all add: inorder_node)

end
