(* ===== verification/ConfigFile.thy ===== *)
theory ConfigFile
  imports ConfigIter
begin

text \<open>
  The configuration file, src/base/config_file.cc: the parser, a state machine over the characters of
  the file with the token buffer it writes to, and the queries on the result. The chunks in which the
  file is read do not matter, since the machine keeps its state between them. Messages on stderr are
  left out. The contents of fresh memory are an argument.
\<close>

datatype config_state =
  CONFIG_PARSE_INITIAL | CONFIG_PARSE_COMMENT | CONFIG_PARSE_QUOTED | CONFIG_PARSE_UNQUOTED
| CONFIG_HANDLE_NEWLINE | CONFIG_HANDLE_SEP

record config_t =
  comment_char :: char
  sep_char :: char
  str_char :: char
  table :: "(string, string) bst_table"
  traverser :: "(string, string) bst_traverser"
  iterating :: bool

definition init_config :: config_t where
  "init_config = \<lparr>comment_char = CHR ''#'', sep_char = CHR ''='', str_char = CHR 0x22, table = bst_create,
     traverser = bst_t_init bst_create, iterating = False\<rparr>"

text \<open>The variables of the parser: \<open>token\<close> is the buffer, \<open>t_pos\<close> the offset of \<open>t\<close>, the pair has no value before the end of its line.\<close>

record parser =
  state :: config_state
  token :: string
  t_pos :: nat
  got_tok :: bool
  cur_pair :: "string option"
  data :: config_t

definition NUL :: char where "NUL = CHR 0x00"
definition NEWLINE :: char where "NEWLINE = CHR 0x0A"

definition isspace :: "char \<Rightarrow> bool" where
  "isspace c \<longleftrightarrow> c \<in> {CHR 0x20, CHR 0x09, CHR 0x0A, CHR 0x0B, CHR 0x0C, CHR 0x0D}"

text \<open>A write of one character to the buffer; the string that strdup copies from it.\<close>

definition poke :: "nat \<Rightarrow> char \<Rightarrow> string \<Rightarrow> string result" where
  "poke i c buf = (if i < length buf then Inr (buf[i := c]) else Inl OutOfBounds)"

definition peek :: "string \<Rightarrow> string result" where
  "peek buf = (if NUL \<in> set buf then Inr (takeWhile (\<lambda>c. c \<noteq> NUL) buf) else Inl OutOfBounds)"

text \<open>Enlarge the buffer if needed, then *t++ = *p++. The test compares with the end of the buffer.\<close>

definition push_char :: "(nat \<Rightarrow> string) \<Rightarrow> char \<Rightarrow> parser \<Rightarrow> parser result" where
  "push_char raw c s =
     (let cap = length (token s);
          buf = (if t_pos s > cap then token s @ take cap (raw cap @ replicate cap NUL) else token s)
      in rbind (poke (t_pos s) c buf) (\<lambda>buf'. Inr (s\<lparr>token := buf', t_pos := t_pos s + 1\<rparr>)))"

definition end_token :: "parser \<Rightarrow> parser result" where
  "end_token s = rbind (poke (t_pos s) NUL (token s)) (\<lambda>buf. Inr (s\<lparr>token := buf, got_tok := True\<rparr>))"

definition end_unquoted :: "parser \<Rightarrow> parser result" where
  "end_unquoted s = (if t_pos s \<noteq> 0 then end_token s else Inr s)"

definition config_get :: "config_t \<Rightarrow> string \<Rightarrow> string option" where
  "config_get d key = map_option snd (bst_find (table d) key)"

section \<open>The machine\<close>

text \<open>
  One turn of the loop at the character \<open>c\<close>: whether the character is consumed, and the new state.
\<close>

definition turn :: "config_state \<Rightarrow> bool \<Rightarrow> parser \<Rightarrow> (bool \<times> parser) result" where
  "turn st consume s = Inr (consume, s\<lparr>state := st\<rparr>)"

definition parse_initial :: "(nat \<Rightarrow> string) \<Rightarrow> char \<Rightarrow> parser \<Rightarrow> (bool \<times> parser) result" where
  "parse_initial raw c s =
     (let d = data s in
      if c = comment_char d then turn CONFIG_PARSE_COMMENT True s
      else if c = str_char d then turn CONFIG_PARSE_QUOTED True (s\<lparr>t_pos := 0\<rparr>)
      else if c = NEWLINE then turn CONFIG_HANDLE_NEWLINE False s
      else if c = sep_char d then turn CONFIG_HANDLE_SEP True s
      else if isspace c then turn CONFIG_PARSE_INITIAL True s
      else rbind (push_char raw c (s\<lparr>t_pos := 0\<rparr>)) (turn CONFIG_PARSE_UNQUOTED True))"

definition parse_comment :: "char \<Rightarrow> parser \<Rightarrow> (bool \<times> parser) result" where
  "parse_comment c s =
     (if c = NEWLINE then turn CONFIG_HANDLE_NEWLINE False s else turn CONFIG_PARSE_COMMENT True s)"

definition parse_quoted :: "(nat \<Rightarrow> string) \<Rightarrow> char \<Rightarrow> parser \<Rightarrow> (bool \<times> parser) result" where
  "parse_quoted raw c s =
     (if c = str_char (data s) then rbind (end_token s) (turn CONFIG_PARSE_INITIAL True)
      else if c = NEWLINE then turn CONFIG_HANDLE_NEWLINE False s
      else rbind (push_char raw c s) (turn CONFIG_PARSE_QUOTED True))"

definition parse_unquoted :: "(nat \<Rightarrow> string) \<Rightarrow> char \<Rightarrow> parser \<Rightarrow> (bool \<times> parser) result" where
  "parse_unquoted raw c s =
     (let d = data s in
      if c = comment_char d then rbind (end_unquoted s) (turn CONFIG_PARSE_COMMENT True)
      else if c = NEWLINE then rbind (end_unquoted s) (turn CONFIG_HANDLE_NEWLINE False)
      else if c = sep_char d then rbind (end_unquoted s) (turn CONFIG_HANDLE_SEP True)
      else if isspace c then rbind (end_unquoted s) (turn CONFIG_PARSE_INITIAL True)
      else rbind (push_char raw c s) (turn CONFIG_PARSE_UNQUOTED True))"

definition handle_sep :: "parser \<Rightarrow> (bool \<times> parser) result" where
  "handle_sep s =
     rbind (if \<not> got_tok s then Inr None
            else rbind (peek (token s)) (\<lambda>key.
              if config_get (data s) key \<noteq> None then Inr None else Inr (Some key)))
       (\<lambda>p. turn CONFIG_PARSE_INITIAL False (s\<lparr>cur_pair := p, got_tok := False\<rparr>))"

definition handle_newline :: "parser \<Rightarrow> (bool \<times> parser) result" where
  "handle_newline s =
     rbind (case cur_pair s of
              None \<Rightarrow> Inr (data s)
            | Some key \<Rightarrow>
                rbind (if got_tok s then peek (token s) else Inr []) (\<lambda>v.
                  Inr ((data s)\<lparr>table := snd (bst_probe (table (data s)) (key, v))\<rparr>)))
       (\<lambda>d. turn CONFIG_PARSE_INITIAL True (s\<lparr>data := d, got_tok := False, cur_pair := None\<rparr>))"

definition parse_turn :: "(nat \<Rightarrow> string) \<Rightarrow> char \<Rightarrow> parser \<Rightarrow> (bool \<times> parser) result" where
  "parse_turn raw c s =
     (case state s of
        CONFIG_PARSE_INITIAL \<Rightarrow> parse_initial raw c s
      | CONFIG_PARSE_COMMENT \<Rightarrow> parse_comment c s
      | CONFIG_PARSE_QUOTED \<Rightarrow> parse_quoted raw c s
      | CONFIG_PARSE_UNQUOTED \<Rightarrow> parse_unquoted raw c s
      | CONFIG_HANDLE_SEP \<Rightarrow> handle_sep s
      | CONFIG_HANDLE_NEWLINE \<Rightarrow> handle_newline s)"

text \<open>
  The turns at one character. Two turns in a row do not both leave the character, since a turn that
  leaves it changes to a state that consumes it, or from CONFIG_HANDLE_SEP to CONFIG_PARSE_INITIAL; three
  turns are enough.
\<close>

fun parse_char :: "nat \<Rightarrow> (nat \<Rightarrow> string) \<Rightarrow> char \<Rightarrow> parser \<Rightarrow> parser result" where
  "parse_char 0 raw c s = Inl Diverge"
| "parse_char (Suc n) raw c s =
     rbind (parse_turn raw c s) (\<lambda>(consumed, s'). if consumed then Inr s' else parse_char n raw c s')"

fun parse_chars :: "(nat \<Rightarrow> string) \<Rightarrow> string \<Rightarrow> parser \<Rightarrow> parser result" where
  "parse_chars raw [] s = Inr s"
| "parse_chars raw (c # cs) s = rbind (parse_char 3 raw c s) (parse_chars raw cs)"

definition CONFIG_TOKSIZE :: nat where "CONFIG_TOKSIZE = 32"

definition start_parser :: "(nat \<Rightarrow> string) \<Rightarrow> parser" where
  "start_parser raw = \<lparr>state = CONFIG_PARSE_INITIAL, token = take CONFIG_TOKSIZE (raw CONFIG_TOKSIZE @ replicate CONFIG_TOKSIZE NUL),
     t_pos = 0, got_tok = False, cur_pair = None, data = init_config\<rparr>"

text \<open>The file, None if it cannot be opened; the return value 2 is ENOENT. At the end an unfinished pair is freed.\<close>

definition config_parse :: "(nat \<Rightarrow> string) \<Rightarrow> string option \<Rightarrow> (int \<times> config_t) result" where
  "config_parse raw file =
     (case file of
        None \<Rightarrow> Inr (2, init_config)
      | Some cs \<Rightarrow> rbind (parse_chars raw cs (start_parser raw)) (\<lambda>s. Inr (0, data s)))"

section \<open>Queries\<close>

definition config_iterate :: "config_t \<Rightarrow> ((string \<times> string) option \<times> config_t) result" where
  "config_iterate d =
     rbind (if iterating d then bst_t_next (traverser d) (table d) else bst_t_first (table d))
       (\<lambda>(pair, trav, tab). Inr (pair, d\<lparr>iterating := True, traverser := trav, table := tab\<rparr>))"

definition config_reset :: "config_t \<Rightarrow> config_t" where
  "config_reset d = d\<lparr>iterating := False\<rparr>"

text \<open>config_release frees the pairs in the order of bst_destroy.\<close>

definition config_release :: "config_t \<Rightarrow> (string \<times> string) list" where
  "config_release d = bst_destroy (bst_root (table d))"

text \<open>The loop of the client over config_iterate until it returns NULL.\<close>

fun iterate_all :: "nat \<Rightarrow> config_t \<Rightarrow> ((string \<times> string) list \<times> config_t) result" where
  "iterate_all 0 d = Inl Diverge"
| "iterate_all (Suc n) d =
     rbind (config_iterate d) (\<lambda>(pair, d').
       case pair of None \<Rightarrow> Inr ([], d')
       | Some kv \<Rightarrow> rbind (iterate_all n d') (\<lambda>(kvs, d''). Inr (kv # kvs, d'')))"

end
