(* ===== verification/ConfigProps.thy ===== *)
theory ConfigProps
  imports ConfigFile
begin

text \<open>
  The configuration: the tree is an ordered map that keeps its promises through balancing, a traversal
  visits its items in key order, and the parser reads back the lines of a file, up to the capacity of
  its token buffer.
\<close>

section \<open>The tree\<close>

lemma assign_node_items: "smap_inv (inorder t) \<Longrightarrow> smap_find (inorder t) k \<noteq> None
    \<Longrightarrow> inorder (assign_node t (k, v)) = smap_set k v (inorder t) \<and> size (assign_node t (k, v)) = size t"
proof (induction t)
  case (Node l x r)
  obtain a b where x: "x = (a, b)" by (cases x)
  have lt: "\<forall>y \<in> fst ` set (inorder l). y < a" "\<forall>y \<in> fst ` set (inorder r). a < y" and inv: "smap_inv (inorder l)" "smap_inv (inorder r)"
    using Node.prems(1) unfolding smap_inv_node by (auto simp: x)
  have set_left: "k < a \<Longrightarrow> smap_set k v (xs @ (a, b) # ys) = smap_set k v xs @ (a, b) # ys" for xs ys
    by (induction xs) auto
  have set_right: "\<forall>y \<in> fst ` set xs. y < k \<Longrightarrow> smap_set k v (xs @ ys) = xs @ smap_set k v ys" for xs ys
    by (induction xs) auto
  consider "k < a" "\<not> a < k" "k \<noteq> a" | "k = a" | "a < k" "\<not> k < a" "k \<noteq> a" by fastforce
  then show ?case
  proof cases
    case 1
    then have "smap_find (inorder r) k = None" using lt by (intro smap_find_outside(2)) auto
    then have "smap_find (inorder l) k \<noteq> None" using Node.prems(2) 1 by (auto simp: inorder_node x smap_find_append split: option.splits)
    then show ?thesis using 1 Node.IH(1) [OF inv(1)] by (simp add: inorder_node x set_left)
  next
    case 2
    then have "\<forall>y \<in> fst ` set (inorder l). y < k" using lt by simp
    then show ?thesis using 2 set_right [of "inorder l" "(a, b) # inorder r"] by (simp add: inorder_node x)
  next
    case 3
    then have l: "\<forall>y \<in> fst ` set (inorder l). y < k" using lt by fastforce
    then have "smap_find (inorder l) k = None" by (intro smap_find_outside(1)) auto
    then have "smap_find (inorder r) k \<noteq> None" using Node.prems(2) 3 by (auto simp: inorder_node x smap_find_append)
    then show ?thesis using l 3 Node.IH(2) [OF inv(2)] by (simp add: inorder_node x set_right)
  qed
qed simp

lemma smap_set_new: "smap_inv m \<Longrightarrow> smap_find m k = None \<Longrightarrow> smap_set k v m = smap_insert k v m"
  by (induction k v m rule: smap_insert.induct) (auto split: if_splits)

lemma bst_replace_items:
  assumes "bst_inv tree"
  shows "items (snd (bst_replace tree (k, v))) = smap_set k v (items tree) \<and> bst_inv (snd (bst_replace tree (k, v)))"
proof -
  have inv: "smap_inv (items tree)" "bst_count tree = size (bst_root tree)" using assms by (auto simp: bst_inv_def items_def)
  show ?thesis
  proof (cases "smap_find (items tree) k")
    case None
    then show ?thesis
      using bst_probe_items [OF assms, of k v] bst_find_items [OF assms, of k] smap_set_new [OF inv(1) None]
      by (auto simp: bst_replace_def split: prod.splits)
  next
    case (Some w)
    have a: "inorder (assign_node (bst_root tree) (k, v)) = smap_set k v (items tree)" "size (assign_node (bst_root tree) (k, v)) = size (bst_root tree)"
      using assign_node_items [of "bst_root tree" k v] inv(1) Some by (auto simp: items_def)
    show ?thesis
      using bst_find_items [OF assms, of k] Some a inv
      by (simp add: bst_replace_def bst_probe_def items_def bst_inv_def smap_inv_set)
  qed
qed

text \<open>C29: the tree refines the ordered map. On a well-formed tree every operation does to the sequence of
  the items what the map operation of the same name does, answers what the map holds before, and leaves
  the tree well-formed; bst_probe keeps an item that is there, bst_replace overwrites it, bst_delete
  removes it, and bst_destroy hands every item to the destructor once, in key order.\<close>

theorem tree_refines_map:
  fixes tree :: "('k::linorder, 'v) bst_table"
  assumes "bst_inv tree"
  shows "bst_find tree k = map_option (Pair k) (smap_find (items tree) k)
    \<and> items (snd (bst_probe tree (k, v))) = smap_insert k v (items tree)
    \<and> fst (bst_probe tree (k, v)) = (k, case smap_find (items tree) k of None \<Rightarrow> v | Some w \<Rightarrow> w)
    \<and> items (snd (bst_insert tree (k, v))) = smap_insert k v (items tree)
    \<and> fst (bst_insert tree (k, v)) = bst_find tree k
    \<and> items (snd (bst_replace tree (k, v))) = smap_set k v (items tree)
    \<and> fst (bst_replace tree (k, v)) = bst_find tree k
    \<and> items (snd (bst_delete tree k)) = smap_erase k (items tree)
    \<and> fst (bst_delete tree k) = bst_find tree k
    \<and> bst_destroy (bst_root tree) = items tree
    \<and> bst_inv (snd (bst_probe tree (k, v))) \<and> bst_inv (snd (bst_insert tree (k, v)))
    \<and> bst_inv (snd (bst_replace tree (k, v))) \<and> bst_inv (snd (bst_delete tree k))"
proof -
  have "fst (bst_probe tree (k, v)) = (k, case smap_find (items tree) k of None \<Rightarrow> v | Some w \<Rightarrow> w)"
      "fst (bst_insert tree (k, v)) = bst_find tree k" "snd (bst_insert tree (k, v)) = snd (bst_probe tree (k, v))"
      "fst (bst_replace tree (k, v)) = bst_find tree k" "fst (bst_delete tree k) = bst_find tree k"
    using bst_find_items [OF assms, of k]
    by (auto simp: bst_probe_def bst_insert_def bst_replace_def bst_delete_def split: option.splits)
  then show ?thesis
    using bst_find_items [OF assms] bst_probe_items [OF assms] bst_replace_items [OF assms] bst_delete_items [OF assms]
    by (simp add: bst_destroy_inorder items_def)
qed

definition sample_tree :: "(string, string) bst_table" where
  "sample_tree = \<lparr>bst_root = Node (Node Leaf (''a'', ''1'') Leaf) (''b'', ''2'') Leaf, bst_count = 2, bst_generation = 0\<rparr>"

lemma sample_tree_inv: "bst_inv sample_tree"
  by (simp add: bst_inv_def sample_tree_def smap_inv_def inorder_node)

lemma tree_refines_map_witness:
  "items (snd (bst_delete sample_tree ''b'')) = [(''a'', ''1'')]
    \<and> items (snd (bst_replace sample_tree (''a'', ''3''))) = [(''a'', ''3''), (''b'', ''2'')]
    \<and> items (snd (bst_probe sample_tree (''c'', ''3''))) = [(''a'', ''1''), (''b'', ''2''), (''c'', ''3'')]"
  using tree_refines_map [OF sample_tree_inv, of "''b''"] tree_refines_map [OF sample_tree_inv, of "''a''" "''3''"]
    tree_refines_map [OF sample_tree_inv, of "''c''" "''3''"]
  by (simp add: items_def sample_tree_def inorder_node)

text \<open>C30: balancing always succeeds for fewer than 2^31 items, keeps the items and their number, invalidates
  the traversers, and leaves a tree at most one level higher than the lowest tree with as many items, so
  that every traversal fits in the stack of 32 nodes.\<close>

theorem tree_balanced:
  fixes tree :: "('k::linorder, 'v) bst_table"
  assumes "bst_inv tree" "bst_count tree < 2 ^ 31"
  shows "\<exists>tree'. bst_balance tree = Inr tree' \<and> bst_inv tree' \<and> items tree' = items tree \<and> bst_count tree' = bst_count tree
    \<and> bst_generation tree' = bst_generation tree + 1
    \<and> 2 ^ height (bst_root tree') \<le> 2 * (bst_count tree + 1) \<and> height (bst_root tree') \<le> BST_MAX_HEIGHT
    \<and> (\<forall>t :: ('k, 'v) bst_node. size t = bst_count tree \<longrightarrow> height (bst_root tree') \<le> height t + 1)"
proof -
  obtain tree' where t: "bst_balance tree = Inr tree'" "items tree' = items tree" "bst_count tree' = bst_count tree"
      "size (bst_root tree') = size (bst_root tree)" "bst_generation tree' = bst_generation tree + 1"
      "2 ^ height (bst_root tree') \<le> 2 * (bst_count tree + 1)" "height (bst_root tree') \<le> BST_MAX_HEIGHT"
    using bst_balance_outcome [of tree] assms by (auto simp: bst_inv_def)
  have "height (bst_root tree') \<le> height t + 1" if "size t = bst_count tree" for t :: "('k, 'v) bst_node"
  proof -
    have "size t + 1 \<le> 2 ^ height t" using size1_height [of t] by (simp add: size1_size)
    then have "(2 :: nat) ^ height (bst_root tree') \<le> 2 ^ (height t + 1)" using t(6) that by simp
    then show ?thesis by (rule power_le_imp_le_exp [rotated]) simp
  qed
  then show ?thesis using t assms(1) by (auto simp: bst_inv_def items_def)
qed

lemma tree_balanced_witness:
  "\<exists>tree'. bst_balance sample_tree = Inr tree' \<and> items tree' = [(''a'', ''1''), (''b'', ''2'')] \<and> height (bst_root tree') \<le> BST_MAX_HEIGHT"
  using tree_balanced [OF sample_tree_inv] by (simp add: items_def sample_tree_def inorder_node) blast

section \<open>Traversals\<close>

lemma find_path_None: "find_path st t k = None \<Longrightarrow> BST_MAX_HEIGHT < length st + height t"
  by (induction st t k rule: find_path.induct) (auto split: if_splits)

lemma find_path_Some:
  "find_path st t k = Some (st', node) \<Longrightarrow> path st root t \<Longrightarrow> smap_inv (inorder root) \<Longrightarrow>
    (case smap_find (inorder t) k of None \<Rightarrow> node = Leaf
     | Some v \<Rightarrow> (\<exists>l r. node = Node l (k, v) r) \<and> path st' root node)"
proof (induction st t k rule: find_path.induct)
  case (2 st l x r k)
  obtain a b where x: "x = (a, b)" by (cases x)
  have inv: "smap_inv (inorder (Node l x r))" using path_inv [OF 2(3,4)] .
  then have lt: "\<forall>y \<in> fst ` set (inorder l). y < a" "\<forall>y \<in> fst ` set (inorder r). a < y"
    unfolding smap_inv_node by (auto simp: x)
  consider "k < a" "k \<noteq> a" | "k = a" | "a < k" "\<not> k < a" "k \<noteq> a" by fastforce
  then show ?case
  proof cases
    case 1
    then have "smap_find (inorder r) k = None" using lt by (intro smap_find_outside(2)) auto
    then have "smap_find (inorder (Node l x r)) k = smap_find (inorder l) k"
      using 1 by (auto simp: inorder_node x smap_find_append split: option.splits)
    then show ?thesis using 1 2 by (simp add: x split: if_splits)
  next
    case 2
    then have "smap_find (inorder l) k = None" using lt by (intro smap_find_outside(1)) auto
    then show ?thesis using 2 "2.prems" by (auto simp: inorder_node x smap_find_append)
  next
    case 3
    then have "smap_find (inorder l) k = None" using lt by (intro smap_find_outside(1)) auto
    then have "smap_find (inorder (Node l x r)) k = smap_find (inorder r) k"
      using 3 by (simp add: inorder_node x smap_find_append)
    then show ?thesis using 3 2 by (simp add: x split: if_splits)
  qed
qed simp

text \<open>bst_t_find stands at the item, after balancing if the way down is too long.\<close>

lemma t_find_low:
  assumes "tree_ok tree" "find_path [] (bst_root tree) k \<noteq> None"
  shows "case smap_find (items tree) k of None \<Rightarrow> \<exists>tr. t_find (Suc n) k tree = Inr (None, tr, tree)
    | Some v \<Rightarrow> \<exists>tr rest. t_find (Suc n) k tree = Inr (Some (k, v), tr, tree) \<and> stands tree tr (k, v) rest"
proof -
  obtain st node where f: "find_path [] (bst_root tree) k = Some (st, node)" using assms(2) by auto
  have "smap_inv (inorder (bst_root tree))" using assms(1) by (simp add: tree_ok_def bst_inv_def)
  note s = find_path_Some [OF f path.simps(1) [THEN iffD2, OF refl] this]
  show ?thesis
  proof (cases "smap_find (items tree) k")
    case None
    then show ?thesis using s f by (simp add: at_node_def item_of_def items_def)
  next
    case (Some v)
    then obtain l r where "node = Node l (k, v) r" "path st (bst_root tree) node" using s by (auto simp: items_def)
    then show ?thesis using Some f by (simp add: at_node_def item_of_def stands_def)
  qed
qed

lemma find_stands:
  assumes "tree_ok tree"
  shows "case smap_find (items tree) k of None \<Rightarrow> \<exists>tr tree'. bst_t_find k tree = Inr (None, tr, tree') \<and> items tree' = items tree
    | Some v \<Rightarrow> \<exists>tr tree' rest. bst_t_find k tree = Inr (Some (k, v), tr, tree') \<and> stands tree' tr (k, v) rest
        \<and> tree_ok tree' \<and> items tree' = items tree"
proof (cases "find_path [] (bst_root tree) k")
  case (Some p)
  then show ?thesis using t_find_low [OF assms, of k 1] assms
    by (auto simp: bst_t_find_def numeral_2_eq_2 simp del: t_find.simps split: option.splits)
next
  case None
  obtain tree' where b: "bst_balance tree = Inr tree'" "tree_ok tree'" "items tree' = items tree" "height (bst_root tree') \<le> BST_MAX_HEIGHT"
    using balanced [OF assms] by metis
  then have "find_path [] (bst_root tree') k \<noteq> None" using find_path_None [of "[]" "bst_root tree'" k] by fastforce
  note low = t_find_low [OF b(2) this, of 0]
  have "bst_t_find k tree = t_find (Suc 0) k tree'" using None b(1) by (simp add: bst_t_find_def numeral_2_eq_2)
  then show ?thesis using low b(2,3) by (auto simp del: t_find.simps split: option.splits)
qed

text \<open>C13: a fresh traverser visits every item once, in key order, and then returns NULL; a traverser that
  bst_t_find sets visits exactly the items behind it. Both hold through the balancing that a deep tree
  triggers on the way, and no assertion fails.\<close>

theorem traversal_in_order:
  fixes tree :: "('k::linorder, 'v) bst_table"
  assumes "bst_inv tree" "bst_count tree < 2 ^ 31" "bst_count tree < n"
  shows "bst_walk n (bst_t_init tree) tree = Inr (items tree)
    \<and> (\<forall>pre k v rest. items tree = pre @ (k, v) # rest \<longrightarrow>
         (\<exists>tr tree'. bst_t_find k tree = Inr (Some (k, v), tr, tree') \<and> bst_walk n tr tree' = Inr rest))"
proof (intro conjI allI impI)
  have ok: "tree_ok tree" using assms by (simp add: tree_ok_def)
  have inv: "smap_inv (items tree)" using assms(1) by (simp add: bst_inv_def items_def)
  have len: "length (items tree) < n" using assms(1,3) by (simp add: bst_inv_def items_def)
  then obtain m where m: "n = Suc m" by (cases n) auto
  have first: "bst_t_next (bst_t_init tree) tree = bst_t_first tree"
    by (simp add: bst_t_next_def bst_t_init_def numeral_2_eq_2 fresh_trav_def)
  show "bst_walk n (bst_t_init tree) tree = Inr (items tree)"
  proof (cases "items tree")
    case Nil
    then show ?thesis using first_empty [OF Nil] first m by auto
  next
    case (Cons y ys)
    obtain tr tree' where "bst_t_first tree = Inr (Some y, tr, tree')" "stands tree' tr y ys" "tree_ok tree'"
      using first_stands [OF ok Cons] by auto
    then show ?thesis using bst_walk_stands [of tree' tr y ys m] first m len Cons by simp
  qed
  fix pre k v rest assume cut: "items tree = pre @ (k, v) # rest"
  then have "smap_find (items tree) k = Some v" using inv by (intro smap_in_find) auto
  then obtain tr tree' rest' where f: "bst_t_find k tree = Inr (Some (k, v), tr, tree')" "stands tree' tr (k, v) rest'"
      "tree_ok tree'" "items tree' = items tree" using find_stands [OF ok, of k] by auto
  obtain pre' where cut': "items tree = pre' @ (k, v) # rest'" using stands_items(1) [OF f(2,3)] f(4) by auto
  have "rest' = rest" using same_key_cut [OF inv cut' cut refl] by simp
  moreover have "length rest' < n" using len cut' by simp
  ultimately show "\<exists>tr tree'. bst_t_find k tree = Inr (Some (k, v), tr, tree') \<and> bst_walk n tr tree' = Inr rest"
    using f(1) bst_walk_stands [OF f(2,3)] by auto
qed

lemma traversal_in_order_witness:
  "bst_walk 3 (bst_t_init sample_tree) sample_tree = Inr [(''a'', ''1''), (''b'', ''2'')]
    \<and> (\<exists>tr tree'. bst_t_find ''a'' sample_tree = Inr (Some (''a'', ''1''), tr, tree') \<and> bst_walk 3 tr tree' = Inr [(''b'', ''2'')])"
proof -
  have "bst_count sample_tree < 2 ^ 31" "bst_count sample_tree < 3" by (simp_all add: sample_tree_def)
  from traversal_in_order [OF sample_tree_inv this]
  have t: "bst_walk 3 (bst_t_init sample_tree) sample_tree = Inr (items sample_tree)"
    "items sample_tree = pre @ (k, v) # rest \<Longrightarrow>
       \<exists>tr tree'. bst_t_find k sample_tree = Inr (Some (k, v), tr, tree') \<and> bst_walk 3 tr tree' = Inr rest" for pre k v rest
    by (blast, blast)
  have i: "items sample_tree = [(''a'', ''1''), (''b'', ''2'')]" by (simp add: items_def sample_tree_def inorder_node)
  show ?thesis using t(1) t(2) [of "[]" "''a''" "''1''" "[(''b'', ''2'')]"] unfolding i by simp
qed

end
