(* ===== verification/ConfigParse.thy ===== *)
theory ConfigParse
  imports ConfigProps
begin

text \<open>
  The parser of the configuration file: it ends on every file, reads back the settings of a file whose
  tokens fit its buffer, and writes outside of the buffer otherwise.
\<close>

section \<open>Every turn\<close>

definition memory_only :: "'a result \<Rightarrow> bool" where
  "memory_only r \<longleftrightarrow> (case r of Inl e \<Rightarrow> e = OutOfBounds | Inr x \<Rightarrow> True)"

lemma memory_only_simps [simp]: "memory_only (Inr x)" "memory_only (Inl OutOfBounds)"
  by (simp_all add: memory_only_def)

lemma memory_only_bind: "memory_only m \<Longrightarrow> (\<And>x. m = Inr x \<Longrightarrow> memory_only (f x)) \<Longrightarrow> memory_only (rbind m f)"
  by (cases m) (auto simp: memory_only_def)

lemma memory_only_poke [simp]: "memory_only (poke i c buf)" "memory_only (peek buf)"
  by (simp_all add: poke_def peek_def)

lemma memory_only_push [simp]: "memory_only (push_char raw c s)" "memory_only (end_token s)" "memory_only (end_unquoted s)"
  by (auto simp: push_char_def Let_def end_token_def end_unquoted_def intro!: memory_only_bind)

lemma turn_inr [simp]: "turn st b s = Inr (b, s\<lparr>state := st\<rparr>)"
  by (simp add: turn_def)

lemma memory_only_turn [simp]: "memory_only m \<Longrightarrow> memory_only (rbind m (turn st b))"
  by (rule memory_only_bind) auto

lemma handlers_memory_only [simp]:
  "memory_only (parse_initial raw c s)" "memory_only (parse_comment c s)" "memory_only (parse_quoted raw c s)"
  "memory_only (parse_unquoted raw c s)"
  by (simp_all add: parse_initial_def parse_comment_def parse_quoted_def parse_unquoted_def Let_def)

lemma handle_memory_only [simp]: "memory_only (handle_sep s)" "memory_only (handle_newline s)"
  using memory_only_poke(2) [of "token s"]
  by (cases "peek (token s)"; simp add: handle_sep_def handle_newline_def memory_only_def split: option.split)+

lemma turn_memory_only [simp]: "memory_only (parse_turn raw c s)"
  by (simp add: parse_turn_def split: config_state.split)

lemma writes_keep [simp]:
  "push_char raw c s = Inr s' \<Longrightarrow> data s' = data s" "end_token s = Inr s' \<Longrightarrow> data s' = data s"
  "end_unquoted s = Inr s' \<Longrightarrow> data s' = data s"
  by (auto simp: push_char_def Let_def end_token_def end_unquoted_def split: if_splits)

text \<open>
  What a turn does to the data and to the control state: only a newline changes the data, and only a
  turn that leaves a newline behind makes it pending.
\<close>

lemma turn_effect:
  assumes "parse_turn raw c s = Inr (b, s')"
  shows "(state s \<noteq> CONFIG_HANDLE_NEWLINE \<longrightarrow> data s' = data s)
    \<and> (state s = CONFIG_HANDLE_NEWLINE \<longrightarrow> b \<and> state s' = CONFIG_PARSE_INITIAL)
    \<and> (state s = CONFIG_HANDLE_SEP \<longrightarrow> \<not> b \<and> state s' = CONFIG_PARSE_INITIAL)
    \<and> (b \<longrightarrow> state s' \<noteq> CONFIG_HANDLE_NEWLINE)
    \<and> (\<not> b \<and> state s \<noteq> CONFIG_HANDLE_SEP \<longrightarrow> c = NEWLINE \<and> state s' = CONFIG_HANDLE_NEWLINE)"
  using assms
  by (cases "state s")
    (auto simp: parse_turn_def parse_initial_def parse_comment_def parse_quoted_def parse_unquoted_def
      handle_sep_def handle_newline_def Let_def split: if_splits)

lemma turn_inv: "parse_turn raw c s = Inr (b, s') \<Longrightarrow> bst_inv (table (data s)) \<Longrightarrow> bst_inv (table (data s'))"
proof (cases "state s = CONFIG_HANDLE_NEWLINE")
  case True
  assume "parse_turn raw c s = Inr (b, s')" "bst_inv (table (data s))"
  then show ?thesis using True bst_probe_items [of "table (data s)"]
    by (auto simp: parse_turn_def handle_newline_def split: option.splits)
next
  case False
  assume "parse_turn raw c s = Inr (b, s')" "bst_inv (table (data s))"
  then show ?thesis using turn_effect [of raw c s b s'] False by simp
qed

text \<open>The turns at one character, in terms of the first one.\<close>

lemma parse_char_Suc:
  "parse_turn raw c s = Inr (True, s') \<Longrightarrow> parse_char (Suc n) raw c s = Inr s'"
  "parse_turn raw c s = Inr (False, s') \<Longrightarrow> parse_char (Suc n) raw c s = parse_char n raw c s'"
  "parse_turn raw c s = Inl e \<Longrightarrow> parse_char (Suc n) raw c s = Inl e"
  by simp_all

text \<open>The number of turns that a character can still take.\<close>

definition turns_left :: "config_state \<Rightarrow> nat" where
  "turns_left st = (case st of CONFIG_HANDLE_SEP \<Rightarrow> 3 | CONFIG_HANDLE_NEWLINE \<Rightarrow> 1 | _ \<Rightarrow> 2)"

lemma turns_left_less: "parse_turn raw c s = Inr (False, s') \<Longrightarrow> turns_left (state s') < turns_left (state s)"
  using turn_effect [of raw c s False s'] by (cases "state s") (auto simp: turns_left_def)

lemma char_ends: "turns_left (state s) \<le> n \<Longrightarrow> memory_only (parse_char n raw c s)"
proof (induction n arbitrary: s)
  case 0
  then show ?case by (simp add: turns_left_def split: config_state.splits)
next
  case (Suc n)
  consider s' where "parse_turn raw c s = Inr (True, s')" | s' where "parse_turn raw c s = Inr (False, s')"
    | e where "parse_turn raw c s = Inl e"
    by (metis (full_types) sum.exhaust surj_pair)
  then show ?case
  proof cases
    case 2
    then show ?thesis using Suc turns_left_less [OF 2] parse_char_Suc(2) [OF 2, of n] by simp
  next
    case 3
    then show ?thesis using turn_memory_only [of raw c s] by (simp add: memory_only_def)
  qed (simp add: parse_char_Suc)
qed

lemma char_memory_only [simp]: "memory_only (parse_char 3 raw c s)"
  by (rule char_ends) (simp add: turns_left_def split: config_state.split)

lemma char_keeps:
  "parse_char n raw c s = Inr s' \<Longrightarrow> bst_inv (table (data s)) \<Longrightarrow> (state s = CONFIG_HANDLE_NEWLINE \<longrightarrow> c = NEWLINE) \<Longrightarrow>
    bst_inv (table (data s')) \<and> state s' \<noteq> CONFIG_HANDLE_NEWLINE \<and> (c \<noteq> NEWLINE \<longrightarrow> data s' = data s)"
proof (induction n arbitrary: s)
  case (Suc n)
  then obtain b u where u: "parse_turn raw c s = Inr (b, u)" "(if b then Inr u else parse_char n raw c u) = Inr s'"
    by (auto split: if_splits)
  note t = turn_effect [OF u(1)] turn_inv [OF u(1) Suc.prems(2)]
  show ?case
  proof (cases b)
    case True
    then have [simp]: "s' = u" using u(2) by simp
    show ?thesis using t True Suc.prems(3) by auto
  next
    case False
    then have p: "parse_char n raw c u = Inr s'" "state u = CONFIG_HANDLE_NEWLINE \<longrightarrow> c = NEWLINE" "state s \<noteq> CONFIG_HANDLE_NEWLINE"
      using u(2) t(1) by auto
    then show ?thesis using Suc.IH [OF p(1) t(2) p(2)] t(1) by simp
  qed
qed simp

lemma chars_ends [simp]: "memory_only (parse_chars raw cs s)"
  by (induction cs arbitrary: s) (auto intro!: memory_only_bind)

lemma chars_keep:
  "parse_chars raw cs s = Inr s' \<Longrightarrow> bst_inv (table (data s)) \<Longrightarrow> state s \<noteq> CONFIG_HANDLE_NEWLINE \<Longrightarrow>
    bst_inv (table (data s')) \<and> state s' \<noteq> CONFIG_HANDLE_NEWLINE \<and> (NEWLINE \<notin> set cs \<longrightarrow> data s' = data s)"
proof (induction cs arbitrary: s)
  case (Cons c cs)
  then obtain u where u: "parse_char 3 raw c s = Inr u" "parse_chars raw cs u = Inr s'" by auto
  show ?case using char_keeps [OF u(1) Cons.prems(2)] Cons.prems(3) Cons.IH [OF u(2)] by auto
qed simp

lemma parse_chars_append: "parse_chars raw (xs @ ys) s = rbind (parse_chars raw xs s) (parse_chars raw ys)"
proof (induction xs arbitrary: s)
  case (Cons c xs)
  then show ?case by (cases "parse_char 3 raw c s") auto
qed simp

section \<open>Tokens\<close>

text \<open>The token that the buffer holds up to \<open>t\<close>.\<close>

definition holds :: "string \<Rightarrow> parser \<Rightarrow> bool" where
  "holds w s \<longleftrightarrow> t_pos s = length w \<and> length w \<le> length (token s) \<and> take (length w) (token s) = w"

lemma push_holds:
  assumes "holds w s" "length w < length (token s)"
  shows "\<exists>tok. push_char raw c s = Inr (s\<lparr>token := tok, t_pos := t_pos s + 1\<rparr>) \<and> length tok = length (token s)
    \<and> holds (w @ [c]) (s\<lparr>token := tok, t_pos := t_pos s + 1\<rparr>) \<and> drop (length w + 1) tok = drop (length w + 1) (token s)"
  using assms by (auto simp: push_char_def holds_def poke_def Let_def take_Suc_conv_app_nth)

lemma push_full: "length (token s) \<le> t_pos s \<Longrightarrow> t_pos s \<le> length (token s) \<Longrightarrow> push_char raw c s = Inl OutOfBounds"
  by (simp add: push_char_def poke_def Let_def)

text \<open>Characters of a token without quotes and with quotes.\<close>

definition default_chars :: "parser \<Rightarrow> bool" where
  "default_chars s \<longleftrightarrow> comment_char (data s) = CHR ''#'' \<and> sep_char (data s) = CHR ''='' \<and> str_char (data s) = CHR 0x22"

definition plain :: "char \<Rightarrow> bool" where
  "plain c \<longleftrightarrow> c \<notin> {CHR ''#'', CHR ''='', CHR 0x22, NUL} \<and> \<not> isspace c"

definition quotable :: "char \<Rightarrow> bool" where
  "quotable c \<longleftrightarrow> c \<notin> {CHR 0x22, NEWLINE, NUL}"

lemma NEWLINE_simps [simp]: "isspace NEWLINE" "NEWLINE \<noteq> CHR ''#''" "NEWLINE \<noteq> CHR ''=''" "NEWLINE \<noteq> CHR 0x22"
    "CHR ''#'' \<noteq> NEWLINE" "CHR ''='' \<noteq> NEWLINE" "CHR 0x22 \<noteq> NEWLINE" "NEWLINE \<noteq> NUL"
  by (simp_all add: NEWLINE_def NUL_def isspace_def)

text \<open>The states of the parser that collect the characters of a token that satisfy \<open>P\<close>.\<close>

definition collects :: "(char \<Rightarrow> bool) \<Rightarrow> config_state \<Rightarrow> bool" where
  "collects P st \<longleftrightarrow> (\<forall>raw c s. P c \<longrightarrow> default_chars s \<longrightarrow> state s = st \<longrightarrow>
     parse_turn raw c s = rbind (push_char raw c s) (turn st True))"

lemma collects_unquoted: "collects plain CONFIG_PARSE_UNQUOTED"
  by (auto simp: collects_def parse_turn_def parse_unquoted_def default_chars_def plain_def Let_def)

lemma collects_quoted: "collects quotable CONFIG_PARSE_QUOTED"
  by (auto simp: collects_def parse_turn_def parse_quoted_def default_chars_def quotable_def)

lemma plain_nonspace: "plain c \<Longrightarrow> c \<noteq> NEWLINE"
  by (auto simp: plain_def)

lemma initial_plain:
  "plain c \<Longrightarrow> default_chars s \<Longrightarrow> state s = CONFIG_PARSE_INITIAL \<Longrightarrow>
    parse_turn raw c s = rbind (push_char raw c (s\<lparr>t_pos := 0\<rparr>)) (turn CONFIG_PARSE_UNQUOTED True)"
  using plain_nonspace [of c] by (auto simp: parse_turn_def parse_initial_def default_chars_def plain_def Let_def)

lemma collect:
  assumes "collects P st"
  shows "holds w s \<Longrightarrow> state s = st \<Longrightarrow> default_chars s \<Longrightarrow> \<forall>c \<in> set cs. P c \<Longrightarrow> length w + length cs \<le> length (token s) \<Longrightarrow>
    \<exists>tok. parse_chars raw cs s = Inr (s\<lparr>token := tok, t_pos := length w + length cs\<rparr>) \<and> length tok = length (token s)
      \<and> take (length w + length cs) tok = w @ cs \<and> drop (length w + length cs) tok = drop (length w + length cs) (token s)"
proof (induction cs arbitrary: w s)
  case Nil
  then show ?case by (intro exI [of _ "token s"]) (auto simp: holds_def)
next
  case (Cons c cs)
  let ?s = "\<lambda>tok. s\<lparr>token := tok, t_pos := t_pos s + 1\<rparr>"
  obtain tok where t: "push_char raw c s = Inr (?s tok)" "length tok = length (token s)" "holds (w @ [c]) (?s tok)"
      "drop (length w + 1) tok = drop (length w + 1) (token s)"
    using push_holds [OF Cons.prems(1), of raw c] Cons.prems(5) by auto
  have "?s tok\<lparr>state := st\<rparr> = ?s tok" using Cons.prems(2) by simp
  then have "parse_char 3 raw c s = Inr (?s tok)"
    using assms Cons.prems(2,3,4) t(1) unfolding collects_def numeral_3_eq_3 by simp
  moreover obtain tok' where "parse_chars raw cs (?s tok) = Inr (?s tok\<lparr>token := tok', t_pos := length (w @ [c]) + length cs\<rparr>)"
      "length tok' = length tok" "take (length (w @ [c]) + length cs) tok' = (w @ [c]) @ cs"
      "drop (length (w @ [c]) + length cs) tok' = drop (length (w @ [c]) + length cs) tok"
    using Cons.IH [OF t(3)] Cons.prems t(2) by (auto simp: default_chars_def)
  moreover have "drop (length (w @ [c]) + length cs) tok = drop (length (w @ [c]) + length cs) (token s)"
    using arg_cong [OF t(4), of "drop (length cs)"] by (simp add: add.commute)
  ultimately show ?case using t(2) by (intro exI [of _ tok']) simp
qed

text \<open>The first character of a token.\<close>

lemma holds_nil [simp]: "holds [] (s\<lparr>t_pos := 0\<rparr>)"
  by (simp add: holds_def)

lemma unquoted_word:
  assumes "state s = CONFIG_PARSE_INITIAL" "default_chars s" "w \<noteq> []" "\<forall>c \<in> set w. plain c" "length w \<le> length (token s)"
  shows "\<exists>tok. parse_chars raw w s = Inr (s\<lparr>state := CONFIG_PARSE_UNQUOTED, token := tok, t_pos := length w\<rparr>)
    \<and> length tok = length (token s) \<and> take (length w) tok = w \<and> drop (length w) tok = drop (length w) (token s)"
proof -
  obtain c cs where w: "w = c # cs" using assms(3) by (cases w) auto
  let ?s = "\<lambda>tok. s\<lparr>state := CONFIG_PARSE_UNQUOTED, token := tok, t_pos := 1\<rparr>"
  obtain tok where t: "push_char raw c (s\<lparr>t_pos := 0\<rparr>) = Inr (s\<lparr>token := tok, t_pos := 1\<rparr>)" "length tok = length (token s)"
      "holds [c] (s\<lparr>token := tok, t_pos := 1\<rparr>)" "drop 1 tok = drop 1 (token s)"
    using push_holds [OF holds_nil, of s raw c] assms(5) w by (cases "token s") auto
  have "parse_char 3 raw c s = Inr (?s tok)"
    using t(1) initial_plain [of c s raw] assms(1,2,4) w unfolding numeral_3_eq_3 by simp
  moreover have "holds [c] (?s tok)" using t(3) by (simp add: holds_def)
  then obtain tok' where "parse_chars raw cs (?s tok) = Inr (?s tok\<lparr>token := tok', t_pos := length [c] + length cs\<rparr>)"
      "length tok' = length tok" "take (length [c] + length cs) tok' = [c] @ cs" "drop (length [c] + length cs) tok' = drop (length [c] + length cs) tok"
    using collect [OF collects_unquoted, of "[c]" "?s tok" cs raw] assms(2,4,5) w t(2) by (auto simp: default_chars_def)
  moreover have "drop (1 + length cs) tok = drop (1 + length cs) (token s)"
    using arg_cong [OF t(4), of "drop (length cs)"] by (simp add: add.commute)
  ultimately show ?thesis using w t(2) by (intro exI [of _ tok']) simp
qed

text \<open>A token that does not fit.\<close>

lemma collect_full:
  assumes "collects P st"
  shows "holds w s \<Longrightarrow> state s = st \<Longrightarrow> default_chars s \<Longrightarrow> \<forall>c \<in> set cs. P c \<Longrightarrow> length (token s) < length w + length cs \<Longrightarrow>
    parse_chars raw cs s = Inl OutOfBounds"
proof -
  assume a: "holds w s" "state s = st" "default_chars s" "\<forall>c \<in> set cs. P c" "length (token s) < length w + length cs"
  define n where "n = length (token s) - length w"
  have n: "length w + n = length (token s)" "n < length cs" using a(1,5) by (auto simp: n_def holds_def)
  obtain tok where t: "parse_chars raw (take n cs) s = Inr (s\<lparr>token := tok, t_pos := length (token s)\<rparr>)" "length tok = length (token s)"
    using collect [OF assms a(1-3), of "take n cs" raw] a(4) n by (auto dest: in_set_takeD)
  let ?u = "s\<lparr>token := tok, t_pos := length (token s)\<rparr>"
  have "push_char raw (cs ! n) ?u = Inl OutOfBounds" using t(2) by (intro push_full) auto
  moreover have "P (cs ! n)" using a(4) n(2) by simp
  ultimately have "parse_turn raw (cs ! n) ?u = Inl OutOfBounds"
    using assms a(2,3) by (simp add: collects_def default_chars_def)
  then have "parse_chars raw (drop n cs) ?u = Inl OutOfBounds"
    using n(2) by (simp add: Cons_nth_drop_Suc [symmetric] numeral_3_eq_3)
  then show ?thesis using parse_chars_append [of raw "take n cs" "drop n cs" s] t(1) by simp
qed

text \<open>The end of a token, and the string that strdup finds.\<close>

lemma end_token_room: "t_pos s < length (token s) \<Longrightarrow> end_token s = Inr (s\<lparr>token := (token s)[t_pos s := NUL], got_tok := True\<rparr>)"
  by (simp add: end_token_def poke_def)

lemma end_token_full: "t_pos s = length (token s) \<Longrightarrow> end_token s = Inl OutOfBounds"
  by (simp add: end_token_def poke_def)

lemma peek_token:
  assumes "take n tok = w" "length w = n" "n < length tok" "NUL \<notin> set w"
  shows "peek (tok[n := NUL]) = Inr w"
proof -
  have "tok[n := NUL] = w @ NUL # drop (Suc n) tok" using assms(1,3) by (simp add: upd_conv_take_nth_drop)
  moreover have "takeWhile (\<lambda>c. c \<noteq> NUL) (w @ NUL # drop (Suc n) tok) = w"
    using assms(4) by (subst takeWhile_append2) auto
  ultimately show ?thesis by (simp add: peek_def)
qed

lemma plain_not_NUL: "\<forall>c \<in> set w. plain c \<Longrightarrow> NUL \<notin> set w" "\<forall>c \<in> set w. quotable c \<Longrightarrow> NUL \<notin> set w"
  by (auto simp: plain_def quotable_def)

text \<open>More fuel does not change the turns at a character.\<close>

lemma char_fuel: "turns_left (state s) \<le> n \<Longrightarrow> parse_char (Suc n) raw c s = parse_char n raw c s"
proof (induction n arbitrary: s)
  case 0
  then show ?case by (simp add: turns_left_def split: config_state.splits)
next
  case (Suc n)
  show ?case
  proof (cases "parse_turn raw c s")
    case (Inr p)
    obtain b s' where p: "p = (b, s')" by (cases p)
    show ?thesis
    proof (cases b)
      case False
      then have t: "parse_turn raw c s = Inr (False, s')" using Inr p by simp
      have "turns_left (state s') \<le> n" using turns_left_less [OF t] Suc.prems by simp
      from Suc.IH [OF this] show ?thesis using parse_char_Suc(2) [OF t] by metis
    qed (simp add: Inr p)
  qed simp
qed

lemma parse_chars_turn:
  assumes "parse_turn raw c s = Inr (False, s')" "turns_left (state s') \<le> 2"
  shows "parse_chars raw (c # cs) s = parse_chars raw (c # cs) s'"
  using char_fuel [OF assms(2), of raw c] parse_char_Suc(2) [OF assms(1), of 2] by (simp add: numeral_3_eq_3 numeral_2_eq_2)

lemma parse_chars_consume: "parse_turn raw c s = Inr (True, s') \<Longrightarrow> parse_chars raw (c # cs) s = parse_chars raw cs s'"
  by (simp add: numeral_3_eq_3)

section \<open>Lines\<close>

text \<open>A setting without and with quotes, with blanks before and after the separator, a comment, and an empty line.\<close>

datatype config_line = Setting string string string string | Quoted string string string string | Remark string | Blank string

fun line_text :: "config_line \<Rightarrow> string" where
  "line_text (Setting k b b' v) = k @ b @ ''='' @ b' @ v @ [NEWLINE]"
| "line_text (Quoted k b b' v) = k @ b @ ''='' @ b' @ [CHR 0x22] @ v @ [CHR 0x22] @ [NEWLINE]"
| "line_text (Remark t) = ''#'' @ t @ [NEWLINE]"
| "line_text (Blank b) = b @ [NEWLINE]"

fun line_pairs :: "config_line \<Rightarrow> (string \<times> string) list" where
  "line_pairs (Setting k b b' v) = [(k, v)]"
| "line_pairs (Quoted k b b' v) = [(k, v)]"
| "line_pairs (Remark t) = []"
| "line_pairs (Blank b) = []"

definition key_ok :: "string \<Rightarrow> bool" where
  "key_ok k \<longleftrightarrow> k \<noteq> [] \<and> length k < CONFIG_TOKSIZE \<and> (\<forall>c \<in> set k. plain c)"

definition blank :: "char \<Rightarrow> bool" where
  "blank c \<longleftrightarrow> isspace c \<and> c \<noteq> NEWLINE"

fun line_ok :: "config_line \<Rightarrow> bool" where
  "line_ok (Setting k b b' v) \<longleftrightarrow> key_ok k \<and> (\<forall>c \<in> set b. blank c) \<and> (\<forall>c \<in> set b'. blank c) \<and> length v < CONFIG_TOKSIZE \<and> (\<forall>c \<in> set v. plain c)"
| "line_ok (Quoted k b b' v) \<longleftrightarrow> key_ok k \<and> (\<forall>c \<in> set b. blank c) \<and> (\<forall>c \<in> set b'. blank c) \<and> length v < CONFIG_TOKSIZE \<and> (\<forall>c \<in> set v. quotable c)"
| "line_ok (Remark t) \<longleftrightarrow> NEWLINE \<notin> set t"
| "line_ok (Blank b) \<longleftrightarrow> (\<forall>c \<in> set b. blank c)"

text \<open>The parser between two lines, and between the separator and the value.\<close>

definition idle :: "parser \<Rightarrow> bool" where
  "idle s \<longleftrightarrow> state s = CONFIG_PARSE_INITIAL \<and> \<not> got_tok s \<and> length (token s) = CONFIG_TOKSIZE \<and> default_chars s"

definition ready :: "parser \<Rightarrow> bool" where
  "ready s \<longleftrightarrow> idle s \<and> cur_pair s = None"

definition store :: "string option \<Rightarrow> string \<Rightarrow> config_t \<Rightarrow> config_t" where
  "store p v d = (case p of None \<Rightarrow> d | Some key \<Rightarrow> d\<lparr>table := snd (bst_probe (table d) (key, v))\<rparr>)"

definition new_key :: "config_t \<Rightarrow> string \<Rightarrow> string option" where
  "new_key d k = (if config_get d k = None then Some k else None)"

lemma store_new_key: "store (new_key d k) v d = d\<lparr>table := snd (bst_probe (table d) (k, v))\<rparr>"
  by (auto simp: store_def new_key_def config_get_def bst_probe_def split: option.splits)

lemma initial_turns:
  assumes "state s = CONFIG_PARSE_INITIAL" "default_chars s"
  shows "parse_turn raw NEWLINE s = Inr (False, s\<lparr>state := CONFIG_HANDLE_NEWLINE\<rparr>)"
    "parse_turn raw (CHR ''#'') s = Inr (True, s\<lparr>state := CONFIG_PARSE_COMMENT\<rparr>)"
    "parse_turn raw (CHR 0x22) s = Inr (True, s\<lparr>t_pos := 0, state := CONFIG_PARSE_QUOTED\<rparr>)"
  using assms by (simp_all add: parse_turn_def parse_initial_def default_chars_def)

lemma blank_chars: "blank c \<Longrightarrow> c \<notin> {CHR ''#'', CHR ''='', CHR 0x22, NEWLINE} \<and> isspace c"
  by (auto simp: blank_def isspace_def)

lemma skip_blanks:
  "state s = CONFIG_PARSE_INITIAL \<Longrightarrow> default_chars s \<Longrightarrow> \<forall>c \<in> set b. blank c \<Longrightarrow> parse_chars raw (b @ cs) s = parse_chars raw cs s"
proof (induction b)
  case (Cons c b)
  then have "parse_turn raw c s = Inr (True, s\<lparr>state := CONFIG_PARSE_INITIAL\<rparr>)" using blank_chars [of c]
    by (auto simp: parse_turn_def parse_initial_def default_chars_def)
  moreover have "s\<lparr>state := CONFIG_PARSE_INITIAL\<rparr> = s" using Cons.prems(1) by simp
  ultimately show ?case using Cons by (simp add: numeral_3_eq_3)
qed simp

lemma newline_pending:
  assumes "state s = CONFIG_HANDLE_NEWLINE" "if got_tok s then peek (token s) = Inr v else v = []"
  shows "parse_turn raw NEWLINE s = Inr (True, s\<lparr>data := store (cur_pair s) v (data s), state := CONFIG_PARSE_INITIAL, got_tok := False, cur_pair := None\<rparr>)"
  using assms by (auto simp: parse_turn_def handle_newline_def store_def split: option.splits if_splits)

lemma line_end:
  assumes "state s = CONFIG_PARSE_INITIAL" "default_chars s" "if got_tok s then peek (token s) = Inr v else v = []"
  shows "parse_chars raw [NEWLINE] s = Inr (s\<lparr>data := store (cur_pair s) v (data s), got_tok := False, cur_pair := None\<rparr>)"
proof -
  let ?u = "s\<lparr>state := CONFIG_HANDLE_NEWLINE\<rparr>"
  have "parse_chars raw [NEWLINE] s = parse_chars raw [NEWLINE] ?u"
    using initial_turns(1) [OF assms(1,2)] by (rule parse_chars_turn) (simp add: turns_left_def)
  also have "\<dots> = Inr (?u\<lparr>data := store (cur_pair s) v (data s), state := CONFIG_PARSE_INITIAL, got_tok := False, cur_pair := None\<rparr>)"
    using newline_pending [of ?u v raw] assms(3) by (simp add: numeral_3_eq_3)
  finally show ?thesis using assms(1) by simp
qed

text \<open>The end of an unquoted token.\<close>

lemma unquoted_end:
  assumes "state s = CONFIG_PARSE_UNQUOTED" "default_chars s" "holds w s" "w \<noteq> []" "length w < length (token s)" "\<forall>c \<in> set w. plain c"
  shows "\<exists>tok. length tok = length (token s) \<and> peek tok = Inr w \<and> drop (length w + 1) tok = drop (length w + 1) (token s)
    \<and> parse_turn raw (CHR ''='') s = Inr (True, s\<lparr>token := tok, got_tok := True, state := CONFIG_HANDLE_SEP\<rparr>)
    \<and> (\<forall>c. blank c \<longrightarrow> parse_turn raw c s = Inr (True, s\<lparr>token := tok, got_tok := True, state := CONFIG_PARSE_INITIAL\<rparr>))
    \<and> parse_turn raw NEWLINE s = Inr (False, s\<lparr>token := tok, got_tok := True, state := CONFIG_HANDLE_NEWLINE\<rparr>)"
proof -
  have p: "t_pos s = length w" "take (length w) (token s) = w" using assms(3) by (auto simp: holds_def)
  have "end_unquoted s = Inr (s\<lparr>token := (token s)[length w := NUL], got_tok := True\<rparr>)"
    using end_token_room [of s] p assms(4,5) by (simp add: end_unquoted_def)
  moreover have "peek ((token s)[length w := NUL]) = Inr w"
    using p assms(5) plain_not_NUL(1) [OF assms(6)] by (intro peek_token) auto
  ultimately show ?thesis using assms(1,2) blank_chars
    by (intro exI [of _ "(token s)[length w := NUL]"]) (auto simp: parse_turn_def parse_unquoted_def default_chars_def)
qed

text \<open>From the start of a line to the separator.\<close>

lemma key_part:
  assumes "ready s" "key_ok k" "\<forall>c \<in> set b. blank c"
  shows "\<exists>s'. (\<forall>c cs. parse_chars raw (k @ b @ ''='' @ c # cs) s = parse_chars raw (c # cs) s') \<and> idle s' \<and> data s' = data s
    \<and> cur_pair s' = new_key (data s) k \<and> drop (length k + 1) (token s') = drop (length k + 1) (token s)"
proof -
  have r: "state s = CONFIG_PARSE_INITIAL" "\<not> got_tok s" "length (token s) = CONFIG_TOKSIZE" "default_chars s" "cur_pair s = None"
    using assms(1) by (auto simp: ready_def idle_def)
  have k: "k \<noteq> []" "length k < CONFIG_TOKSIZE" "\<forall>c \<in> set k. plain c" using assms(2) by (auto simp: key_ok_def)
  let ?a = "\<lambda>tok. s\<lparr>state := CONFIG_PARSE_UNQUOTED, token := tok, t_pos := length k\<rparr>"
  obtain tok where t: "parse_chars raw k s = Inr (?a tok)" "length tok = CONFIG_TOKSIZE" "take (length k) tok = k"
      "drop (length k) tok = drop (length k) (token s)"
    using unquoted_word [OF r(1,4) k(1,3), of raw] k(2) r(3) by auto
  have "holds k (?a tok)" "default_chars (?a tok)" using t r(4) k(2) by (auto simp: holds_def default_chars_def)
  then obtain tok' where u: "length tok' = CONFIG_TOKSIZE" "peek tok' = Inr k" "drop (length k + 1) tok' = drop (length k + 1) tok"
      "parse_turn raw (CHR ''='') (?a tok) = Inr (True, ?a tok\<lparr>token := tok', got_tok := True, state := CONFIG_HANDLE_SEP\<rparr>)"
      "\<forall>c. blank c \<longrightarrow> parse_turn raw c (?a tok) = Inr (True, ?a tok\<lparr>token := tok', got_tok := True, state := CONFIG_PARSE_INITIAL\<rparr>)"
    using unquoted_end [of "?a tok" k raw] k t(2) by auto
  let ?i = "?a tok\<lparr>token := tok', got_tok := True, state := CONFIG_PARSE_INITIAL\<rparr>"
  let ?b = "?a tok\<lparr>token := tok', got_tok := True, state := CONFIG_HANDLE_SEP\<rparr>"
  let ?c = "?b\<lparr>cur_pair := new_key (data s) k, got_tok := False, state := CONFIG_PARSE_INITIAL\<rparr>"
  have i: "state ?i = CONFIG_PARSE_INITIAL" "default_chars ?i" using r(4) by (auto simp: default_chars_def)
  have isep: "parse_turn raw (CHR ''='') ?i = Inr (True, ?b)"
    using i(2) by (simp add: parse_turn_def parse_initial_def default_chars_def)
  have sep: "parse_turn raw c ?b = Inr (False, ?c)" for c
    using u(2) by (simp add: parse_turn_def handle_sep_def new_key_def)
  have to_sep: "parse_chars raw (b @ ''='' @ cs) (?a tok) = parse_chars raw cs ?b" for cs
  proof (cases b)
    case Nil
    then show ?thesis using parse_chars_consume [OF u(4)] by simp
  next
    case (Cons c b')
    then have "parse_chars raw (b @ ''='' @ cs) (?a tok) = parse_chars raw (b' @ ''='' @ cs) ?i"
      using parse_chars_consume [OF u(5) [rule_format, of c]] assms(3) by simp
    also have "\<dots> = parse_chars raw (''='' @ cs) ?i" using skip_blanks [OF i, of b' raw] assms(3) Cons by simp
    finally show ?thesis using parse_chars_consume [OF isep] by simp
  qed
  have "parse_chars raw (k @ b @ ''='' @ c # cs) s = parse_chars raw (c # cs) ?c" for c cs
  proof -
    have "parse_chars raw (k @ b @ ''='' @ c # cs) s = parse_chars raw (b @ ''='' @ c # cs) (?a tok)"
      using t(1) by (simp only: parse_chars_append rbind_simps)
    also have "\<dots> = parse_chars raw (c # cs) ?b" by (rule to_sep)
    also have "\<dots> = parse_chars raw (c # cs) ?c" by (rule parse_chars_turn [OF sep]) (simp add: turns_left_def)
    finally show ?thesis .
  qed
  moreover have "drop (length k + 1) tok' = drop (length k + 1) (token s)"
    using u(3) arg_cong [OF t(4), of "drop 1"] by simp
  ultimately show ?thesis using r(4) u(1) by (intro exI [of _ ?c]) (auto simp: idle_def default_chars_def)
qed

text \<open>The value and the end of the line.\<close>

lemma value_part:
  assumes "idle s" "length v < CONFIG_TOKSIZE" "\<forall>c \<in> set v. plain c"
  shows "\<exists>s'. parse_chars raw (v @ [NEWLINE]) s = Inr s' \<and> ready s' \<and> data s' = store (cur_pair s) v (data s)"
proof -
  have r: "state s = CONFIG_PARSE_INITIAL" "\<not> got_tok s" "length (token s) = CONFIG_TOKSIZE" "default_chars s"
    using assms(1) by (auto simp: idle_def)
  have keep: "default_chars (x\<lparr>data := store p w d\<rparr>)" if "default_chars x" "d = data x" for x p w d
    using that by (auto simp: default_chars_def store_def split: option.split)
  show ?thesis
  proof (cases "v = []")
    case True
    then show ?thesis using line_end [OF r(1,4), of "[]" raw] r keep [OF r(4) refl]
      by (auto simp: ready_def idle_def default_chars_def)
  next
    case False
    let ?a = "\<lambda>tok. s\<lparr>state := CONFIG_PARSE_UNQUOTED, token := tok, t_pos := length v\<rparr>"
    obtain tok where t: "parse_chars raw v s = Inr (?a tok)" "length tok = CONFIG_TOKSIZE" "take (length v) tok = v"
      using unquoted_word [OF r(1,4) False assms(3), of raw] assms(2) r(3) by auto
    have "holds v (?a tok)" "default_chars (?a tok)" using t r(4) assms(2) by (auto simp: holds_def default_chars_def)
    then obtain tok' where u: "length tok' = CONFIG_TOKSIZE" "peek tok' = Inr v"
        "parse_turn raw NEWLINE (?a tok) = Inr (False, ?a tok\<lparr>token := tok', got_tok := True, state := CONFIG_HANDLE_NEWLINE\<rparr>)"
      using unquoted_end [of "?a tok" v raw] False assms(2,3) t(2) by auto
    let ?b = "?a tok\<lparr>token := tok', got_tok := True, state := CONFIG_HANDLE_NEWLINE\<rparr>"
    have "parse_chars raw (v @ [NEWLINE]) s = parse_chars raw [NEWLINE] (?a tok)"
      using t(1) by (simp only: parse_chars_append rbind_simps)
    also have "\<dots> = parse_chars raw [NEWLINE] ?b" by (rule parse_chars_turn [OF u(3)]) (simp add: turns_left_def)
    also have "\<dots> = Inr (?b\<lparr>data := store (cur_pair s) v (data s), state := CONFIG_PARSE_INITIAL, got_tok := False, cur_pair := None\<rparr>)"
      using newline_pending [of ?b v raw] u(2) by (simp add: numeral_3_eq_3)
    finally show ?thesis using u(1) keep [OF r(4) refl] by (auto simp: ready_def idle_def default_chars_def)
  qed
qed

lemma quoted_part:
  assumes "idle s" "length v < CONFIG_TOKSIZE" "\<forall>c \<in> set v. quotable c"
  shows "\<exists>s'. parse_chars raw ([CHR 0x22] @ v @ [CHR 0x22] @ [NEWLINE]) s = Inr s' \<and> ready s' \<and> data s' = store (cur_pair s) v (data s)"
proof -
  have r: "state s = CONFIG_PARSE_INITIAL" "\<not> got_tok s" "length (token s) = CONFIG_TOKSIZE" "default_chars s"
    using assms(1) by (auto simp: idle_def)
  let ?o = "s\<lparr>t_pos := 0, state := CONFIG_PARSE_QUOTED\<rparr>"
  let ?a = "\<lambda>tok. ?o\<lparr>token := tok, t_pos := length v\<rparr>"
  have o: "holds [] ?o" "state ?o = CONFIG_PARSE_QUOTED" "default_chars ?o" using r(4) by (auto simp: holds_def default_chars_def)
  obtain tok where t: "parse_chars raw v ?o = Inr (?a tok)" "length tok = CONFIG_TOKSIZE" "take (length v) tok = v"
    using collect [OF collects_quoted o assms(3), of raw] assms(2) r(3) by auto
  let ?tok = "tok[length v := NUL]"
  let ?b = "?a tok\<lparr>token := ?tok, got_tok := True, state := CONFIG_PARSE_INITIAL\<rparr>"
  have e: "end_token (?a tok) = Inr (?a tok\<lparr>token := ?tok, got_tok := True\<rparr>)"
    using end_token_room [of "?a tok"] t(2) assms(2) by simp
  have q: "parse_turn raw (CHR 0x22) (?a tok) = Inr (True, ?b)"
    using e r(4) by (simp add: parse_turn_def parse_quoted_def default_chars_def)
  have v: "if got_tok ?b then peek (token ?b) = Inr v else v = []"
    using peek_token [of "length v" tok v] t(2,3) assms(2) plain_not_NUL(2) [OF assms(3)] by simp
  have b: "state ?b = CONFIG_PARSE_INITIAL" "default_chars ?b" using r(4) by (auto simp: default_chars_def)
  have "parse_chars raw ([CHR 0x22] @ v @ [CHR 0x22] @ [NEWLINE]) s = parse_chars raw (v @ [CHR 0x22] @ [NEWLINE]) ?o"
    using parse_chars_consume [OF initial_turns(3) [OF r(1,4)]] by simp
  also have "\<dots> = parse_chars raw ([CHR 0x22] @ [NEWLINE]) (?a tok)" using t(1) by (simp only: parse_chars_append rbind_simps)
  also have "\<dots> = parse_chars raw [NEWLINE] ?b" using parse_chars_consume [OF q] by simp
  also have "\<dots> = Inr (?b\<lparr>data := store (cur_pair ?b) v (data ?b), got_tok := False, cur_pair := None\<rparr>)" by (rule line_end [OF b v])
  finally show ?thesis using t(2) r(4) by (auto simp: ready_def idle_def default_chars_def store_def split: option.split)
qed

lemma remark_chars:
  "state s = CONFIG_PARSE_COMMENT \<Longrightarrow> NEWLINE \<notin> set t \<Longrightarrow> parse_chars raw t s = Inr s"
proof (induction t arbitrary: s)
  case (Cons c t)
  then have "parse_turn raw c s = Inr (True, s\<lparr>state := CONFIG_PARSE_COMMENT\<rparr>)" by (auto simp: parse_turn_def parse_comment_def)
  moreover have "s\<lparr>state := CONFIG_PARSE_COMMENT\<rparr> = s" using Cons.prems(1) by simp
  ultimately show ?case using Cons by (simp add: numeral_3_eq_3)
qed simp

text \<open>A whole line, and a file of lines.\<close>

definition probe_all :: "(string \<times> string) list \<Rightarrow> (string, string) bst_table \<Rightarrow> (string, string) bst_table" where
  "probe_all kvs tab = fold (\<lambda>kv tab. snd (bst_probe tab kv)) kvs tab"

lemma line_parsed:
  assumes "ready s" "line_ok ln"
  shows "\<exists>s'. parse_chars raw (line_text ln) s = Inr s' \<and> ready s' \<and> data s' = (data s)\<lparr>table := probe_all (line_pairs ln) (table (data s))\<rparr>"
proof (cases ln)
  case (Setting k b b' v)
  then have ok: "key_ok k" "length v < CONFIG_TOKSIZE" "\<forall>c \<in> set v. plain c" "\<forall>c \<in> set b. blank c" "\<forall>c \<in> set b'. blank c"
    using assms(2) by auto
  obtain u where u: "\<And>c cs. parse_chars raw (k @ b @ ''='' @ c # cs) s = parse_chars raw (c # cs) u" "idle u" "data u = data s"
      "cur_pair u = new_key (data s) k" using key_part [OF assms(1) ok(1,4), of raw] by metis
  have "parse_chars raw (line_text ln) s = parse_chars raw (b' @ v @ [NEWLINE]) u"
    using u(1) Setting by (cases b'; cases v) auto
  also have "\<dots> = parse_chars raw (v @ [NEWLINE]) u" using skip_blanks [of u b' raw] u(2) ok(5) by (simp add: idle_def)
  finally show ?thesis using value_part [OF u(2) ok(2,3), of raw] u(3,4) Setting
    by (auto simp: store_new_key probe_all_def)
next
  case (Quoted k b b' v)
  then have ok: "key_ok k" "length v < CONFIG_TOKSIZE" "\<forall>c \<in> set v. quotable c" "\<forall>c \<in> set b. blank c" "\<forall>c \<in> set b'. blank c"
    using assms(2) by auto
  obtain u where u: "\<And>c cs. parse_chars raw (k @ b @ ''='' @ c # cs) s = parse_chars raw (c # cs) u" "idle u" "data u = data s"
      "cur_pair u = new_key (data s) k" using key_part [OF assms(1) ok(1,4), of raw] by metis
  have "parse_chars raw (line_text ln) s = parse_chars raw (b' @ [CHR 0x22] @ v @ [CHR 0x22] @ [NEWLINE]) u"
    using u(1) Quoted by (cases b') auto
  also have "\<dots> = parse_chars raw ([CHR 0x22] @ v @ [CHR 0x22] @ [NEWLINE]) u"
    using skip_blanks [of u b' raw] u(2) ok(5) by (simp add: idle_def)
  finally show ?thesis using quoted_part [OF u(2) ok(2,3), of raw] u(3,4) Quoted
    by (auto simp: store_new_key probe_all_def)
next
  case (Blank b)
  have r: "state s = CONFIG_PARSE_INITIAL" "\<not> got_tok s" "default_chars s" "cur_pair s = None"
    using assms(1) by (auto simp: ready_def idle_def)
  have "parse_chars raw (line_text ln) s = parse_chars raw [NEWLINE] s"
    using skip_blanks [OF r(1,3)] Blank assms(2) by simp
  also have "\<dots> = Inr s" using line_end [OF r(1,3), of "[]" raw] r by (simp add: store_def)
  finally show ?thesis using assms(1) Blank by (intro exI [of _ s]) (simp add: probe_all_def)
next
  case (Remark t)
  have r: "state s = CONFIG_PARSE_INITIAL" "\<not> got_tok s" "default_chars s" "cur_pair s = None"
    using assms(1) by (auto simp: ready_def idle_def)
  let ?c = "s\<lparr>state := CONFIG_PARSE_COMMENT\<rparr>" and ?n = "s\<lparr>state := CONFIG_HANDLE_NEWLINE\<rparr>"
  have n: "parse_turn raw NEWLINE ?c = Inr (False, ?n)" by (simp add: parse_turn_def parse_comment_def)
  have "parse_chars raw (line_text ln) s = parse_chars raw (t @ [NEWLINE]) ?c"
    using parse_chars_consume [OF initial_turns(2) [OF r(1,3)]] Remark by simp
  also have "\<dots> = parse_chars raw [NEWLINE] ?c"
    using remark_chars [of ?c t raw] Remark assms(2) by (simp add: parse_chars_append)
  also have "\<dots> = parse_chars raw [NEWLINE] ?n" by (rule parse_chars_turn [OF n]) (simp add: turns_left_def)
  also have "\<dots> = Inr s" using newline_pending [of ?n "[]" raw] r by (simp add: numeral_3_eq_3 store_def)
  finally show ?thesis using assms(1) Remark by (intro exI [of _ s]) (simp add: probe_all_def)
qed

lemma lines_parsed:
  assumes "\<forall>ln \<in> set lns. line_ok ln"
  shows "ready s \<Longrightarrow> \<exists>s'. parse_chars raw (concat (map line_text lns)) s = Inr s' \<and> ready s'
    \<and> data s' = (data s)\<lparr>table := probe_all (concat (map line_pairs lns)) (table (data s))\<rparr>"
  using assms
proof (induction lns arbitrary: s)
  case Nil
  then show ?case by (simp add: probe_all_def)
next
  case (Cons ln lns)
  obtain u where u: "parse_chars raw (line_text ln) s = Inr u" "ready u" "data u = (data s)\<lparr>table := probe_all (line_pairs ln) (table (data s))\<rparr>"
    using line_parsed [OF Cons.prems(1), of ln raw] Cons.prems(2) by auto
  obtain s' where "parse_chars raw (concat (map line_text lns)) u = Inr s'" "ready s'"
      "data s' = (data u)\<lparr>table := probe_all (concat (map line_pairs lns)) (table (data u))\<rparr>"
    using Cons.IH [OF u(2)] Cons.prems(2) by auto
  then show ?case using u by (simp add: parse_chars_append probe_all_def)
qed

lemma start_ready: "ready (start_parser raw)"
  by (simp add: ready_def idle_def start_parser_def init_config_def default_chars_def CONFIG_TOKSIZE_def)

text \<open>The table of a sequence of settings, as a map and as the sequence of its items.\<close>

lemma probe_all_items:
  "bst_inv tab \<Longrightarrow> bst_inv (probe_all kvs tab) \<and> items (probe_all kvs tab) = fold (\<lambda>(k, v). smap_insert k v) kvs (items tab)"
proof (induction kvs arbitrary: tab)
  case (Cons kv kvs)
  obtain k v where kv: "kv = (k, v)" by (cases kv)
  show ?case using Cons.IH [of "snd (bst_probe tab kv)"] bst_probe_items [OF Cons.prems, of k v] kv by (simp add: probe_all_def)
qed (simp add: probe_all_def)

lemma probe_all_get: "get_value (probe_all kvs bst_create) = map_of kvs"
proof -
  have "(\<lambda>kv tab. snd (bst_probe tab kv)) = (\<lambda>(k, v) tab. snd (bst_probe tab (k :: string, v :: string)))" by (auto simp: fun_eq_iff)
  then show ?thesis using bst.find_load_empty [of kvs] unfolding probe_all_def by metis
qed

lemma smap_insert_length: "length (smap_insert k v m) \<le> length m + 1"
  by (induction k v m rule: smap_insert.induct) auto

lemma insert_all_length: "length (fold (\<lambda>(k, v). smap_insert k v) kvs m) \<le> length kvs + length m"
proof (induction kvs arbitrary: m)
  case (Cons kv kvs)
  obtain k v where "kv = (k, v)" by (cases kv)
  then show ?case using Cons.IH [of "smap_insert k v m"] smap_insert_length [of k v m] by simp
qed simp

text \<open>The loop over config_iterate.\<close>

lemma iterate_stands:
  "iterating d \<Longrightarrow> stands (table d) (traverser d) x rest \<Longrightarrow> tree_ok (table d) \<Longrightarrow> length rest < n \<Longrightarrow>
    \<exists>d'. iterate_all n d = Inr (rest, d') \<and> tree_ok (table d') \<and> items (table d') = items (table d)"
proof (induction rest arbitrary: n d x)
  case Nil
  then obtain m where "n = Suc m" by (cases n) auto
  then show ?case using next_stands [OF Nil.prems(2,3)] Nil.prems(1) by (auto simp: config_iterate_def)
next
  case (Cons y ys)
  then obtain m where m: "n = Suc m" "length ys < m" by (cases n) auto
  obtain t' tree' where t: "bst_t_next (traverser d) (table d) = Inr (Some y, t', tree')" "stands tree' t' y ys" "tree_ok tree'"
      "items tree' = items (table d)"
    using next_stands [OF Cons.prems(2,3)] by auto
  let ?d = "d\<lparr>iterating := True, traverser := t', table := tree'\<rparr>"
  obtain d' where "iterate_all m ?d = Inr (ys, d')" "tree_ok (table d')" "items (table d') = items tree'"
    using Cons.IH [of ?d y m] t m(2) by auto
  then show ?case using t(1,4) m(1) Cons.prems(1) by (auto simp: config_iterate_def)
qed

lemma iterate_items:
  assumes "\<not> iterating d" "tree_ok (table d)" "length (items (table d)) < n"
  shows "\<exists>d'. iterate_all n d = Inr (items (table d), d') \<and> tree_ok (table d') \<and> items (table d') = items (table d)"
proof (cases "items (table d)")
  case Nil
  then show ?thesis using first_empty [OF Nil] assms by (cases n) (auto simp: config_iterate_def)
next
  case (Cons y ys)
  obtain m where m: "n = Suc m" "length ys < m" using assms(3) Cons by (cases n) auto
  obtain tr tree' where t: "bst_t_first (table d) = Inr (Some y, tr, tree')" "stands tree' tr y ys" "tree_ok tree'" "items tree' = items (table d)"
    using first_stands [OF assms(2) Cons] by auto
  let ?d = "d\<lparr>iterating := True, traverser := tr, table := tree'\<rparr>"
  obtain d' where "iterate_all m ?d = Inr (ys, d')" "tree_ok (table d')" "items (table d') = items tree'"
    using iterate_stands [of ?d y ys m] t m(2) by auto
  then show ?thesis using t(1,4) m(1) Cons assms(1) by (auto simp: config_iterate_def)
qed

text \<open>What a file of lines is parsed to.\<close>

lemma lines_config:
  assumes "\<forall>ln \<in> set lns. line_ok ln" "length (concat (map line_pairs lns)) < 2 ^ 31"
  shows "\<exists>d. config_parse raw (Some (concat (map line_text lns))) = Inr (0, d)
    \<and> config_get d = map_of (concat (map line_pairs lns))
    \<and> items (table d) = fold (\<lambda>(k, v). smap_insert k v) (concat (map line_pairs lns)) []
    \<and> tree_ok (table d) \<and> \<not> iterating d \<and> bst_count (table d) = length (items (table d))
    \<and> bst_count (table d) \<le> length (concat (map line_pairs lns))"
proof -
  let ?kvs = "concat (map line_pairs lns)"
  let ?d = "init_config\<lparr>table := probe_all ?kvs bst_create\<rparr>"
  have init: "table (data (start_parser raw)) = bst_create" "data (start_parser raw) = init_config" "\<not> iterating init_config"
    by (simp_all add: init_config_def start_parser_def)
  obtain s' where "parse_chars raw (concat (map line_text lns)) (start_parser raw) = Inr s'" "data s' = ?d"
    using lines_parsed [OF assms(1) start_ready [of raw], of raw] init by auto
  then have "config_parse raw (Some (concat (map line_text lns))) = Inr (0, ?d)" by (simp add: config_parse_def)
  moreover have "config_get ?d = map_of ?kvs"
    using probe_all_get [of ?kvs] by (simp add: fun_eq_iff config_get_def get_value_def)
  moreover have p: "bst_inv (table ?d)" "items (table ?d) = fold (\<lambda>(k, v). smap_insert k v) ?kvs []"
    using probe_all_items [of bst_create ?kvs] by (auto simp: bst.inv_empty) (simp add: items_def bst_create_def)
  moreover have "length (items (table ?d)) \<le> length ?kvs" using insert_all_length [of ?kvs "[]"] p(2) by simp
  moreover have "bst_count (table ?d) = length (items (table ?d))" using p(1) by (simp add: bst_inv_def items_def)
  ultimately show ?thesis using assms(2) init(3) by (intro exI [of _ ?d]) (auto simp: tree_ok_def)
qed

lemma same_items_get: "tree_ok (table d) \<Longrightarrow> tree_ok (table d') \<Longrightarrow> items (table d') = items (table d) \<Longrightarrow> config_get d' = config_get d"
  using get_value_items [of "table d"] get_value_items [of "table d'"]
  by (auto simp: fun_eq_iff config_get_def get_value_def tree_ok_def)

section \<open>Properties\<close>

lemma parse_from: "config_parse raw (Some cs) = rbind (parse_chars raw cs (start_parser raw)) (\<lambda>s. Inr (0, data s))"
  by (simp add: config_parse_def)

lemma init_data: "table init_config = bst_create" "\<not> iterating init_config" "data (start_parser raw) = init_config"
  by (simp_all add: init_config_def start_parser_def)

text \<open>C12: a file of settings with or without quotes, blanks around the separators, comments and empty lines,
  whose keys and values have at most 31 characters, is parsed without a fault. Looking up a key gives the first value the file has for it, and nothing for any
  other key; config_iterate yields the pairs once, in the order of the keys, and then NULL; config_release
  frees each of them once.\<close>

theorem config_parse_correct:
  assumes "\<forall>ln \<in> set lns. line_ok ln" "length (concat (map line_pairs lns)) < 2 ^ 31" "length (concat (map line_pairs lns)) < n"
  shows "\<exists>d. config_parse raw (Some (concat (map line_text lns))) = Inr (0, d)
    \<and> config_get d = map_of (concat (map line_pairs lns))
    \<and> (\<exists>d'. iterate_all n d = Inr (fold (\<lambda>(k, v). smap_insert k v) (concat (map line_pairs lns)) [], d'))
    \<and> config_release d = fold (\<lambda>(k, v). smap_insert k v) (concat (map line_pairs lns)) []"
proof -
  obtain d where d: "config_parse raw (Some (concat (map line_text lns))) = Inr (0, d)"
      "config_get d = map_of (concat (map line_pairs lns))"
      "items (table d) = fold (\<lambda>(k, v). smap_insert k v) (concat (map line_pairs lns)) []"
      "tree_ok (table d)" "\<not> iterating d" "bst_count (table d) = length (items (table d))"
      "bst_count (table d) \<le> length (concat (map line_pairs lns))"
    using lines_config [OF assms(1,2), of raw] by blast
  then obtain d' where "iterate_all n d = Inr (items (table d), d')" using iterate_items [of d n] assms(3) by auto
  moreover have "config_release d = items (table d)" by (simp add: config_release_def bst_destroy_inorder items_def)
  ultimately show ?thesis using d by auto
qed

lemma sample_lines_ok: "\<forall>ln \<in> set [Setting ''b'' [] '' '' ''1'', Remark ''x=y'', Quoted ''a'' '' '' '' '' ''p q'', Blank [], Setting ''b'' [] [] ''2'']. line_ok ln"
  by (simp add: key_ok_def CONFIG_TOKSIZE_def plain_def quotable_def blank_def isspace_def NUL_def NEWLINE_def)

definition sample_file :: string where
  "sample_file = ''b= 1'' @ [NEWLINE] @ ''#x=y'' @ [NEWLINE] @ ''a = '' @ [CHR 0x22] @ ''p q'' @ [CHR 0x22] @ [NEWLINE, NEWLINE] @ ''b=2'' @ [NEWLINE]"

lemma config_parse_correct_witness:
  "\<exists>d. config_parse (\<lambda>n. []) (Some sample_file) = Inr (0, d) \<and> config_get d ''b'' = Some ''1'' \<and> config_get d ''a'' = Some ''p q''
      \<and> config_release d = [(''a'', ''p q''), (''b'', ''1'')]"
proof -
  let ?lns = "[Setting ''b'' [] '' '' ''1'', Remark ''x=y'', Quoted ''a'' '' '' '' '' ''p q'', Blank [], Setting ''b'' [] [] ''2'']"
  have t: "concat (map line_text ?lns) = sample_file" by (simp add: sample_file_def)
  have k: "concat (map line_pairs ?lns) = [(''b'', ''1''), (''a'', ''p q''), (''b'', ''2'')]" by simp
  have f: "fold (\<lambda>(k, v). smap_insert k v) [(''b'', ''1''), (''a'', ''p q''), (''b'', ''2'')] [] = [(''a'', ''p q''), (''b'', ''1'')]"
    by code_simp
  obtain d where "config_parse (\<lambda>n. []) (Some sample_file) = Inr (0, d)" "config_get d = map_of [(''b'', ''1''), (''a'', ''p q''), (''b'', ''2'')]"
      "config_release d = [(''a'', ''p q''), (''b'', ''1'')]"
    using config_parse_correct [OF sample_lines_ok, of 4 "\<lambda>n. []"] unfolding t k f by auto
  then show ?thesis by (intro exI [of _ d]) simp
qed

text \<open>C31: the parser returns on every file. A file that cannot be opened gives the error 2 (ENOENT), any other
  file gives 0 and a well-formed table, unless a token overruns the token buffer; and what follows the last
  newline of a file has no effect on the result, so that a last line that is not ended is ignored.\<close>

theorem config_parse_total:
  "(case config_parse raw file of Inl e \<Rightarrow> e = OutOfBounds \<and> file \<noteq> None
      | Inr (rc, d) \<Rightarrow> rc = (if file = None then 2 else 0) \<and> bst_inv (table d))
    \<and> (config_parse raw (Some (cs @ tail)) = Inr res \<and> NEWLINE \<notin> set tail \<longrightarrow> config_parse raw (Some cs) = Inr res)"
proof
  let ?s = "start_parser raw"
  have s: "bst_inv (table (data ?s))" "state ?s \<noteq> CONFIG_HANDLE_NEWLINE"
    by (simp_all add: init_data bst.inv_empty) (simp add: start_parser_def)
  show "case config_parse raw file of Inl e \<Rightarrow> e = OutOfBounds \<and> file \<noteq> None
      | Inr (rc, d) \<Rightarrow> rc = (if file = None then 2 else 0) \<and> bst_inv (table d)"
  proof (cases "file")
    case None
    then show ?thesis by (simp add: config_parse_def init_data bst.inv_empty)
  next
    case (Some cs)
    then show ?thesis using chars_keep [OF _ s, of raw cs] chars_ends [of raw cs ?s]
      by (cases "parse_chars raw cs ?s") (simp_all add: parse_from memory_only_def)
  qed
  show "config_parse raw (Some (cs @ tail)) = Inr res \<and> NEWLINE \<notin> set tail \<longrightarrow> config_parse raw (Some cs) = Inr res"
  proof
    assume a: "config_parse raw (Some (cs @ tail)) = Inr res \<and> NEWLINE \<notin> set tail"
    then obtain u u' where u: "parse_chars raw cs ?s = Inr u" "parse_chars raw tail u = Inr u'" "res = (0, data u')"
      by (auto simp: parse_from parse_chars_append)
    then show "config_parse raw (Some cs) = Inr res"
      using chars_keep [OF u(1) s] chars_keep [OF u(2)] a by (simp add: parse_from)
  qed
qed

lemma config_parse_total_witness:
  "\<exists>d. config_parse (\<lambda>n. []) (Some (''a=1'' @ [NEWLINE])) = Inr (0, d)
     \<and> config_parse (\<lambda>n. []) (Some ((''a=1'' @ [NEWLINE]) @ ''b=2'')) = Inr (0, d)"
proof -
  have "case config_parse (\<lambda>n. []) (Some ((''a=1'' @ [NEWLINE]) @ ''b=2'')) of Inl e \<Rightarrow> False | Inr (rc, d) \<Rightarrow> rc = 0" by code_simp
  then obtain d where d: "config_parse (\<lambda>n. []) (Some ((''a=1'' @ [NEWLINE]) @ ''b=2'')) = Inr (0, d)"
    by (cases "config_parse (\<lambda>n. []) (Some ((''a=1'' @ [NEWLINE]) @ ''b=2''))") auto
  moreover have "NEWLINE \<notin> set ''b=2''" by (simp add: NEWLINE_def)
  ultimately have "config_parse (\<lambda>n. []) (Some (''a=1'' @ [NEWLINE])) = Inr (0, d)"
    using config_parse_total [where raw = "\<lambda>n. []" and cs = "''a=1'' @ [NEWLINE]" and tail = "''b=2''" and res = "(0, d)"] by blast
  then show ?thesis using d by blast
qed

lemma word_overflow:
  assumes "ready s" "CONFIG_TOKSIZE \<le> length w" "\<forall>c \<in> set w. plain c" "c \<in> {CHR ''='', CHR ''#'', NEWLINE} \<or> isspace c"
  shows "parse_chars raw (w @ c # rest) s = Inl OutOfBounds"
proof -
  have r: "state s = CONFIG_PARSE_INITIAL" "length (token s) = CONFIG_TOKSIZE" "default_chars s"
    using assms(1) by (auto simp: ready_def idle_def)
  let ?h = "take CONFIG_TOKSIZE w" and ?t = "drop CONFIG_TOKSIZE w"
  have h: "?h \<noteq> []" "length ?h = CONFIG_TOKSIZE" using assms(2) by (auto simp: CONFIG_TOKSIZE_def)
  have p: "\<forall>c \<in> set ?h. plain c" using assms(3) by (auto dest: in_set_takeD)
  let ?u = "\<lambda>tok. s\<lparr>state := CONFIG_PARSE_UNQUOTED, token := tok, t_pos := CONFIG_TOKSIZE\<rparr>"
  obtain tok where t: "parse_chars raw ?h s = Inr (?u tok)" "length tok = CONFIG_TOKSIZE" "take CONFIG_TOKSIZE tok = ?h"
    using unquoted_word [OF r(1,3) h(1) p, of raw] h(2) r(2) by auto
  have u: "holds ?h (?u tok)" "state (?u tok) = CONFIG_PARSE_UNQUOTED" "default_chars (?u tok)"
    using t h(2) r(3) by (auto simp: holds_def default_chars_def)
  have "parse_chars raw (?t @ c # rest) (?u tok) = Inl OutOfBounds"
  proof (cases "?t = []")
    case False
    then have "length (token (?u tok)) < length ?h + length ?t" "\<forall>c \<in> set ?t. plain c"
      using t(2) h(2) assms(3) by (auto dest: in_set_dropD)
    then show ?thesis using collect_full [OF collects_unquoted u, of ?t raw] by (simp add: parse_chars_append)
  next
    case True
    have "end_unquoted (?u tok) = Inl OutOfBounds"
      using t(2) by (simp add: end_unquoted_def end_token_full CONFIG_TOKSIZE_def)
    then have "parse_turn raw c (?u tok) = Inl OutOfBounds"
      using assms(4) u(3) by (auto simp: parse_turn_def parse_unquoted_def default_chars_def)
    then show ?thesis using True by (simp add: numeral_3_eq_3)
  qed
  moreover have "parse_chars raw (w @ c # rest) s = parse_chars raw (?t @ c # rest) (?u tok)"
    using parse_chars_append [of raw ?h "?t @ c # rest" s] t(1)
    unfolding append_assoc [symmetric] append_take_drop_id by simp
  ultimately show ?thesis by simp
qed

text \<open>A token without quotes of 32 or more characters, the key of a line for instance, is written past
  the end of the token buffer: the test before a character compares with the end of the buffer by > and
  comes one character late.\<close>

theorem long_token_overruns:
  assumes "\<forall>ln \<in> set lns. line_ok ln" "CONFIG_TOKSIZE \<le> length w" "\<forall>c \<in> set w. plain c"
    "c \<in> {CHR ''='', CHR ''#'', NEWLINE} \<or> isspace c"
  shows "config_parse raw (Some (concat (map line_text lns) @ w @ c # rest)) = Inl OutOfBounds"
proof -
  obtain s' where "parse_chars raw (concat (map line_text lns)) (start_parser raw) = Inr s'" "ready s'"
    using lines_parsed [OF assms(1) start_ready, of raw] by auto
  then show ?thesis using word_overflow [of s' w c raw rest] assms(2-4)
    by (simp add: parse_from parse_chars_append)
qed

lemma long_token_overruns_witness:
  "config_parse (\<lambda>n. []) (Some (concat (map line_text [Setting ''a'' [] [] ''1'']) @ ''abcdefghijklmnopqrstuvwxyz012345'' @ ''=1'')) = Inl OutOfBounds"
  using long_token_overruns [of "[Setting ''a'' [] [] ''1'']" "''abcdefghijklmnopqrstuvwxyz012345''" "CHR ''=''" "\<lambda>n. []" "''1''"]
  by (simp add: key_ok_def CONFIG_TOKSIZE_def plain_def isspace_def NUL_def NEWLINE_def)

lemma drop_further: "drop m xs = drop m ys \<Longrightarrow> m \<le> n \<Longrightarrow> drop n xs = drop n ys"
  by (metis drop_drop le_add_diff_inverse2)

text \<open>A longer string without a closing quote behind a value.\<close>

lemma unterminated_part:
  assumes "idle s" "w \<noteq> []" "\<forall>c \<in> set w. plain c" "\<forall>c \<in> set u. quotable c" "length w < length u" "length u < CONFIG_TOKSIZE"
    and mem: "mem = u @ drop (length u) (token s)" "NUL \<in> set mem"
  shows "\<exists>s'. parse_chars raw (w @ '' '' @ [CHR 0x22] @ u @ [NEWLINE]) s = Inr s'
    \<and> data s' = store (cur_pair s) (takeWhile (\<lambda>c. c \<noteq> NUL) mem) (data s)"
proof -
  have init: "state s = CONFIG_PARSE_INITIAL" "length (token s) = CONFIG_TOKSIZE" "default_chars s" using assms(1) by (auto simp: idle_def)
  let ?b = "\<lambda>tok. s\<lparr>state := CONFIG_PARSE_UNQUOTED, token := tok, t_pos := length w\<rparr>"
  obtain tok where b: "parse_chars raw w s = Inr (?b tok)" "length tok = CONFIG_TOKSIZE" "take (length w) tok = w" "drop (length w) tok = drop (length w) (token s)"
    using unquoted_word [OF init(1,3) assms(2,3), of raw] assms(5,6) init(2) by auto
  have hb: "default_chars (?b tok)" "holds w (?b tok)" using init(3) b assms(5,6) by (auto simp: default_chars_def holds_def)
  obtain tok2 where c: "length tok2 = CONFIG_TOKSIZE" "drop (length w + 1) tok2 = drop (length w + 1) tok"
      "\<forall>c. blank c \<longrightarrow> parse_turn raw c (?b tok) = Inr (True, ?b tok\<lparr>token := tok2, got_tok := True, state := CONFIG_PARSE_INITIAL\<rparr>)"
    using unquoted_end [of "?b tok" w raw] hb assms(2,3,5,6) b(2) by auto
  let ?c = "?b tok\<lparr>token := tok2, got_tok := True, state := CONFIG_PARSE_INITIAL\<rparr>"
  let ?o = "?c\<lparr>t_pos := 0, state := CONFIG_PARSE_QUOTED\<rparr>"
  have o: "holds [] ?o" "state ?o = CONFIG_PARSE_QUOTED" "default_chars ?o" "default_chars ?c"
    using init(3) by (auto simp: holds_def default_chars_def)
  obtain tok3 where e: "parse_chars raw u ?o = Inr (?o\<lparr>token := tok3, t_pos := length u\<rparr>)" "length tok3 = CONFIG_TOKSIZE"
      "take (length u) tok3 = u" "drop (length u) tok3 = drop (length u) tok2"
    using collect [OF collects_quoted o(1-3) assms(4), of raw] assms(6) c(1) by auto
  let ?e = "?o\<lparr>token := tok3, t_pos := length u\<rparr>"
  let ?n = "?e\<lparr>state := CONFIG_HANDLE_NEWLINE\<rparr>"
  have "drop (length u) tok3 = drop (length u) (token s)" using e(4) drop_further [OF c(2)] drop_further [OF b(4)] assms(5) by simp
  then have "tok3 = mem" using e(3) mem(1) append_take_drop_id [of "length u" tok3] by simp
  then have peek: "peek tok3 = Inr (takeWhile (\<lambda>c. c \<noteq> NUL) mem)" using mem(2) by (simp add: peek_def)
  have nl: "parse_turn raw NEWLINE ?e = Inr (False, ?n)"
    using init(3) by (simp add: parse_turn_def parse_quoted_def default_chars_def)
  have "parse_chars raw (w @ '' '' @ [CHR 0x22] @ u @ [NEWLINE]) s = parse_chars raw ('' '' @ [CHR 0x22] @ u @ [NEWLINE]) (?b tok)"
    using b(1) by (simp only: parse_chars_append rbind_simps)
  also have "\<dots> = parse_chars raw ([CHR 0x22] @ u @ [NEWLINE]) ?c"
    using parse_chars_consume [OF c(3) [rule_format, of "CHR '' ''"]] by (simp add: blank_def isspace_def NEWLINE_def)
  also have "\<dots> = parse_chars raw (u @ [NEWLINE]) ?o"
    using parse_chars_consume [OF initial_turns(3) [of ?c raw]] o(4) by simp
  also have "\<dots> = parse_chars raw [NEWLINE] ?e" using e(1) by (simp only: parse_chars_append rbind_simps)
  also have "\<dots> = parse_chars raw [NEWLINE] ?n" by (rule parse_chars_turn [OF nl]) (simp add: turns_left_def)
  finally show ?thesis using newline_pending [of ?n "takeWhile (\<lambda>c. c \<noteq> NUL) mem" raw] peek by (simp add: numeral_3_eq_3)
qed

text \<open>When a value is followed by a longer string whose closing quote is missing, the string overwrites
  the value and its terminator, so that the stored value is the unterminated string followed by whatever
  the fresh memory of the token buffer holds up to the next NUL character.\<close>

theorem unterminated_string_leaks:
  assumes "key_ok k" "w \<noteq> []" "\<forall>c \<in> set w. plain c" "\<forall>c \<in> set u. quotable c"
    "length k < length u" "length w < length u" "length u < CONFIG_TOKSIZE"
    and memory: "mem = u @ drop (length u) (take CONFIG_TOKSIZE (raw CONFIG_TOKSIZE @ replicate CONFIG_TOKSIZE NUL))" "NUL \<in> set mem"
  shows "\<exists>d. config_parse raw (Some (k @ ''='' @ w @ '' '' @ [CHR 0x22] @ u @ [NEWLINE])) = Inr (0, d)
    \<and> config_get d k = Some (takeWhile (\<lambda>c. c \<noteq> NUL) mem)"
proof -
  let ?s = "start_parser raw"
  obtain a where a: "\<And>c cs. parse_chars raw (k @ [] @ ''='' @ c # cs) ?s = parse_chars raw (c # cs) a" "idle a" "data a = init_config"
      "cur_pair a = new_key init_config k" "drop (length k + 1) (token a) = drop (length k + 1) (token ?s)"
    using key_part [OF start_ready assms(1), of "[]" raw] unfolding init_data by (metis empty_iff list.set(1))
  have "drop (length u) (token a) = drop (length u) (token ?s)" using drop_further [OF a(5)] assms(5) by simp
  then have "mem = u @ drop (length u) (token a)" using memory(1) by (simp add: start_parser_def)
  then obtain s' where "parse_chars raw (w @ '' '' @ [CHR 0x22] @ u @ [NEWLINE]) a = Inr s'"
      "data s' = store (new_key init_config k) (takeWhile (\<lambda>c. c \<noteq> NUL) mem) init_config"
    using unterminated_part [OF a(2) assms(2-4,6,7) _ memory(2)] a(3,4) by metis
  moreover have "parse_chars raw (k @ ''='' @ w @ '' '' @ [CHR 0x22] @ u @ [NEWLINE]) ?s = parse_chars raw (w @ '' '' @ [CHR 0x22] @ u @ [NEWLINE]) a"
    using a(1) assms(2) by (cases w) auto
  moreover have "config_get (store (new_key init_config k) v init_config) k = Some v" for v
    using bst.find_insert_same [OF bst.inv_empty bst.find_empty, of k v]
    by (simp add: store_new_key config_get_def get_value_def init_data)
  ultimately show ?thesis by (simp add: parse_from)
qed

lemma unterminated_string_leaks_witness:
  "\<exists>d. config_parse (\<lambda>n. ''stale data'') (Some (''k'' @ ''='' @ ''v'' @ '' '' @ [CHR 0x22] @ ''xy'' @ [NEWLINE])) = Inr (0, d)
    \<and> config_get d ''k'' = Some ''xyale data''"
proof -
  let ?mem = "''xy'' @ drop (length ''xy'') (take CONFIG_TOKSIZE (''stale data'' @ replicate CONFIG_TOKSIZE NUL))"
  have m: "NUL \<in> set ?mem" "takeWhile (\<lambda>c. c \<noteq> NUL) ?mem = ''xyale data''" by code_simp+
  have "key_ok ''k''" "\<forall>c \<in> set ''v''. plain c" "\<forall>c \<in> set ''xy''. quotable c" "length ''xy'' < CONFIG_TOKSIZE"
    by (simp_all add: key_ok_def CONFIG_TOKSIZE_def plain_def quotable_def isspace_def NUL_def NEWLINE_def)
  then show ?thesis
    using unterminated_string_leaks [of "''k''" "''v''" "''xy''" ?mem "\<lambda>n. ''stale data''"] m by simp
qed

end
