(* ===== verification/TrackerMain.thy ===== *)
theory TrackerMain
  imports Tracker ConfigParse
begin

text \<open>
  Loading the settings of a server, src/server/tracker_main.cc and the key names of
  src/base/common_define.h. The files are a function from names to contents. What the loop over
  config_iterate prints is left out. A std::string made from NULL is a use of NULL.
\<close>

definition RUN_AS_DAEMON :: string where "RUN_AS_DAEMON = ''run_by_daemon''"
definition MAX_CORE_FILE :: string where "MAX_CORE_FILE = ''max_core_file''"
definition INFO_LOG :: string where "INFO_LOG = ''info_log''"
definition WARN_LOG :: string where "WARN_LOG = ''warn_log''"
definition ERR_LOG :: string where "ERR_LOG = ''err_log''"
definition LOG_MAX_SIZE :: string where "LOG_MAX_SIZE = ''log_max_size''"
definition RUN_BY_USER :: string where "RUN_BY_USER = ''run_by_user''"
definition PID_FILE :: string where "PID_FILE = ''pid_file''"
definition MAX_CONNECTIONS :: string where "MAX_CONNECTIONS = ''max_connections''"
definition SOCKET_BUFF_SIZE :: string where "SOCKET_BUFF_SIZE = ''socket_buff_size''"
definition COMPUTING_THREADS :: string where "COMPUTING_THREADS = ''computing_threads''"
definition PRELOAD_TASKS :: string where "PRELOAD_TASKS = ''preload_tasks''"
definition TASK_DUPLICATE :: string where "TASK_DUPLICATE = ''task_duplicate''"
definition CLASS_FACTORY :: string where "CLASS_FACTORY = ''class_factory''"
definition TRACKER_GROUP :: string where "TRACKER_GROUP = ''tracker_group''"
definition TRACKER_SERVER :: string where "TRACKER_SERVER = ''tracker_server''"
definition CONNECT_TIMEOUT :: string where "CONNECT_TIMEOUT = ''connect_timeout''"
definition NETWORK_TIMEOUT :: string where "NETWORK_TIMEOUT = ''network_timeout''"
definition HEART_BEAT_INTERVAL :: string where "HEART_BEAT_INTERVAL = ''heart_beat_interval''"
definition STAT_REPORT_INTERVAL :: string where "STAT_REPORT_INTERVAL = ''stat_report_interval''"
definition LEASE_TIMEOUT :: string where "LEASE_TIMEOUT = ''lease_timeout''"
definition MYSQL_DATABASE :: string where "MYSQL_DATABASE = ''mysql_database''"
definition MYSQL_HOST :: string where "MYSQL_HOST = ''mysql_host''"
definition MYSQL_USER :: string where "MYSQL_USER = ''mysql_user''"
definition MYSQL_PASSWD :: string where "MYSQL_PASSWD = ''mysql_passwd''"
definition MYSQL_PORT_NO :: string where "MYSQL_PORT_NO = ''mysql_port''"

lemmas config_keys = RUN_AS_DAEMON_def MAX_CORE_FILE_def INFO_LOG_def WARN_LOG_def ERR_LOG_def LOG_MAX_SIZE_def
  RUN_BY_USER_def PID_FILE_def MAX_CONNECTIONS_def SOCKET_BUFF_SIZE_def COMPUTING_THREADS_def PRELOAD_TASKS_def
  TASK_DUPLICATE_def CLASS_FACTORY_def TRACKER_GROUP_def TRACKER_SERVER_def CONNECT_TIMEOUT_def NETWORK_TIMEOUT_def
  HEART_BEAT_INTERVAL_def STAT_REPORT_INTERVAL_def LEASE_TIMEOUT_def MYSQL_DATABASE_def MYSQL_HOST_def MYSQL_USER_def
  MYSQL_PASSWD_def MYSQL_PORT_NO_def

text \<open>A flag, which has to be there; a number, which keeps its default.\<close>

definition flag :: "string option \<Rightarrow> bool result" where
  "flag v = (case v of None \<Rightarrow> Inl NullDeref | Some s \<Rightarrow> Inr (s = ''true''))"

definition number :: "string option \<Rightarrow> int \<Rightarrow> int" where
  "number v dflt = (case v of None \<Rightarrow> dflt | Some s \<Rightarrow> atoi s)"

text \<open>ParseBytes of the value with the default as its second argument, an int.\<close>

definition byte_size :: "nat \<Rightarrow> string option \<Rightarrow> int \<Rightarrow> int result" where
  "byte_size lb v dflt = (case v of None \<Rightarrow> Inr dflt | Some s \<Rightarrow> ParseBytes lb s (wrap32 dflt))"

definition load_flags :: "(string \<Rightarrow> string option) \<Rightarrow> settings_s \<Rightarrow> settings_s result" where
  "load_flags cfg st =
     rbind (flag (cfg RUN_AS_DAEMON)) (\<lambda>daemon.
     rbind (flag (cfg MAX_CORE_FILE)) (\<lambda>core.
       Inr (st\<lparr>run_as_daemon := daemon, max_core_file := core\<rparr>)))"

definition load_strings :: "(string \<Rightarrow> string option) \<Rightarrow> settings_s \<Rightarrow> settings_s" where
  "load_strings cfg st =
     st\<lparr>info_log := cfg INFO_LOG, warn_log := cfg WARN_LOG, err_log := cfg ERR_LOG, run_by_user := cfg RUN_BY_USER,
        pid_file := cfg PID_FILE, class_factory := cfg CLASS_FACTORY, tracker_group := cfg TRACKER_GROUP,
        tracker_server := cfg TRACKER_SERVER, mysql_database := cfg MYSQL_DATABASE, mysql_host := cfg MYSQL_HOST,
        mysql_user := cfg MYSQL_USER, mysql_passwd := cfg MYSQL_PASSWD\<rparr>"

definition load_sizes :: "nat \<Rightarrow> (string \<Rightarrow> string option) \<Rightarrow> settings_s \<Rightarrow> settings_s result" where
  "load_sizes lb cfg st =
     rbind (byte_size lb (cfg LOG_MAX_SIZE) (log_max_size st)) (\<lambda>log.
     rbind (byte_size lb (cfg SOCKET_BUFF_SIZE) (socket_buff_size st)) (\<lambda>buff.
       Inr (st\<lparr>log_max_size := log,
               socket_buff_size := (if buff < 8 * 1024 \<or> buff > 512 * 1024 then 64 * 1024 else buff)\<rparr>)))"

definition load_numbers :: "(string \<Rightarrow> string option) \<Rightarrow> settings_s \<Rightarrow> settings_s" where
  "load_numbers cfg st =
     st\<lparr>max_connections := number (cfg MAX_CONNECTIONS) (max_connections st),
        task_duplicate := number (cfg TASK_DUPLICATE) (task_duplicate st),
        preload_tasks := number (cfg PRELOAD_TASKS) (preload_tasks st),
        computing_threads := number (cfg COMPUTING_THREADS) (computing_threads st),
        connect_timeout := number (cfg CONNECT_TIMEOUT) (connect_timeout st),
        network_timeout := number (cfg NETWORK_TIMEOUT) (network_timeout st),
        heart_beat_interval := number (cfg HEART_BEAT_INTERVAL) (heart_beat_interval st),
        stat_report_interval := number (cfg STAT_REPORT_INTERVAL) (stat_report_interval st),
        lease_timeout := number (cfg LEASE_TIMEOUT) (lease_timeout st),
        mysql_port := number (cfg MYSQL_PORT_NO) (mysql_port st)\<rparr>"

definition load_settings :: "nat \<Rightarrow> (string \<Rightarrow> string option) \<Rightarrow> settings_s \<Rightarrow> settings_s result" where
  "load_settings lb cfg st =
     rbind (load_flags cfg st) (\<lambda>st1. rbind (load_sizes lb cfg (load_strings cfg st1)) (\<lambda>st2. Inr (load_numbers cfg st2)))"

definition LoadConfig :: "nat \<Rightarrow> (nat \<Rightarrow> string) \<Rightarrow> (string \<Rightarrow> string option) \<Rightarrow> string \<Rightarrow> settings_s \<Rightarrow> config_t \<Rightarrow>
    (bool \<times> settings_s \<times> config_t) result" where
  "LoadConfig lb raw files name st config =
     (if name = [] then Inr (False, st, config)
      else rbind (config_parse raw (files name)) (\<lambda>(rc, d).
        if rc \<noteq> 0 then Inl Abort
        else rbind (iterate_all (bst_count (table d) + 1) d) (\<lambda>(pairs, d').
          rbind (load_settings lb (config_get d') (st\<lparr>config_file := name\<rparr>)) (\<lambda>st'. Inr (True, st', d')))))"

section \<open>Properties\<close>

lemma number_simps [simp]: "number None dflt = dflt" "number (Some s) dflt = atoi s"
  by (simp_all add: number_def)

text \<open>Loading a file of well-formed lines depends on the first value of every key only.\<close>

lemma LoadConfig_lines:
  assumes "files name = Some (concat (map line_text lns))" "name \<noteq> []" "\<forall>ln \<in> set lns. line_ok ln"
    "length (concat (map line_pairs lns)) < 2 ^ 31"
  shows "\<exists>d. config_get d = map_of (concat (map line_pairs lns))
    \<and> LoadConfig lb raw files name st config
        = rbind (load_settings lb (map_of (concat (map line_pairs lns))) (st\<lparr>config_file := name\<rparr>)) (\<lambda>st'. Inr (True, st', d))"
proof -
  obtain d where d: "config_parse raw (files name) = Inr (0, d)" "config_get d = map_of (concat (map line_pairs lns))"
      "tree_ok (table d)" "\<not> iterating d" "bst_count (table d) = length (items (table d))"
    using lines_config [OF assms(3,4), of raw] assms(1) by auto
  obtain d' where d': "iterate_all (bst_count (table d) + 1) d = Inr (items (table d), d')" "tree_ok (table d')" "items (table d') = items (table d)"
    using iterate_items [OF d(4,3), of "bst_count (table d) + 1"] d(5) by auto
  have "config_get d' = map_of (concat (map line_pairs lns))" using same_items_get [OF d(3) d'(2,3)] d(2) by simp
  then show ?thesis using assms(2) d(1) d'(1)
    by (intro exI [of _ d']) (simp add: LoadConfig_def del: iterate_all.simps)
qed

lemma load_settings_outcome:
  "load_settings lb cfg st =
     (if cfg RUN_AS_DAEMON = None \<or> cfg MAX_CORE_FILE = None then Inl NullDeref
      else rbind (byte_size lb (cfg LOG_MAX_SIZE) (log_max_size st)) (\<lambda>log.
        rbind (byte_size lb (cfg SOCKET_BUFF_SIZE) (socket_buff_size st)) (\<lambda>buff.
          Inr (load_numbers cfg (load_strings cfg (st\<lparr>run_as_daemon := cfg RUN_AS_DAEMON = Some ''true'',
            max_core_file := cfg MAX_CORE_FILE = Some ''true'', log_max_size := log,
            socket_buff_size := (if buff < 8 * 1024 \<or> buff > 512 * 1024 then 64 * 1024 else buff)\<rparr>))))))"
  by (auto simp: load_settings_def load_flags_def flag_def load_sizes_def load_strings_def load_numbers_def rbind_def
      split: option.split sum.split)


text \<open>A file with both flags, one of them false, a size with a suffix and a setting that is there twice.\<close>

definition sample_conf :: "config_line list" where
  "sample_conf = [Setting RUN_AS_DAEMON '' '' '' '' ''false'', Setting MAX_CORE_FILE [] [] ''true'', Setting SOCKET_BUFF_SIZE '' '' '' '' ''16K'',
     Quoted TRACKER_GROUP [] [] ''10.0.0.1:80'', Setting LEASE_TIMEOUT [] [] ''20'', Setting LEASE_TIMEOUT [] [] ''30'']"

definition sample_cfg :: "string \<Rightarrow> string option" where
  "sample_cfg = map_of (concat (map line_pairs sample_conf))"

lemma sample_conf_ok: "\<forall>ln \<in> set sample_conf. line_ok ln"
  by (simp add: sample_conf_def config_keys key_ok_def CONFIG_TOKSIZE_def plain_def quotable_def blank_def isspace_def NUL_def NEWLINE_def)

lemma sample_cfg_values:
  "sample_cfg LOG_MAX_SIZE = None" "sample_cfg SOCKET_BUFF_SIZE = Some ''16K''" "sample_cfg RUN_AS_DAEMON = Some ''false''"
  "sample_cfg MAX_CORE_FILE = Some ''true''" "sample_cfg LEASE_TIMEOUT = Some ''20''" "sample_cfg TRACKER_GROUP = Some ''10.0.0.1:80''"
  by (simp_all add: sample_cfg_def sample_conf_def config_keys)


text \<open>A socket_buff_size that is written without a suffix is multiplied by the default of 65536, so that
  every number above 8 exceeds the upper bound and the buffer keeps the default size, whatever the number;
  with the suffix K the size in the file is the size that is used, from 8K to 512K.\<close>

theorem buffer_size_unit:
  assumes "ds \<noteq> []" "\<forall>d \<in> set ds. is_digit d" "0 < digits_value ds" "digits_value ds < 2 ^ 31" "32 \<le> lb"
    "cfg LOG_MAX_SIZE = None" "socket_buff_size st = 64 * 1024"
  shows "(8 < digits_value ds \<longrightarrow> load_sizes lb (cfg(SOCKET_BUFF_SIZE \<mapsto> ds)) st = Inr st)
    \<and> (8 \<le> digits_value ds \<and> digits_value ds \<le> 512 \<longrightarrow>
         load_sizes lb (cfg(SOCKET_BUFF_SIZE \<mapsto> ds @ ''K'')) st = Inr (st\<lparr>socket_buff_size := 1024 * digits_value ds\<rparr>))"
proof -
  have c: "(cfg(SOCKET_BUFF_SIZE \<mapsto> v)) LOG_MAX_SIZE = None" for v using assms(6) by (simp add: config_keys)
  have "digits_value ds * 65536 < 2 ^ 31 * 65536" using assms(4) by (intro mult_strict_right_mono) auto
  then have w: "wrap64 (digits_value ds * 65536) = digits_value ds * 65536"
    using assms(3) by (intro wrap64_id) auto
  have "wrap32 (64 * 1024) = 65536" by (simp add: wrap32_def)
  note p = ParseBytes_suffix [OF assms(1-5), of "wrap32 (64 * 1024)", unfolded this w]
  have log: "byte_size lb None dflt = Inr dflt" for dflt by (simp add: byte_size_def)
  have plain: "byte_size lb (Some ds) (64 * 1024) = Inr (digits_value ds * 65536)"
    and kilo: "byte_size lb (Some (ds @ ''K'')) (64 * 1024) = Inr (digits_value ds * 1024)"
    using p by (simp_all add: byte_size_def wrap32_def)
  have calc: "load_sizes lb (cfg(SOCKET_BUFF_SIZE \<mapsto> v)) st
      = Inr (st\<lparr>socket_buff_size := (if b < 8 * 1024 \<or> b > 512 * 1024 then 64 * 1024 else b)\<rparr>)"
    if "byte_size lb (Some v) (64 * 1024) = Inr b" for v b
  proof -
    have "byte_size lb ((cfg(SOCKET_BUFF_SIZE \<mapsto> v)) LOG_MAX_SIZE) (log_max_size st) = Inr (log_max_size st)"
      unfolding c by (rule log)
    moreover have "byte_size lb ((cfg(SOCKET_BUFF_SIZE \<mapsto> v)) SOCKET_BUFF_SIZE) (socket_buff_size st) = Inr b"
      using that assms(7) by simp
    ultimately have "load_sizes lb (cfg(SOCKET_BUFF_SIZE \<mapsto> v)) st = Inr (st\<lparr>log_max_size := log_max_size st,
        socket_buff_size := (if b < 8 * 1024 \<or> b > 512 * 1024 then 64 * 1024 else b)\<rparr>)"
      unfolding load_sizes_def by (simp only: rbind_simps)
    then show ?thesis by simp
  qed
  have "st\<lparr>socket_buff_size := 64 * 1024\<rparr> = st" using assms(7) by (cases st) simp
  then show ?thesis unfolding calc [OF plain] calc [OF kilo] by (auto simp: mult.commute)
qed

lemma buffer_size_unit_witness:
  "load_sizes 64 (Map.empty(SOCKET_BUFF_SIZE \<mapsto> ''131072'')) default_settings = Inr default_settings
    \<and> load_sizes 64 (Map.empty(SOCKET_BUFF_SIZE \<mapsto> ''128K'')) default_settings = Inr (default_settings\<lparr>socket_buff_size := 131072\<rparr>)"
  using buffer_size_unit [of "''131072''" 64 Map.empty default_settings] buffer_size_unit [of "''128''" 64 Map.empty default_settings]
  by (simp add: is_digit_def digits_value_def default_settings_def)

end
