(* ===== verification/RbTree.thy ===== *)
theory RbTree
  imports Conhash
begin

text \<open>
  The red-black tree of the virtual nodes, src/libconhash/util_rbtree.c. A node pointer is the subtree
  that hangs at it, Null for the sentinel; its parent pointers are the frames above it, the nearest one
  first, so that a place in the tree is a subtree with its frames. The item of a node is its key with its
  data. The links of the sentinel are never set, using them is a NullDeref. The parent of the root is the
  sentinel at first, but see \<open>root_parent_freed\<close>.
\<close>

datatype color = RED | BLACK

datatype 'a rbt = Null | RB color "'a rbt" 'a "'a rbt"

datatype 'a frame = InLeft color 'a "'a rbt" | InRight color "'a rbt" 'a

text \<open>
  util_rbtree_delete does not set the parent of the node that takes the place of the root, which stays a
  pointer to the node that the caller frees.
\<close>

record 'a util_rbtree =
  rb_root :: "'a rbt"
  root_parent_freed :: bool
  rb_size :: int

definition util_rbtree_init :: "'a util_rbtree" where
  "util_rbtree_init = \<lparr>rb_root = Null, root_parent_freed = False, rb_size = 0\<rparr>"

section \<open>Nodes and places\<close>

fun isred :: "'a rbt \<Rightarrow> bool" where
  "isred Null = False"
| "isred (RB c l x r) = (c = RED)"

fun paint :: "color \<Rightarrow> 'a rbt \<Rightarrow> 'a rbt" where
  "paint c Null = Null"
| "paint c (RB c' l x r) = RB c l x r"

fun frame_color :: "'a frame \<Rightarrow> color" where
  "frame_color (InLeft c x r) = c"
| "frame_color (InRight c l x) = c"

fun fill :: "'a rbt \<Rightarrow> 'a frame \<Rightarrow> 'a rbt" where
  "fill t (InLeft c x r) = RB c t x r"
| "fill t (InRight c l x) = RB c l x t"

definition plug :: "'a rbt \<Rightarrow> 'a frame list \<Rightarrow> 'a rbt" where
  "plug t fs = fold (\<lambda>f t. fill t f) fs t"

lemma plug_simps [simp]: "plug t [] = t" "plug t (f # fs) = plug (fill t f) fs" "plug t (fs @ gs) = plug (plug t fs) gs"
  by (simp_all add: plug_def)

text \<open>A rotation at the node of the argument; the links around it follow by plugging the result.\<close>

fun left_rotate :: "'a rbt \<Rightarrow> 'a rbt result" where
  "left_rotate (RB c l x (RB c2 l2 y r2)) = Inr (RB c2 (RB c l x l2) y r2)"
| "left_rotate t = Inl NullDeref"

fun right_rotate :: "'a rbt \<Rightarrow> 'a rbt result" where
  "right_rotate (RB c (RB c2 l2 y r2) x r) = Inr (RB c2 l2 y (RB c r2 x r))"
| "right_rotate t = Inl NullDeref"

section \<open>Insertion\<close>

fun insert_place :: "'k::linorder \<Rightarrow> ('k \<times> 'd) rbt \<Rightarrow> ('k \<times> 'd) frame list \<Rightarrow> ('k \<times> 'd) frame list" where
  "insert_place k Null fs = fs"
| "insert_place k (RB c l x r) fs =
     (if k < fst x then insert_place k l (InLeft c x r # fs) else insert_place k r (InRight c l x # fs))"

text \<open>
  The loop of rbtree_insert_fixup at the node \<open>t\<close>: it reads the colour of the parent, also that of the
  root's parent, which is freed memory if \<open>freed\<close>. After the rotations the parent is black and the loop ends.
\<close>

definition finish_left :: "'a rbt \<Rightarrow> 'a frame \<Rightarrow> 'a \<Rightarrow> 'a rbt \<Rightarrow> 'a rbt result" where
  "finish_left t p gx u =
     rbind (case p of InRight c l x \<Rightarrow> left_rotate (fill t p) | InLeft c x r \<Rightarrow> Inr (fill t p))
       (\<lambda>p'. right_rotate (RB RED (paint BLACK p') gx u))"

definition finish_right :: "'a rbt \<Rightarrow> 'a frame \<Rightarrow> 'a \<Rightarrow> 'a rbt \<Rightarrow> 'a rbt result" where
  "finish_right t p gx u =
     rbind (case p of InLeft c x r \<Rightarrow> right_rotate (fill t p) | InRight c l x \<Rightarrow> Inr (fill t p))
       (\<lambda>p'. left_rotate (RB RED u gx (paint BLACK p')))"

fun insert_fixup :: "bool \<Rightarrow> 'a rbt \<Rightarrow> 'a frame list \<Rightarrow> 'a rbt result" where
  "insert_fixup freed t [] = (if freed then Inl UseAfterFree else Inr (paint BLACK t))"
| "insert_fixup freed t [p] =
     (if frame_color p = RED then Inl NullDeref else Inr (paint BLACK (fill t p)))"
| "insert_fixup freed t (p # g # fs) =
     (if frame_color p \<noteq> RED then Inr (paint BLACK (plug t (p # g # fs)))
      else case g of
        InLeft c gx u \<Rightarrow>
          if isred u then insert_fixup freed (RB RED (paint BLACK (fill t p)) gx (paint BLACK u)) fs
          else rbind (finish_left t p gx u) (\<lambda>s. Inr (paint BLACK (plug s fs)))
      | InRight c u gx \<Rightarrow>
          if isred u then insert_fixup freed (RB RED (paint BLACK u) gx (paint BLACK (fill t p))) fs
          else rbind (finish_right t p gx u) (\<lambda>s. Inr (paint BLACK (plug s fs))))"

definition util_rbtree_insert :: "'k::linorder \<times> 'd \<Rightarrow> ('k \<times> 'd) util_rbtree \<Rightarrow> ('k \<times> 'd) util_rbtree result" where
  "util_rbtree_insert x t =
     (let freed = (rb_root t \<noteq> Null \<and> root_parent_freed t) in
      rbind (insert_fixup freed (RB RED Null x Null) (insert_place (fst x) (rb_root t) []))
        (\<lambda>r. Inr \<lparr>rb_root = r, root_parent_freed = freed, rb_size = uwrap32 (rb_size t + 1)\<rparr>))"

section \<open>Search\<close>

fun search_place :: "'k::linorder \<Rightarrow> ('k \<times> 'd) rbt \<Rightarrow> ('k \<times> 'd) frame list \<Rightarrow> (('k \<times> 'd) rbt \<times> ('k \<times> 'd) frame list) option" where
  "search_place k Null fs = None"
| "search_place k (RB c l x r) fs =
     (if k < fst x then search_place k l (InLeft c x r # fs)
      else if k > fst x then search_place k r (InRight c l x # fs)
      else Some (RB c l x r, fs))"

fun rb_item :: "'a rbt \<Rightarrow> 'a option" where
  "rb_item Null = None"
| "rb_item (RB c l x r) = Some x"

definition util_rbtree_search :: "('k::linorder \<times> 'd) util_rbtree \<Rightarrow> 'k \<Rightarrow> ('k \<times> 'd) option" where
  "util_rbtree_search t k = (case search_place k (rb_root t) [] of None \<Rightarrow> None | Some (n, fs) \<Rightarrow> rb_item n)"

text \<open>util_rbsubtree_min with its place, and util_rbsubtree_max.\<close>

fun min_place :: "'a rbt \<Rightarrow> 'a frame list \<Rightarrow> 'a rbt \<times> 'a frame list" where
  "min_place Null fs = (Null, fs)"
| "min_place (RB c l x r) fs = (if l = Null then (RB c l x r, fs) else min_place l (InLeft c x r # fs))"

fun util_rbsubtree_max :: "'a rbt \<Rightarrow> 'a option" where
  "util_rbsubtree_max Null = None"
| "util_rbsubtree_max (RB c l x r) = (if r = Null then Some x else util_rbsubtree_max r)"

definition util_rbsubtree_min :: "'a rbt \<Rightarrow> 'a option" where
  "util_rbsubtree_min t = rb_item (fst (min_place t []))"

fun lookup_loop :: "'k::linorder \<Rightarrow> ('k \<times> 'd) option \<Rightarrow> ('k \<times> 'd) rbt \<Rightarrow> ('k \<times> 'd) option" where
  "lookup_loop k node Null = node"
| "lookup_loop k node (RB c l x r) = (if k \<le> fst x then lookup_loop k (Some x) l else lookup_loop k node r)"

definition util_rbtree_lookup :: "('k::linorder \<times> 'd) util_rbtree \<Rightarrow> 'k \<Rightarrow> ('k \<times> 'd) option" where
  "util_rbtree_lookup t k =
     (if rb_root t = Null then None
      else case lookup_loop k None (rb_root t) of Some x \<Rightarrow> Some x | None \<Rightarrow> util_rbsubtree_min (rb_root t))"

fun util_rbtree_mid_travel :: "'a rbt \<Rightarrow> 'a list" where
  "util_rbtree_mid_travel Null = []"
| "util_rbtree_mid_travel (RB c l x r) = util_rbtree_mid_travel l @ x # util_rbtree_mid_travel r"

section \<open>Deletion\<close>

text \<open>A red sibling \<open>w\<close> is rotated above the parent: the colours and links of the parent change, the frames above get one more.\<close>

definition raise_right :: "color \<Rightarrow> 'a \<Rightarrow> 'a rbt \<Rightarrow> 'a frame list \<Rightarrow> color \<times> 'a rbt \<times> 'a frame list" where
  "raise_right pc px w fs =
     (case w of RB RED wl wx wr \<Rightarrow> (RED, wl, InLeft BLACK wx wr # fs) | _ \<Rightarrow> (pc, w, fs))"

definition raise_left :: "color \<Rightarrow> 'a \<Rightarrow> 'a rbt \<Rightarrow> 'a frame list \<Rightarrow> color \<times> 'a rbt \<times> 'a frame list" where
  "raise_left pc px w fs =
     (case w of RB RED wl wx wr \<Rightarrow> (RED, wr, InRight BLACK wl wx # fs) | _ \<Rightarrow> (pc, w, fs))"

text \<open>A black sibling with a red child: the two rotations and colours that end the loop.\<close>

definition settle_left :: "'a rbt \<Rightarrow> color \<Rightarrow> 'a \<Rightarrow> 'a rbt \<Rightarrow> 'a rbt result" where
  "settle_left t pc px w =
     rbind (case w of
              RB wc wl wx wr \<Rightarrow> if isred wr then Inr w else right_rotate (RB RED (paint BLACK wl) wx wr)
            | Null \<Rightarrow> Inl NullDeref)
       (\<lambda>w'. case w' of
          RB wc' wl' wx' wr' \<Rightarrow> left_rotate (RB BLACK t px (RB pc wl' wx' (paint BLACK wr')))
        | Null \<Rightarrow> Inl NullDeref)"

definition settle_right :: "'a rbt \<Rightarrow> color \<Rightarrow> 'a \<Rightarrow> 'a rbt \<Rightarrow> 'a rbt result" where
  "settle_right t pc px w =
     rbind (case w of
              RB wc wl wx wr \<Rightarrow> if isred wl then Inr w else left_rotate (RB RED wl wx (paint BLACK wr))
            | Null \<Rightarrow> Inl NullDeref)
       (\<lambda>w'. case w' of
          RB wc' wl' wx' wr' \<Rightarrow> right_rotate (RB BLACK (RB pc (paint BLACK wl') wx' wr') px t)
        | Null \<Rightarrow> Inl NullDeref)"

text \<open>
  The loop of rbtree_delete_fixup. Whether a node is a left child is found by comparing pointers, so that
  the sentinel without a sibling counts as a left child, and is its own sibling then.
\<close>

function delete_fixup :: "'a rbt \<Rightarrow> 'a frame list \<Rightarrow> 'a rbt result" where
  "delete_fixup t [] = Inr (paint BLACK t)"
| "delete_fixup t (InLeft c px w0 # fs0) =
     (if isred t then Inr (plug (paint BLACK t) (InLeft c px w0 # fs0))
      else case raise_right c px w0 fs0 of (pc, w, fs) \<Rightarrow>
        (case w of
           Null \<Rightarrow> Inl NullDeref
         | RB wc wl wx wr \<Rightarrow>
             if \<not> isred wl \<and> \<not> isred wr then delete_fixup (RB pc t px (RB RED wl wx wr)) fs
             else rbind (settle_left t pc px w) (\<lambda>s. Inr (paint BLACK (plug s fs)))))"
| "delete_fixup t (InRight c w0 px # fs0) =
     (if isred t then Inr (plug (paint BLACK t) (InRight c w0 px # fs0))
      else if t = Null \<and> w0 = Null then Inl NullDeref
      else case raise_left c px w0 fs0 of (pc, w, fs) \<Rightarrow>
        (case w of
           Null \<Rightarrow> Inl NullDeref
         | RB wc wl wx wr \<Rightarrow>
             if \<not> isred wl \<and> \<not> isred wr then delete_fixup (RB pc (RB RED wl wx wr) px t) fs
             else rbind (settle_right t pc px w) (\<lambda>s. Inr (paint BLACK (plug s fs)))))"
  by pat_completeness auto
termination
  by (relation "measure (\<lambda>(t, fs). 2 * length fs + (if isred t then 0 else 1))")
    (auto simp: raise_right_def raise_left_def split: rbt.splits color.splits if_splits)

text \<open>
  util_rbtree_delete of the node at a place. The node \<open>temp\<close> that leaves its position is the node itself
  or the least one of its right subtree, whose item and node then replace it.
\<close>

definition util_rbtree_delete :: "'a rbt \<times> 'a frame list \<Rightarrow> 'a util_rbtree \<Rightarrow> 'a util_rbtree result" where
  "util_rbtree_delete place t =
     (case place of (Null, fs) \<Rightarrow> Inr t
      | (RB c l x r, fs) \<Rightarrow>
          (let t1 = t\<lparr>rb_size := uwrap32 (rb_size t - 1)\<rparr>;
               (temp_color, subst, frames) =
                 (if l = Null then (c, r, fs)
                  else if r = Null then (c, l, fs)
                  else case min_place r [] of
                      (RB tc ml mx mr, ms) \<Rightarrow> (tc, if ml \<noteq> Null then ml else mr, ms @ InRight c l mx # fs)
                    | (Null, ms) \<Rightarrow> (c, Null, ms))
           in if frames = [] then Inr (t1\<lparr>rb_root := paint BLACK subst, root_parent_freed := (subst \<noteq> Null)\<rparr>)
              else rbind (if temp_color = BLACK then delete_fixup subst frames else Inr (plug subst frames))
                     (\<lambda>r'. Inr (t1\<lparr>rb_root := r'\<rparr>))))"

section \<open>The self check\<close>

text \<open>
  rbtree_check_subtree of a node that is not the sentinel. The fields rbh and maxd are shorts. The jump to
  the end from a missing left child skips the right child.
\<close>

definition wrap16 :: "int \<Rightarrow> int" where
  "wrap16 z = (z + 2 ^ 15) mod 2 ^ 16 - 2 ^ 15"

record rbtree_check_s =
  rbh :: int
  maxd :: int
  fini :: int

definition check_rb_height :: "int \<Rightarrow> int \<Rightarrow> rbtree_check_s \<Rightarrow> rbtree_check_s" where
  "check_rb_height level curheight ck =
     (let ck1 = (if rbh ck = 0 then ck\<lparr>rbh := wrap16 curheight\<rparr> else ck);
          ck2 = (if maxd ck1 < level then ck1\<lparr>maxd := wrap16 level\<rparr> else ck1)
      in if rbh ck2 \<noteq> curheight then ck2\<lparr>fini := 3\<rparr> else ck2)"

definition key_less :: "('k::linorder \<times> 'd) option \<Rightarrow> ('k \<times> 'd) option \<Rightarrow> bool" where
  "key_less a b = (case (a, b) of (Some x, Some y) \<Rightarrow> fst x < fst y | _ \<Rightarrow> False)"

fun rbtree_check_subtree :: "('k::linorder \<times> 'd) rbt \<Rightarrow> rbtree_check_s \<Rightarrow> int \<Rightarrow> int \<Rightarrow> rbtree_check_s" where
  "rbtree_check_subtree Null ck level curheight = ck"
| "rbtree_check_subtree (RB c l x r) ck level curheight =
     (if fini ck \<noteq> 0 then ck
      else let h = (if c = BLACK then curheight + 1 else curheight) in
        if l = Null then check_rb_height level h ck
        else if c = RED \<and> isred l then ck\<lparr>fini := 4\<rparr>
        else if key_less (Some x) (rb_item l) then ck\<lparr>fini := 5\<rparr>
        else let ck1 = rbtree_check_subtree l ck (level + 1) h in
          if r = Null then check_rb_height level h ck1
          else if c = RED \<and> isred r then ck1\<lparr>fini := 4\<rparr>
          else if key_less (rb_item r) (Some x) then ck1\<lparr>fini := 5\<rparr>
          else rbtree_check_subtree r ck1 (level + 1) h)"

text \<open>The result with *blackheight and *maxdepth.\<close>

definition util_rbtree_check :: "('k::linorder \<times> 'd) util_rbtree \<Rightarrow> int \<times> (int \<times> int) option" where
  "util_rbtree_check t =
     (case rb_root t of
        Null \<Rightarrow> (0, None)
      | RB c l x r \<Rightarrow>
          if c \<noteq> BLACK then (1, None)
          else let ck = rbtree_check_subtree (rb_root t) \<lparr>rbh = 0, maxd = 0, fini = 0\<rparr> 1 0
               in (fini ck, Some (rbh ck, maxd ck)))"

section \<open>The ring on the tree\<close>

text \<open>The step for one replica in __conhash_add_replicas and __conhash_del_replicas; data is the index of the node.\<close>

definition vnode_add :: "int \<Rightarrow> nat \<Rightarrow> (int \<times> nat) util_rbtree \<Rightarrow> (int \<times> nat) util_rbtree result" where
  "vnode_add h idx t = (if util_rbtree_search t h = None then util_rbtree_insert (h, idx) t else Inr t)"

definition vnode_del :: "int \<Rightarrow> nat \<Rightarrow> (int \<times> nat) util_rbtree \<Rightarrow> (int \<times> nat) util_rbtree result" where
  "vnode_del h idx t =
     (case search_place h (rb_root t) [] of
        None \<Rightarrow> Inr t
      | Some (n, fs) \<Rightarrow> if rb_item n = Some (h, idx) then util_rbtree_delete (n, fs) t else Inr t)"

text \<open>The loop over the replicas, with their hashes.\<close>

fun vnodes_add :: "int list \<Rightarrow> nat \<Rightarrow> (int \<times> nat) util_rbtree \<Rightarrow> (int \<times> nat) util_rbtree result" where
  "vnodes_add [] idx t = Inr t"
| "vnodes_add (h # hs) idx t = rbind (vnode_add h idx t) (vnodes_add hs idx)"

fun vnodes_del :: "int list \<Rightarrow> nat \<Rightarrow> (int \<times> nat) util_rbtree \<Rightarrow> (int \<times> nat) util_rbtree result" where
  "vnodes_del [] idx t = Inr t"
| "vnodes_del (h # hs) idx t = rbind (vnode_del h idx t) (vnodes_del hs idx)"

definition replica_hashes :: "(string \<Rightarrow> int) \<Rightarrow> node_s \<Rightarrow> int list" where
  "replica_hashes hash node = map (\<lambda>i. hash (conhash_node2string node i)) [0..<replicas node]"

end
