(* ===== verification/RbTreeProps.thy ===== *)
theory RbTreeProps
  imports RbTree
begin

text \<open>
  The red-black tree refines the ordered sequence of theory Conhash: every operation keeps the invariants
  of a red-black tree and changes the sequence of the items as std::map does, without a fault as long as
  the parent of the root is not the memory of a node that was freed.
\<close>

abbreviation trav :: "'a rbt \<Rightarrow> 'a list" where "trav \<equiv> util_rbtree_mid_travel"

section \<open>The sequence of the items\<close>

fun lefts :: "'a frame list \<Rightarrow> 'a list" where
  "lefts [] = []"
| "lefts (InLeft c x r # fs) = lefts fs"
| "lefts (InRight c l x # fs) = lefts fs @ trav l @ [x]"

fun rights :: "'a frame list \<Rightarrow> 'a list" where
  "rights [] = []"
| "rights (InLeft c x r # fs) = x # trav r @ rights fs"
| "rights (InRight c l x # fs) = rights fs"

lemma trav_plug: "trav (plug t fs) = lefts fs @ trav t @ rights fs"
proof (induction fs arbitrary: t)
  case (Cons f fs)
  then show ?case by (cases f) auto
qed simp

lemma trav_paint [simp]: "trav (paint c t) = trav t"
  by (cases t) auto

lemma trav_Nil [simp]: "trav t = [] \<longleftrightarrow> t = Null"
  by (cases t) auto

lemma trav_left_rotate: "left_rotate t = Inr t' \<Longrightarrow> trav t' = trav t"
  by (induction t rule: left_rotate.induct) auto

lemma trav_right_rotate: "right_rotate t = Inr t' \<Longrightarrow> trav t' = trav t"
  by (induction t rule: right_rotate.induct) auto

lemma trav_insert_place:
  "smap_inv (trav t) \<Longrightarrow> smap_find (trav t) k = None \<Longrightarrow>
    trav (plug (RB RED Null (k, v) Null) (insert_place k t fs)) = lefts fs @ smap_insert k v (trav t) @ rights fs"
proof (induction k t fs rule: insert_place.induct)
  case (1 k fs)
  then show ?case by (simp add: trav_plug)
next
  case (2 k c l x r fs)
  obtain a b where x: "x = (a, b)" by (cases x)
  have s: "smap_inv (trav l)" "smap_inv (trav r)" and lt: "\<forall>y \<in> fst ` set (trav l). y < a"
    using 2(3) by (auto simp: smap_inv_append x)
  have n: "smap_find (trav l) k = None" "smap_find (trav r) k = None" "k \<noteq> a"
    using 2(4) by (auto simp: smap_find_append x split: option.splits if_splits)
  show ?case
  proof (cases "k < a")
    case True
    then show ?thesis using 2(1) s(1) n(1) by (simp add: x smap_insert_left)
  next
    case False
    then have "\<forall>y \<in> fst ` set (trav l). y < k" using lt n(3) by fastforce
    then show ?thesis using False 2(2) s(2) n(2,3) by (simp add: x smap_insert_right)
  qed
qed

lemma search_place_outcome:
  "smap_inv (trav t) \<Longrightarrow>
    (case search_place k t fs of
       None \<Rightarrow> smap_find (trav t) k = None
     | Some (n, gs) \<Rightarrow> plug n gs = plug t fs \<and> (\<exists>c l v r. n = RB c l (k, v) r \<and> smap_find (trav t) k = Some v))"
proof (induction k t fs rule: search_place.induct)
  case (2 k c l x r fs)
  obtain a b where x: "x = (a, b)" by (cases x)
  have s: "smap_inv (trav l)" "smap_inv (trav r)"
    and lt: "\<forall>y \<in> fst ` set (trav l). y < a" "\<forall>y \<in> fst ` set (trav r). a < y"
    using 2(3) by (auto simp: smap_inv_append x)
  consider "k < a" | "k = a" | "a < k" by fastforce
  then show ?case
  proof cases
    case 1
    then have "smap_find (trav r) k = None" using lt(2) by (intro smap_find_outside(2)) auto
    then show ?thesis using 1 2(1) s(1) by (auto simp: x smap_find_append split: option.splits)
  next
    case 2
    then have "smap_find (trav l) k = None" using lt(1) by (intro smap_find_outside(1)) auto
    then show ?thesis using 2 by (simp add: x smap_find_append)
  next
    case 3
    then have "smap_find (trav l) k = None" using lt(1) by (intro smap_find_outside(1)) auto
    then show ?thesis using 3 2(2) s(2) by (auto simp: x smap_find_append split: option.splits)
  qed
qed simp

lemma min_place_outcome:
  "t \<noteq> Null \<Longrightarrow> \<exists>c x r ms. min_place t fs = (RB c Null x r, ms @ fs) \<and> plug (RB c Null x r) ms = t \<and> lefts ms = []"
proof (induction t fs rule: min_place.induct)
  case (2 c l x r fs)
  show ?case
  proof (cases "l = Null")
    case False
    then obtain c' y r' ms where "min_place l (InLeft c x r # fs) = (RB c' Null y r', ms @ InLeft c x r # fs)"
        "plug (RB c' Null y r') ms = l" "lefts ms = []" using 2 by metis
    moreover have "lefts (ms @ [InLeft c x r]) = []" if "lefts ms = []" for ms :: "'a frame list"
      using that by (induction ms rule: lefts.induct) auto
    ultimately show ?thesis using False
      by (intro exI [of _ c'] exI [of _ y] exI [of _ r'] exI [of _ "ms @ [InLeft c x r]"]) simp
  qed auto
qed simp

section \<open>Colours and heights\<close>

lemma color_cases [simp]: "c \<noteq> RED \<longleftrightarrow> c = BLACK" "c \<noteq> BLACK \<longleftrightarrow> c = RED"
  by (cases c; simp)+

definition rb_color :: "'a rbt \<Rightarrow> color" where
  "rb_color t = (if isred t then RED else BLACK)"

lemma rb_color_simps [simp]: "rb_color Null = BLACK" "rb_color (RB c l x r) = c"
  by (cases c; simp add: rb_color_def)+

lemma isred_color: "isred t \<longleftrightarrow> rb_color t = RED"
  by (simp add: rb_color_def)

text \<open>The number of black nodes on the way down, and the invariants below and above a node.\<close>

fun black_height :: "'a rbt \<Rightarrow> nat" where
  "black_height Null = 0"
| "black_height (RB c l x r) = black_height l + (if c = BLACK then 1 else 0)"

fun rb_ok :: "'a rbt \<Rightarrow> bool" where
  "rb_ok Null \<longleftrightarrow> True"
| "rb_ok (RB c l x r) \<longleftrightarrow> rb_ok l \<and> rb_ok r \<and> black_height l = black_height r
     \<and> (c = RED \<longrightarrow> rb_color l = BLACK \<and> rb_color r = BLACK)"

fun place_ok :: "'a frame list \<Rightarrow> nat \<Rightarrow> color \<Rightarrow> bool" where
  "place_ok [] n c \<longleftrightarrow> c = BLACK"
| "place_ok (InLeft pc x r # fs) n c \<longleftrightarrow> rb_ok r \<and> black_height r = n \<and> (pc = RED \<longrightarrow> c = BLACK \<and> rb_color r = BLACK)
     \<and> place_ok fs (n + (if pc = BLACK then 1 else 0)) pc"
| "place_ok (InRight pc l x # fs) n c \<longleftrightarrow> rb_ok l \<and> black_height l = n \<and> (pc = RED \<longrightarrow> c = BLACK \<and> rb_color l = BLACK)
     \<and> place_ok fs (n + (if pc = BLACK then 1 else 0)) pc"

definition tree_valid :: "'a rbt \<Rightarrow> bool" where
  "tree_valid t \<longleftrightarrow> rb_ok t \<and> rb_color t = BLACK"

lemma plug_valid: "tree_valid (plug t fs) \<longleftrightarrow> rb_ok t \<and> place_ok fs (black_height t) (rb_color t)" (is "?A \<longleftrightarrow> ?B")
proof (induction fs arbitrary: t)
  case (Cons f fs)
  then show ?case by (cases f) auto
qed (auto simp: tree_valid_def)

lemma paint_ok [simp]: "rb_ok t \<Longrightarrow> rb_ok (paint BLACK t)"
  by (cases t) simp_all

lemma paint_color [simp]: "rb_color (paint BLACK t) = BLACK"
  by (cases t) simp_all

lemma paint_height [simp]: "black_height (paint BLACK t) = (if rb_color t = RED then black_height t + 1 else black_height t)"
proof (cases t)
  case (RB c l x r)
  then show ?thesis by (cases c) simp_all
qed simp

lemma paint_valid [simp]: "tree_valid t \<Longrightarrow> paint BLACK t = t"
  by (cases t) (auto simp: tree_valid_def)

lemma place_ok_black: "place_ok fs n c \<Longrightarrow> place_ok fs n BLACK"
  by (cases "(fs, n, c)" rule: place_ok.cases) auto

section \<open>Insertion\<close>

lemma finish_left_ok:
  assumes "rb_ok (RB RED l x r)" "place_ok (p # InLeft gc gx u # fs) (black_height l) BLACK" "frame_color p = RED" "\<not> isred u"
  shows "\<exists>s. finish_left (RB RED l x r) p gx u = Inr s \<and> tree_valid (plug s fs)
    \<and> trav s = trav (fill (fill (RB RED l x r) p) (InLeft gc gx u))"
proof (cases p)
  case (InLeft c px pr)
  then show ?thesis using assms by (auto simp: finish_left_def plug_valid isred_color)
next
  case (InRight c pl px)
  then show ?thesis using assms by (auto simp: finish_left_def plug_valid isred_color)
qed

lemma finish_right_ok:
  assumes "rb_ok (RB RED l x r)" "place_ok (p # InRight gc u gx # fs) (black_height l) BLACK" "frame_color p = RED" "\<not> isred u"
  shows "\<exists>s. finish_right (RB RED l x r) p gx u = Inr s \<and> tree_valid (plug s fs)
    \<and> trav s = trav (fill (fill (RB RED l x r) p) (InRight gc u gx))"
proof (cases p)
  case (InLeft c px pr)
  then show ?thesis using assms by (auto simp: finish_right_def plug_valid isred_color)
next
  case (InRight c pl px)
  then show ?thesis using assms by (auto simp: finish_right_def plug_valid isred_color)
qed

lemma black_frame: "frame_color p = BLACK \<Longrightarrow> place_ok (p # fs) n c = place_ok (p # fs) n BLACK"
  by (cases p) auto

lemma insert_fixup_ok:
  "isred t \<Longrightarrow> rb_ok t \<Longrightarrow> place_ok fs (black_height t) BLACK \<Longrightarrow>
    \<exists>t'. insert_fixup False t fs = Inr t' \<and> tree_valid t' \<and> trav t' = trav (plug t fs)"
proof (induction "False" t fs rule: insert_fixup.induct)
  case (1 t)
  then show ?case by (simp add: tree_valid_def)
next
  case (2 t p)
  have c: "frame_color p = BLACK" using 2(3) by (cases p; cases "frame_color p") auto
  then have "tree_valid (plug t [p])" using 2 black_frame [of p "[]"] by (metis plug_valid)
  then show ?case using c by simp
next
  case (3 t p g fs)
  obtain l x r where t: "t = RB RED l x r" using 3(3) by (cases t) auto
  show ?case
  proof (cases "frame_color p = RED")
    case False
    then have "tree_valid (plug t (p # g # fs))" using 3(4,5) black_frame [of p "g # fs"] by (metis plug_valid color_cases(1))
    then show ?thesis using False by simp
  next
    case red: True
    show ?thesis
    proof (cases g)
      case (InLeft gc gx u)
      show ?thesis
      proof (cases "isred u")
        case True
        let ?s = "RB RED (paint BLACK (fill t p)) gx (paint BLACK u)"
        have "rb_ok ?s" "place_ok fs (black_height ?s) BLACK"
          using 3(4,5) red True InLeft t by (cases p; auto simp: isred_color dest: place_ok_black)+
        then obtain t' where "insert_fixup False ?s fs = Inr t'" "tree_valid t'" "trav t' = trav (plug ?s fs)"
          using 3(1) red True InLeft by auto
        then show ?thesis using red True InLeft by (simp add: trav_plug)
      next
        case False
        obtain s where "finish_left t p gx u = Inr s" "tree_valid (plug s fs)" "trav s = trav (fill (fill t p) (InLeft gc gx u))"
          using finish_left_ok [of l x r p gc gx u fs] 3(4,5) False red InLeft t by auto
        then show ?thesis using red False InLeft by (simp add: trav_plug)
      qed
    next
      case (InRight gc u gx)
      show ?thesis
      proof (cases "isred u")
        case True
        let ?s = "RB RED (paint BLACK u) gx (paint BLACK (fill t p))"
        have "rb_ok ?s" "place_ok fs (black_height ?s) BLACK"
          using 3(4,5) red True InRight t by (cases p; auto simp: isred_color dest: place_ok_black)+
        then obtain t' where "insert_fixup False ?s fs = Inr t'" "tree_valid t'" "trav t' = trav (plug ?s fs)"
          using 3(2) red True InRight by auto
        then show ?thesis using red True InRight by (simp add: trav_plug)
      next
        case False
        obtain s where "finish_right t p gx u = Inr s" "tree_valid (plug s fs)" "trav s = trav (fill (fill t p) (InRight gc u gx))"
          using finish_right_ok [of l x r p gc u gx fs] 3(4,5) False red InRight t by auto
        then show ?thesis using red False InRight by (simp add: trav_plug)
      qed
    qed
  qed
qed

lemma insert_fixup_freed: "insert_fixup True t fs = Inl UseAfterFree \<or> insert_fixup True t fs = insert_fixup False t fs"
  by (induction True t fs rule: insert_fixup.induct) (auto split: frame.split)

section \<open>Deletion\<close>

lemma settle_left_ok:
  assumes "rb_ok t" "rb_ok w" "black_height w = black_height t + 1" "rb_color t = BLACK" "w = RB BLACK wl wx wr"
    "rb_color wl = RED \<or> rb_color wr = RED" "place_ok fs (black_height t + 1 + (if pc = BLACK then 1 else 0)) pc"
  shows "\<exists>s. settle_left t pc px w = Inr s \<and> tree_valid (plug s fs) \<and> trav s = trav t @ px # trav w"
proof (cases "isred wr")
  case True
  then show ?thesis using assms by (auto simp: settle_left_def plug_valid isred_color)
next
  case False
  then obtain a y b where wl: "wl = RB RED a y b" using assms(6) by (cases wl) (auto simp: isred_color)
  show ?thesis using assms(1-5,7) False unfolding wl by (auto simp: settle_left_def plug_valid isred_color)
qed

lemma settle_right_ok:
  assumes "rb_ok t" "rb_ok w" "black_height w = black_height t + 1" "rb_color t = BLACK" "w = RB BLACK wl wx wr"
    "rb_color wl = RED \<or> rb_color wr = RED" "place_ok fs (black_height t + 1 + (if pc = BLACK then 1 else 0)) pc"
  shows "\<exists>s. settle_right t pc px w = Inr s \<and> tree_valid (plug s fs) \<and> trav s = trav w @ px # trav t"
proof (cases "isred wl")
  case True
  then show ?thesis using assms by (auto simp: settle_right_def plug_valid isred_color)
next
  case False
  then obtain a y b where wr: "wr = RB RED a y b" using assms(6) by (cases wr) (auto simp: isred_color)
  show ?thesis using assms(1-5,7) False unfolding wr by (auto simp: settle_right_def plug_valid isred_color)
qed

lemma black_node: "rb_color w = BLACK \<Longrightarrow> w \<noteq> Null \<Longrightarrow> \<exists>l x r. w = RB BLACK l x r"
  by (cases w) auto

lemma raise_right_ok:
  assumes "rb_color t = BLACK" "place_ok (InLeft c px w0 # fs0) (black_height t + 1) BLACK" "raise_right c px w0 fs0 = (pc, w, fs)"
  shows "(\<exists>wl wx wr. w = RB BLACK wl wx wr) \<and> rb_ok w \<and> black_height w = black_height t + 1
    \<and> place_ok fs (black_height t + 1 + (if pc = BLACK then 1 else 0)) pc
    \<and> trav (plug (RB pc t px w) fs) = trav (plug (RB c t px w0) fs0)"
proof -
  have w0: "rb_ok w0" "black_height w0 = black_height t + 1" using assms(2) by auto
  obtain d l x r where w: "w0 = RB d l x r" using w0(2) by (cases w0) auto
  show ?thesis
  proof (cases d)
    case RED
    then have "rb_color l = BLACK" "l \<noteq> Null" using w0 w by auto
    then obtain wl wx wr where l: "l = RB BLACK wl wx wr" using black_node [of l] by auto
    show ?thesis using assms RED w unfolding l by (auto simp: raise_right_def trav_plug)
  next
    case BLACK
    then show ?thesis using assms w by (auto simp: raise_right_def)
  qed
qed

lemma raise_left_ok:
  assumes "rb_color t = BLACK" "place_ok (InRight c w0 px # fs0) (black_height t + 1) BLACK" "raise_left c px w0 fs0 = (pc, w, fs)"
  shows "(\<exists>wl wx wr. w = RB BLACK wl wx wr) \<and> rb_ok w \<and> black_height w = black_height t + 1
    \<and> place_ok fs (black_height t + 1 + (if pc = BLACK then 1 else 0)) pc
    \<and> trav (plug (RB pc w px t) fs) = trav (plug (RB c w0 px t) fs0)"
proof -
  have w0: "rb_ok w0" "black_height w0 = black_height t + 1" using assms(2) by auto
  obtain d l x r where w: "w0 = RB d l x r" using w0(2) by (cases w0) auto
  show ?thesis
  proof (cases d)
    case RED
    then have "rb_color r = BLACK" "r \<noteq> Null" using w0 w by auto
    then obtain wl wx wr where r: "r = RB BLACK wl wx wr" using black_node [of r] by auto
    show ?thesis using assms RED w unfolding r by (auto simp: raise_left_def trav_plug)
  next
    case BLACK
    then show ?thesis using assms w by (auto simp: raise_left_def)
  qed
qed

lemma paint_black: "rb_color t = BLACK \<Longrightarrow> paint BLACK t = t"
  by (cases t) auto

text \<open>The node of the loop may be red below a red parent; it is painted then.\<close>

lemma delete_fixup_ok:
  "rb_ok (paint BLACK t) \<Longrightarrow> place_ok fs (black_height t + 1) BLACK \<Longrightarrow>
    \<exists>t'. delete_fixup t fs = Inr t' \<and> tree_valid t' \<and> trav t' = trav (plug t fs)"
proof (induction t fs rule: delete_fixup.induct)
  case (1 t)
  then show ?case by (simp add: tree_valid_def)
next
  case (2 t c px w0 fs0)
  show ?case
  proof (cases "isred t")
    case True
    then have "tree_valid (plug (paint BLACK t) (InLeft c px w0 # fs0))" using 2(2,3) by (subst plug_valid) (auto simp: isred_color)
    then show ?thesis using True by (auto simp: trav_plug)
  next
    case False
    obtain pc w fs where rs: "raise_right c px w0 fs0 = (pc, w, fs)" by (cases "raise_right c px w0 fs0")
    have tb: "rb_color t = BLACK" using False by (simp add: rb_color_def)
    have ok: "rb_ok t" using 2(2) paint_black [OF tb] by simp
    from raise_right_ok [OF tb 2(3) rs] obtain wl wx wr where
      w: "w = RB BLACK wl wx wr" "rb_ok w" "black_height w = black_height t + 1"
        "place_ok fs (black_height t + 1 + (if pc = BLACK then 1 else 0)) pc"
        "trav (plug (RB pc t px w) fs) = trav (plug (RB c t px w0) fs0)" by blast
    show ?thesis
    proof (cases "\<not> isred wl \<and> \<not> isred wr")
      case True
      let ?s = "RB pc t px (RB RED wl wx wr)"
      have s: "rb_ok (paint BLACK ?s)" "black_height ?s + 1 = black_height t + 1 + (if pc = BLACK then 1 else 0)"
        using ok w(1-3) tb True by (auto simp: isred_color)
      have "place_ok fs (black_height ?s + 1) BLACK" unfolding s(2) by (rule place_ok_black [OF w(4)])
      then obtain t' where "delete_fixup ?s fs = Inr t'" "tree_valid t'" "trav t' = trav (plug ?s fs)"
        using 2(1) [OF False rs [symmetric] refl w(1) True s(1)] by blast
      then show ?thesis using False rs w(1,5) True by (auto simp: trav_plug)
    next
      case red: False
      obtain s where "settle_left t pc px w = Inr s" "tree_valid (plug s fs)" "trav s = trav t @ px # trav w"
        using settle_left_ok [OF ok w(2,3) tb w(1) _ w(4)] red by (auto simp: isred_color)
      then show ?thesis using False rs w(1,5) red by (auto simp: trav_plug)
    qed
  qed
next
  case (3 t c w0 px fs0)
  show ?case
  proof (cases "isred t")
    case True
    then have "tree_valid (plug (paint BLACK t) (InRight c w0 px # fs0))" using 3(2,3) by (subst plug_valid) (auto simp: isred_color)
    then show ?thesis using True by (auto simp: trav_plug)
  next
    case False
    obtain pc w fs where rs: "raise_left c px w0 fs0 = (pc, w, fs)" by (cases "raise_left c px w0 fs0")
    have tb: "rb_color t = BLACK" using False by (simp add: rb_color_def)
    have nn: "\<not> (t = Null \<and> w0 = Null)" using 3(3) by auto
    have ok: "rb_ok t" using 3(2) paint_black [OF tb] by simp
    from raise_left_ok [OF tb 3(3) rs] obtain wl wx wr where
      w: "w = RB BLACK wl wx wr" "rb_ok w" "black_height w = black_height t + 1"
        "place_ok fs (black_height t + 1 + (if pc = BLACK then 1 else 0)) pc"
        "trav (plug (RB pc w px t) fs) = trav (plug (RB c w0 px t) fs0)" by blast
    show ?thesis
    proof (cases "\<not> isred wl \<and> \<not> isred wr")
      case True
      let ?s = "RB pc (RB RED wl wx wr) px t"
      have s: "rb_ok (paint BLACK ?s)" "black_height ?s + 1 = black_height t + 1 + (if pc = BLACK then 1 else 0)"
        using ok w(1-3) tb True by (auto simp: isred_color)
      have "place_ok fs (black_height ?s + 1) BLACK" unfolding s(2) by (rule place_ok_black [OF w(4)])
      then obtain t' where "delete_fixup ?s fs = Inr t'" "tree_valid t'" "trav t' = trav (plug ?s fs)"
        using 3(1) [OF False nn rs [symmetric] refl w(1) True s(1)] by blast
      then show ?thesis using False nn rs w(1,5) True by (auto simp: trav_plug)
    next
      case red: False
      obtain s where "settle_right t pc px w = Inr s" "tree_valid (plug s fs)" "trav s = trav w @ px # trav t"
        using settle_right_ok [OF ok w(2,3) tb w(1) _ w(4)] red by (auto simp: isred_color)
      then show ?thesis using False nn rs w(1,5) red by (auto simp: trav_plug)
    qed
  qed
qed

section \<open>The operations\<close>

definition rb_items :: "('k \<times> 'd) util_rbtree \<Rightarrow> ('k \<times> 'd) list" where
  "rb_items t = trav (rb_root t)"

definition rb_inv :: "('k::linorder \<times> 'd) util_rbtree \<Rightarrow> bool" where
  "rb_inv t \<longleftrightarrow> tree_valid (rb_root t) \<and> smap_inv (rb_items t) \<and> rb_size t = uwrap32 (int (length (rb_items t)))"

lemma search_items: "rb_inv t \<Longrightarrow> util_rbtree_search t k = map_option (Pair k) (smap_find (rb_items t) k)"
  using search_place_outcome [of "rb_root t" k "[]"]
  by (auto simp: rb_inv_def rb_items_def util_rbtree_search_def split: option.splits prod.splits)

lemma insert_place_ok:
  "place_ok fs (black_height u) (rb_color u) \<Longrightarrow> rb_ok u \<Longrightarrow> place_ok (insert_place k u fs) 0 BLACK"
  by (induction k u fs rule: insert_place.induct) auto

lemma place_of_new_node: "tree_valid t \<Longrightarrow> place_ok (insert_place k t []) 0 BLACK"
  by (rule insert_place_ok) (simp_all add: tree_valid_def)

text \<open>Insertion of a new key: the item is added, or the colour of the root's freed parent is read.\<close>

lemma insert_outcome:
  assumes "rb_inv t" "smap_find (rb_items t) k = None"
  shows "\<exists>t'. (util_rbtree_insert (k, v) t = Inr t'
        \<or> rb_root t \<noteq> Null \<and> root_parent_freed t \<and> util_rbtree_insert (k, v) t = Inl UseAfterFree)
    \<and> rb_inv t' \<and> rb_items t' = smap_insert k v (rb_items t) \<and> (root_parent_freed t' \<longrightarrow> root_parent_freed t)"
proof -
  let ?n = "RB RED Null (k, v) Null" and ?fs = "insert_place k (rb_root t) []" and ?freed = "rb_root t \<noteq> Null \<and> root_parent_freed t"
  have inv: "tree_valid (rb_root t)" "smap_inv (trav (rb_root t))" "smap_find (trav (rb_root t)) k = None"
    "rb_size t = uwrap32 (int (length (trav (rb_root t))))" using assms by (auto simp: rb_inv_def rb_items_def)
  obtain r where r: "insert_fixup False ?n ?fs = Inr r" "tree_valid r" "trav r = trav (plug ?n ?fs)"
    using insert_fixup_ok [of ?n ?fs] place_of_new_node [OF inv(1), of k] by auto
  have i: "trav r = smap_insert k v (trav (rb_root t))" using r(3) trav_insert_place [OF inv(2,3), of v "[]"] by simp
  let ?t' = "\<lparr>rb_root = r, root_parent_freed = ?freed, rb_size = uwrap32 (rb_size t + 1)\<rparr>"
  have "rb_inv ?t'" using r(2) i inv(2-4)
    by (auto simp: rb_inv_def rb_items_def smap_inv_insert length_smap_insert uwrap32_step add.commute [of 1])
  moreover have "rb_items ?t' = smap_insert k v (rb_items t)" using i by (simp add: rb_items_def)
  moreover have "util_rbtree_insert (k, v) t = Inr ?t' \<or> ?freed \<and> util_rbtree_insert (k, v) t = Inl UseAfterFree"
  proof (cases "?freed")
    case True
    then show ?thesis using insert_fixup_freed [of ?n ?fs] r(1) by (auto simp: util_rbtree_insert_def)
  next
    case False
    then have f: "?freed = False" by blast
    show ?thesis unfolding util_rbtree_insert_def Let_def f fst_conv r(1) by simp
  qed
  ultimately show ?thesis by (intro exI [of _ ?t']) auto
qed

text \<open>Deletion of a node that a search has found.\<close>

lemma smap_erase_middle: "smap_inv (xs @ (k, v) # ys) \<Longrightarrow> smap_erase k (xs @ (k, v) # ys) = xs @ ys"
  by (induction xs) auto

lemma no_height: "black_height t = 0 \<Longrightarrow> rb_color t = BLACK \<Longrightarrow> t = Null"
  by (cases t) (auto split: if_splits)

lemma low_tree: "rb_ok t \<Longrightarrow> black_height t = 0 \<Longrightarrow> length (trav t) \<le> 1"
proof (cases t)
  case (RB c l x r)
  assume "rb_ok t" "black_height t = 0"
  then have "c = RED" "black_height l = 0" "black_height r = 0" "rb_color l = BLACK" "rb_color r = BLACK"
    using RB by (cases c; auto)+
  then have "l = Null" "r = Null" using no_height by blast+
  then show ?thesis using RB by simp
qed simp

lemma spliced_ok:
  assumes "place_ok fs (black_height t) (rb_color t)" "rb_ok t" "t = RB c l x r" "l = Null \<or> r = Null" "s = (if l = Null then r else l)"
    and "fs \<noteq> []"
  shows "\<exists>t'. (if c = BLACK then delete_fixup s fs else Inr (plug s fs)) = Inr t' \<and> tree_valid t' \<and> trav t' = lefts fs @ trav l @ trav r @ rights fs"
proof (cases "c = BLACK")
  case True
  have s: "rb_ok s" "black_height s = 0" using assms(2-5) by auto
  then have "place_ok fs (black_height s + 1) BLACK" using assms(1-5) True place_ok_black [OF assms(1)] by (auto split: if_splits)
  from delete_fixup_ok [OF paint_ok [OF s(1)] this] obtain t' where "delete_fixup s fs = Inr t'" "tree_valid t'" "trav t' = trav (plug s fs)"
    by blast
  then show ?thesis using True assms(4,5) by (auto simp: trav_plug)
next
  case False
  then have "c = RED" by simp
  then have "l = Null" "r = Null" using assms(2-4) by (cases l; cases r; auto)+
  moreover have "tree_valid (plug Null fs)"
    using assms(1,3) \<open>c = RED\<close> calculation place_ok_black [OF assms(1)] by (subst plug_valid) simp
  ultimately show ?thesis using False assms(5) by (simp add: trav_plug)
qed

lemma lefts_append: "lefts (xs @ ys) = lefts ys @ lefts xs"
  by (induction xs rule: lefts.induct) auto

lemma rights_append: "rights (xs @ ys) = rights xs @ rights ys"
  by (induction xs rule: rights.induct) auto

text \<open>The places do not depend on the items.\<close>

lemma place_ok_item: "place_ok (ms @ InRight c l x # fs) n d = place_ok (ms @ InRight c l y # fs) n d"
  by (induction ms n d rule: place_ok.induct) auto

lemma delete_inner:
  assumes "tree_valid (plug (RB c l x r) fs)" "l \<noteq> Null" "r \<noteq> Null"
  shows "\<exists>t' t1. rb_root t1 = t' \<and> util_rbtree_delete (RB c l x r, fs) t = Inr t1 \<and> tree_valid t' \<and> trav t' = lefts fs @ trav l @ trav r @ rights fs
    \<and> rb_size t1 = uwrap32 (rb_size t - 1) \<and> root_parent_freed t1 = root_parent_freed t"
proof -
  obtain tc tx tr ms where m: "min_place r [] = (RB tc Null tx tr, ms)" "plug (RB tc Null tx tr) ms = r" "lefts ms = []"
    using min_place_outcome [OF assms(3), of "[]"] by auto
  let ?fs = "ms @ InRight c l tx # fs"
  have "tree_valid (plug (RB tc Null tx tr) (ms @ InRight c l x # fs))" using assms(1) m(2) by simp
  then have p: "rb_ok (RB tc Null tx tr)" "place_ok ?fs (black_height (RB tc Null tx tr)) (rb_color (RB tc Null tx tr))"
    unfolding plug_valid place_ok_item [of ms c l x fs _ _ tx] by blast+
  have "?fs \<noteq> []" by simp
  from spliced_ok [OF p(2,1) refl disjI1 [OF refl] _ this, of tr] obtain t' where t':
    "(if tc = BLACK then delete_fixup tr ?fs else Inr (plug tr ?fs)) = Inr t'" "tree_valid t'" "trav t' = lefts ?fs @ trav tr @ rights ?fs"
    by auto
  have "trav r = tx # trav tr @ rights ms" using trav_plug [of "RB tc Null tx tr" ms] m(2,3) by simp
  then have "trav t' = lefts fs @ trav l @ trav r @ rights fs" using t'(3) m(3) by (simp add: lefts_append rights_append)
  then show ?thesis using t'(1,2) m(1) assms(2,3)
    by (intro exI [of _ t'] exI [of _ "t\<lparr>rb_root := t', rb_size := uwrap32 (rb_size t - 1)\<rparr>"]) (simp add: util_rbtree_delete_def)
qed

lemma delete_outer:
  assumes "tree_valid (plug (RB c l x r) fs)" "l = Null \<or> r = Null"
  shows "\<exists>t' t1. rb_root t1 = t' \<and> util_rbtree_delete (RB c l x r, fs) t = Inr t1 \<and> tree_valid t' \<and> trav t' = lefts fs @ trav l @ trav r @ rights fs
    \<and> rb_size t1 = uwrap32 (rb_size t - 1)
    \<and> (root_parent_freed t1 \<longrightarrow> root_parent_freed t \<or> length (lefts fs @ trav l @ trav r @ rights fs) = 1)"
proof -
  let ?n = "RB c l x r" and ?s = "if l = Null then r else l"
  have n: "rb_ok ?n" "place_ok fs (black_height ?n) (rb_color ?n)" using assms(1) unfolding plug_valid by blast+
  show ?thesis
  proof (cases "fs = []")
    case True
    have "rb_ok ?s" "black_height ?s = 0" using n(1) assms(2) by auto
    then have "length (trav ?s) \<le> 1" by (rule low_tree)
    moreover have "trav l @ trav r = trav ?s" using assms(2) by auto
    moreover have "length (trav ?s) \<noteq> 0 \<longleftrightarrow> ?s \<noteq> Null" by simp
    ultimately have len: "?s \<noteq> Null \<longrightarrow> length (trav l @ trav r) = 1" by (auto simp: le_Suc_eq)
    have "tree_valid (paint BLACK ?s)" using \<open>rb_ok ?s\<close> by (simp add: tree_valid_def)
    then show ?thesis using True assms(2) len
      by (intro exI [of _ "paint BLACK ?s"] exI [of _ "t\<lparr>rb_root := paint BLACK ?s, root_parent_freed := (?s \<noteq> Null), rb_size := uwrap32 (rb_size t - 1)\<rparr>"])
        (auto simp: util_rbtree_delete_def)
  next
    case False
    obtain t' where "(if c = BLACK then delete_fixup ?s fs else Inr (plug ?s fs)) = Inr t'" "tree_valid t'"
        "trav t' = lefts fs @ trav l @ trav r @ rights fs" using spliced_ok [OF n(2,1) refl assms(2) refl False] by blast
    then show ?thesis using False assms(2)
      by (intro exI [of _ t'] exI [of _ "t\<lparr>rb_root := t', rb_size := uwrap32 (rb_size t - 1)\<rparr>"]) (auto simp: util_rbtree_delete_def)
  qed
qed

lemma delete_outcome:
  assumes "rb_inv t" "search_place k (rb_root t) [] = Some place"
  shows "\<exists>t'. util_rbtree_delete place t = Inr t' \<and> rb_inv t' \<and> rb_items t' = smap_erase k (rb_items t)
    \<and> (root_parent_freed t' \<longrightarrow> root_parent_freed t \<or> length (rb_items t) = 2)"
proof -
  have inv: "tree_valid (rb_root t)" "smap_inv (trav (rb_root t))" "rb_size t = uwrap32 (int (length (trav (rb_root t))))"
    using assms(1) by (auto simp: rb_inv_def rb_items_def)
  obtain n fs where pl: "place = (n, fs)" by (cases place)
  obtain c l v r where n: "plug n fs = rb_root t" "n = RB c l (k, v) r"
    using search_place_outcome [OF inv(2), of k "[]"] assms(2) pl by auto
  have v: "tree_valid (plug (RB c l (k, v) r) fs)" using inv(1) n by simp
  have items: "trav (rb_root t) = (lefts fs @ trav l) @ (k, v) # trav r @ rights fs" using n(1) trav_plug [of n fs] n(2) by simp
  then have erased: "smap_erase k (trav (rb_root t)) = lefts fs @ trav l @ trav r @ rights fs"
    using smap_erase_middle [of "lefts fs @ trav l" k v "trav r @ rights fs"] inv(2) by simp
  obtain t' where t': "util_rbtree_delete (RB c l (k, v) r, fs) t = Inr t'" "tree_valid (rb_root t')"
      "trav (rb_root t') = lefts fs @ trav l @ trav r @ rights fs" "rb_size t' = uwrap32 (rb_size t - 1)"
      "root_parent_freed t' \<longrightarrow> root_parent_freed t \<or> length (lefts fs @ trav l @ trav r @ rights fs) = 1"
    using delete_inner [OF v, of t] delete_outer [OF v, of t] by blast
  have "length (trav (rb_root t)) = length (trav (rb_root t')) + 1" unfolding items t'(3) by simp
  then have "rb_inv t'" "root_parent_freed t' \<longrightarrow> root_parent_freed t \<or> length (rb_items t) = 2"
    using t'(2-5) inv(3) smap_inv_erase [OF inv(2), of k] erased by (auto simp: rb_inv_def rb_items_def uwrap32_step)
  then show ?thesis using t'(1,3) erased pl n(2) by (intro exI [of _ t']) (simp add: rb_items_def)
qed

section \<open>Lookup and depth\<close>

lemma lookup_loop_find:
  "smap_inv (trav t) \<Longrightarrow>
    lookup_loop k node t = (case List.find (\<lambda>(a, b). k \<le> a) (trav t) of Some e \<Rightarrow> Some e | None \<Rightarrow> node)"
proof (induction k node t rule: lookup_loop.induct)
  case (2 k node c l x r)
  obtain a b where x: "x = (a, b)" by (cases x)
  have s: "smap_inv (trav l)" "smap_inv (trav r)" and lt: "\<forall>y \<in> fst ` set (trav l). y < a"
    using 2(3) by (auto simp: smap_inv_append x)
  have app: "List.find P (xs @ ys) = (case List.find P xs of Some e \<Rightarrow> Some e | None \<Rightarrow> List.find P ys)" for P :: "'a \<times> 'b \<Rightarrow> bool" and xs ys
    by (induction xs) auto
  show ?case
  proof (cases "k \<le> a")
    case True
    then show ?thesis using 2(1) s(1) by (simp add: x app split: option.split)
  next
    case False
    then have "\<forall>y \<in> set (trav l). \<not> k \<le> fst y" using lt by fastforce
    then have "List.find (\<lambda>(a, b). k \<le> a) (trav l) = None" by (auto simp: find_None_iff)
    then show ?thesis using False 2(2) s(2) by (simp add: x app)
  qed
qed simp

lemma min_items: "util_rbsubtree_min t = (case trav t of [] \<Rightarrow> None | x # xs \<Rightarrow> Some x)"
proof (cases "t = Null")
  case False
  obtain c x r ms where m: "min_place t [] = (RB c Null x r, ms)" "plug (RB c Null x r) ms = t" "lefts ms = []"
    using min_place_outcome [OF False, of "[]"] by auto
  then have "trav t = x # trav r @ rights ms" using trav_plug [of "RB c Null x r" ms] by simp
  then show ?thesis using m(1) by (simp add: util_rbsubtree_min_def)
qed (simp add: util_rbsubtree_min_def)

lemma lookup_items:
  assumes "rb_inv t"
  shows "util_rbtree_lookup t k = tree_lookup k (rb_items t)"
proof (cases "rb_root t = Null")
  case True
  then show ?thesis by (simp add: util_rbtree_lookup_def rb_items_def tree_lookup_def)
next
  case False
  then show ?thesis
    using lookup_loop_find [of "rb_root t" k None] min_items [of "rb_root t"] assms
    by (auto simp: util_rbtree_lookup_def rb_items_def tree_lookup_def rb_inv_def split: option.split list.split)
qed

fun rb_depth :: "'a rbt \<Rightarrow> nat" where
  "rb_depth Null = 0"
| "rb_depth (RB c l x r) = 1 + max (rb_depth l) (rb_depth r)"

lemma depth_height: "rb_ok t \<Longrightarrow> rb_depth t \<le> 2 * black_height t + (if rb_color t = RED then 1 else 0)"
proof (induction t)
  case (RB c l x r)
  then show ?case by (cases c) (auto split: if_splits)
qed simp

lemma height_items: "rb_ok t \<Longrightarrow> 2 ^ black_height t \<le> length (trav t) + 1"
proof (induction t)
  case (RB c l x r)
  then show ?case by (cases c) auto
qed simp

lemma depth_items: "rb_inv t \<Longrightarrow> 2 ^ (rb_depth (rb_root t) div 2) \<le> length (rb_items t) + 1"
proof -
  assume "rb_inv t"
  then have t: "rb_ok (rb_root t)" "rb_color (rb_root t) = BLACK" by (auto simp: rb_inv_def tree_valid_def)
  have "rb_depth (rb_root t) div 2 \<le> black_height (rb_root t)" using depth_height [OF t(1)] t(2) by simp
  then have "(2 :: nat) ^ (rb_depth (rb_root t) div 2) \<le> 2 ^ black_height (rb_root t)" by (intro power_increasing) auto
  from order_trans [OF this height_items [OF t(1)]] show ?thesis by (simp add: rb_items_def)
qed

section \<open>Properties\<close>

lemma rb_inv_init: "rb_inv util_rbtree_init" "rb_items util_rbtree_init = []" "\<not> root_parent_freed util_rbtree_init"
  by (simp_all add: util_rbtree_init_def rb_inv_def rb_items_def tree_valid_def uwrap32_def)

lemma vnode_add_outcome:
  assumes "rb_inv t"
  shows "\<exists>t'. (vnode_add h idx t = Inr t' \<or> root_parent_freed t \<and> vnode_add h idx t = Inl UseAfterFree)
      \<and> rb_inv t' \<and> rb_items t' = smap_insert h idx (rb_items t) \<and> (root_parent_freed t' \<longrightarrow> root_parent_freed t)"
proof (cases "smap_find (rb_items t) h")
  case None
  then show ?thesis using insert_outcome [OF assms None, of idx] search_items [OF assms, of h] by (auto simp: vnode_add_def)
next
  case (Some j)
  then have "smap_insert h idx (rb_items t) = rb_items t"
    using assms by (intro smap_insert_present) (auto simp: rb_inv_def)
  then show ?thesis using Some assms search_items [OF assms, of h] by (intro exI [of _ t]) (auto simp: vnode_add_def)
qed

lemma vnode_del_outcome:
  assumes "rb_inv t"
  shows "\<exists>t'. vnode_del h idx t = Inr t' \<and> rb_inv t'
      \<and> rb_items t' = (if smap_find (rb_items t) h = Some idx then smap_erase h (rb_items t) else rb_items t)
      \<and> (root_parent_freed t' \<longrightarrow> root_parent_freed t \<or> length (rb_items t) = 2)"
proof -
  have sorted: "smap_inv (trav (rb_root t))" using assms by (simp add: rb_inv_def rb_items_def)
  show ?thesis
  proof (cases "search_place h (rb_root t) []")
    case None
    then show ?thesis using search_place_outcome [OF sorted, of h "[]"] assms
      by (intro exI [of _ t]) (auto simp: vnode_del_def rb_items_def)
  next
    case (Some place)
    obtain n fs where pl: "place = (n, fs)" by (cases place)
    obtain j where j: "rb_item n = Some (h, j)" "smap_find (rb_items t) h = Some j"
      using search_place_outcome [OF sorted, of h "[]"] Some pl by (auto simp: rb_items_def)
    show ?thesis
    proof (cases "j = idx")
      case True
      then show ?thesis using delete_outcome [OF assms Some] Some pl j by (auto simp: vnode_del_def)
    next
      case False
      then show ?thesis using Some pl j assms by (intro exI [of _ t]) (auto simp: vnode_del_def)
    qed
  qed
qed

text \<open>C16: the red-black tree refines the ordered sequence on which the consistent hash is stated. On every
  tree that satisfies the invariants of a red-black tree, search and lookup answer what the sequence holds,
  adding and removing a virtual node change it as the map does and keep the invariants, and the tree is at
  most twice as deep as the logarithm of its size. Adding faults only while the root's parent is a node that
  was freed, which comes about only when a tree of two nodes loses its root.\<close>

theorem vnode_tree_refines:
  assumes "rb_inv t"
  shows "util_rbtree_search t h = map_option (Pair h) (smap_find (rb_items t) h)
    \<and> util_rbtree_lookup t h = tree_lookup h (rb_items t)
    \<and> 2 ^ (rb_depth (rb_root t) div 2) \<le> length (rb_items t) + 1
    \<and> (\<exists>t'. (vnode_add h idx t = Inr t' \<or> root_parent_freed t \<and> vnode_add h idx t = Inl UseAfterFree)
        \<and> rb_inv t' \<and> rb_items t' = smap_insert h idx (rb_items t) \<and> (root_parent_freed t' \<longrightarrow> root_parent_freed t))
    \<and> (\<exists>t'. vnode_del h idx t = Inr t' \<and> rb_inv t'
        \<and> rb_items t' = (if smap_find (rb_items t) h = Some idx then smap_erase h (rb_items t) else rb_items t)
        \<and> (root_parent_freed t' \<longrightarrow> root_parent_freed t \<or> length (rb_items t) = 2))"
  using search_items [OF assms] lookup_items [OF assms] depth_items [OF assms] vnode_add_outcome [OF assms]
    vnode_del_outcome [OF assms] by blast

definition sample_ring :: "(int \<times> nat) util_rbtree" where
  "sample_ring = \<lparr>rb_root = RB BLACK (RB RED Null (1, 0) Null) (5, 1) (RB RED Null (9, 0) Null), root_parent_freed = False, rb_size = 3\<rparr>"

lemma vnode_tree_refines_witness:
  "util_rbtree_lookup sample_ring 6 = Some (9, 0) \<and> (\<exists>t'. vnode_add 7 2 sample_ring = Inr t' \<and> rb_items t' = [(1, 0), (5, 1), (7, 2), (9, 0)])"
proof -
  have "rb_inv sample_ring" by (simp add: rb_inv_def rb_items_def sample_ring_def tree_valid_def uwrap32_def)
  from vnode_tree_refines [OF this, of 6] vnode_tree_refines [OF this, of 7 2]
  show ?thesis by (auto simp: sample_ring_def rb_items_def tree_lookup_def)
qed

text \<open>When the root of a tree of two nodes is removed, the new root keeps the freed node as its parent, and
  the first insertion whose recolouring reaches the root reads the colour of the freed node.\<close>

theorem freed_root_parent_read:
  fixes a b c d :: "'k::linorder"
  assumes "a < b" "b < c" "c < d"
  shows "rbind (util_rbtree_insert (a, v) util_rbtree_init) (\<lambda>t1.
    rbind (util_rbtree_insert (b, v) t1) (\<lambda>t2.
    rbind (util_rbtree_delete (the (search_place a (rb_root t2) [])) t2) (\<lambda>t3.
    rbind (util_rbtree_insert (a, v) t3) (\<lambda>t4.
    rbind (util_rbtree_insert (c, v) t4) (util_rbtree_insert (d, v)))))) = Inl UseAfterFree"
  using assms by (auto simp: util_rbtree_insert_def util_rbtree_delete_def util_rbtree_init_def Let_def)

lemma freed_root_parent_read_witness:
  "rbind (util_rbtree_insert (1 :: int, ()) util_rbtree_init) (\<lambda>t1.
    rbind (util_rbtree_insert (2, ()) t1) (\<lambda>t2.
    rbind (util_rbtree_delete (the (search_place 1 (rb_root t2) [])) t2) (\<lambda>t3.
    rbind (util_rbtree_insert (1, ()) t3) (\<lambda>t4.
    rbind (util_rbtree_insert (3, ()) t4) (util_rbtree_insert (4, ())))))) = Inl UseAfterFree"
  using freed_root_parent_read [of "1 :: int" 2 3 4 "()"] by simp

text \<open>The ring of the consistent hash, on the tree.\<close>

lemma vnodes_add_fold:
  "rb_inv t \<Longrightarrow> \<not> root_parent_freed t \<Longrightarrow> rb_items t = vnode_tree c \<Longrightarrow>
    \<exists>t'. vnodes_add (map (\<lambda>i. hash (conhash_node2string node i)) is) idx t = Inr t' \<and> rb_inv t' \<and> \<not> root_parent_freed t'
      \<and> rb_items t' = vnode_tree (fold (add_replica hash node idx) is c)"
proof (induction "is" arbitrary: t c)
  case (Cons i "is")
  let ?h = "hash (conhash_node2string node i)"
  obtain t1 where t1: "vnode_add ?h idx t = Inr t1" "rb_inv t1" "rb_items t1 = smap_insert ?h idx (rb_items t)" "\<not> root_parent_freed t1"
    using vnode_add_outcome [OF Cons.prems(1), of ?h idx] Cons.prems(2) by blast
  have "smap_inv (vnode_tree c)" using Cons.prems(1,3) by (simp add: rb_inv_def)
  then have "rb_items t1 = vnode_tree (add_replica hash node idx i c)"
    using t1(3) Cons.prems(3) by (auto simp: add_replica_def Let_def smap_insert_present)
  from Cons.IH [OF t1(2,4) this] show ?case using t1(1) by simp
qed simp

lemma vnodes_del_fold:
  "rb_inv t \<Longrightarrow> rb_items t = vnode_tree c \<Longrightarrow>
    \<exists>t'. vnodes_del (map (\<lambda>i. hash (conhash_node2string node i)) is) idx t = Inr t' \<and> rb_inv t'
      \<and> rb_items t' = vnode_tree (fold (del_replica hash node idx) is c)"
proof (induction "is" arbitrary: t c)
  case (Cons i "is")
  let ?h = "hash (conhash_node2string node i)"
  obtain t1 where t1: "vnode_del ?h idx t = Inr t1" "rb_inv t1"
      "rb_items t1 = (if smap_find (rb_items t) ?h = Some idx then smap_erase ?h (rb_items t) else rb_items t)"
    using vnode_del_outcome [OF Cons.prems(1), of ?h idx] by blast
  have "rb_items t1 = vnode_tree (del_replica hash node idx i c)"
    using t1(3) Cons.prems(2) by (simp add: del_replica_def Let_def)
  from Cons.IH [OF t1(2) this] show ?case using t1(1) by simp
qed simp

text \<open>C17: the consistent hash on the red-black tree. While the tree holds the virtual nodes of the ring, adding
  the replicas of a node to an intact tree and deleting the replicas of a node succeed and give the ring of
  the abstract operations, and the node an object is assigned to is the one the tree finds.\<close>

theorem ring_on_tree:
  assumes "rb_inv t" "rb_items t = vnode_tree c"
  shows "(\<not> root_parent_freed t \<longrightarrow>
        (\<exists>t'. vnodes_add (replica_hashes hash node) idx t = Inr t' \<and> rb_inv t' \<and> \<not> root_parent_freed t'
          \<and> rb_items t' = vnode_tree (conhash_add_replicas hash node idx c)))
    \<and> (\<exists>t'. vnodes_del (replica_hashes hash node) idx t = Inr t' \<and> rb_inv t'
          \<and> rb_items t' = vnode_tree (conhash_del_replicas hash node idx c))
    \<and> (ivnodes c \<noteq> 0 \<longrightarrow> conhash_lookup hash c obj = map_option snd (util_rbtree_lookup t (hash obj)))"
  unfolding replica_hashes_def conhash_add_replicas_def conhash_del_replicas_def conhash_lookup_def
  using vnodes_add_fold [OF assms(1) _ assms(2)] vnodes_del_fold [OF assms] lookup_items [OF assms(1)] assms(2) by simp

lemma ring_on_tree_witness:
  "(\<exists>t'. vnodes_add (replica_hashes (\<lambda>s. int (length s)) (conhash_set_node ''a'' 2)) 0 util_rbtree_init = Inr t'
     \<and> rb_items t' = vnode_tree (conhash_add_replicas (\<lambda>s. int (length s)) (conhash_set_node ''a'' 2) 0 conhash_init))"
proof -
  have "rb_items util_rbtree_init = vnode_tree conhash_init" by (simp add: rb_inv_init conhash_init_def)
  from ring_on_tree [OF rb_inv_init(1) this, of "\<lambda>s. int (length s)" "conhash_set_node ''a'' 2" 0] rb_inv_init(3)
  show ?thesis by blast
qed

section \<open>The self check\<close>

lemma wrap16_id: "0 \<le> z \<Longrightarrow> z < 2 ^ 15 \<Longrightarrow> wrap16 z = z"
  by (simp add: wrap16_def)

lemma check_height_ok:
  assumes "rbh ck = 0 \<or> rbh ck = h" "fini ck = 0" "0 < h" "h < 2 ^ 15"
  shows "fini (check_rb_height level h ck) = 0 \<and> rbh (check_rb_height level h ck) = h"
  using assms by (auto simp: check_rb_height_def Let_def wrap16_id)

lemma key_order:
  assumes "smap_inv (trav (RB c l x r))"
  shows "\<not> key_less (Some x) (rb_item l)" "\<not> key_less (rb_item r) (Some x)"
  using assms by (cases x; cases l; cases r; fastforce simp: key_less_def smap_inv_append)+

lemma check_subtree_ok:
  "t \<noteq> Null \<Longrightarrow> rb_ok t \<Longrightarrow> smap_inv (trav t) \<Longrightarrow> fini ck = 0 \<Longrightarrow> rbh ck = 0 \<or> rbh ck = h + int (black_height t) \<Longrightarrow>
    0 < h + int (black_height t) \<Longrightarrow> h + int (black_height t) < 2 ^ 15 \<Longrightarrow>
    fini (rbtree_check_subtree t ck level h) = 0 \<and> rbh (rbtree_check_subtree t ck level h) = h + int (black_height t)"
proof (induction t arbitrary: ck level h)
  case (RB c l x r)
  let ?h = "if c = BLACK then h + 1 else h"
  have hl: "?h + int (black_height l) = h + int (black_height (RB c l x r))" "black_height l = black_height r" using RB.prems(2) by auto
  have s: "smap_inv (trav l)" "smap_inv (trav r)" "rb_ok l" "rb_ok r" using RB.prems(2,3) by (cases x; simp add: smap_inv_append)+
  have red: "c = RED \<longrightarrow> \<not> isred l \<and> \<not> isred r" using RB.prems(2) by (simp add: isred_color)
  note ord = key_order [OF RB.prems(3)]
  show ?case
  proof (cases "l = Null")
    case True
    then show ?thesis using check_height_ok [of ck ?h level] RB.prems hl by (auto simp: Let_def)
  next
    case False
    let ?ck = "rbtree_check_subtree l ck (level + 1) ?h"
    have 1: "fini ?ck = 0 \<and> rbh ?ck = ?h + int (black_height l)"
      using RB.IH(1) [OF False s(3,1) RB.prems(4), of ?h "level + 1"] RB.prems(5-7) unfolding hl(1) by blast
    show ?thesis
    proof (cases "r = Null")
      case True
      then show ?thesis using check_height_ok [of ?ck ?h level] 1 RB.prems(4-7) hl False red ord by (auto simp: Let_def)
    next
      case r: False
      have "fini (rbtree_check_subtree r ?ck (level + 1) ?h) = 0 \<and> rbh (rbtree_check_subtree r ?ck (level + 1) ?h) = ?h + int (black_height r)"
        using RB.IH(2) [OF r s(4,2), of ?ck ?h "level + 1"] 1 RB.prems(6,7) hl by simp
      moreover have "rbtree_check_subtree (RB c l x r) ck level h = rbtree_check_subtree r ?ck (level + 1) ?h"
        using False r red ord RB.prems(4) by (cases c) (simp_all add: Let_def)
      ultimately show ?thesis using hl by simp
    qed
  qed
qed simp

text \<open>The self check passes every red-black tree and reports its black height; but below a node without
  a left child it looks at nothing, so that it passes any tree whose root is black and has no left child.\<close>

theorem self_check:
  assumes "rb_inv t" "rb_root t \<noteq> Null" "black_height (rb_root t) < 2 ^ 15"
  shows "(\<exists>d. util_rbtree_check t = (0, Some (int (black_height (rb_root t)), d)))
    \<and> fst (util_rbtree_check (t\<lparr>rb_root := RB BLACK Null x r\<rparr>)) = 0"
proof
  obtain c l y r' where n: "rb_root t = RB c l y r'" using assms(2) by (cases "rb_root t") auto
  have t: "rb_ok (rb_root t)" "c = BLACK" "smap_inv (trav (rb_root t))" using assms(1) n by (auto simp: rb_inv_def tree_valid_def rb_items_def)
  then have "0 < black_height (rb_root t)" using n by simp
  then show "\<exists>d. util_rbtree_check t = (0, Some (int (black_height (rb_root t)), d))"
    using check_subtree_ok [OF assms(2) t(1,3), of "\<lparr>rbh = 0, maxd = 0, fini = 0\<rparr>" 0 1] assms(3) n t(2)
    by (simp add: util_rbtree_check_def Let_def)
  show "fst (util_rbtree_check (t\<lparr>rb_root := RB BLACK Null x r\<rparr>)) = 0"
    by (simp add: util_rbtree_check_def check_rb_height_def wrap16_def Let_def)
qed

lemma self_check_witness:
  "(\<exists>d. util_rbtree_check sample_ring = (0, Some (1, d)))
    \<and> fst (util_rbtree_check (sample_ring\<lparr>rb_root := RB BLACK Null (5, 0) (RB BLACK Null (1, 0) Null)\<rparr>)) = 0"
proof -
  have "rb_inv sample_ring" by (simp add: rb_inv_def rb_items_def sample_ring_def tree_valid_def uwrap32_def)
  from self_check [OF this, of "(5, 0)" "RB BLACK Null (1, 0) Null"] show ?thesis by (simp add: sample_ring_def)
qed

end
