(* ===== verification/SkipList.thy ===== *)
theory SkipList
  imports StdMap
begin

text \<open>
  The skip list, src/base/skip_list.cc, over an explicit store: the nodes that are allocated, with value
  and level, and the forward pointers of every node, which the operations redirect in place. The compare
  function is an argument; the values that destroy_fn was called with are recorded in order. Memory is
  taken to be available for every node of a level from 0 to 8. rand is a sequence of its results.
\<close>

type_synonym addr = nat

record 'v skiplist =
  sl_length :: int
  sl_level :: int
  sl_header :: addr
  sl_nodes :: "addr \<Rightarrow> ('v option \<times> nat) option"
  sl_forward :: "addr \<Rightarrow> nat \<Rightarrow> addr option"
  sl_fresh :: addr
  sl_destroyed :: "'v list"

definition SKIPLIST_LEVEL_MAX :: nat where "SKIPLIST_LEVEL_MAX = 8"

text \<open>Reading and writing forward[level] of a node; a freed node and an index above its level are faults.\<close>

definition get_forward :: "'v skiplist \<Rightarrow> addr \<Rightarrow> nat \<Rightarrow> addr option result" where
  "get_forward sl a j =
     (case sl_nodes sl a of
        None \<Rightarrow> Inl UseAfterFree
      | Some (v, lv) \<Rightarrow> if j \<le> lv then Inr (sl_forward sl a j) else Inl OutOfBounds)"

definition set_forward :: "addr \<Rightarrow> nat \<Rightarrow> addr option \<Rightarrow> 'v skiplist \<Rightarrow> 'v skiplist result" where
  "set_forward a j p sl =
     rbind (get_forward sl a j) (\<lambda>_. Inr (sl\<lparr>sl_forward := (sl_forward sl)(a := (sl_forward sl a)(j := p))\<rparr>))"

definition get_value :: "'v skiplist \<Rightarrow> addr \<Rightarrow> 'v result" where
  "get_value sl a =
     (case sl_nodes sl a of
        None \<Rightarrow> Inl UseAfterFree
      | Some (v, lv) \<Rightarrow> (case v of None \<Rightarrow> Inl NullDeref | Some x \<Rightarrow> Inr x))"

text \<open>skiplist_node_next is the forward pointer of the lowest level.\<close>

definition skiplist_node_next :: "'v skiplist \<Rightarrow> addr \<Rightarrow> addr option result" where
  "skiplist_node_next sl a = get_forward sl a 0"

definition wrap8 :: "int \<Rightarrow> int" where
  "wrap8 z = (z + 2 ^ 7) mod 2 ^ 8 - 2 ^ 7"

text \<open>skiplist_level_generate: the level is an int8_t; the rest of the random numbers is returned.\<close>

fun level_loop :: "int \<Rightarrow> int list \<Rightarrow> (int \<times> int list) result" where
  "level_loop level [] = Inl Diverge"
| "level_loop level (r # rs) =
     (if r mod 65536 < 65535 div 4 then level_loop (wrap8 (level + 1)) rs else Inr (level, rs))"

definition skiplist_level_generate :: "int list \<Rightarrow> (int \<times> int list) result" where
  "skiplist_level_generate rs =
     rbind (level_loop 0 rs) (\<lambda>(level, rs').
       Inr (if level < int SKIPLIST_LEVEL_MAX then level else int SKIPLIST_LEVEL_MAX, rs'))"

text \<open>A new node; calloc fails for the size of a negative level.\<close>

definition skiplist_node_new :: "int \<Rightarrow> 'v option \<Rightarrow> 'v skiplist \<Rightarrow> (addr \<times> 'v skiplist) option" where
  "skiplist_node_new level v sl =
     (if level < 0 then None
      else Some (sl_fresh sl, sl\<lparr>sl_nodes := (sl_nodes sl)(sl_fresh sl \<mapsto> (v, nat level)),
             sl_forward := (sl_forward sl)(sl_fresh sl := (\<lambda>_. None)), sl_fresh := sl_fresh sl + 1\<rparr>))"

definition skiplist_init :: "'v skiplist" where
  "skiplist_init = \<lparr>sl_length = 0, sl_level = 0, sl_header = 0, sl_nodes = [0 \<mapsto> (None, SKIPLIST_LEVEL_MAX)],
     sl_forward = (\<lambda>_ _. None), sl_fresh = 1, sl_destroyed = []\<rparr>"

definition skiplist_node_destroy :: "addr \<Rightarrow> 'v skiplist \<Rightarrow> 'v skiplist result" where
  "skiplist_node_destroy a sl =
     (case sl_nodes sl a of
        None \<Rightarrow> Inl UseAfterFree
      | Some (v, lv) \<Rightarrow>
          Inr (sl\<lparr>sl_nodes := (sl_nodes sl)(a := None),
                 sl_destroyed := sl_destroyed sl @ (if a \<noteq> sl_header sl then (case v of None \<Rightarrow> [] | Some x \<Rightarrow> [x]) else [])\<rparr>))"

section \<open>The walk down the levels\<close>

datatype op_t = OP_GOTO_NEXT_LEVEL | OP_GOTO_NEXT_NODE | OP_FINISH

definition skiplist_cmp_normalize :: "int \<Rightarrow> int" where
  "skiplist_cmp_normalize cmp = (if cmp \<le> - 1 then - 1 else if cmp \<ge> 1 then 1 else 0)"

text \<open>What to do after comparing the value of a node with the value that is looked for, a node at a time.\<close>

definition op_insert :: "('v \<Rightarrow> int) \<Rightarrow> 'v skiplist \<Rightarrow> addr option \<Rightarrow> op_t result" where
  "op_insert cmp_value sl fwd_node =
     (case fwd_node of
        None \<Rightarrow> Inr OP_GOTO_NEXT_LEVEL
      | Some a \<Rightarrow> rbind (get_value sl a) (\<lambda>v.
          let c = skiplist_cmp_normalize (cmp_value v)
          in Inr (if c = - 1 then OP_GOTO_NEXT_NODE else if c = 0 then OP_FINISH else OP_GOTO_NEXT_LEVEL)))"

definition op_delete :: "('v \<Rightarrow> int) \<Rightarrow> 'v skiplist \<Rightarrow> addr option \<Rightarrow> op_t result" where
  "op_delete cmp_value sl fwd_node =
     (case fwd_node of
        None \<Rightarrow> Inr OP_GOTO_NEXT_LEVEL
      | Some a \<Rightarrow> rbind (get_value sl a) (\<lambda>v.
          Inr (if skiplist_cmp_normalize (cmp_value v) = - 1 then OP_GOTO_NEXT_NODE else OP_GOTO_NEXT_LEVEL)))"

definition op_contains :: "('v \<Rightarrow> int) \<Rightarrow> 'v skiplist \<Rightarrow> addr option \<Rightarrow> op_t result" where
  "op_contains cmp_value sl fwd_node =
     (case fwd_node of
        None \<Rightarrow> Inr OP_GOTO_NEXT_LEVEL
      | Some a \<Rightarrow> rbind (get_value sl a) (\<lambda>v.
          let c = skiplist_cmp_normalize (cmp_value v)
          in Inr (if c = - 1 then OP_GOTO_NEXT_NODE else if c = 0 then OP_FINISH else OP_GOTO_NEXT_LEVEL)))"

definition op_search :: "('v \<Rightarrow> int) \<Rightarrow> 'v skiplist \<Rightarrow> addr option \<Rightarrow> op_t result" where
  "op_search search_value sl fwd_node =
     (case fwd_node of
        None \<Rightarrow> Inr OP_GOTO_NEXT_LEVEL
      | Some a \<Rightarrow> rbind (get_value sl a) (\<lambda>v.
          let c = skiplist_cmp_normalize (search_value v)
          in Inr (if c = - 1 then OP_GOTO_NEXT_NODE else if c = 0 then OP_FINISH else OP_GOTO_NEXT_LEVEL)))"

text \<open>
  The loop of the operations: it ends at a node that finishes it, or below level 0 with the last node and
  the array of nodes to update. A turn goes to another node or one level down, which bounds their number.
\<close>

type_synonym update = "nat \<Rightarrow> addr option"

fun walk :: "('v skiplist \<Rightarrow> addr option \<Rightarrow> op_t result) \<Rightarrow> 'v skiplist \<Rightarrow> nat \<Rightarrow> addr \<Rightarrow> int \<Rightarrow> update
    \<Rightarrow> (addr + addr \<times> update) result" where
  "walk opn sl 0 cur level upd = (if level < 0 then Inr (Inr (cur, upd)) else Inl Diverge)"
| "walk opn sl (Suc n) cur level upd =
     (if level < 0 then Inr (Inr (cur, upd))
      else rbind (get_forward sl cur (nat level)) (\<lambda>fwd.
        rbind (opn sl fwd) (\<lambda>op.
          case op of
            OP_FINISH \<Rightarrow> (case fwd of None \<Rightarrow> Inl NullDeref | Some a \<Rightarrow> Inr (Inl a))
          | OP_GOTO_NEXT_NODE \<Rightarrow>
              (case fwd of None \<Rightarrow> Inl NullDeref | Some a \<Rightarrow> walk opn sl n a level (upd(nat level \<mapsto> a)))
          | OP_GOTO_NEXT_LEVEL \<Rightarrow> walk opn sl n cur (level - 1) (upd(nat level \<mapsto> cur)))))"

definition walk_from_header :: "('v skiplist \<Rightarrow> addr option \<Rightarrow> op_t result) \<Rightarrow> 'v skiplist \<Rightarrow> (addr + addr \<times> update) result" where
  "walk_from_header opn sl =
     walk opn sl (nat (sl_length sl) + nat (sl_level sl + 1)) (sl_header sl) (sl_level sl) Map.empty"

section \<open>Operations\<close>

text \<open>An entry of the array that was never written is an invalid pointer.\<close>

definition updated :: "update \<Rightarrow> nat \<Rightarrow> addr result" where
  "updated upd j = (case upd j of None \<Rightarrow> Inl OutOfBounds | Some a \<Rightarrow> Inr a)"

text \<open>for (level = 0; level <= list->level; level += 1), as the number of levels that are left.\<close>

fun splice_out :: "addr \<Rightarrow> update \<Rightarrow> nat list \<Rightarrow> 'v skiplist \<Rightarrow> 'v skiplist result" where
  "splice_out f upd [] sl = Inr sl"
| "splice_out f upd (j # js) sl =
     rbind (updated upd j) (\<lambda>u. rbind (get_forward sl u j) (\<lambda>p.
       rbind (if p = Some f then rbind (get_forward sl f j) (\<lambda>q. set_forward u j q sl) else Inr sl)
         (splice_out f upd js)))"

fun drop_levels :: "nat \<Rightarrow> int \<Rightarrow> 'v skiplist \<Rightarrow> 'v skiplist result" where
  "drop_levels 0 level sl = Inr sl"
| "drop_levels (Suc n) level sl =
     (if level < 0 then Inr sl
      else rbind (get_forward sl (sl_header sl) (nat level)) (\<lambda>p.
        if p \<noteq> None then Inr sl else drop_levels n (level - 1) (sl\<lparr>sl_level := wrap8 (sl_level sl - 1)\<rparr>)))"

definition skiplist_delete :: "('v \<Rightarrow> 'v \<Rightarrow> int) \<Rightarrow> 'v \<Rightarrow> 'v skiplist \<Rightarrow> (bool \<times> 'v skiplist) result" where
  "skiplist_delete cmp_fn value sl =
     rbind (walk_from_header (op_delete (\<lambda>v. cmp_fn v value)) sl) (\<lambda>r.
       case r of Inl a \<Rightarrow> Inl NullDeref
       | Inr (cur, upd) \<Rightarrow>
           rbind (skiplist_node_next sl cur) (\<lambda>found.
             case found of None \<Rightarrow> Inr (False, sl)
             | Some f \<Rightarrow> rbind (get_value sl f) (\<lambda>fv.
                 if cmp_fn fv value \<ge> 1 then Inr (False, sl)
                 else rbind (splice_out f upd [0..<nat (sl_level sl + 1)] sl) (\<lambda>sl1.
                   rbind (skiplist_node_destroy f sl1) (\<lambda>sl2.
                     rbind (drop_levels (nat (sl_level sl2 + 1)) (sl_level sl2) sl2) (\<lambda>sl3.
                       Inr (True, sl3\<lparr>sl_length := (sl_length sl3 - 1) mod 2 ^ 64\<rparr>)))))))"

text \<open>The entries of the header for the levels that the list did not have; then the new node is dropped in.\<close>

definition raise_update :: "addr \<Rightarrow> int \<Rightarrow> int \<Rightarrow> update \<Rightarrow> update" where
  "raise_update header old new upd = (\<lambda>j. if old < int j \<and> int j \<le> new then Some header else upd j)"

fun drop_in :: "addr \<Rightarrow> update \<Rightarrow> nat list \<Rightarrow> 'v skiplist \<Rightarrow> 'v skiplist result" where
  "drop_in a upd [] sl = Inr sl"
| "drop_in a upd (j # js) sl =
     rbind (updated upd j) (\<lambda>u. rbind (get_forward sl u j) (\<lambda>p.
       rbind (set_forward a j p sl) (\<lambda>sl1. rbind (set_forward u j (Some a) sl1) (drop_in a upd js))))"

fun insert_again :: "nat \<Rightarrow> ('v \<Rightarrow> 'v \<Rightarrow> int) \<Rightarrow> int list \<Rightarrow> 'v \<Rightarrow> 'v skiplist \<Rightarrow> (bool \<times> 'v skiplist) result" where
  "insert_again 0 cmp_fn rs value sl = Inl Diverge"
| "insert_again (Suc n) cmp_fn rs value sl =
     rbind (walk_from_header (op_insert (\<lambda>v. cmp_fn v value)) sl) (\<lambda>r.
       case r of
         Inl a \<Rightarrow>
           rbind (get_value sl a) (\<lambda>old. rbind (skiplist_delete cmp_fn old sl) (\<lambda>(ok, sl1).
             if ok then insert_again n cmp_fn rs value sl1 else Inr (False, sl1)))
       | Inr (cur, upd) \<Rightarrow>
           rbind (skiplist_level_generate rs) (\<lambda>(new, rs').
             let upd1 = raise_update (sl_header sl) (sl_level sl) new upd;
                 sl1 = (if new > sl_level sl then sl\<lparr>sl_level := new\<rparr> else sl)
             in case skiplist_node_new new (Some value) sl1 of
                  None \<Rightarrow> Inr (False, sl1)
                | Some (a, sl2) \<Rightarrow> rbind (drop_in a upd1 [0..<nat (new + 1)] sl2) (\<lambda>sl3.
                    Inr (True, sl3\<lparr>sl_length := (sl_length sl3 + 1) mod 2 ^ 64\<rparr>))))"

text \<open>A value that is there is deleted first, and the insertion starts again once.\<close>

definition skiplist_insert :: "('v \<Rightarrow> 'v \<Rightarrow> int) \<Rightarrow> int list \<Rightarrow> 'v \<Rightarrow> 'v skiplist \<Rightarrow> (bool \<times> 'v skiplist) result" where
  "skiplist_insert cmp_fn rs value sl = insert_again 2 cmp_fn rs value sl"

definition skiplist_contains :: "('v \<Rightarrow> 'v \<Rightarrow> int) \<Rightarrow> 'v \<Rightarrow> 'v skiplist \<Rightarrow> bool result" where
  "skiplist_contains cmp_fn value sl =
     rbind (walk_from_header (op_contains (\<lambda>v. cmp_fn v value)) sl) (\<lambda>r. Inr (case r of Inl a \<Rightarrow> True | Inr _ \<Rightarrow> False))"

definition skiplist_search :: "('v \<Rightarrow> 's \<Rightarrow> int) \<Rightarrow> 's \<Rightarrow> 'v skiplist \<Rightarrow> 'v option result" where
  "skiplist_search search_fn search sl =
     rbind (walk_from_header (op_search (\<lambda>v. search_fn v search)) sl) (\<lambda>r.
       case r of Inl a \<Rightarrow> rbind (get_value sl a) (\<lambda>v. Inr (Some v)) | Inr _ \<Rightarrow> Inr None)"

section \<open>Iteration and destruction\<close>

text \<open>The iterator is the current node, None after the end, where skiplist_node_next gets NULL.\<close>

definition skiplist_iter_reset :: "'v skiplist \<Rightarrow> addr option" where
  "skiplist_iter_reset sl = Some (sl_header sl)"

definition skiplist_iter_init :: "'v skiplist \<Rightarrow> addr option" where
  "skiplist_iter_init sl = skiplist_iter_reset sl"

definition skiplist_iter_next :: "'v skiplist \<Rightarrow> addr option \<Rightarrow> ('v option \<times> addr option) result" where
  "skiplist_iter_next sl it =
     (case it of None \<Rightarrow> Inl NullDeref
      | Some a \<Rightarrow> rbind (skiplist_node_next sl a) (\<lambda>p.
          case p of None \<Rightarrow> Inr (None, None) | Some b \<Rightarrow> rbind (get_value sl b) (\<lambda>v. Inr (Some v, Some b))))"

fun iter_all :: "nat \<Rightarrow> 'v skiplist \<Rightarrow> addr option \<Rightarrow> 'v list result" where
  "iter_all 0 sl it = Inl Diverge"
| "iter_all (Suc n) sl it =
     rbind (skiplist_iter_next sl it) (\<lambda>(v, it').
       case v of None \<Rightarrow> Inr [] | Some x \<Rightarrow> rbind (iter_all n sl it') (\<lambda>xs. Inr (x # xs)))"

fun destroy_from :: "nat \<Rightarrow> addr \<Rightarrow> 'v skiplist \<Rightarrow> 'v skiplist result" where
  "destroy_from 0 a sl = Inl Diverge"
| "destroy_from (Suc n) a sl =
     rbind (skiplist_node_next sl a) (\<lambda>fwd. rbind (skiplist_node_destroy a sl) (\<lambda>sl1.
       case fwd of None \<Rightarrow> Inr sl1 | Some b \<Rightarrow> destroy_from n b sl1))"

definition skiplist_destroy :: "'v skiplist \<Rightarrow> 'v skiplist result" where
  "skiplist_destroy sl = destroy_from (nat (sl_length sl) + 1) (sl_header sl) sl"

end
