(* ===== verification/SkipListProps.thy ===== *)
theory SkipListProps
  imports SkipList "HOL-Library.Multiset"
begin

text \<open>
  The skip list refines the ordered map of the values by their keys: every operation changes the sequence of
  the nodes as the map does and leaves the forward pointers of every level linking the nodes of that level.
\<close>

section \<open>The chain of the nodes\<close>

text \<open>A node with its value and level; the next node of a level in what follows.\<close>

type_synonym 'v entry = "addr \<times> 'v \<times> nat"

fun nxt :: "'v entry list \<Rightarrow> nat \<Rightarrow> addr option" where
  "nxt [] j = None"
| "nxt ((a, v, lv) # q) j = (if j \<le> lv then Some a else nxt q j)"

lemma nxt_append: "nxt (p @ q) j = (case nxt p j of None \<Rightarrow> nxt q j | Some a \<Rightarrow> Some a)"
  by (induction p j rule: nxt.induct) auto

lemma nxt_Some: "nxt q j = Some a \<Longrightarrow> \<exists>q1 v lv q2. q = q1 @ (a, v, lv) # q2 \<and> j \<le> lv \<and> nxt q1 j = None"
proof (induction q j rule: nxt.induct)
  case (2 b v lv q j)
  show ?case
  proof (cases "j \<le> lv")
    case True
    then show ?thesis using 2(2) by (intro exI [of _ "[]"]) auto
  next
    case False
    then obtain q1 w l q2 where "q = q1 @ (a, w, l) # q2 \<and> j \<le> l \<and> nxt q1 j = None" using 2 by auto
    then show ?thesis using False by (intro exI [of _ "(b, v, lv) # q1"]) auto
  qed
qed simp

lemma nxt_0 [simp]: "nxt q 0 = None \<longleftrightarrow> q = []"
  by (cases q) auto

lemma nxt_None: "nxt q j = None \<longleftrightarrow> (\<forall>(a, v, lv) \<in> set q. lv < j)"
  by (induction q j rule: nxt.induct) auto

definition linked :: "(addr \<Rightarrow> nat \<Rightarrow> addr option) \<Rightarrow> 'v entry list \<Rightarrow> bool" where
  "linked f ys \<longleftrightarrow> (\<forall>p a v lv q. ys = p @ (a, v, lv) # q \<longrightarrow> (\<forall>j \<le> lv. f a j = nxt q j))"

lemma linkedD: "linked f ys \<Longrightarrow> ys = p @ (a, v, lv) # q \<Longrightarrow> j \<le> lv \<Longrightarrow> f a j = nxt q j"
  by (auto simp: linked_def)

text \<open>The last node of a level in a list of nodes.\<close>

definition last_of :: "'v entry list \<Rightarrow> nat \<Rightarrow> addr \<Rightarrow> bool" where
  "last_of ys j u \<longleftrightarrow> (\<exists>p v lv r. ys = p @ (u, v, lv) # r \<and> j \<le> lv \<and> nxt r j = None)"

lemma takeWhile_before: "a \<notin> fst ` set p \<Longrightarrow> takeWhile (\<lambda>e. fst e \<noteq> a) (p @ (a, e) # q) = p"
  by (induction p) auto

lemma split_unique:
  assumes "distinct (map fst ys)" "ys = p @ (a, v, lv) # q" "ys = p' @ (a, v', lv') # q'"
  shows "p = p' \<and> v = v' \<and> lv = lv' \<and> q = q'"
proof -
  have "a \<notin> fst ` set p" "a \<notin> fst ` set p'" using assms(1) unfolding assms(2) using assms(1) unfolding assms(3) by auto
  then have "p = p'"
    using takeWhile_before [of a p "(v, lv)" q] takeWhile_before [of a p' "(v', lv')" q'] assms(2,3) by metis
  then show ?thesis using assms(2,3) by simp
qed

lemma last_of_iff:
  assumes "distinct (map fst ys)" "ys = p @ (a, v, lv) # r" "j \<le> lv"
  shows "last_of ys j a \<longleftrightarrow> nxt r j = None"
  using split_unique [OF assms(1,2)] assms(2,3) by (auto simp: last_of_def)

lemma last_of_mem: "last_of ys j u \<Longrightarrow> u \<in> fst ` set ys"
  by (force simp: last_of_def)

section \<open>The representation\<close>

definition held :: "'v entry list \<Rightarrow> 'v option entry list" where
  "held = map (\<lambda>(a, v, lv). (a, Some v, lv))"

lemma held_simps [simp]:
  "held [] = []" "held ((a, v, lv) # xs) = (a, Some v, lv) # held xs" "held (xs @ ys) = held xs @ held ys"
  "map fst (held xs) = map fst xs" "fst ` set (held xs) = fst ` set xs" "length (held xs) = length xs"
  "held xs = [] \<longleftrightarrow> xs = []"
  by (auto simp: held_def image_iff) force+

lemma in_held [simp]: "(a, w, lv) \<in> set (held xs) \<longleftrightarrow> (\<exists>v. w = Some v \<and> (a, v, lv) \<in> set xs)"
  by (force simp: held_def)

lemma Ball_held [simp]: "(\<forall>x \<in> set (held xs). Q x) \<longleftrightarrow> (\<forall>(a, v, lv) \<in> set xs. Q (a, Some v, lv))"
  by (auto simp: held_def)

definition chain :: "'v skiplist \<Rightarrow> 'v entry list \<Rightarrow> 'v option entry list" where
  "chain sl xs = (sl_header sl, None, SKIPLIST_LEVEL_MAX) # held xs"

definition store_ok :: "'v skiplist \<Rightarrow> 'v entry list \<Rightarrow> bool" where
  "store_ok sl xs \<longleftrightarrow> distinct (map fst (chain sl xs)) \<and> (\<forall>a \<in> fst ` set (chain sl xs). a < sl_fresh sl)
     \<and> sl_nodes sl = map_of (chain sl xs) \<and> linked (sl_forward sl) (chain sl xs)"

definition repr :: "'v skiplist \<Rightarrow> 'v entry list \<Rightarrow> bool" where
  "repr sl xs \<longleftrightarrow> store_ok sl xs \<and> (\<forall>(a, v, lv) \<in> set xs. int lv \<le> sl_level sl) \<and> - 1 \<le> sl_level sl
     \<and> sl_level sl \<le> int SKIPLIST_LEVEL_MAX \<and> sl_length sl = int (length xs)"

lemma map_of_split: "distinct (map fst ys) \<Longrightarrow> ys = p @ (a, v) # q \<Longrightarrow> map_of ys a = Some v"
  by (rule map_of_is_SomeI) auto

lemma store_node:
  assumes "store_ok sl xs" "chain sl xs = p @ (a, v, lv) # q"
  shows "sl_nodes sl a = Some (v, lv)" "j \<le> lv \<Longrightarrow> get_forward sl a j = Inr (nxt q j)"
proof -
  have r: "distinct (map fst (chain sl xs))" "sl_nodes sl = map_of (chain sl xs)" "linked (sl_forward sl) (chain sl xs)"
    using assms(1) by (auto simp: store_ok_def)
  show 1: "sl_nodes sl a = Some (v, lv)" using map_of_split [OF r(1) assms(2)] r(2) by simp
  show "j \<le> lv \<Longrightarrow> get_forward sl a j = Inr (nxt q j)"
    using 1 linkedD [OF r(3) assms(2)] by (simp add: get_forward_def)
qed

section \<open>The walk\<close>

text \<open>What the four ops have in common: nodes before the place, and a node to finish at.\<close>

definition gen_op :: "('v \<Rightarrow> bool) \<Rightarrow> ('v \<Rightarrow> bool) \<Rightarrow> 'v skiplist \<Rightarrow> addr option \<Rightarrow> op_t result" where
  "gen_op before stop sl fwd =
     (case fwd of None \<Rightarrow> Inr OP_GOTO_NEXT_LEVEL
      | Some a \<Rightarrow> rbind (get_value sl a) (\<lambda>v.
          Inr (if before v then OP_GOTO_NEXT_NODE else if stop v then OP_FINISH else OP_GOTO_NEXT_LEVEL)))"

lemma gen_op_None: "gen_op before stop sl None = Inr OP_GOTO_NEXT_LEVEL"
  by (simp add: gen_op_def)

lemma gen_op_Some: "get_value sl a = Inr v \<Longrightarrow> gen_op before stop sl (Some a) =
    Inr (if before v then OP_GOTO_NEXT_NODE else if stop v then OP_FINISH else OP_GOTO_NEXT_LEVEL)"
  by (simp add: gen_op_def)

lemma op_insert_gen: "op_insert f = gen_op (\<lambda>v. f v < 0) (\<lambda>v. f v = 0)"
  by (auto simp: fun_eq_iff op_insert_def gen_op_def skiplist_cmp_normalize_def Let_def split: option.split)
    (rule arg_cong [of _ _ "rbind _"], auto simp: fun_eq_iff)+

lemma op_finding: "op_contains = op_insert" "op_search = op_insert"
  by (simp_all add: fun_eq_iff op_contains_def op_search_def op_insert_def)

lemma op_delete_gen: "op_delete f = gen_op (\<lambda>v. f v < 0) (\<lambda>v. False)"
  by (auto simp: fun_eq_iff op_delete_def gen_op_def skiplist_cmp_normalize_def split: option.split)
    (rule arg_cong [of _ _ "rbind _"], auto simp: fun_eq_iff)+

lemma chain_append: "chain sl (xs @ ys) = chain sl xs @ held ys"
  by (simp add: chain_def)

lemma repr_value: "repr sl xs \<Longrightarrow> (a, v, lv) \<in> set xs \<Longrightarrow> get_value sl a = Inr v"
proof -
  assume r: "repr sl xs" and "(a, v, lv) \<in> set xs"
  then have "(a, Some v, lv) \<in> set (chain sl xs)" by (force simp: chain_def)
  then obtain p q where "chain sl xs = p @ (a, Some v, lv) # q" by (meson split_list)
  then show ?thesis using store_node(1) [of sl xs] r by (simp add: get_value_def repr_def)
qed

text \<open>
  The nodes before the place, with the header, and those from the place on. A walk ends at the first node
  from the place on if that is a node to stop at, else at the last node before the place, with the last
  nodes before the place of every level in the array.
\<close>

definition walked :: "('v \<Rightarrow> bool) \<Rightarrow> int \<Rightarrow> 'v option entry list \<Rightarrow> 'v entry list \<Rightarrow> (addr + addr \<times> update) result \<Rightarrow> bool" where
  "walked stop tp ys post res \<longleftrightarrow>
     (if \<exists>a v lv q. post = (a, v, lv) # q \<and> stop v then res = Inr (Inl (fst (hd post)))
      else \<exists>c u. res = Inr (Inr (c, u)) \<and> last_of ys 0 c \<and> (\<forall>j. int j \<le> tp \<longrightarrow> (\<exists>w. u j = Some w \<and> last_of ys j w)))"

lemma walked_end:
  assumes "ys = p @ (cur, cv, cl) # []" "\<not> (\<exists>a v lv q. post = (a, v, lv) # q \<and> stop v)"
    "\<forall>j. - 1 < int j \<and> int j \<le> tp \<longrightarrow> (\<exists>u. upd j = Some u \<and> last_of ys j u)"
  shows "walked stop tp ys post (Inr (Inr (cur, upd)))"
proof -
  have "last_of ys 0 cur" using assms(1) by (auto simp: last_of_def)
  then show ?thesis using assms(2,3) by (auto simp: walked_def)
qed

lemma walk_outcome:
  assumes r: "repr sl (pre @ post)"
    and before: "\<forall>(a, v, lv) \<in> set pre. before v" "\<forall>(a, v, lv) \<in> set post. \<not> before v"
    and stop: "\<forall>(a, v, lv) \<in> set (tl post). \<not> stop v"
  shows "chain sl pre = p @ (cur, cv, cl) # r \<Longrightarrow> level \<le> int cl \<Longrightarrow> - 1 \<le> level \<Longrightarrow> level \<le> sl_level sl \<Longrightarrow>
    (level = - 1 \<longrightarrow> r = [] \<and> \<not> (\<exists>a v lv q. post = (a, v, lv) # q \<and> stop v)) \<Longrightarrow>
    \<forall>j. level < int j \<and> int j \<le> sl_level sl \<longrightarrow> (\<exists>u. upd j = Some u \<and> last_of (chain sl pre) j u) \<Longrightarrow>
    length r + nat (level + 1) \<le> n \<Longrightarrow>
    walked stop (sl_level sl) (chain sl pre) post (walk (gen_op before stop) sl n cur level upd)"
proof (induction n arbitrary: p cur cv cl r level upd)
  case 0
  then have "level = - 1" "r = []" by auto
  then show ?case using 0 walked_end [of "chain sl pre" p cur cv cl post stop "sl_level sl" upd] by simp
next
  case (Suc n)
  show ?case
  proof (cases "level < 0")
    case True
    then have "level = - 1" using Suc.prems(3) by simp
    then show ?thesis using Suc.prems walked_end [of "chain sl pre" p cur cv cl post stop "sl_level sl" upd] by simp
  next
    case False
    define j where "j = nat level"
    have j: "level = int j" "j \<le> cl" using False Suc.prems(2) by (auto simp: j_def)
    let ?P = "held post" and ?op = "gen_op before stop"
    have st: "store_ok sl (pre @ post)" using r by (simp add: repr_def)
    have ch: "chain sl (pre @ post) = p @ (cur, cv, cl) # (r @ ?P)" using Suc.prems(1) by (simp add: chain_append)
    have fwd: "get_forward sl cur j = Inr (nxt (r @ ?P) j)" using store_node(2) [OF st ch j(2)] .
    have down: "walked stop (sl_level sl) (chain sl pre) post (walk ?op sl n cur (level - 1) (upd(j \<mapsto> cur)))"
      if "nxt r j = None" "j = 0 \<longrightarrow> \<not> (\<exists>a v lv q. post = (a, v, lv) # q \<and> stop v)"
    proof (rule Suc.IH [OF Suc.prems(1)])
      show "level - 1 = - 1 \<longrightarrow> r = [] \<and> \<not> (\<exists>a v lv q. post = (a, v, lv) # q \<and> stop v)" using that j(1) by auto
      have "last_of (chain sl pre) j cur" using Suc.prems(1) j(2) that(1) by (auto simp: last_of_def)
      then show "\<forall>i. level - 1 < int i \<and> int i \<le> sl_level sl \<longrightarrow> (\<exists>u. (upd(j \<mapsto> cur)) i = Some u \<and> last_of (chain sl pre) i u)"
        using Suc.prems(6) j(1) by auto
    qed (use Suc.prems(2-4,7) j in auto)
    show ?thesis
    proof (cases "nxt r j")
      case (Some a)
      obtain r1 av al r2 where r1: "r = r1 @ (a, av, al) # r2" "j \<le> al" using nxt_Some [OF Some] by blast
      have ch2: "chain sl pre = (p @ (cur, cv, cl) # r1) @ (a, av, al) # r2" using Suc.prems(1) r1(1) by simp
      then have "(a, av, al) \<in> set (held pre)" by (cases p) (auto simp: chain_def)
      then obtain v where v: "av = Some v" "(a, v, al) \<in> set pre" by auto
      then have "get_value sl a = Inr v" "before v" using repr_value [OF r, of a v al] before(1) by auto
      then have "walk ?op sl (Suc n) cur level upd = walk ?op sl n a level (upd(j \<mapsto> a))"
        using fwd Some False by (simp add: gen_op_None gen_op_Some nxt_append j_def)
      moreover have "walked stop (sl_level sl) (chain sl pre) post (walk ?op sl n a level (upd(j \<mapsto> a)))"
        by (rule Suc.IH [OF ch2]) (use Suc.prems r1 j in auto)
      ultimately show ?thesis by simp
    next
      case None
      then have fwd': "get_forward sl cur (nat level) = Inr (nxt ?P j)" using fwd by (simp add: nxt_append j_def)
      show ?thesis
      proof (cases "nxt ?P j")
        case N: None
        then have "j = 0 \<longrightarrow> post = []" using nxt_0 [of ?P] by auto
        then show ?thesis using down [OF None] fwd' N False by (simp add: gen_op_None gen_op_Some j_def)
      next
        case (Some a)
        obtain P1 av al P2 where P1: "?P = P1 @ (a, av, al) # P2" "nxt P1 j = None" using nxt_Some [OF Some] by blast
        then have "(a, av, al) \<in> set ?P" by simp
        then obtain v where v: "av = Some v" "(a, v, al) \<in> set post" by auto
        then have val: "get_value sl a = Inr v" "\<not> before v" using repr_value [OF r, of a v al] before(2) by auto
        show ?thesis
        proof (cases "stop v")
          case True
          then have "post = (a, v, al) # tl post" using v(2) stop by (cases post) auto
          moreover from this True have "\<exists>a v lv q. post = (a, v, lv) # q \<and> stop v" "fst (hd post) = a" by (blast, metis fst_conv list.sel(1))
          ultimately show ?thesis using fwd' Some val True False by (simp add: gen_op_None gen_op_Some walked_def)
        next
          case st: False
          have "\<not> stop w" if "j = 0" "post = (b, w, lv) # q" for b w lv q
          proof -
            have "P1 = []" using P1(2) that(1) by simp
            then show ?thesis using P1(1) that(2) v(1) st by simp
          qed
          then show ?thesis using down [OF None] fwd' Some val st False by (auto simp: gen_op_None gen_op_Some j_def)
        qed
      qed
    qed
  qed
qed

lemma walk_outcome_header:
  assumes "repr sl (pre @ post)" "\<forall>(a, v, lv) \<in> set pre. before v" "\<forall>(a, v, lv) \<in> set post. \<not> before v"
    "\<forall>(a, v, lv) \<in> set (tl post). \<not> stop v"
  shows "walked stop (sl_level sl) (chain sl pre) post (walk_from_header (gen_op before stop) sl)"
  unfolding walk_from_header_def
proof (rule walk_outcome [OF assms, of "[]"])
  have r: "- 1 \<le> sl_level sl" "sl_level sl \<le> int SKIPLIST_LEVEL_MAX" "\<forall>(a, v, lv) \<in> set (pre @ post). int lv \<le> sl_level sl"
    "sl_length sl = int (length (pre @ post))" using assms(1) by (auto simp: repr_def)
  show "- 1 \<le> sl_level sl" "sl_level sl \<le> int SKIPLIST_LEVEL_MAX" "sl_level sl \<le> sl_level sl" using r(1,2) by auto
  have "sl_level sl = - 1 \<longrightarrow> pre @ post = []" using r(3) by (cases "pre @ post") auto
  then show "sl_level sl = - 1 \<longrightarrow> held pre = [] \<and> \<not> (\<exists>a v lv q. post = (a, v, lv) # q \<and> stop v)"
    by auto
  show "length (held pre) + nat (sl_level sl + 1) \<le> nat (sl_length sl) + nat (sl_level sl + 1)"
    using r(4) by simp
qed (auto simp: chain_def)

section \<open>Redirecting pointers\<close>

lemma split_cases:
  "ys1 @ n # ys2 = p @ x # q \<Longrightarrow>
    (\<exists>r. ys1 = p @ x # r \<and> q = r @ n # ys2) \<or> (p = ys1 \<and> x = n \<and> q = ys2) \<or> (\<exists>r. ys2 = r @ x # q \<and> p = ys1 @ n # r)"
  by (induction ys1 arbitrary: p) (auto simp: Cons_eq_append_conv)

lemma split_append:
  "ys1 @ ys2 = p @ x # q \<Longrightarrow> (\<exists>r. ys1 = p @ x # r \<and> q = r @ ys2) \<or> (\<exists>r. ys2 = r @ x # q \<and> p = ys1 @ r)"
  by (induction ys1 arbitrary: p) (auto simp: Cons_eq_append_conv)

lemma last_of_unique:
  assumes "distinct (map fst ys)" "last_of ys j u" "ys = p @ (b, v, lv) # r" "j \<le> lv"
  shows "b = u \<longleftrightarrow> nxt r j = None"
proof
  show "b = u \<Longrightarrow> nxt r j = None" using last_of_iff [OF assms(1,3,4)] assms(2) by simp
  assume n: "nxt r j = None"
  obtain p' w l r' where u: "ys = p' @ (u, w, l) # r'" "j \<le> l" "nxt r' j = None" using assms(2) by (auto simp: last_of_def)
  have "r = s @ (u, w, l) # t \<Longrightarrow> False" for s t using n u(2) by (auto simp: nxt_append split: option.splits)
  moreover have "r' = s @ (b, v, lv) # t \<Longrightarrow> False" for s t using u(3) assms(4) by (auto simp: nxt_append split: option.splits)
  ultimately show "b = u" using split_cases [of p' "(u, w, l)" r' p "(b, v, lv)" r] u(1) assms(3) by auto
qed

text \<open>drop_in redirects the pointers of the nodes to update and of the new node, level by level.\<close>

definition dropped_in :: "addr \<Rightarrow> (nat \<Rightarrow> addr) \<Rightarrow> nat set \<Rightarrow> (addr \<Rightarrow> nat \<Rightarrow> addr option) \<Rightarrow> addr \<Rightarrow> nat \<Rightarrow> addr option" where
  "dropped_in a U J f b i = (if i \<in> J then if b = a then f (U i) i else if b = U i then Some a else f b i else f b i)"

lemma drop_in_outcome:
  "distinct js \<Longrightarrow> \<forall>j \<in> set js. upd j = Some (U j) \<and> U j \<noteq> a \<and> (\<exists>v lv. sl_nodes sl (U j) = Some (v, lv) \<and> j \<le> lv) \<Longrightarrow>
   \<exists>v lv. sl_nodes sl a = Some (v, lv) \<and> (\<forall>j \<in> set js. j \<le> lv) \<Longrightarrow>
   drop_in a upd js sl = Inr (sl\<lparr>sl_forward := dropped_in a U (set js) (sl_forward sl)\<rparr>)"
proof (induction js arbitrary: sl)
  case Nil
  then show ?case by (simp add: dropped_in_def [abs_def])
next
  case (Cons j js)
  let ?f = "(sl_forward sl)(a := (sl_forward sl a)(j := sl_forward sl (U j) j))"
  let ?g = "?f(U j := (?f (U j))(j := Some a))"
  have "drop_in a upd (j # js) sl = drop_in a upd js (sl\<lparr>sl_forward := ?g\<rparr>)"
    using Cons.prems by (auto simp: updated_def get_forward_def set_forward_def)
  also have "\<dots> = Inr (sl\<lparr>sl_forward := dropped_in a U (set js) ?g\<rparr>)"
    by (subst Cons.IH) (use Cons.prems in auto)
  also have "dropped_in a U (set js) ?g = dropped_in a U (set (j # js)) (sl_forward sl)"
    using Cons.prems(1,2) by (auto simp: dropped_in_def fun_eq_iff)
  finally show ?case .
qed

lemma linked_dropped_in:
  assumes l: "linked f (C @ P)" and d: "distinct (map fst (C @ (a, v, L) # P))"
    and U: "\<forall>j \<le> L. last_of C j (U j)"
  shows "linked (dropped_in a U {..L} f) (C @ (a, v, L) # P)"
  unfolding linked_def
proof (intro allI impI)
  fix p b w lv q j
  assume s: "C @ (a, v, L) # P = p @ (b, w, lv) # q" and j: "j \<le> lv"
  have in_C: "U i \<in> fst ` set C" if "i \<le> L" for i using last_of_mem U that by blast
  have dC: "distinct (map fst C)" using d by simp
  consider r where "C = p @ (b, w, lv) # r" "q = r @ (a, v, L) # P" | "p = C" "(b, w, lv) = (a, v, L)" "q = P"
    | r where "P = r @ (b, w, lv) # q" using split_cases [OF s] by blast
  then show "dropped_in a U {..L} f b j = nxt q j"
  proof cases
    case 1
    then have old: "f b j = nxt (r @ P) j" using linkedD [OF l, of p b w lv "r @ P"] j by simp
    have "b \<noteq> a" using d 1(1) by auto
    then show ?thesis using old last_of_unique [OF dC _ 1(1) j, of "U j"] U 1(2)
      by (auto simp: dropped_in_def nxt_append split: option.split)
  next
    case 2
    then have j': "j \<le> L" using j by simp
    obtain p' x l r where r: "C = p' @ (U j, x, l) # r" "j \<le> l" "nxt r j = None" using U j' by (auto simp: last_of_def)
    then have "f (U j) j = nxt P j" using linkedD [OF l, of p' "U j" x l "r @ P"] by (simp add: nxt_append)
    then show ?thesis using 2 j' by (simp add: dropped_in_def)
  next
    case 3
    then have "f b j = nxt q j" using linkedD [OF l, of "C @ r" b w lv q] j by simp
    moreover have "b \<noteq> a" "j \<le> L \<Longrightarrow> b \<noteq> U j" using d 3 in_C by force+
    ultimately show ?thesis by (simp add: dropped_in_def)
  qed
qed

text \<open>splice_out redirects the pointers to the node that is removed.\<close>

definition spliced :: "addr \<Rightarrow> (nat \<Rightarrow> addr) \<Rightarrow> nat set \<Rightarrow> (addr \<Rightarrow> nat \<Rightarrow> addr option) \<Rightarrow> addr \<Rightarrow> nat \<Rightarrow> addr option" where
  "spliced a U J f b i = (if i \<in> J \<and> b = U i \<and> f b i = Some a then f a i else f b i)"

lemma splice_out_outcome:
  "distinct js \<Longrightarrow> \<forall>j \<in> set js. upd j = Some (U j) \<and> U j \<noteq> a \<and> (\<exists>v lv. sl_nodes sl (U j) = Some (v, lv) \<and> j \<le> lv)
     \<and> (sl_forward sl (U j) j = Some a \<longrightarrow> (\<exists>v lv. sl_nodes sl a = Some (v, lv) \<and> j \<le> lv)) \<Longrightarrow>
   splice_out a upd js sl = Inr (sl\<lparr>sl_forward := spliced a U (set js) (sl_forward sl)\<rparr>)"
proof (induction js arbitrary: sl)
  case Nil
  then show ?case by (simp add: spliced_def [abs_def])
next
  case (Cons j js)
  let ?g = "spliced a U {j} (sl_forward sl)"
  have upd: "spliced a U {j} f = (if f (U j) j = Some a then f(U j := (f (U j))(j := f a j)) else f)" for f
    by (auto simp: spliced_def fun_eq_iff)
  have "splice_out a upd (j # js) sl = splice_out a upd js (sl\<lparr>sl_forward := ?g\<rparr>)"
    using Cons.prems unfolding upd by (auto simp: updated_def get_forward_def set_forward_def)
  also have "\<dots> = Inr (sl\<lparr>sl_forward := spliced a U (set js) ?g\<rparr>)"
  proof (subst Cons.IH)
    show "\<forall>i \<in> set js. upd i = Some (U i) \<and> U i \<noteq> a \<and> (\<exists>v lv. sl_nodes (sl\<lparr>sl_forward := ?g\<rparr>) (U i) = Some (v, lv) \<and> i \<le> lv)
      \<and> (sl_forward (sl\<lparr>sl_forward := ?g\<rparr>) (U i) i = Some a \<longrightarrow> (\<exists>v lv. sl_nodes (sl\<lparr>sl_forward := ?g\<rparr>) a = Some (v, lv) \<and> i \<le> lv))"
      using Cons.prems by (auto simp: spliced_def)
  qed (use Cons.prems(1) in auto)
  also have "spliced a U (set js) ?g = spliced a U (set (j # js)) (sl_forward sl)"
    using Cons.prems(1,2) by (auto simp: spliced_def fun_eq_iff)
  finally show ?case .
qed

lemma linked_spliced:
  assumes l: "linked f (C @ (a, v, L) # P)" and d: "distinct (map fst (C @ (a, v, L) # P))"
    and U: "\<forall>j. int j \<le> top_level \<longrightarrow> last_of C j (U j)"
    and lv: "\<forall>(b, w, lw) \<in> set (tl C @ (a, v, L) # P). int lw \<le> top_level" and ne: "C \<noteq> []"
  shows "linked (spliced a U {j. int j \<le> top_level} f) (C @ P)"
  unfolding linked_def
proof (intro allI impI)
  fix p b w lw q j
  assume s: "C @ P = p @ (b, w, lw) # q" and j: "j \<le> lw"
  have in_C: "U i \<in> fst ` set C" if "int i \<le> top_level" for i using last_of_mem U that by blast
  have dC: "distinct (map fst C)" using d by simp
  have high: "nxt ((a, v, L) # P) i = None" if "\<not> int i \<le> top_level" for i
    using lv that unfolding nxt_None by (force dest: bspec)
  consider r where "C = p @ (b, w, lw) # r" "q = r @ P" | r where "P = r @ (b, w, lw) # q" using split_append [OF s] by blast
  then show "spliced a U {j. int j \<le> top_level} f b j = nxt q j"
  proof cases
    case 1
    have old: "f b j = nxt (r @ (a, v, L) # P) j" using linkedD [OF l, of p b w lw "r @ (a, v, L) # P"] 1 j by simp
    have a: "nxt r j \<noteq> Some a" "nxt P j \<noteq> Some a" using d 1(1) by (auto dest!: nxt_Some)
    have fa: "j \<le> L \<Longrightarrow> f a j = nxt P j" using linkedD [OF l, of C a v L P] by simp
    show ?thesis
    proof (cases "int j \<le> top_level")
      case True
      then have "b = U j \<longleftrightarrow> nxt r j = None" using last_of_unique [OF dC _ 1(1) j, of "U j"] U by blast
      then show ?thesis using old a fa True 1(2) by (auto simp: spliced_def nxt_append split: option.splits)
    next
      case False
      then have "\<not> j \<le> L" "nxt P j = None" using high [OF False] by (auto split: if_splits)
      then show ?thesis using old False 1(2) by (simp add: spliced_def nxt_append split: option.split)
    qed
  next
    case 2
    then have "f b j = nxt q j" using linkedD [OF l, of "C @ (a, v, L) # r" b w lw q] j by simp
    moreover have "\<not> (int j \<le> top_level \<and> b = U j)" using d 2 in_C by force
    ultimately show ?thesis by (auto simp: spliced_def)
  qed
qed

section \<open>The operations\<close>

lemma chain_updates [simp]:
  "chain (sl\<lparr>sl_forward := f\<rparr>) xs = chain sl xs" "chain (sl\<lparr>sl_level := l\<rparr>) xs = chain sl xs"
  "chain (sl\<lparr>sl_nodes := m\<rparr>) xs = chain sl xs" "chain (sl\<lparr>sl_fresh := n\<rparr>) xs = chain sl xs"
  "chain (sl\<lparr>sl_destroyed := d\<rparr>) xs = chain sl xs" "chain (sl\<lparr>sl_length := z\<rparr>) xs = chain sl xs"
  by (simp_all add: chain_def)

lemma store_ok_updates [simp]:
  "store_ok (sl\<lparr>sl_level := l\<rparr>) xs = store_ok sl xs" "store_ok (sl\<lparr>sl_length := z\<rparr>) xs = store_ok sl xs"
  by (simp_all add: store_ok_def)

lemma chain_nxt: "nxt (held xs) j = None \<longleftrightarrow> (\<forall>(a, v, lv) \<in> set xs. lv < j)"
  by (auto simp: nxt_None)

text \<open>Unused levels are dropped: those above the levels of all nodes.\<close>

lemma drop_levels_outcome:
  "store_ok sl xs \<Longrightarrow> \<forall>(a, v, lv) \<in> set xs. int lv \<le> level \<Longrightarrow> - 1 \<le> level \<Longrightarrow> level \<le> int SKIPLIST_LEVEL_MAX \<Longrightarrow>
    sl_level sl = level \<Longrightarrow> n = nat (level + 1) \<Longrightarrow>
    \<exists>l'. drop_levels n level sl = Inr (sl\<lparr>sl_level := l'\<rparr>) \<and> - 1 \<le> l' \<and> l' \<le> level \<and> (\<forall>(a, v, lv) \<in> set xs. int lv \<le> l')"
proof (induction n arbitrary: level sl)
  case 0
  then show ?case by (intro exI [of _ level]) auto
next
  case (Suc n)
  then have level: "0 \<le> level" "nat level \<le> SKIPLIST_LEVEL_MAX" by auto
  have "get_forward sl (sl_header sl) (nat level) = Inr (nxt (held xs) (nat level))"
    by (rule store_node(2) [OF Suc.prems(1), of "[]"]) (use level in \<open>auto simp: chain_def\<close>)
  note fwd = this
  show ?case
  proof (cases "nxt (held xs) (nat level)")
    case (Some a)
    then have "drop_levels (Suc n) level sl = Inr (sl\<lparr>sl_level := level\<rparr>)" using fwd level Suc.prems(5) by simp
    then show ?thesis using Suc.prems(2,3) by blast
  next
    case None
    then have low: "\<forall>(a, v, lv) \<in> set xs. int lv \<le> level - 1" unfolding chain_nxt by force
    have w: "wrap8 (level - 1) = level - 1" using level by (simp add: wrap8_def SKIPLIST_LEVEL_MAX_def)
    have "\<exists>l'. drop_levels n (level - 1) (sl\<lparr>sl_level := level - 1\<rparr>) = Inr (sl\<lparr>sl_level := level - 1\<rparr>\<lparr>sl_level := l'\<rparr>) \<and> - 1 \<le> l'
        \<and> l' \<le> level - 1 \<and> (\<forall>(a, v, lv) \<in> set xs. int lv \<le> l')"
      by (rule Suc.IH) (use Suc.prems level low in auto)
    then obtain l' where "drop_levels n (level - 1) (sl\<lparr>sl_level := level - 1\<rparr>) = Inr (sl\<lparr>sl_level := l'\<rparr>)" "- 1 \<le> l'"
      "l' \<le> level - 1" "\<forall>(a, v, lv) \<in> set xs. int lv \<le> l'" by auto
    then show ?thesis using fwd None level Suc.prems(5) w by (intro exI [of _ l']) simp
  qed
qed

text \<open>Where a walk that does not finish at a node ends: the node before the place, and the nodes to update.\<close>

lemma walked_through:
  assumes "walked stop tp ys post res" "\<not> (\<exists>a v lv q. post = (a, v, lv) # q \<and> stop v)"
  obtains c u where "res = Inr (Inr (c, u))" "last_of ys 0 c" "\<And>j. int j \<le> tp \<Longrightarrow> u j = Some (the (u j)) \<and> last_of ys j (the (u j))"
proof -
  have "\<exists>c u. res = Inr (Inr (c, u)) \<and> last_of ys 0 c \<and> (\<forall>j. int j \<le> tp \<longrightarrow> (\<exists>w. u j = Some w \<and> last_of ys j w))"
    using assms unfolding walked_def by (simp only: if_not_P if_False)
  then obtain c u where cu: "res = Inr (Inr (c, u))" "last_of ys 0 c" "\<forall>j. int j \<le> tp \<longrightarrow> (\<exists>w. u j = Some w \<and> last_of ys j w)"
    by blast
  show ?thesis by (rule that [OF cu(1,2)]) (use cu(3) in force)
qed

lemma last_next:
  assumes "store_ok sl (pre @ post)" "last_of (chain sl pre) j u"
  shows "\<exists>v lv. sl_nodes sl u = Some (v, lv) \<and> j \<le> lv"
    "sl_forward sl u j = nxt (held post) j"
    "get_forward sl u j = Inr (nxt (held post) j)"
    "u < sl_fresh sl"
proof -
  obtain p v lv r where u: "chain sl pre = p @ (u, v, lv) # r" "j \<le> lv" "nxt r j = None" using assms(2) by (auto simp: last_of_def)
  let ?P = "held post"
  have ch: "chain sl (pre @ post) = p @ (u, v, lv) # (r @ ?P)" using u(1) by (simp add: chain_append)
  have n: "nxt (r @ ?P) j = nxt ?P j" using u(3) by (simp add: nxt_append)
  show "\<exists>v lv. sl_nodes sl u = Some (v, lv) \<and> j \<le> lv" using store_node(1) [OF assms(1) ch] u(2) by blast
  show "get_forward sl u j = Inr (nxt ?P j)" using store_node(2) [OF assms(1) ch u(2)] n by simp
  show "sl_forward sl u j = nxt ?P j" using assms(1) linkedD [of "sl_forward sl", OF _ ch u(2)] n by (simp add: store_ok_def)
  show "u < sl_fresh sl" using assms(1) ch by (auto simp: store_ok_def)
qed

lemma store_spliced:
  assumes s: "store_ok sl (pre @ (a, v, L) # post)" and lv: "\<forall>(b, w, lw) \<in> set (pre @ (a, v, L) # post). int lw \<le> tp"
    and U: "\<And>j. int j \<le> tp \<Longrightarrow> last_of (chain sl pre) j (U j)"
  shows "store_ok (sl\<lparr>sl_forward := spliced a U {j. int j \<le> tp} (sl_forward sl), sl_nodes := (sl_nodes sl)(a := None),
    sl_destroyed := d\<rparr>) (pre @ post)"
proof -
  let ?P = "held post"
  have ch: "chain sl (pre @ (a, v, L) # post) = chain sl pre @ (a, Some v, L) # ?P" by (simp add: chain_append)
  have d: "distinct (map fst (chain sl pre @ (a, Some v, L) # ?P))" and l: "linked (sl_forward sl) (chain sl pre @ (a, Some v, L) # ?P)"
    using s by (auto simp: store_ok_def ch)
  have "linked (spliced a U {j. int j \<le> tp} (sl_forward sl)) (chain sl pre @ ?P)"
  proof (rule linked_spliced [OF l d])
    show "\<forall>(b, w, lw) \<in> set (tl (chain sl pre) @ (a, Some v, L) # ?P). int lw \<le> tp" using lv by (force simp: chain_def)
  qed (use U in \<open>auto simp: chain_def\<close>)
  moreover have "(map_of (chain sl pre @ (a, Some v, L) # ?P))(a := None) = map_of (chain sl pre @ ?P)"
  proof -
    have "a \<notin> fst ` set ?P" "a \<notin> fst ` set (chain sl pre)" using d by auto
    then have "map_of ?P a = None" "map_of (chain sl pre) a = None" by (simp_all add: map_of_eq_None_iff del: map_map)
    then show ?thesis by (auto simp: fun_eq_iff map_add_def split: option.split)
  qed
  ultimately show ?thesis using s d unfolding store_ok_def by (simp add: chain_append) 
qed

lemma delete_found:
  assumes r: "repr sl (pre @ (a, v, L) # post)" and len: "sl_length sl < 2 ^ 64"
    and pre: "\<forall>(b, w, lw) \<in> set pre. cmp w val < 0" and eq: "cmp v val = 0" and post: "\<forall>(b, w, lw) \<in> set post. cmp w val > 0"
  shows "\<exists>sl'. skiplist_delete cmp val sl = Inr (True, sl') \<and> repr sl' (pre @ post) \<and> sl_destroyed sl' = sl_destroyed sl @ [v]"
proof -
  let ?xs = "pre @ (a, v, L) # post" and ?lv = "sl_level sl"
  have st: "store_ok sl ?xs" and lv: "\<forall>(b, w, lw) \<in> set ?xs. int lw \<le> ?lv" and lb: "- 1 \<le> ?lv" "?lv \<le> int SKIPLIST_LEVEL_MAX"
    and le: "sl_length sl = int (length ?xs)" using r by (auto simp: repr_def)
  have "walked (\<lambda>v. False) ?lv (chain sl pre) ((a, v, L) # post) (walk_from_header (gen_op (\<lambda>v. cmp v val < 0) (\<lambda>v. False)) sl)"
    by (rule walk_outcome_header [OF r]) (use pre eq post in auto)
  then obtain c u where w: "walk_from_header (op_delete (\<lambda>v. cmp v val)) sl = Inr (Inr (c, u))" "last_of (chain sl pre) 0 c"
    "\<And>j. int j \<le> ?lv \<Longrightarrow> u j = Some (the (u j)) \<and> last_of (chain sl pre) j (the (u j))"
    unfolding op_delete_gen by (rule walked_through) auto
  define U where "U = (\<lambda>j. the (u j))"
  have next1: "skiplist_node_next sl c = Inr (Some a)" using last_next(3) [OF st w(2)] by (simp add: skiplist_node_next_def)
  have node: "sl_nodes sl a = Some (Some v, L)" using store_node(1) [OF st, of "chain sl pre" a "Some v" L "held post"] by (simp add: chain_append)
  then have val: "get_value sl a = Inr v" by (simp add: get_value_def)
  have levels: "{j. int j \<le> ?lv} = set [0..<nat (?lv + 1)]" by auto
  have fresh_a: "U j \<noteq> a" if "int j \<le> ?lv" for j
  proof -
    have "U j \<in> fst ` set (chain sl pre)" using last_of_mem w(3) [OF that] unfolding U_def by blast
    then show ?thesis using st by (auto simp: store_ok_def chain_append)
  qed
  let ?f = "spliced a U {j. int j \<le> ?lv} (sl_forward sl)"
  have so: "splice_out a u [0..<nat (?lv + 1)] sl = Inr (sl\<lparr>sl_forward := ?f\<rparr>)"
    unfolding levels
  proof (rule splice_out_outcome)
    show "\<forall>j \<in> set [0..<nat (?lv + 1)]. u j = Some (U j) \<and> U j \<noteq> a \<and> (\<exists>v lv. sl_nodes sl (U j) = Some (v, lv) \<and> j \<le> lv)
      \<and> (sl_forward sl (U j) j = Some a \<longrightarrow> (\<exists>v lv. sl_nodes sl a = Some (v, lv) \<and> j \<le> lv))"
    proof
      fix j assume "j \<in> set [0..<nat (?lv + 1)]"
      then have j: "int j \<le> ?lv" by auto
      have "nxt (held ((a, v, L) # post)) j = Some a \<Longrightarrow> j \<le> L"
        using st by (auto simp: store_ok_def chain_append split: if_splits dest!: nxt_Some) (metis fst_conv held_simps(5) image_eqI in_set_conv_decomp)
      then show "u j = Some (U j) \<and> U j \<noteq> a \<and> (\<exists>v lv. sl_nodes sl (U j) = Some (v, lv) \<and> j \<le> lv)
        \<and> (sl_forward sl (U j) j = Some a \<longrightarrow> (\<exists>v lv. sl_nodes sl a = Some (v, lv) \<and> j \<le> lv))"
        using w(3) [OF j] fresh_a [OF j] last_next(1,2) [OF st, of j "U j"] node by (auto simp: U_def)
    qed
  qed simp
  let ?sl2 = "sl\<lparr>sl_forward := ?f, sl_nodes := (sl_nodes sl)(a := None), sl_destroyed := sl_destroyed sl @ [v]\<rparr>"
  have "a \<noteq> sl_header sl" using st by (auto simp: store_ok_def chain_def)
  then have de: "skiplist_node_destroy a (sl\<lparr>sl_forward := ?f\<rparr>) = Inr ?sl2" using node by (simp add: skiplist_node_destroy_def)
  have st2: "store_ok ?sl2 (pre @ post)" by (rule store_spliced [OF st lv]) (use w(3) in \<open>auto simp: U_def\<close>)
  have "\<exists>l'. drop_levels (nat (?lv + 1)) ?lv ?sl2 = Inr (?sl2\<lparr>sl_level := l'\<rparr>) \<and> - 1 \<le> l' \<and> l' \<le> ?lv \<and> (\<forall>(a, v, lv) \<in> set (pre @ post). int lv \<le> l')"
    by (rule drop_levels_outcome [OF st2]) (use lv lb in auto)
  then obtain l' where l': "drop_levels (nat (?lv + 1)) ?lv ?sl2 = Inr (?sl2\<lparr>sl_level := l'\<rparr>)" "- 1 \<le> l'" "l' \<le> ?lv"
    "\<forall>(a, v, lv) \<in> set (pre @ post). int lv \<le> l'" by blast
  have "skiplist_delete cmp val sl = Inr (True, ?sl2\<lparr>sl_level := l', sl_length := (sl_length sl - 1) mod 2 ^ 64\<rparr>)"
    using w(1) next1 val eq so de l'(1) by (simp add: skiplist_delete_def)
  moreover have "repr (?sl2\<lparr>sl_level := l', sl_length := (sl_length sl - 1) mod 2 ^ 64\<rparr>) (pre @ post)"
    using st2 l'(2-4) lb le len by (simp add: repr_def)
  ultimately show ?thesis by (intro exI conjI) auto
qed

lemma delete_absent:
  assumes r: "repr sl (pre @ post)" and pre: "\<forall>(b, w, lw) \<in> set pre. cmp w val < 0" and post: "\<forall>(b, w, lw) \<in> set post. cmp w val > 0"
  shows "skiplist_delete cmp val sl = Inr (False, sl)"
proof -
  have st: "store_ok sl (pre @ post)" using r by (simp add: repr_def)
  have "walked (\<lambda>v. False) (sl_level sl) (chain sl pre) post (walk_from_header (gen_op (\<lambda>v. cmp v val < 0) (\<lambda>v. False)) sl)"
    by (rule walk_outcome_header [OF r]) (use pre post in auto)
  then obtain c u where w: "walk_from_header (op_delete (\<lambda>v. cmp v val)) sl = Inr (Inr (c, u))" "last_of (chain sl pre) 0 c"
    unfolding op_delete_gen by (rule walked_through) auto
  have next1: "skiplist_node_next sl c = Inr (nxt (held post) 0)" using last_next(3) [OF st w(2)] by (simp add: skiplist_node_next_def)
  show ?thesis
  proof (cases post)
    case Nil
    then show ?thesis using w(1) next1 by (simp add: skiplist_delete_def)
  next
    case (Cons e q)
    obtain a v lv where e: "e = (a, v, lv)" by (cases e)
    then have "get_value sl a = Inr v" using repr_value [OF r, of a v lv] Cons by simp
    then show ?thesis using w(1) next1 post Cons e by (simp add: skiplist_delete_def)
  qed
qed

lemma level_loop_outcome:
  "\<forall>x \<in> set small. x mod 65536 < 65535 div 4 \<Longrightarrow> \<not> r mod 65536 < 65535 div 4 \<Longrightarrow> 0 \<le> level \<Longrightarrow> level + int (length small) < 128 \<Longrightarrow>
    level_loop level (small @ r # rs) = Inr (level + int (length small), rs)"
proof (induction small arbitrary: level)
  case (Cons x small)
  have "wrap8 (level + 1) = level + 1" using Cons.prems(3,4) by (simp add: wrap8_def)
  then show ?case using Cons by simp
qed simp

text \<open>The level is the number of small random numbers before the first one that is not, at most 8.\<close>

lemma level_generated:
  assumes "\<forall>x \<in> set small. x mod 65536 < 65535 div 4" "\<not> r mod 65536 < 65535 div 4" "length small < 128"
  shows "skiplist_level_generate (small @ r # rs) = Inr (int (min (length small) SKIPLIST_LEVEL_MAX), rs)"
  using level_loop_outcome [OF assms(1,2), of 0 rs] assms(3) by (simp add: skiplist_level_generate_def)

lemma linked_other:
  assumes "linked f ys" "a \<notin> fst ` set ys"
  shows "linked (f(a := g)) ys"
  unfolding linked_def
proof (intro allI impI)
  fix p b v lv q j assume s: "ys = p @ (b, v, lv) # q" "j \<le> lv"
  then have "b \<noteq> a" using assms(2) by auto
  then show "(f(a := g)) b j = nxt q j" using linkedD [OF assms(1) s] by simp
qed

lemma store_dropped_in:
  assumes s: "store_ok sl (pre @ post)" and L: "L \<le> SKIPLIST_LEVEL_MAX" and U: "\<forall>j \<le> L. last_of (chain sl pre) j (U j)"
  defines "a \<equiv> sl_fresh sl"
  shows "store_ok (sl\<lparr>sl_nodes := (sl_nodes sl)(a \<mapsto> (Some v, L)),
    sl_forward := dropped_in a U {..L} ((sl_forward sl)(a := (\<lambda>_. None))), sl_fresh := a + 1\<rparr>) (pre @ (a, v, L) # post)"
proof -
  let ?f = "(sl_forward sl)(a := (\<lambda>_. None))"
  have ch: "chain sl (pre @ post) = chain sl pre @ held post" by (simp add: chain_append)
  have less: "\<forall>b \<in> fst ` set (chain sl pre @ held post). b < a" and d: "distinct (map fst (chain sl pre @ held post))"
    and l: "linked (sl_forward sl) (chain sl pre @ held post)" and m: "sl_nodes sl = map_of (chain sl pre @ held post)"
    using s by (auto simp: store_ok_def ch a_def)
  have a: "a \<notin> fst ` set (chain sl pre @ held post)" using less by blast
  have d': "distinct (map fst (chain sl pre @ (a, Some v, L) # held post))"  using d a by (simp add: image_Un)
  have "linked ?f (chain sl pre @ held post)" by (rule linked_other [OF l a])
  from linked_dropped_in [OF this d' U]
  have "linked (dropped_in a U {..L} ?f) (chain sl pre @ (a, Some v, L) # held post)" .
  moreover have "map_of (chain sl pre @ (a, Some v, L) # held post) = (map_of (chain sl pre @ held post))(a \<mapsto> (Some v, L))"
  proof -
    have "map_of (chain sl pre) a = None" using a by (simp add: map_of_eq_None_iff image_Un)
    then show ?thesis by (auto simp: fun_eq_iff map_add_def split: option.split)
  qed
  moreover have "\<forall>b \<in> fst ` set (chain sl pre @ (a, Some v, L) # held post). b < a + 1"
    using less by (simp add: image_Un ball_Un less_Suc_eq)
  ultimately show ?thesis using d' m unfolding store_ok_def by (simp add: chain_append)
qed

lemma insert_new:
  assumes r: "repr sl (pre @ post)" and len: "sl_length sl + 1 < 2 ^ 64"
    and pre: "\<forall>(b, w, lw) \<in> set pre. cmp w val < 0" and post: "\<forall>(b, w, lw) \<in> set post. cmp w val > 0"
    and gen: "skiplist_level_generate rs = Inr (int L, rs')" "L \<le> SKIPLIST_LEVEL_MAX"
  shows "\<exists>sl'. insert_again (Suc n) cmp rs val sl = Inr (True, sl') \<and> repr sl' (pre @ (sl_fresh sl, val, L) # post)
    \<and> sl_destroyed sl' = sl_destroyed sl"
proof -
  let ?lv = "sl_level sl" and ?a = "sl_fresh sl"
  have st: "store_ok sl (pre @ post)" and lv: "\<forall>(b, w, lw) \<in> set (pre @ post). int lw \<le> ?lv" and lb: "- 1 \<le> ?lv" "?lv \<le> int SKIPLIST_LEVEL_MAX"
    and le: "sl_length sl = int (length (pre @ post))" using r by (auto simp: repr_def)
  have tail: "\<forall>(b, w, lw) \<in> set (tl post). cmp w val > 0" using post by (cases post) auto
  have "walked (\<lambda>v. cmp v val = 0) ?lv (chain sl pre) post (walk_from_header (gen_op (\<lambda>v. cmp v val < 0) (\<lambda>v. cmp v val = 0)) sl)"
    by (rule walk_outcome_header [OF r]) (use pre post tail in auto)
  then obtain c u where w: "walk_from_header (op_insert (\<lambda>v. cmp v val)) sl = Inr (Inr (c, u))"
    "\<And>j. int j \<le> ?lv \<Longrightarrow> u j = Some (the (u j)) \<and> last_of (chain sl pre) j (the (u j))"
    unfolding op_insert_gen by (rule walked_through) (use post in auto)
  let ?u = "raise_update (sl_header sl) ?lv (int L) u"
  define U where "U = (\<lambda>j. the (?u j))"
  have U: "?u j = Some (U j) \<and> last_of (chain sl pre) j (U j)" if "j \<le> L" for j
  proof (cases "int j \<le> ?lv")
    case False
    have "lw < j" if "(b, w, lw) \<in> set pre" for b w lw using False bspec [OF lv, of "(b, w, lw)"] that by auto
    then have "nxt (held pre) j = None" by (auto simp: nxt_None)
    then have "last_of (chain sl pre) j (sl_header sl)"
      using that gen(2) unfolding last_of_def chain_def
      by (intro exI [of _ "[]"] exI [of _ None] exI [of _ SKIPLIST_LEVEL_MAX] exI [of _ "held pre"]) simp
    then show ?thesis using False that by (simp add: U_def raise_update_def)
  qed (use w(2) in \<open>auto simp: U_def raise_update_def\<close>)
  let ?sl1 = "if int L > ?lv then sl\<lparr>sl_level := int L\<rparr> else sl"
  let ?sl2 = "?sl1\<lparr>sl_nodes := (sl_nodes sl)(?a \<mapsto> (Some val, L)), sl_forward := (sl_forward sl)(?a := (\<lambda>_. None)), sl_fresh := ?a + 1\<rparr>"
  have new: "skiplist_node_new (int L) (Some val) ?sl1 = Some (?a, ?sl2)" by (simp add: skiplist_node_new_def)
  have js: "set [0..<nat (int L + 1)] = {..L}" by auto
  have "drop_in ?a ?u [0..<nat (int L + 1)] ?sl2 = Inr (?sl2\<lparr>sl_forward := dropped_in ?a U (set [0..<nat (int L + 1)]) (sl_forward ?sl2)\<rparr>)"
  proof (rule drop_in_outcome)
    show "\<forall>j \<in> set [0..<nat (int L + 1)]. ?u j = Some (U j) \<and> U j \<noteq> ?a \<and> (\<exists>v lv. sl_nodes ?sl2 (U j) = Some (v, lv) \<and> j \<le> lv)"
      using U last_next(1,4) [OF st] unfolding js by fastforce
  qed auto
  note drop = this [unfolded js]
  let ?sl3 = "?sl2\<lparr>sl_forward := dropped_in ?a U {..L} (sl_forward ?sl2), sl_length := (sl_length sl + 1) mod 2 ^ 64\<rparr>"
  have "insert_again (Suc n) cmp rs val sl = Inr (True, ?sl3)"
    using w(1) gen(1) new drop by (simp add: Let_def split: if_splits)
  moreover have "store_ok ?sl3 (pre @ (?a, val, L) # post)"
    using store_dropped_in [OF st gen(2), of U val] U by (auto simp: store_ok_def)
  then have "repr ?sl3 (pre @ (?a, val, L) # post)" using lv lb le len gen(2) by (force simp: repr_def)
  moreover have "sl_destroyed ?sl3 = sl_destroyed sl" by simp
  ultimately show ?thesis by blast
qed

section \<open>The map of the values by their keys\<close>

text \<open>A compare function finds a key: its sign tells on which side of the key a value lies.\<close>

definition finds :: "('v \<Rightarrow> int) \<Rightarrow> ('v \<Rightarrow> 'k::linorder) \<Rightarrow> 'k \<Rightarrow> bool" where
  "finds f key k \<longleftrightarrow> (\<forall>w. (f w < 0 \<longleftrightarrow> key w < k) \<and> (f w = 0 \<longleftrightarrow> key w = k))"

lemma finds_sign:
  assumes "finds f key k"
  shows "f w < 0 \<longleftrightarrow> key w < k" "f w = 0 \<longleftrightarrow> key w = k" "f w > 0 \<longleftrightarrow> k < key w"
proof -
  show s: "f w < 0 \<longleftrightarrow> key w < k" "f w = 0 \<longleftrightarrow> key w = k" using assms by (auto simp: finds_def)
  have "f w > 0 \<longleftrightarrow> \<not> f w < 0 \<and> f w \<noteq> 0" by auto
  then show "f w > 0 \<longleftrightarrow> k < key w" using s by auto
qed

definition entries :: "('v \<Rightarrow> 'k) \<Rightarrow> 'v entry list \<Rightarrow> ('k, 'v) smap" where
  "entries key xs = map (\<lambda>(a, v, lv). (key v, v)) xs"

definition skip_holds :: "('v \<Rightarrow> 'k::linorder) \<Rightarrow> 'v skiplist \<Rightarrow> ('k, 'v) smap \<Rightarrow> bool" where
  "skip_holds key sl m \<longleftrightarrow> (\<exists>xs. repr sl xs \<and> m = entries key xs \<and> smap_inv m)"

lemma skip_holds_length: "skip_holds key sl m \<Longrightarrow> sl_length sl = int (length m)"
  by (auto simp: skip_holds_def repr_def entries_def)

lemma entries_simps [simp]:
  "entries key [] = []" "entries key ((a, v, lv) # xs) = (key v, v) # entries key xs"
  "entries key (xs @ ys) = entries key xs @ entries key ys" "length (entries key xs) = length xs"
  "map snd (entries key xs) = map (\<lambda>(a, v, lv). v) xs"
  by (auto simp: entries_def)

lemma Ball_entries [simp]: "(\<forall>x \<in> set (entries key xs). Q x) \<longleftrightarrow> (\<forall>(a, v, lv) \<in> set xs. Q (key v, v))"
  by (auto simp: entries_def)

text \<open>The place of a key: at a node with that key, or between two nodes.\<close>

lemma place_of_key:
  assumes "smap_inv (entries key xs)"
  obtains (found) pre a v L post where "xs = pre @ (a, v, L) # post" "key v = k" "\<forall>(b, w, lw) \<in> set pre. key w < k" "\<forall>(b, w, lw) \<in> set post. k < key w"
    | (absent) pre post where "xs = pre @ post" "\<forall>(b, w, lw) \<in> set pre. key w < k" "\<forall>(b, w, lw) \<in> set post. k < key w"
proof -
  have "\<exists>pre post. xs = pre @ post \<and> (\<forall>(b, w, lw) \<in> set pre. key w < k)
    \<and> ((\<forall>(b, w, lw) \<in> set post. k < key w) \<or> (\<exists>a v L q. post = (a, v, L) # q \<and> key v = k \<and> (\<forall>(b, w, lw) \<in> set q. k < key w)))"
    using assms
  proof (induction xs)
    case (Cons e xs)
    obtain a v L where e: "e = (a, v, L)" by (cases e)
    have above: "\<forall>(b, w, lw) \<in> set xs. key v < key w" "smap_inv (entries key xs)" using Cons.prems by (auto simp: e)
    then obtain pre post where p: "xs = pre @ post" "\<forall>(b, w, lw) \<in> set pre. key w < k"
      "(\<forall>(b, w, lw) \<in> set post. k < key w) \<or> (\<exists>a v L q. post = (a, v, L) # q \<and> key v = k \<and> (\<forall>(b, w, lw) \<in> set q. k < key w))"
      using Cons.IH by blast
    show ?case
    proof (cases "key v < k")
      case True
      then show ?thesis using p by (intro exI [of _ "e # pre"] exI [of _ post]) (simp add: e)
    next
      case False
      then have "k < key v \<Longrightarrow> \<forall>(b, w, lw) \<in> set (e # xs). k < key w" using above(1) by (fastforce simp: e)
      then show ?thesis using False above(1) by (intro exI [of _ "[]"] exI [of _ "e # xs"]) (auto simp: e)
    qed
  qed simp
  then show ?thesis using found absent by blast
qed

lemma entries_present:
  assumes "\<forall>(b, w, lw) \<in> set pre. key w < key v" "\<forall>(b, w, lw) \<in> set post. key v < key w"
  shows "smap_find (entries key (pre @ (a, v, L) # post)) (key v) = Some v"
    "smap_erase (key v) (entries key (pre @ (a, v, L) # post)) = entries key (pre @ post)"
    "key u = key v \<Longrightarrow> smap_set (key v) u (entries key (pre @ (a, v, L) # post)) = entries key (pre @ (b, u, L') # post)"
proof -
  have n: "smap_find (entries key pre) (key v) = None" by (rule smap_find_outside(1)) (use assms in simp)
  show "smap_find (entries key (pre @ (a, v, L) # post)) (key v) = Some v" using n by (simp add: smap_find_append)
  show "smap_erase (key v) (entries key (pre @ (a, v, L) # post)) = entries key (pre @ post)" using n by (simp add: smap_erase_append)
  show "key u = key v \<Longrightarrow> smap_set (key v) u (entries key (pre @ (a, v, L) # post)) = entries key (pre @ (b, u, L') # post)"
    using assms(1) by (simp add: smap_set_present)
qed

lemma entries_absent:
  assumes "\<forall>(b, w, lw) \<in> set pre. key w < k" "\<forall>(b, w, lw) \<in> set post. k < key w"
  shows "smap_find (entries key (pre @ post)) k = None" "smap_erase k (entries key (pre @ post)) = entries key (pre @ post)"
    "key u = k \<Longrightarrow> smap_set k u (entries key (pre @ post)) = entries key (pre @ (b, u, L) # post)"
proof -
  show n: "smap_find (entries key (pre @ post)) k = None"
    using smap_find_outside(1) [of "entries key pre" k] smap_find_outside(2) [of "entries key post" k] assms
    by (simp add: smap_find_append)
  then show "smap_erase k (entries key (pre @ post)) = entries key (pre @ post)" by (rule smap_erase_absent)
  show "key u = k \<Longrightarrow> smap_set k u (entries key (pre @ post)) = entries key (pre @ (b, u, L) # post)"
    using assms by (simp add: smap_set_between)
qed

lemma walk_search:
  assumes o: "finds f key k" and r: "repr sl xs" and i: "smap_inv (entries key xs)"
  shows "case smap_find (entries key xs) k of
      None \<Rightarrow> \<exists>c u. walk_from_header (op_insert f) sl = Inr (Inr (c, u))
    | Some v \<Rightarrow> \<exists>a. walk_from_header (op_insert f) sl = Inr (Inl a) \<and> get_value sl a = Inr v"
proof -
  let ?w = "walk_from_header (op_insert f) sl"
  note sign = finds_sign [OF o]
  from i show ?thesis
  proof (cases rule: place_of_key [of key xs k])
    case (found pre a v L post)
    have f: "smap_find (entries key xs) k = Some v" using entries_present(1) [of pre key v post a L] found by simp
    have "walked (\<lambda>v. f v = 0) (sl_level sl) (chain sl pre) ((a, v, L) # post) ?w"
      unfolding op_insert_gen by (rule walk_outcome_header) (use r found in \<open>auto simp: sign\<close>)
    then have "?w = Inr (Inl a)" using found(2) by (simp add: walked_def sign)
    moreover have "get_value sl a = Inr v" using repr_value [OF r, of a v L] found(1) by simp
    ultimately show ?thesis by (simp add: f)
  next
    case (absent pre post)
    have f: "smap_find (entries key xs) k = None" unfolding absent(1) by (rule entries_absent(1) [OF absent(2,3)])
    have tail: "\<forall>(b, w, lw) \<in> set (tl post). k < key w" using absent(3) by (cases post) auto
    have "walked (\<lambda>v. f v = 0) (sl_level sl) (chain sl pre) post ?w"
      unfolding op_insert_gen by (rule walk_outcome_header) (use r absent tail in \<open>auto simp: sign\<close>)
    moreover have "\<not> (\<exists>a v lv q. post = (a, v, lv) # q \<and> f v = 0)" using absent(3) by (auto simp: sign)
    ultimately obtain c u where "?w = Inr (Inr (c, u))" by (rule walked_through)
    then show ?thesis by (simp add: f)
  qed
qed

text \<open>The compare function orders the values as their keys are ordered.\<close>

definition compares :: "('v \<Rightarrow> 'v \<Rightarrow> int) \<Rightarrow> ('v \<Rightarrow> 'k::linorder) \<Rightarrow> bool" where
  "compares cmp key \<longleftrightarrow> (\<forall>v. finds (\<lambda>w. cmp w v) key (key v))"

lemma comparesD: "compares cmp key \<Longrightarrow> finds (\<lambda>w. cmp w v) key (key v)"
  by (simp add: compares_def)

lemmas compares_sign = finds_sign [OF comparesD]

definition removed :: "('k::linorder, 'v) smap \<Rightarrow> 'k \<Rightarrow> 'v list" where
  "removed m k = (case smap_find m k of None \<Rightarrow> [] | Some w \<Rightarrow> [w])"

lemma skiplist_delete_outcome:
  assumes c: "compares cmp key" and h: "skip_holds key sl m" and len: "sl_length sl < 2 ^ 64"
  shows "\<exists>sl'. skiplist_delete cmp v sl = Inr (smap_find m (key v) \<noteq> None, sl') \<and> skip_holds key sl' (smap_erase (key v) m)
    \<and> sl_destroyed sl' = sl_destroyed sl @ removed m (key v)"
proof -
  obtain xs where xs: "repr sl xs" "m = entries key xs" "smap_inv (entries key xs)" using h by (auto simp: skip_holds_def)
  note inv = smap_inv_erase [OF xs(3), of "key v"]
  from xs(3) show ?thesis
  proof (cases rule: place_of_key [of key xs "key v"])
    case (found pre a w L post)
    note e = entries_present(1,2) [of pre key w post a L, unfolded found(2), OF found(3,4)]
    obtain sl' where "skiplist_delete cmp v sl = Inr (True, sl')" "repr sl' (pre @ post)" "sl_destroyed sl' = sl_destroyed sl @ [w]"
      using delete_found [OF xs(1) [unfolded found(1)] len, of cmp v] found(2-4) by (auto simp: compares_sign [OF c])
    moreover from this(2) have "skip_holds key sl' (smap_erase (key v) m)"
      using inv e(2) unfolding xs(2) skip_holds_def found(1) by metis
    ultimately show ?thesis using e(1) by (simp add: xs(2) found(1) removed_def)
  next
    case (absent pre post)
    note e = entries_absent [OF absent(2,3), folded absent(1)]
    have "skiplist_delete cmp v sl = Inr (False, sl)"
      by (rule delete_absent [OF xs(1) [unfolded absent(1)]]) (use absent(2,3) in \<open>auto simp: compares_sign [OF c]\<close>)
    then show ?thesis using e(1,2) h by (simp add: xs(2) removed_def)
  qed
qed

text \<open>The random numbers that make a node of a level.\<close>

definition draws :: "int list \<Rightarrow> nat \<Rightarrow> bool" where
  "draws rs L \<longleftrightarrow> L \<le> SKIPLIST_LEVEL_MAX \<and> (\<exists>rs'. skiplist_level_generate rs = Inr (int L, rs'))"

lemma insert_absent:
  assumes c: "compares cmp key" and h: "skip_holds key sl m" and len: "sl_length sl + 1 < 2 ^ 64" and d: "draws rs L"
    and n: "smap_find m (key v) = None"
  shows "\<exists>sl'. insert_again (Suc n) cmp rs v sl = Inr (True, sl') \<and> skip_holds key sl' (smap_set (key v) v m) \<and> sl_destroyed sl' = sl_destroyed sl"
proof -
  obtain xs where xs: "repr sl xs" "m = entries key xs" "smap_inv (entries key xs)" using h by (auto simp: skip_holds_def)
  obtain rs' where d: "L \<le> SKIPLIST_LEVEL_MAX" "skiplist_level_generate rs = Inr (int L, rs')" using d by (auto simp: draws_def)
  from xs(3) show ?thesis
  proof (cases rule: place_of_key [of key xs "key v"])
    case (found pre a w L post)
    then show ?thesis using n entries_present(1) [of pre key w post a L] by (simp add: xs(2))
  next
    case (absent pre post)
    have "\<exists>sl'. insert_again (Suc n) cmp rs v sl = Inr (True, sl') \<and> repr sl' (pre @ (sl_fresh sl, v, L) # post) \<and> sl_destroyed sl' = sl_destroyed sl"
      by (rule insert_new [OF xs(1) [unfolded absent(1)] len _ _ d(2,1)]) (use absent(2,3) in \<open>auto simp: compares_sign [OF c]\<close>)
    then obtain sl' where sl': "insert_again (Suc n) cmp rs v sl = Inr (True, sl')" "repr sl' (pre @ (sl_fresh sl, v, L) # post)"
      "sl_destroyed sl' = sl_destroyed sl" by blast
    have "skip_holds key sl' (smap_set (key v) v m)"
      using sl'(2) smap_inv_set [OF xs(3), of "key v" v] entries_absent(3) [OF absent(2,3) refl]
      unfolding xs(2) skip_holds_def absent(1) by metis
    then show ?thesis using sl' by blast
  qed
qed

lemma skiplist_insert_outcome:
  assumes c: "compares cmp key" and h: "skip_holds key sl m" and len: "sl_length sl + 1 < 2 ^ 64" and d: "draws rs L"
  shows "\<exists>sl'. skiplist_insert cmp rs v sl = Inr (True, sl') \<and> skip_holds key sl' (smap_set (key v) v m)
    \<and> sl_destroyed sl' = sl_destroyed sl @ removed m (key v)"
proof (cases "smap_find m (key v)")
  case None
  have two: "(2::nat) = Suc 1" by simp
  show ?thesis using insert_absent [OF c h len d None, of 1] None unfolding skiplist_insert_def two by (simp add: removed_def del: insert_again.simps)
next
  case (Some w)
  obtain xs where xs: "repr sl xs" "m = entries key xs" "smap_inv (entries key xs)" using h by (auto simp: skip_holds_def)
  have w: "key w = key v" using smap_find_Some_in [of m "key v" w] Some unfolding xs(2) by (auto simp: entries_def)
  obtain a where a: "walk_from_header (op_insert (\<lambda>u. cmp u v)) sl = Inr (Inl a)" "get_value sl a = Inr w"
    using walk_search [OF comparesD [OF c] xs(1,3), of v] Some xs(2) by auto
  obtain sl1 where sl1: "skiplist_delete cmp w sl = Inr (True, sl1)" "skip_holds key sl1 (smap_erase (key v) m)"
    "sl_destroyed sl1 = sl_destroyed sl @ [w]"
    using skiplist_delete_outcome [OF c h, of w] len Some w by (auto simp: removed_def)
  have two: "(2::nat) = Suc (Suc 0)" by simp
  have "skiplist_insert cmp rs v sl = insert_again (Suc 0) cmp rs v sl1"
    unfolding skiplist_insert_def two using a sl1(1) by (subst insert_again.simps(2)) (simp del: insert_again.simps)
  moreover have len1: "sl_length sl1 + 1 < 2 ^ 64"
    using skip_holds_length [OF sl1(2)] skip_holds_length [OF h] len by (simp add: length_smap_erase split: if_splits)
  moreover from insert_absent [OF c sl1(2) len1 d, of v 0] have "\<exists>sl'. insert_again (Suc 0) cmp rs v sl1 = Inr (True, sl')
      \<and> skip_holds key sl' (smap_set (key v) v (smap_erase (key v) m)) \<and> sl_destroyed sl' = sl_destroyed sl1"
    using xs(2,3) by (simp add: smap_find_erase del: insert_again.simps)
  ultimately show ?thesis using sl1(3) Some xs(2,3) by (auto simp: smap_set_erase removed_def)
qed

lemma draws_small:
  assumes "\<forall>x \<in> set small. x mod 65536 < 65535 div 4" "\<not> r mod 65536 < 65535 div 4" "length small < 128"
  shows "draws (small @ r # rs) (min (length small) SKIPLIST_LEVEL_MAX)"
  using level_generated [OF assms, of rs] by (simp add: draws_def)

lemma search_outcome:
  assumes f: "finds (\<lambda>w. search_fn w s) key k" and h: "skip_holds key sl m"
  shows "skiplist_search search_fn s sl = Inr (smap_find m k)"
proof -
  obtain xs where xs: "repr sl xs" "m = entries key xs" "smap_inv (entries key xs)" using h by (auto simp: skip_holds_def)
  show ?thesis using walk_search [OF f xs(1,3)] by (auto simp: skiplist_search_def op_finding xs(2) split: option.splits)
qed

lemma contains_outcome:
  assumes c: "compares cmp key" and h: "skip_holds key sl m"
  shows "skiplist_contains cmp v sl = Inr (smap_find m (key v) \<noteq> None)"
proof -
  obtain xs where xs: "repr sl xs" "m = entries key xs" "smap_inv (entries key xs)" using h by (auto simp: skip_holds_def)
  show ?thesis using walk_search [OF comparesD [OF c] xs(1,3), of v] by (auto simp: skiplist_contains_def op_finding xs(2) split: option.splits)
qed

section \<open>Iteration and destruction\<close>

abbreviation values_of :: "'v entry list \<Rightarrow> 'v list" where
  "values_of \<equiv> map (\<lambda>(a, v, lv). v)"

lemma iter_all_outcome:
  "repr sl xs \<Longrightarrow> chain sl xs = p @ (a, w, lv) # held q \<Longrightarrow> set q \<subseteq> set xs \<Longrightarrow>
    iter_all (Suc (length q)) sl (Some a) = Inr (values_of q)"
proof (induction q arbitrary: p a w lv)
  case Nil
  have "get_forward sl a 0 = Inr None" using store_node(2) [of sl xs p a w lv "[]" 0] Nil by (simp add: repr_def)
  then show ?case by (simp add: skiplist_iter_next_def skiplist_node_next_def)
next
  case (Cons e q)
  obtain b v l where e: "e = (b, v, l)" by (cases e)
  have "get_forward sl a 0 = Inr (Some b)"
    using store_node(2) [of sl xs p a w lv "held (e # q)" 0] Cons.prems by (simp add: repr_def e)
  moreover have "get_value sl b = Inr v" using repr_value [OF Cons.prems(1), of b v l] Cons.prems(3) e by simp
  moreover have "iter_all (Suc (length q)) sl (Some b) = Inr (values_of q)"
    by (rule Cons.IH [of "p @ [(a, w, lv)]" b "Some v" l]) (use Cons.prems e in auto)
  ultimately show ?case by (simp add: skiplist_iter_next_def skiplist_node_next_def e iter_all.simps(2) [of "Suc (length q)"] del: iter_all.simps)
qed

lemma iteration_outcome:
  assumes "skip_holds key sl m"
  shows "iter_all (length m + 1) sl (skiplist_iter_init sl) = Inr (map snd m)"
proof -
  obtain xs where xs: "repr sl xs" "m = entries key xs" using assms by (auto simp: skip_holds_def)
  show ?thesis using iter_all_outcome [OF xs(1), of "[]" "sl_header sl" None SKIPLIST_LEVEL_MAX xs] xs(2)
    by (simp add: chain_def skiplist_iter_init_def skiplist_iter_reset_def del: iter_all.simps)
qed

lemma destroy_from_outcome:
  "sl_nodes sl = map_of ((a, w, lv) # held q) \<Longrightarrow> distinct (a # map fst q) \<Longrightarrow> sl_header sl \<notin> fst ` set q \<Longrightarrow>
    linked (sl_forward sl) ((a, w, lv) # held q) \<Longrightarrow>
    destroy_from (Suc (length q)) a sl = Inr (sl\<lparr>sl_nodes := Map.empty, sl_destroyed :=
      sl_destroyed sl @ (if a = sl_header sl then [] else case w of None \<Rightarrow> [] | Some v \<Rightarrow> [v]) @ values_of q\<rparr>)"
proof (induction q arbitrary: sl a w lv)
  case Nil
  have "sl_forward sl a 0 = None" using linkedD [OF Nil(4), of "[]" a w lv "[]" 0] by simp
  moreover have "(sl_nodes sl)(a := None) = Map.empty" using Nil(1) by (simp add: fun_eq_iff)
  ultimately show ?case using Nil(1) by (auto simp: skiplist_node_next_def get_forward_def skiplist_node_destroy_def)
next
  case (Cons e q)
  obtain b v l where e: "e = (b, v, l)" by (cases e)
  have "sl_forward sl a 0 = Some b" using linkedD [OF Cons.prems(4), of "[]" a w lv "held (e # q)" 0] by (simp add: e)
  then have fwd: "skiplist_node_next sl a = Inr (Some b)" using Cons.prems(1) by (simp add: skiplist_node_next_def get_forward_def)
  let ?d = "sl_destroyed sl @ (if a = sl_header sl then [] else case w of None \<Rightarrow> [] | Some v \<Rightarrow> [v])"
  let ?sl1 = "sl\<lparr>sl_nodes := (sl_nodes sl)(a := None), sl_destroyed := ?d\<rparr>"
  have "skiplist_node_destroy a sl = Inr ?sl1" using Cons.prems(1) by (simp add: skiplist_node_destroy_def)
  moreover have "destroy_from (Suc (length q)) b ?sl1 = Inr (?sl1\<lparr>sl_nodes := Map.empty, sl_destroyed :=
      sl_destroyed ?sl1 @ (if b = sl_header ?sl1 then [] else case Some v of None \<Rightarrow> [] | Some v \<Rightarrow> [v]) @ values_of q\<rparr>)"
  proof (rule Cons.IH)
    have "a \<notin> fst ` set (held (e # q))" using Cons.prems(2) by simp
    then have "map_of (held (e # q)) a = None" by (simp only: map_of_eq_None_iff not_False_eq_True)
    then show "sl_nodes ?sl1 = map_of ((b, Some v, l) # held q)" using Cons.prems(1) by (auto simp: fun_eq_iff e)
    show "linked (sl_forward ?sl1) ((b, Some v, l) # held q)"
      using Cons.prems(4) unfolding linked_def by (force simp: e intro: append_Cons [symmetric])
  qed (use Cons.prems(2,3) e in auto)
  ultimately show ?case using fwd Cons.prems(3) e by (auto simp del: destroy_from.simps simp: destroy_from.simps(2) [of "Suc (length q)"])
qed

lemma destroy_outcome:
  assumes "skip_holds key sl m"
  shows "skiplist_destroy sl = Inr (sl\<lparr>sl_nodes := Map.empty, sl_destroyed := sl_destroyed sl @ map snd m\<rparr>)"
proof -
  obtain xs where xs: "repr sl xs" "m = entries key xs" using assms by (auto simp: skip_holds_def)
  have st: "sl_nodes sl = map_of (chain sl xs)" "distinct (map fst (chain sl xs))" "linked (sl_forward sl) (chain sl xs)"
    "sl_length sl = int (length xs)" using xs(1) by (auto simp: repr_def store_ok_def)
  show ?thesis
    using destroy_from_outcome [of sl "sl_header sl" None SKIPLIST_LEVEL_MAX xs] st xs(2)
    by (simp add: skiplist_destroy_def chain_def del: destroy_from.simps)
qed

lemma skip_holds_init: "skip_holds key skiplist_init []"
proof -
  have "repr skiplist_init []"
    by (auto simp: repr_def store_ok_def skiplist_init_def chain_def linked_def Cons_eq_append_conv)
  then show ?thesis by (auto simp: skip_holds_def intro!: exI [of _ "[]"])
qed

section \<open>Properties\<close>

text \<open>C37: the skip list refines the ordered map of its values by their keys. Whatever the pointers of its levels
  are, length, contains and search answer what the map holds, iteration yields the values in the order of
  the keys, insert replaces and delete removes the value of a key, and both hand the value that they replace or
  remove to destroy_fn; no operation touches a freed node or a pointer that is not there.\<close>

theorem skiplist_refines:
  assumes "compares cmp key" "finds (\<lambda>w. search_fn w s) key k" "skip_holds key sl m" "sl_length sl + 1 < 2 ^ 64" "draws rs L"
  shows "sl_length sl = int (length m)
    \<and> skiplist_contains cmp v sl = Inr (smap_find m (key v) \<noteq> None)
    \<and> skiplist_search search_fn s sl = Inr (smap_find m k)
    \<and> iter_all (length m + 1) sl (skiplist_iter_init sl) = Inr (map snd m)
    \<and> (\<exists>sl'. skiplist_insert cmp rs v sl = Inr (True, sl') \<and> skip_holds key sl' (smap_set (key v) v m)
        \<and> sl_destroyed sl' = sl_destroyed sl @ removed m (key v))
    \<and> (\<exists>sl'. skiplist_delete cmp v sl = Inr (smap_find m (key v) \<noteq> None, sl') \<and> skip_holds key sl' (smap_erase (key v) m)
        \<and> sl_destroyed sl' = sl_destroyed sl @ removed m (key v))"
  using skip_holds_length [OF assms(3)] contains_outcome [OF assms(1,3)] search_outcome [of search_fn s, OF assms(2,3)] iteration_outcome [OF assms(3)]
    skiplist_insert_outcome [OF assms(1,3,4,5)] skiplist_delete_outcome [OF assms(1,3)] assms(4) by simp

lemma compares_minus: "compares (\<lambda>v w. v - w) (\<lambda>v :: int. v)"
  by (auto simp: compares_def finds_def)

lemma draws_one: "draws [5, 20000] 1"
  using draws_small [of "[5]" 20000 "[]"] by (simp add: SKIPLIST_LEVEL_MAX_def)

lemma skiplist_refines_witness:
  "\<exists>sl'. skiplist_insert (\<lambda>v w. v - w) [5, 20000] (7 :: int) skiplist_init = Inr (True, sl') \<and> skip_holds (\<lambda>v. v) sl' [(7, 7)]"
proof -
  have "finds (\<lambda>w. w - 3) (\<lambda>v. v) (3 :: int)" "sl_length (skiplist_init :: int skiplist) + 1 < 2 ^ 64"
    by (auto simp: finds_def skiplist_init_def)
  from skiplist_refines [of _ _ "(-)" 3, OF compares_minus this(1) skip_holds_init this(2) draws_one, of 7] show ?thesis by auto
qed

text \<open>A list from its initialisation on, with the values that were inserted.\<close>

inductive skip_run :: "('v \<Rightarrow> 'v \<Rightarrow> int) \<Rightarrow> 'v skiplist \<Rightarrow> 'v list \<Rightarrow> bool" for cmp where
  skip_init: "skip_run cmp skiplist_init []"
| skip_insert: "skip_run cmp sl ins \<Longrightarrow> draws rs L \<Longrightarrow> skiplist_insert cmp rs v sl = Inr (True, sl') \<Longrightarrow> skip_run cmp sl' (ins @ [v])"
| skip_delete: "skip_run cmp sl ins \<Longrightarrow> skiplist_delete cmp v sl = Inr (b, sl') \<Longrightarrow> skip_run cmp sl' ins"

lemma mset_removed: "smap_inv m \<Longrightarrow> mset (map snd (smap_erase k m)) + mset (removed m k) = mset (map snd m)"
proof (induction k m rule: smap_erase.induct)
  case (2 k k' v' m)
  have "k = k' \<Longrightarrow> smap_find m k = None" using 2(2) by (auto simp: smap_find_None_iff)
  then show ?case using 2 by (auto simp: removed_def split: option.splits)
qed (simp add: removed_def)

lemma mset_replaced: "smap_inv m \<Longrightarrow> mset (map snd (smap_set k v m)) + mset (removed m k) = add_mset v (mset (map snd m))"
proof (induction k v m rule: smap_set.induct)
  case (2 k v k' v' m)
  have "k \<le> k' \<Longrightarrow> smap_find m k = None" using 2(2) by (auto simp: smap_find_None_iff)
  then show ?case using 2 by (auto simp: removed_def split: option.splits)
qed (simp add: removed_def)

lemma skip_run_holds:
  assumes c: "compares cmp key"
  shows "skip_run cmp sl ins \<Longrightarrow> length ins < 2 ^ 64 \<Longrightarrow> \<exists>m. skip_holds key sl m \<and> smap_inv m \<and> length m \<le> length ins
    \<and> mset (sl_destroyed sl) + mset (map snd m) = mset ins"
proof (induction rule: skip_run.induct)
  case skip_init
  show ?case using skip_holds_init by (intro exI [of _ "[]"]) (simp add: skiplist_init_def)
next
  case (skip_insert sl ins rs L v sl')
  then obtain m where m: "skip_holds key sl m" "smap_inv m" "length m \<le> length ins" "mset (sl_destroyed sl) + mset (map snd m) = mset ins"
    by auto
  have len: "sl_length sl + 1 < 2 ^ 64" using skip_holds_length [OF m(1)] m(3) skip_insert.prems by simp
  have h: "skip_holds key sl' (smap_set (key v) v m)" "sl_destroyed sl' = sl_destroyed sl @ removed m (key v)"
    using skiplist_insert_outcome [OF c m(1) len skip_insert.hyps(2), of v] skip_insert.hyps(3) by auto
  have ms: "mset (map snd (smap_set (key v) v m)) + mset (removed m (key v)) = add_mset v (mset (map snd m))"
    by (rule mset_replaced [OF m(2)])
  then have "size (mset (map snd (smap_set (key v) v m)) + mset (removed m (key v))) = Suc (length m)" by simp
  then have "length (smap_set (key v) v m) \<le> length (ins @ [v])" using m(3) by simp
  moreover have "mset (sl_destroyed sl') + mset (map snd (smap_set (key v) v m)) = mset (ins @ [v])"
    using h(2) ms m(4) by (simp add: ac_simps)
  ultimately show ?case using h(1) smap_inv_set [OF m(2)] by blast
next
  case (skip_delete sl ins v b sl')
  then obtain m where m: "skip_holds key sl m" "smap_inv m" "length m \<le> length ins" "mset (sl_destroyed sl) + mset (map snd m) = mset ins"
    by auto
  have len: "sl_length sl < 2 ^ 64" using skip_holds_length [OF m(1)] m(3) skip_delete.prems by simp
  have h: "skip_holds key sl' (smap_erase (key v) m)" "sl_destroyed sl' = sl_destroyed sl @ removed m (key v)"
    using skiplist_delete_outcome [OF c m(1) len, of v] skip_delete.hyps(2) by auto
  have ms: "mset (map snd (smap_erase (key v) m)) + mset (removed m (key v)) = mset (map snd m)" by (rule mset_removed [OF m(2)])
  then have "size (mset (map snd (smap_erase (key v) m)) + mset (removed m (key v))) = length m" by simp
  then have "length (smap_erase (key v) m) \<le> length ins" using m(3) by simp
  moreover have "mset (sl_destroyed sl') + mset (map snd (smap_erase (key v) m)) = mset ins"
    using h(2) ms m(4) by (simp add: ac_simps)
  ultimately show ?case using h(1) smap_inv_erase [OF m(2)] by blast
qed


lemma skip_run_example: "\<exists>sl. skip_run (\<lambda>v w. v - w) sl [7 :: int, 7, 8]"
proof -
  have step: "\<exists>sl'. skip_run (\<lambda>v w. v - w) sl' (ins @ [v])" if s: "skip_run (\<lambda>v w. v - w) sl ins" and l: "length ins < 5" for sl ins and v :: int
  proof -
    obtain m where m: "skip_holds (\<lambda>v. v) sl m" "length m \<le> length ins" using skip_run_holds [OF compares_minus s] l by auto
    then have "sl_length sl + 1 < 2 ^ 64" using skip_holds_length [OF m(1)] l by simp
    from skiplist_insert_outcome [OF compares_minus m(1) this draws_one, of v] show ?thesis
      using skip_insert [OF s draws_one] by blast
  qed
  obtain sl1 where "skip_run (\<lambda>v w. v - w) sl1 [7 :: int]" using step [OF skip_init, of 7] by auto
  from step [OF this, of 7] obtain sl2 where "skip_run (\<lambda>v w. v - w) sl2 [7 :: int, 7]" by auto
  from step [OF this, of 8] show ?thesis by auto
qed


end
