(* ===== verification/Mysql.thy ===== *)
theory Mysql
  imports StringCodec
begin

text \<open>
  The MySQL accessor, src/data/mysql_accessor.cc: the pool of connections, the queries with the result
  sets they own, and the conversions of values. What the MySQL client library answers is an argument,
  the record mysql_lib of a call; the result sets that it has allocated and not freed are a part of the
  state, and freeing or reading another one is a fault.
\<close>

section \<open>The client library\<close>

text \<open>
  mysql_init and mysql_real_connect succeed or not; mysql_query returns 0 for success;
  mysql_store_result returns the address of a result set, 0 for none; then the numbers of rows and
  fields and the next row of a result set.
\<close>

record mysql_lib =
  lib_init :: bool
  lib_connect :: bool
  lib_query :: "nat \<Rightarrow> string \<Rightarrow> int"
  lib_store :: "nat \<Rightarrow> int"
  lib_insert_id :: "nat \<Rightarrow> int"
  lib_ping :: "nat \<Rightarrow> int"
  lib_num_rows :: "int \<Rightarrow> int"
  lib_num_fields :: "int \<Rightarrow> int"
  lib_fetch_row :: "int \<Rightarrow> string option list option"

section \<open>The pool of connections\<close>

text \<open>
  MysqlConnection: open_mysql_ is a linked list of connections with the number of their users, the latest
  first; a connection is known by a number. live_results belongs to the library.
\<close>

record mysql_connection =
  host :: "string option"
  user :: "string option"
  password :: "string option"
  database :: "string option"
  port :: int
  open_mysql :: "(nat \<times> int) list"
  next_mysql :: nat
  next_result :: nat
  live_results :: "int list"

definition MysqlConnection :: "int \<Rightarrow> mysql_connection" where
  "MysqlConnection port0 = \<lparr>host = None, user = None, password = None, database = None, port = port0,
     open_mysql = [], next_mysql = 0, next_result = 0, live_results = []\<rparr>"

fun idle_mysql :: "(nat \<times> int) list \<Rightarrow> nat option" where
  "idle_mysql [] = None"
| "idle_mysql ((h, busy) # xs) = (if busy = 0 then Some h else idle_mysql xs)"

definition set_busy :: "nat \<Rightarrow> (int \<Rightarrow> int) \<Rightarrow> (nat \<times> int) list \<Rightarrow> (nat \<times> int) list" where
  "set_busy h f = map (\<lambda>(h', b). (h', if h' = h then f b else b))"

text \<open>busy is a short.\<close>

definition short_of :: "int \<Rightarrow> int" where
  "short_of z = (z + 2 ^ 15) mod 2 ^ 16 - 2 ^ 15"

definition GrabDB :: "mysql_lib \<Rightarrow> mysql_connection \<Rightarrow> nat option \<times> mysql_connection" where
  "GrabDB lib c =
     (case idle_mysql (open_mysql c) of
        Some h \<Rightarrow> (Some h, c\<lparr>open_mysql := set_busy h (\<lambda>b. short_of (b + 1)) (open_mysql c)\<rparr>)
      | None \<Rightarrow>
          if \<not> lib_init lib then (None, c)
          else if \<not> lib_connect lib then (None, c)
          else (Some (next_mysql c), c\<lparr>open_mysql := (next_mysql c, 1) # open_mysql c, next_mysql := next_mysql c + 1\<rparr>))"

definition FreeDB :: "nat option \<Rightarrow> mysql_connection \<Rightarrow> bool \<times> mysql_connection" where
  "FreeDB h c = (case h of None \<Rightarrow> (False, c) | Some h \<Rightarrow> (True, c\<lparr>open_mysql := set_busy h (\<lambda>_. 0) (open_mysql c)\<rparr>))"

text \<open>Connect: the strings are those of the first call; strlen of a null pointer is a fault.\<close>

definition keep_first :: "string option \<Rightarrow> string option \<Rightarrow> string option result" where
  "keep_first old new = (case old of Some s \<Rightarrow> Inr (Some s) | None \<Rightarrow> (case new of None \<Rightarrow> Inl NullDeref | Some s \<Rightarrow> Inr (Some s)))"

definition Connect :: "mysql_lib \<Rightarrow> string option \<Rightarrow> string option \<Rightarrow> string option \<Rightarrow> string option \<Rightarrow> int \<Rightarrow>
    mysql_connection \<Rightarrow> (bool \<times> mysql_connection) result" where
  "Connect lib database1 host1 user1 password1 port1 c =
     rbind (keep_first (host c) host1) (\<lambda>h. rbind (keep_first (user c) user1) (\<lambda>u.
     rbind (keep_first (password c) password1) (\<lambda>p. rbind (keep_first (database c) database1) (\<lambda>d.
       let c1 = c\<lparr>host := h, user := u, password := p, database := d, port := port1\<rparr>;
           (g, c2) = GrabDB lib c1
       in Inr (FreeDB g c2)))))"

definition MysqlConnection_connect :: "mysql_lib \<Rightarrow> string option \<Rightarrow> string option \<Rightarrow> string option \<Rightarrow> string option \<Rightarrow> int \<Rightarrow>
    mysql_connection result" where
  "MysqlConnection_connect lib database1 host1 user1 password1 port1 =
     rbind (Connect lib database1 host1 user1 password1 port1 (MysqlConnection port1)) (\<lambda>(ok, c). Inr c)"

text \<open>
  The first loop of the destructor, with the connections that mysql_close was called for: the pointer goes
  to the second connection of the list at every turn. The second loop starts at the null pointer that ends
  the first.
\<close>

definition second_mysql :: "mysql_connection \<Rightarrow> nat option" where
  "second_mysql c = (case open_mysql c of _ # (h, b) # _ \<Rightarrow> Some h | _ \<Rightarrow> None)"

fun close_loop :: "nat \<Rightarrow> nat option \<Rightarrow> mysql_connection \<Rightarrow> nat list \<Rightarrow> nat list \<times> bool" where
  "close_loop n None c closed = (closed, True)"
| "close_loop 0 (Some h) c closed = (closed, False)"
| "close_loop (Suc n) (Some h) c closed = close_loop n (second_mysql c) c (closed @ [h])"

definition destroy_connection :: "nat \<Rightarrow> mysql_connection \<Rightarrow> nat list \<times> bool" where
  "destroy_connection n c = close_loop n (case open_mysql c of [] \<Rightarrow> None | (h, b) # _ \<Rightarrow> Some h) c []"

section \<open>Queries\<close>

text \<open>
  MysqlQuery. A MysqlResult object is a number with the result set it owns; results_ holds those that Store
  made. q_connection tells whether connection_ is not null.
\<close>

record mysql_query =
  q_connection :: bool
  q_open :: "nat option"
  q_res :: "int option"
  q_results :: "(nat \<times> int) list"

definition mysql_free_result :: "int \<Rightarrow> mysql_connection \<Rightarrow> mysql_connection result" where
  "mysql_free_result r c = (if r \<in> set (live_results c) then Inr (c\<lparr>live_results := remove1 r (live_results c)\<rparr>) else Inl UseAfterFree)"

definition MysqlQuery_null :: mysql_query where
  "MysqlQuery_null = \<lparr>q_connection = False, q_open = None, q_res = None, q_results = []\<rparr>"

definition MysqlQuery :: "mysql_lib \<Rightarrow> mysql_connection \<Rightarrow> mysql_query \<times> mysql_connection" where
  "MysqlQuery lib c = (case GrabDB lib c of (h, c1) \<Rightarrow> (\<lparr>q_connection = True, q_open = h, q_res = None, q_results = []\<rparr>, c1))"

definition TryExecute :: "mysql_lib \<Rightarrow> string \<Rightarrow> mysql_query \<Rightarrow> int" where
  "TryExecute lib sql q =
     (case q_open q of
        Some h \<Rightarrow> if q_connection q \<and> q_res q = None then (if lib_query lib h sql = 0 then 1 else 0) else 0
      | None \<Rightarrow> 0)"

definition MysqlQuery_sql :: "mysql_lib \<Rightarrow> string \<Rightarrow> mysql_connection \<Rightarrow> int \<times> mysql_query \<times> mysql_connection" where
  "MysqlQuery_sql lib sql c = (case MysqlQuery lib c of (q, c1) \<Rightarrow> (TryExecute lib sql q, q, c1))"

text \<open>The pointer res_ is returned as an int.\<close>

definition Execute :: "mysql_lib \<Rightarrow> string \<Rightarrow> mysql_query \<Rightarrow> mysql_connection \<Rightarrow> int \<times> mysql_query \<times> mysql_connection" where
  "Execute lib sql q c =
     (let (q1, c1) =
            (case q_open q of
               Some h \<Rightarrow>
                 if q_connection q \<and> q_res q = None \<and> TryExecute lib sql q \<noteq> 0
                 then (let r = lib_store lib h in
                         if r = 0 then (q, c) else (q\<lparr>q_res := Some r\<rparr>, c\<lparr>live_results := live_results c @ [r]\<rparr>))
                 else (q, c)
             | None \<Rightarrow> (q, c))
      in (case q_res q1 of None \<Rightarrow> 0 | Some r \<Rightarrow> wrap32 r, q1, c1))"

definition Store :: "mysql_query \<Rightarrow> mysql_connection \<Rightarrow> nat option \<times> mysql_query \<times> mysql_connection" where
  "Store q c =
     (case q_res q of
        None \<Rightarrow> (None, q, c)
      | Some r \<Rightarrow> (Some (next_result c), q\<lparr>q_results := q_results q @ [(next_result c, r)], q_res := None\<rparr>,
                   c\<lparr>next_result := next_result c + 1\<rparr>))"

text \<open>FreeResult of a MysqlResult deletes the first element that is it, FreeResult without argument the pending result.\<close>

fun take_result :: "nat \<Rightarrow> (nat \<times> int) list \<Rightarrow> (int \<times> (nat \<times> int) list) option" where
  "take_result m [] = None"
| "take_result m ((m', r) # xs) =
     (if m' = m then Some (r, xs) else map_option (\<lambda>(r', xs'). (r', (m', r) # xs')) (take_result m xs))"

definition FreeResult :: "nat \<Rightarrow> mysql_query \<Rightarrow> mysql_connection \<Rightarrow> (mysql_query \<times> mysql_connection) result" where
  "FreeResult m q c =
     (case take_result m (q_results q) of
        None \<Rightarrow> Inr (q, c)
      | Some (r, rest) \<Rightarrow> rbind (mysql_free_result r c) (\<lambda>c1. Inr (q\<lparr>q_results := rest\<rparr>, c1)))"

definition FreeResult_pending :: "mysql_query \<Rightarrow> mysql_connection \<Rightarrow> (mysql_query \<times> mysql_connection) result" where
  "FreeResult_pending q c =
     (case q_res q of
        Some r \<Rightarrow> if q_connection q \<and> q_open q \<noteq> None
                  then rbind (mysql_free_result r c) (\<lambda>c1. Inr (q\<lparr>q_res := None\<rparr>, c1)) else Inr (q, c)
      | None \<Rightarrow> Inr (q, c))"

fun free_results :: "(nat \<times> int) list \<Rightarrow> mysql_connection \<Rightarrow> mysql_connection result" where
  "free_results [] c = Inr c"
| "free_results ((m, r) # xs) c = rbind (mysql_free_result r c) (free_results xs)"

definition destroy_query :: "mysql_query \<Rightarrow> mysql_connection \<Rightarrow> mysql_connection result" where
  "destroy_query q c =
     rbind (free_results (q_results q) c) (\<lambda>c1.
     rbind (case q_res q of None \<Rightarrow> Inr c1 | Some r \<Rightarrow> mysql_free_result r c1) (\<lambda>c2.
       Inr (if q_open q \<noteq> None then snd (FreeDB (q_open q) c2) else c2)))"

definition InsertId :: "mysql_lib \<Rightarrow> mysql_query \<Rightarrow> int" where
  "InsertId lib q = (case q_open q of Some h \<Rightarrow> if q_connection q then wrap64 (lib_insert_id lib h) else - 1 | None \<Rightarrow> - 1)"

definition Ping :: "mysql_lib \<Rightarrow> mysql_query \<Rightarrow> int" where
  "Ping lib q = (case q_open q of Some h \<Rightarrow> lib_ping lib h | None \<Rightarrow> - 1)"

section \<open>Results, rows and values\<close>

text \<open>A MysqlResult of a query, by its number: RowsSize, FieldsSize and FetchRow; a deleted one is a fault.\<close>

definition result_of :: "nat \<Rightarrow> mysql_query \<Rightarrow> int result" where
  "result_of m q = (case map_of (q_results q) m of None \<Rightarrow> Inl UseAfterFree | Some r \<Rightarrow> Inr r)"

definition RowsSize :: "mysql_lib \<Rightarrow> nat \<Rightarrow> mysql_query \<Rightarrow> int result" where
  "RowsSize lib m q = rbind (result_of m q) (\<lambda>r. Inr (if r \<noteq> 0 then wrap64 (lib_num_rows lib r) else 0))"

definition FieldsSize :: "mysql_lib \<Rightarrow> nat \<Rightarrow> mysql_query \<Rightarrow> int result" where
  "FieldsSize lib m q = rbind (result_of m q) (\<lambda>r. Inr (if r \<noteq> 0 then lib_num_fields lib r else 0))"

record mysql_row =
  row :: "string option list option"
  allow_null :: bool

definition FetchRow :: "mysql_lib \<Rightarrow> nat \<Rightarrow> mysql_query \<Rightarrow> mysql_row result" where
  "FetchRow lib m q = rbind (result_of m q) (\<lambda>r. Inr \<lparr>row = lib_fetch_row lib r, allow_null = False\<rparr>)"

definition AllowNull :: "bool \<Rightarrow> mysql_row \<Rightarrow> mysql_row" where
  "AllowNull allow w = w\<lparr>allow_null := allow\<rparr>"

text \<open>MysqlVariable holds a string of its own or none. The conversions to and from double are left out.\<close>

type_synonym mysql_variable = "string option"

definition MysqlVariable_int :: "int \<Rightarrow> mysql_variable" where
  "MysqlVariable_int i = Some (if i < 0 then CHR ''-'' # decimal (nat (- i)) else decimal (nat i))"

definition MysqlVariable_uint32 :: "int \<Rightarrow> mysql_variable" where
  "MysqlVariable_uint32 i = Some (decimal (nat i))"

definition MysqlVariable_string :: "string option \<Rightarrow> mysql_variable result" where
  "MysqlVariable_string s = (case s of None \<Rightarrow> Inl NullDeref | Some x \<Rightarrow> Inr (Some x))"

definition variable_int :: "mysql_variable \<Rightarrow> int" where
  "variable_int v = (case v of None \<Rightarrow> 0 | Some s \<Rightarrow> atoi s)"

definition variable_uint32 :: "mysql_variable \<Rightarrow> int" where
  "variable_uint32 v = (case v of None \<Rightarrow> 0 | Some s \<Rightarrow> uwrap32 (fst (strtol 64 s)))"

definition variable_string :: "mysql_variable \<Rightarrow> string option" where
  "variable_string v = v"

text \<open>MysqlRow::operator []: a column that is NULL becomes the empty string, or is passed on.\<close>

definition row_at :: "mysql_row \<Rightarrow> int \<Rightarrow> mysql_variable result" where
  "row_at w i =
     (case row w of
        None \<Rightarrow> Inl NullDeref
      | Some cols \<Rightarrow>
          if i < 0 \<or> int (length cols) \<le> i then Inl OutOfBounds
          else MysqlVariable_string (if allow_null w then cols ! nat i
                 else (case cols ! nat i of None \<Rightarrow> Some [] | Some s \<Rightarrow> Some s)))"

end
