(* ===== verification/MysqlProps.thy ===== *)
theory MysqlProps
  imports Mysql "HOL-Library.Multiset"
begin

text \<open>
  Properties of the MySQL accessor: in every run of a client connections and result sets have one owner;
  the destructor of the pool; the outcome of Execute; the conversions of values.
\<close>

section \<open>A program of queries\<close>

text \<open>
  What a client does with the queries it has: they are in a list, an operation names one by its index. Every
  call of the library has answers of its own.
\<close>

datatype db_op = OpConnect mysql_lib string string string string int | OpNew mysql_lib | OpExecute nat mysql_lib string
  | OpStore nat | OpFree nat nat | OpFreePending nat | OpDestroy nat

type_synonym db = "mysql_connection \<times> mysql_query list"

fun db_exec :: "db_op \<Rightarrow> db \<Rightarrow> db result" where
  "db_exec (OpConnect lib d h u p n) (c, Q) = rbind (Connect lib (Some d) (Some h) (Some u) (Some p) n c) (\<lambda>(ok, c1). Inr (c1, Q))"
| "db_exec (OpNew lib) (c, Q) = (case MysqlQuery lib c of (q, c1) \<Rightarrow> Inr (c1, Q @ [q]))"
| "db_exec (OpExecute i lib sql) (c, Q) =
     (if i < length Q then case Execute lib sql (Q ! i) c of (v, q, c1) \<Rightarrow> Inr (c1, Q[i := q]) else Inr (c, Q))"
| "db_exec (OpStore i) (c, Q) =
     (if i < length Q then case Store (Q ! i) c of (m, q, c1) \<Rightarrow> Inr (c1, Q[i := q]) else Inr (c, Q))"
| "db_exec (OpFree i m) (c, Q) =
     (if i < length Q then rbind (FreeResult m (Q ! i) c) (\<lambda>(q, c1). Inr (c1, Q[i := q])) else Inr (c, Q))"
| "db_exec (OpFreePending i) (c, Q) =
     (if i < length Q then rbind (FreeResult_pending (Q ! i) c) (\<lambda>(q, c1). Inr (c1, Q[i := q])) else Inr (c, Q))"
| "db_exec (OpDestroy i) (c, Q) =
     (if i < length Q then rbind (destroy_query (Q ! i) c) (\<lambda>c1. Inr (c1, take i Q @ drop (Suc i) Q)) else Inr (c, Q))"

text \<open>mysql_store_result allocates: its address is not that of a result set that is still allocated.\<close>

fun allocates :: "db_op \<Rightarrow> db \<Rightarrow> bool" where
  "allocates (OpExecute i lib sql) (c, Q) \<longleftrightarrow> (\<forall>h. lib_store lib h \<notin> set (live_results c))"
| "allocates _ _ \<longleftrightarrow> True"

inductive db_run :: "int \<Rightarrow> db \<Rightarrow> bool" for port0 where
  db_init: "db_run port0 (MysqlConnection port0, [])"
| db_step: "db_run port0 s \<Longrightarrow> allocates opn s \<Longrightarrow> db_exec opn s = Inr s' \<Longrightarrow> db_run port0 s'"

section \<open>Ownership\<close>

definition uses :: "mysql_query \<Rightarrow> nat list" where
  "uses q = (case q_open q of None \<Rightarrow> [] | Some h \<Rightarrow> [h])"

definition owns :: "mysql_query \<Rightarrow> int list" where
  "owns q = (case q_res q of None \<Rightarrow> [] | Some r \<Rightarrow> [r]) @ map snd (q_results q)"

definition busy_ok :: "(nat \<times> int) list \<Rightarrow> nat list \<Rightarrow> bool" where
  "busy_ok xs hs \<longleftrightarrow> (\<forall>(h, b) \<in> set xs. b = (if h \<in> set hs then 1 else 0))"

definition pool_inv :: "mysql_connection \<Rightarrow> nat list \<Rightarrow> bool" where
  "pool_inv c hs \<longleftrightarrow> distinct (map fst (open_mysql c)) \<and> (\<forall>h \<in> fst ` set (open_mysql c). h < next_mysql c)
     \<and> distinct hs \<and> busy_ok (open_mysql c) hs \<and> set hs \<subseteq> fst ` set (open_mysql c)"

fun db_inv :: "db \<Rightarrow> bool" where
  "db_inv (c, Q) \<longleftrightarrow> pool_inv c (concat (map uses Q)) \<and> mset (concat (map owns Q)) = mset (live_results c) \<and> distinct (live_results c)"

lemma keys_set_busy [simp]: "map fst (set_busy h f xs) = map fst xs" "fst ` set (set_busy h f xs) = fst ` set xs"
proof -
  show k: "map fst (set_busy h f xs) = map fst xs" by (simp add: set_busy_def case_prod_beta)
  show "fst ` set (set_busy h f xs) = fst ` set xs" unfolding set_map [symmetric] k ..
qed

lemma in_set_busy: "(h', b') \<in> set (set_busy h f xs) \<longleftrightarrow> (\<exists>b. (h', b) \<in> set xs \<and> b' = (if h' = h then f b else b))"
  by (force simp: set_busy_def)

lemma busy_okI: "(\<And>h b. (h, b) \<in> set xs \<Longrightarrow> b = (if h \<in> set hs then 1 else 0)) \<Longrightarrow> busy_ok xs hs"
  by (auto simp: busy_ok_def)

lemma busy_okD: "busy_ok xs hs \<Longrightarrow> (h, b) \<in> set xs \<Longrightarrow> b = (if h \<in> set hs then 1 else 0)"
  by (force simp: busy_ok_def)

lemma idle_mysql_Some: "idle_mysql xs = Some h \<Longrightarrow> (h, 0) \<in> set xs"
  by (induction xs) (auto split: if_splits)

lemma busy_ok_grab:
  assumes "busy_ok xs hs" "(h, 0) \<in> set xs"
  shows "h \<notin> set hs" "busy_ok (set_busy h (\<lambda>b. short_of (b + 1)) xs) (hs @ [h])" "(h, 1) \<in> set (set_busy h (\<lambda>b. short_of (b + 1)) xs)"
proof -
  have one: "short_of (0 + 1) = 1" by (simp add: short_of_def)
  show h: "h \<notin> set hs" using busy_okD [OF assms] by auto
  show "busy_ok (set_busy h (\<lambda>b. short_of (b + 1)) xs) (hs @ [h])"
  proof (rule busy_okI)
    fix h' b' assume "(h', b') \<in> set (set_busy h (\<lambda>b. short_of (b + 1)) xs)"
    then obtain b where b: "(h', b) \<in> set xs" "b' = (if h' = h then short_of (b + 1) else b)" by (auto simp: in_set_busy)
    show "b' = (if h' \<in> set (hs @ [h]) then 1 else 0)" using busy_okD [OF assms(1) b(1)] b(2) h one by auto
  qed
  show "(h, 1) \<in> set (set_busy h (\<lambda>b. short_of (b + 1)) xs)" using assms(2) one unfolding in_set_busy by metis
qed

lemma busy_ok_free: "busy_ok xs hs \<Longrightarrow> set hs' = set hs - {h} \<Longrightarrow> busy_ok (set_busy h (\<lambda>_. 0) xs) hs'"
  by (rule busy_okI) (auto simp: in_set_busy dest: busy_okD)

lemma pool_invI:
  assumes "distinct (map fst (open_mysql c))" "\<And>h. h \<in> fst ` set (open_mysql c) \<Longrightarrow> h < next_mysql c" "distinct hs"
    "busy_ok (open_mysql c) hs" "set hs \<subseteq> fst ` set (open_mysql c)"
  shows "pool_inv c hs"
  using assms by (simp add: pool_inv_def)

lemma pool_inv_updates [simp]:
  "pool_inv (c\<lparr>live_results := l\<rparr>) hs = pool_inv c hs" "pool_inv (c\<lparr>next_result := n\<rparr>) hs = pool_inv c hs"
  "pool_inv (c\<lparr>host := h, user := u, password := p, database := d, port := z\<rparr>) hs = pool_inv c hs"
  by (simp_all add: pool_inv_def)

definition used :: "nat option \<Rightarrow> nat list" where
  "used g = (case g of None \<Rightarrow> [] | Some h \<Rightarrow> [h])"

lemma pool_cong: "pool_inv c hs \<Longrightarrow> distinct hs' \<Longrightarrow> set hs = set hs' \<Longrightarrow> pool_inv c hs'"
  by (simp add: pool_inv_def busy_ok_def)

lemma grab_pool:
  assumes i: "pool_inv c hs" and g: "GrabDB lib c = (g, c1)"
  shows "pool_inv c1 (hs @ used g)" "live_results c1 = live_results c"
proof -
  have k: "distinct (map fst (open_mysql c))" "\<And>h. h \<in> fst ` set (open_mysql c) \<Longrightarrow> h < next_mysql c" "distinct hs"
    "busy_ok (open_mysql c) hs" "set hs \<subseteq> fst ` set (open_mysql c)" using i by (auto simp: pool_inv_def)
  have "pool_inv c1 (hs @ used g) \<and> live_results c1 = live_results c"
  proof (cases "idle_mysql (open_mysql c)")
    case (Some h)
    then have h: "(h, 0) \<in> set (open_mysql c)" by (rule idle_mysql_Some)
    note b = busy_ok_grab [OF k(4) h]
    have c1: "g = Some h" "c1 = c\<lparr>open_mysql := set_busy h (\<lambda>b. short_of (b + 1)) (open_mysql c)\<rparr>"
      using g Some by (auto simp: GrabDB_def)
    have "h \<in> fst ` set (open_mysql c)" using h by force
    then have "pool_inv c1 (hs @ used g)" unfolding c1 used_def using k b by (intro pool_invI) auto
    then show ?thesis using c1(2) by simp
  next
    case None
    let ?n = "next_mysql c"
    have n: "?n \<notin> fst ` set (open_mysql c)" using k(2) by blast
    have "busy_ok ((?n, 1) # open_mysql c) (hs @ [?n])"
    proof (rule busy_okI)
      fix h b assume "(h, b) \<in> set ((?n, 1) # open_mysql c)"
      then show "b = (if h \<in> set (hs @ [?n]) then 1 else 0)" using busy_okD [OF k(4), of h b] n by force
    qed
    then have "pool_inv (c\<lparr>open_mysql := (?n, 1) # open_mysql c, next_mysql := ?n + 1\<rparr>) (hs @ [?n])"
      using k n by (intro pool_invI) (auto simp: less_Suc_eq)
    then show ?thesis using g None i by (auto simp: GrabDB_def used_def split: if_splits)
  qed
  then show "pool_inv c1 (hs @ used g)" "live_results c1 = live_results c" by simp_all
qed

lemma free_pool:
  assumes i: "pool_inv c hs" and "set hs' = set hs - {h}" "distinct hs'"
  shows "pool_inv (snd (FreeDB (Some h) c)) hs'"
  using i assms(2,3) unfolding pool_inv_def FreeDB_def by (auto intro: busy_ok_free)

lemma Connect_pool:
  assumes i: "pool_inv c hs"
  shows "\<exists>ok c1. Connect lib (Some d) (Some h) (Some u) (Some p) n c = Inr (ok, c1) \<and> pool_inv c1 hs \<and> live_results c1 = live_results c"
proof -
  have keep: "\<exists>z. keep_first x (Some y) = Inr z" for x y by (cases x) (auto simp: keep_first_def)
  obtain h' u' p' d' where k: "keep_first (host c) (Some h) = Inr h'" "keep_first (user c) (Some u) = Inr u'"
    "keep_first (password c) (Some p) = Inr p'" "keep_first (database c) (Some d) = Inr d'" using keep by metis
  let ?c = "c\<lparr>host := h', user := u', password := p', database := d', port := n\<rparr>"
  obtain g c2 where g: "GrabDB lib ?c = (g, c2)" by fastforce
  have c2: "pool_inv c2 (hs @ used g)" "live_results c2 = live_results c" using grab_pool [OF _ g, of hs] i by auto
  have "pool_inv (snd (FreeDB g c2)) hs"
  proof (cases g)
    case (Some x)
    then have "x \<notin> set hs" "distinct hs" using c2(1) by (auto simp: pool_inv_def used_def)
    then show ?thesis using free_pool [OF c2(1), of hs x] Some by (simp add: used_def)
  qed (use c2(1) in \<open>simp add: FreeDB_def used_def\<close>)
  moreover have "live_results (snd (FreeDB g c2)) = live_results c" using c2(2) by (simp add: FreeDB_def split: option.split)
  ultimately show ?thesis using k g by (cases "FreeDB g c2") (simp add: Connect_def)
qed

lemma free_results_outcome:
  "mset (map snd xs) \<subseteq># mset (live_results c) \<Longrightarrow> distinct (live_results c) \<Longrightarrow>
    \<exists>l. free_results xs c = Inr (c\<lparr>live_results := l\<rparr>) \<and> mset l + mset (map snd xs) = mset (live_results c) \<and> distinct l"
proof (induction xs arbitrary: c)
  case Nil
  show ?case using Nil by (intro exI [of _ "live_results c"]) simp
next
  case (Cons e xs)
  obtain m r where e: "e = (m, r)" by (cases e)
  have r: "r \<in> set (live_results c)" using Cons.prems(1) e by (auto dest: mset_subset_eqD)
  let ?c = "c\<lparr>live_results := remove1 r (live_results c)\<rparr>"
  have "mset (map snd xs) \<subseteq># mset (live_results ?c)" using Cons.prems(1) e r by (simp add: insert_subset_eq_iff)
  moreover have "distinct (live_results ?c)" using Cons.prems(2) by simp
  ultimately obtain l where l: "free_results xs ?c = Inr (?c\<lparr>live_results := l\<rparr>)"
    "mset l + mset (map snd xs) = mset (live_results ?c)" "distinct l" using Cons.IH [of ?c] by blast
  have "mset l + mset (map snd (e # xs)) = mset (live_results c)" using l(2) r e by simp
  then show ?case using l r e by (intro exI [of _ l]) (simp add: mysql_free_result_def)
qed

lemma mset_concat_update:
  "i < length Q \<Longrightarrow> mset (concat (map f (Q[i := q]))) + mset (f (Q ! i)) = mset (concat (map f Q)) + mset (f q)"
proof (induction Q arbitrary: i)
  case (Cons a Q)
  show ?case
  proof (cases i)
    case (Suc j)
    then show ?thesis using Cons.IH [of j] Cons.prems by (simp add: add.assoc add.left_commute)
  qed (simp add: ac_simps)
qed simp

lemma mset_concat_remove:
  assumes "i < length Q"
  shows "mset (concat (map f (take i Q @ drop (Suc i) Q))) + mset (f (Q ! i)) = mset (concat (map f Q))"
proof -
  have "Q = take i Q @ Q ! i # drop (Suc i) Q" using assms by (rule id_take_nth_drop)
  then have "map f Q = map f (take i Q) @ f (Q ! i) # map f (drop (Suc i) Q)" by (metis list.simps(9) map_append)
  then show ?thesis by simp
qed

lemma query_kept:
  assumes i: "db_inv (c, Q)" and n: "i < length Q" and u: "q_open q = q_open (Q ! i)" and d: "distinct l"
    and m: "mset l + mset (owns (Q ! i)) = mset (live_results c) + mset (owns q)"
  shows "db_inv (c\<lparr>live_results := l, next_result := k\<rparr>, Q[i := q])"
proof -
  have "uses q = uses (Q ! i)" using u by (simp add: uses_def)
  then have "map uses (Q[i := q]) = (map uses Q)[i := map uses Q ! i]" using n by (simp add: map_update)
  also have "\<dots> = map uses Q" by (rule list_update_id)
  finally have "map uses (Q[i := q]) = map uses Q" .
  moreover have "mset (concat (map owns (Q[i := q]))) = mset l"
    using mset_concat_update [OF n, of owns q] i m by (metis add.commute add_right_cancel db_inv.simps union_assoc)
  ultimately show ?thesis using i d by simp
qed

lemma take_result_Some: "take_result m xs = Some (r, rest) \<Longrightarrow> mset (map snd xs) = add_mset r (mset (map snd rest))"
  by (induction xs arbitrary: rest) (auto split: if_splits)

lemma owned_live: "db_inv (c, Q) \<Longrightarrow> i < length Q \<Longrightarrow> mset (owns (Q ! i)) \<subseteq># mset (live_results c)"
  using mset_concat_remove [of i Q owns] by (metis db_inv.simps mset_subset_eq_add_right)

lemma freed:
  assumes "db_inv (c, Q)" "i < length Q" "mset (owns (Q ! i)) = add_mset r (mset (owns q))"
  shows "mysql_free_result r c = Inr (c\<lparr>live_results := remove1 r (live_results c)\<rparr>)"
    "q_open q = q_open (Q ! i) \<Longrightarrow> db_inv (c\<lparr>live_results := remove1 r (live_results c)\<rparr>, Q[i := q])"
proof -
  have r: "r \<in># mset (live_results c)" using owned_live [OF assms(1,2)] assms(3) by (auto dest: mset_subset_eqD)
  then show "mysql_free_result r c = Inr (c\<lparr>live_results := remove1 r (live_results c)\<rparr>)" by (simp add: mysql_free_result_def)
  have "distinct (remove1 r (live_results c))" using assms(1) by simp
  moreover have "mset (remove1 r (live_results c)) + mset (owns (Q ! i)) = mset (live_results c) + mset (owns q)"
    using assms(3) r by simp
  ultimately show "db_inv (c\<lparr>live_results := remove1 r (live_results c)\<rparr>, Q[i := q])" if "q_open q = q_open (Q ! i)"
    using query_kept [OF assms(1,2) that, of "remove1 r (live_results c)" "next_result c"] by simp
qed

lemma Execute_cases:
  "Execute lib sql x c = (v, q, c1) \<Longrightarrow> q = x \<and> c1 = c \<or> (\<exists>h. q_open x = Some h \<and> q_res x = None
     \<and> q = x\<lparr>q_res := Some (lib_store lib h)\<rparr> \<and> c1 = c\<lparr>live_results := live_results c @ [lib_store lib h]\<rparr>)"
  by (auto simp: Execute_def Let_def split: option.splits if_splits)

lemma Execute_step:
  assumes i: "db_inv (c, Q)" and n: "i < length Q" and a: "\<forall>h. lib_store lib h \<notin> set (live_results c)"
    and e: "Execute lib sql (Q ! i) c = (v, q, c1)"
  shows "db_inv (c1, Q[i := q])"
proof (cases "q = Q ! i \<and> c1 = c")
  case True
  then show ?thesis using i by (metis list_update_id)
next
  case False
  then obtain h where h: "q_open (Q ! i) = Some h" "q_res (Q ! i) = None"
      "q = (Q ! i)\<lparr>q_res := Some (lib_store lib h)\<rparr>" "c1 = c\<lparr>live_results := live_results c @ [lib_store lib h]\<rparr>"
    using Execute_cases [OF e] by blast
  have "distinct (live_results c @ [lib_store lib h])" using i a by simp
  moreover have "mset (live_results c @ [lib_store lib h]) + mset (owns (Q ! i)) = mset (live_results c) + mset (owns q)"
    using h by (simp add: owns_def)
  ultimately show ?thesis using query_kept [OF i n, of q "live_results c @ [lib_store lib h]" "next_result c"] h by simp
qed

lemma Store_step:
  assumes i: "db_inv (c, Q)" and n: "i < length Q" and e: "Store (Q ! i) c = (m, q, c1)"
  shows "db_inv (c1, Q[i := q])"
proof (cases "q_res (Q ! i)")
  case None
  then have "q = Q ! i" "c1 = c" using e by (auto simp: Store_def)
  then show ?thesis using i by (metis list_update_id)
next
  case (Some r)
  then have q: "q = (Q ! i)\<lparr>q_results := q_results (Q ! i) @ [(next_result c, r)], q_res := None\<rparr>" "c1 = c\<lparr>next_result := next_result c + 1\<rparr>"
    using e by (auto simp: Store_def)
  have "mset (live_results c) + mset (owns (Q ! i)) = mset (live_results c) + mset (owns q)" using Some q by (simp add: owns_def)
  then show ?thesis using query_kept [OF i n, of q "live_results c" "next_result c + 1"] i q by simp
qed

lemma destroy_step:
  assumes i: "db_inv (c, Q)" and n: "i < length Q"
  shows "\<exists>c1. destroy_query (Q ! i) c = Inr c1 \<and> db_inv (c1, take i Q @ drop (Suc i) Q)"
proof -
  let ?q = "Q ! i" and ?R = "take i Q @ drop (Suc i) Q"
  have sub: "mset (owns ?q) \<subseteq># mset (live_results c)" by (rule owned_live [OF i n])
  then have "mset (map snd (q_results ?q)) \<subseteq># mset (live_results c)"
    unfolding owns_def by (simp add: subset_mset.add_le_same_cancel2 mset_subset_eq_add_right) (meson mset_subset_eq_add_right subset_mset.order_trans)
  then obtain l where l: "free_results (q_results ?q) c = Inr (c\<lparr>live_results := l\<rparr>)"
    "mset l + mset (map snd (q_results ?q)) = mset (live_results c)" "distinct l"
    using free_results_outcome [of "q_results ?q" c] i by auto
  have "\<exists>l'. (case q_res ?q of None \<Rightarrow> Inr (c\<lparr>live_results := l\<rparr>) | Some r \<Rightarrow> mysql_free_result r (c\<lparr>live_results := l\<rparr>))
      = Inr (c\<lparr>live_results := l'\<rparr>) \<and> mset l' + mset (owns ?q) = mset (live_results c) \<and> distinct l'"
  proof (cases "q_res ?q")
    case None
    then show ?thesis using l by (intro exI [of _ l]) (simp add: owns_def)
  next
    case (Some r)
    have "add_mset r (mset (map snd (q_results ?q))) \<subseteq># mset l + mset (map snd (q_results ?q))"
      using sub Some unfolding l(2) by (simp add: owns_def)
    then have "r \<in> set l" by (metis add_mset_add_single insert_subset_eq_iff mset_subset_eq_mono_add_right_cancel set_mset_mset union_mset_add_mset_left add_0)
    moreover have "r \<in> set (live_results c)" using \<open>r \<in> set l\<close> arg_cong [OF l(2), of set_mset] by auto
    ultimately show ?thesis using l Some by (intro exI [of _ "remove1 r l"]) (simp add: owns_def mysql_free_result_def)
  qed
  then obtain l' where l': "destroy_query ?q c = Inr (if q_open ?q \<noteq> None then snd (FreeDB (q_open ?q) (c\<lparr>live_results := l'\<rparr>)) else c\<lparr>live_results := l'\<rparr>)"
    "mset l' + mset (owns ?q) = mset (live_results c)" "distinct l'" using l(1) unfolding destroy_query_def by auto
  have owned: "mset (concat (map owns ?R)) = mset l'"
    using mset_concat_remove [OF n, of owns] i l'(2) by (metis add_right_cancel db_inv.simps)
  have us: "mset (concat (map uses ?R)) + mset (uses ?q) = mset (concat (map uses Q))" by (rule mset_concat_remove [OF n])
  have p: "pool_inv c (concat (map uses Q))" using i by simp
  have "distinct (concat (map uses Q))" using p by (simp add: pool_inv_def)
  then have "distinct (concat (map uses ?R) @ uses ?q)" using us by (metis mset_append mset_eq_imp_distinct_iff)
  then have dR: "distinct (concat (map uses ?R))" "set (concat (map uses ?R)) \<inter> set (uses ?q) = {}" unfolding distinct_append by blast+
  have sR: "set (concat (map uses Q)) = set (concat (map uses ?R)) \<union> set (uses ?q)"
    using us by (metis set_mset_mset set_mset_union)
  show ?thesis
  proof (cases "q_open ?q")
    case None
    then have "uses ?q = []" by (simp add: uses_def)
    then have "mset (concat (map uses ?R)) = mset (concat (map uses Q))" using us by simp
    have "pool_inv c (concat (map uses ?R))" by (rule pool_cong [OF p dR(1)]) (use sR \<open>uses ?q = []\<close> in simp)
    then show ?thesis using l' owned None by simp
  next
    case (Some h)
    then have h: "uses ?q = [h]" by (simp add: uses_def)
    have "set (concat (map uses ?R)) = set (concat (map uses Q)) - {h}" using sR dR(2) h by auto
    then have "pool_inv (snd (FreeDB (Some h) (c\<lparr>live_results := l'\<rparr>))) (concat (map uses ?R))"
      by (rule free_pool [rotated]) (use p dR(1) in simp_all)
    moreover have "live_results (snd (FreeDB (Some h) (c\<lparr>live_results := l'\<rparr>))) = l'" by (simp add: FreeDB_def)
    ultimately show ?thesis using l' owned Some by simp
  qed
qed

lemma FreeResult_step:
  assumes i: "db_inv (c, Q)" and n: "i < length Q"
  shows "\<exists>q c1. FreeResult m (Q ! i) c = Inr (q, c1) \<and> db_inv (c1, Q[i := q])"
proof (cases "take_result m (q_results (Q ! i))")
  case None
  have "db_inv (c, Q[i := Q ! i])" using i by (metis list_update_id)
  then show ?thesis using None by (simp add: FreeResult_def)
next
  case (Some p)
  obtain r rest where p: "p = (r, rest)" by (cases p)
  let ?q = "(Q ! i)\<lparr>q_results := rest\<rparr>"
  have "mset (owns (Q ! i)) = add_mset r (mset (owns ?q))" using take_result_Some [OF Some [unfolded p]] by (simp add: owns_def)
  from freed [OF i n this] show ?thesis using Some p by (simp add: FreeResult_def)
qed

lemma FreeResult_pending_step:
  assumes i: "db_inv (c, Q)" and n: "i < length Q"
  shows "\<exists>q c1. FreeResult_pending (Q ! i) c = Inr (q, c1) \<and> db_inv (c1, Q[i := q])"
proof (cases "q_res (Q ! i) \<noteq> None \<and> q_connection (Q ! i) \<and> q_open (Q ! i) \<noteq> None")
  case False
  have "db_inv (c, Q[i := Q ! i])" using i by (metis list_update_id)
  moreover have "FreeResult_pending (Q ! i) c = Inr (Q ! i, c)" using False by (auto simp: FreeResult_pending_def split: option.split)
  ultimately show ?thesis by blast
next
  case True
  then obtain r where r: "q_res (Q ! i) = Some r" by auto
  let ?q = "(Q ! i)\<lparr>q_res := None\<rparr>"
  have "mset (owns (Q ! i)) = add_mset r (mset (owns ?q))" using r by (simp add: owns_def)
  from freed [OF i n this] show ?thesis using True r by (simp add: FreeResult_pending_def)
qed

lemma db_exec_inv:
  assumes i: "db_inv s" and a: "allocates opn s"
  shows "\<exists>s'. db_exec opn s = Inr s' \<and> db_inv s'"
proof -
  obtain c Q where s: "s = (c, Q)" by (cases s)
  have i: "db_inv (c, Q)" using i s by simp
  show ?thesis
  proof (cases opn)
    case (OpConnect lib d h u p n)
    obtain ok c1 where "Connect lib (Some d) (Some h) (Some u) (Some p) n c = Inr (ok, c1)"
      "pool_inv c1 (concat (map uses Q))" "live_results c1 = live_results c"
      using Connect_pool [of c "concat (map uses Q)" lib d h u p n] i by auto
    then show ?thesis using i s OpConnect by simp
  next
    case (OpNew lib)
    obtain g c1 where g: "GrabDB lib c = (g, c1)" by fastforce
    have p: "pool_inv c (concat (map uses Q))" using i by simp
    from grab_pool [OF p g] show ?thesis using i s g OpNew by (simp add: MysqlQuery_def uses_def owns_def used_def)
  next
    case (OpExecute n lib sql)
    obtain v q c1 where e: "Execute lib sql (Q ! n) c = (v, q, c1)" by (cases "Execute lib sql (Q ! n) c")
    show ?thesis using Execute_step [OF i _ _ e] a i s e OpExecute by (simp del: db_inv.simps)
  next
    case (OpStore n)
    obtain m q c1 where e: "Store (Q ! n) c = (m, q, c1)" by (cases "Store (Q ! n) c")
    show ?thesis using Store_step [OF i _ e] i s e OpStore by (simp del: db_inv.simps)
  next
    case (OpFree n m)
    then show ?thesis using FreeResult_step [OF i, of n m] i s by (auto simp del: db_inv.simps)
  next
    case (OpFreePending n)
    then show ?thesis using FreeResult_pending_step [OF i, of n] i s by (auto simp del: db_inv.simps)
  next
    case (OpDestroy n)
    then show ?thesis using destroy_step [OF i, of n] i s by (auto simp del: db_inv.simps)
  qed
qed

lemma db_run_inv: "db_run port0 s \<Longrightarrow> db_inv s"
proof (induction rule: db_run.induct)
  case db_init
  show ?case by (simp add: MysqlConnection_def pool_inv_def busy_ok_def)
next
  case (db_step s opn s')
  then show ?case using db_exec_inv by fastforce
qed

lemma concat_nth_disjoint: "distinct (concat xs) \<Longrightarrow> i < j \<Longrightarrow> j < length xs \<Longrightarrow> set (xs ! i) \<inter> set (xs ! j) = {}"
proof (induction xs arbitrary: i j)
  case (Cons x xs)
  show ?case
  proof (cases i)
    case 0
    then show ?thesis using Cons.prems by (cases j) (auto dest: nth_mem)
  next
    case (Suc i')
    then show ?thesis using Cons by (cases j) auto
  qed
qed simp

lemma exclusive_inv:
  assumes i: "db_inv (c, Q)" and o: "q_open (Q ! i) = Some h" "q_open (Q ! j) = Some h" and n: "i < length Q" "j < length Q"
  shows "i = j"
proof (rule ccontr)
  have d: "distinct (concat (map uses Q))" using i by (simp add: pool_inv_def)
  assume "i \<noteq> j"
  then have "set (uses (Q ! i)) \<inter> set (uses (Q ! j)) = {}"
    using concat_nth_disjoint [OF d, of i j] concat_nth_disjoint [OF d, of j i] n by (cases "i < j") auto
  then show False using o by (simp add: uses_def)
qed

section \<open>Properties\<close>

text \<open>C24: in every run of a client, two queries that exist at the same time have different connections, a
  connection is marked busy exactly while a query has it, the result sets that are allocated are those
  that the queries own, each once, and no operation frees or uses a result set twice; when all queries are
  destroyed nothing is allocated and all connections are idle.\<close>

theorem connections_exclusive:
  assumes "db_run port0 (c, Q)"
  shows "(i < length Q \<and> j < length Q \<and> q_open (Q ! i) = Some h \<and> q_open (Q ! j) = Some h \<longrightarrow> i = j)
    \<and> ((h, b) \<in> set (open_mysql c) \<longrightarrow> b = (if \<exists>q \<in> set Q. q_open q = Some h then 1 else 0))
    \<and> mset (concat (map owns Q)) = mset (live_results c)
    \<and> (allocates opn (c, Q) \<longrightarrow> (\<exists>s'. db_exec opn (c, Q) = Inr s'))
    \<and> (Q = [] \<longrightarrow> live_results c = [] \<and> (\<forall>(h, b) \<in> set (open_mysql c). b = 0))"
proof -
  have i: "db_inv (c, Q)" using db_run_inv [OF assms] .
  have b: "busy_ok (open_mysql c) (concat (map uses Q))" using i by (simp add: pool_inv_def)
  have "h \<in> set (uses q) \<longleftrightarrow> q_open q = Some h" for q by (auto simp: uses_def split: option.split)
  then have "h \<in> set (concat (map uses Q)) \<longleftrightarrow> (\<exists>q \<in> set Q. q_open q = Some h)" by simp
  then have "(h, b) \<in> set (open_mysql c) \<longrightarrow> b = (if \<exists>q \<in> set Q. q_open q = Some h then 1 else 0)" using busy_okD [OF b, of h b] by simp
  moreover have "Q = [] \<longrightarrow> live_results c = [] \<and> (\<forall>(h, b) \<in> set (open_mysql c). b = 0)" using i b by (auto simp: busy_ok_def)
  moreover have "mset (concat (map owns Q)) = mset (live_results c)" using i by simp
  ultimately show ?thesis using exclusive_inv [OF i] db_exec_inv [OF i] by blast
qed

definition sample_lib :: mysql_lib where
  "sample_lib = \<lparr>lib_init = True, lib_connect = True, lib_query = (\<lambda>h s. 0), lib_store = (\<lambda>h. 4096 + int h), lib_insert_id = (\<lambda>h. 0),
     lib_ping = (\<lambda>h. 0), lib_num_rows = (\<lambda>r. 1), lib_num_fields = (\<lambda>r. 1), lib_fetch_row = (\<lambda>r. Some [Some ''7'', None])\<rparr>"

lemma sample_run:
  "\<exists>c Q. db_run 0 (c, Q) \<and> open_mysql c = [(1, 1), (0, 1)] \<and> live_results c = [4097] \<and> map q_open Q = [Some 0, Some 1]"
proof -
  let ?c0 = "MysqlConnection 0"
  obtain c1 Q1 where 1: "db_exec (OpNew sample_lib) (?c0, []) = Inr (c1, Q1)" "open_mysql c1 = [(0, 1)]" "map q_open Q1 = [Some 0]"
      "live_results c1 = []" "next_mysql c1 = 1"
    by (simp add: MysqlConnection_def MysqlQuery_def GrabDB_def sample_lib_def)
  from db_step [OF db_init _ 1(1)] have r1: "db_run 0 (c1, Q1)" by simp
  obtain c2 Q2 where 2: "db_exec (OpNew sample_lib) (c1, Q1) = Inr (c2, Q2)" "open_mysql c2 = [(1, 1), (0, 1)]"
      "map q_open Q2 = [Some 0, Some 1]" "live_results c2 = []" "q_connection (Q2 ! 1)" "q_res (Q2 ! 1) = None"
    using 1 by (cases Q1) (auto simp: MysqlQuery_def GrabDB_def sample_lib_def)
  from db_step [OF r1 _ 2(1)] have r2: "db_run 0 (c2, Q2)" by simp
  obtain a q where Q2: "Q2 = [a, q]" "q_open a = Some 0" "q_open q = Some 1" using 2(3) by auto
  have e: "db_exec (OpExecute 1 sample_lib ''x'') (c2, Q2) = Inr (c2\<lparr>live_results := [4097]\<rparr>, [a, q\<lparr>q_res := Some 4097\<rparr>])"
    using 2 Q2 by (simp add: Execute_def TryExecute_def sample_lib_def Let_def)
  have "allocates (OpExecute 1 sample_lib ''x'') (c2, Q2)" using 2(4) by simp
  from db_step [OF r2 this e] show ?thesis 
    using 2(2) Q2 by (intro exI [of _ "c2\<lparr>live_results := [4097]\<rparr>"] exI [of _ "[a, q\<lparr>q_res := Some 4097\<rparr>]"]) simp
qed

lemma connections_exclusive_witness: "\<exists>(c :: mysql_connection) (Q :: mysql_query list). live_results c = [4097] \<and> mset (concat (map owns Q)) = {#4097#}"
proof -
  obtain c Q where r: "db_run 0 (c, Q)" "live_results c = [4097]" using sample_run by blast
  from connections_exclusive [OF r(1), of 0 0 0 0 "OpStore 0"] have "mset (concat (map owns Q)) = mset (live_results c)" by blast
  then show ?thesis using r(2) by (intro exI [of _ c] exI [of _ Q]) simp
qed

lemma close_loop_second: "second_mysql c = Some h \<Longrightarrow> close_loop n (Some h) c closed = (closed @ replicate n h, False)"
  by (induction n arbitrary: closed) (simp_all add: replicate_append_same)

text \<open>The destructor of a connection object whose pool has two connections or more never returns: it closes
  the first connection once and the second again and again. With one connection it returns, and with none.\<close>

theorem destructor_hangs:
  "destroy_connection (Suc n) c =
     (case open_mysql c of
        [] \<Rightarrow> ([], True)
      | [(h, b)] \<Rightarrow> ([h], True)
      | (h, b) # (h2, b2) # rest \<Rightarrow> (h # replicate n h2, False))"
  using close_loop_second [of c _ n] by (auto simp: destroy_connection_def second_mysql_def split: list.split prod.split)

text \<open>Execute on every branch. While a result is pending nothing is sent to the server and the old result
  is reported again; otherwise a statement without a result set is reported as 0, like one that failed.\<close>

theorem Execute_outcome:
  "Execute lib sql q c =
     (case (q_res q, q_open q) of
        (Some r, _) \<Rightarrow> (wrap32 r, q, c)
      | (None, None) \<Rightarrow> (0, q, c)
      | (None, Some h) \<Rightarrow>
          if q_connection q \<and> lib_query lib h sql = 0 \<and> lib_store lib h \<noteq> 0
          then (wrap32 (lib_store lib h), q\<lparr>q_res := Some (lib_store lib h)\<rparr>, c\<lparr>live_results := live_results c @ [lib_store lib h]\<rparr>)
          else (0, q, c))"
  by (auto simp: Execute_def TryExecute_def Let_def split: option.splits)

lemma strtol_digits:
  assumes "s \<noteq> []" "\<forall>d \<in> set s. is_digit d" "digits_value s < 2 ^ (lb - 1)"
  shows "0 \<le> digits_value s \<Longrightarrow> strtol lb s = (digits_value s, [])"
    "0 \<le> digits_value s \<Longrightarrow> strtol lb (CHR ''-'' # s) = (- digits_value s, [])"
proof -
  obtain d ds where s: "s = d # ds" "is_digit d" using assms(1,2) by (cases s) auto
  have nb: "\<not> is_blank d" "d \<noteq> CHR ''-''" "d \<noteq> CHR ''+''" "\<not> is_blank (CHR ''-'')"
    using s(2) by (auto simp: is_blank_def is_digit_def)
  have tw: "takeWhile is_digit s = s" "dropWhile is_digit s = []" using assms(2) by (simp_all add: takeWhile_eq_all_conv dropWhile_eq_Nil_conv)
  have dw: "dropWhile is_blank s = s" "split_sign s = (False, s)" using s nb by (simp_all add: split_sign_def)
  show "0 \<le> digits_value s \<Longrightarrow> strtol lb s = (digits_value s, [])"
    using assms(1,3) by (simp add: strtol_def dw tw Let_def)
  show "0 \<le> digits_value s \<Longrightarrow> strtol lb (CHR ''-'' # s) = (- digits_value s, [])"
    using assms(1,3) nb(4) by (simp add: strtol_def split_sign_def tw Let_def)
qed

text \<open>A value of a column or a parameter that is set from a number is read back as that number, and a
  string as that string. A column that is NULL reads as the empty string and as 0 by default; once
  AllowNull was called, reading it dereferences the null pointer.\<close>

theorem variable_roundtrip:
  assumes "- (2 ^ 31) < i" "i < 2 ^ 31" "0 \<le> u" "u < 2 ^ 32" "0 \<le> k" "k < int (length cols)" "row w = Some cols"
  shows "variable_int (MysqlVariable_int i) = i \<and> variable_uint32 (MysqlVariable_uint32 u) = u
    \<and> map_sum id variable_string (MysqlVariable_string (Some s)) = Inr (Some s)
    \<and> row_at w k =
        (case cols ! nat k of
           Some x \<Rightarrow> Inr (Some x)
         | None \<Rightarrow> if allow_null w then Inl NullDeref else Inr (Some []))"
proof -
  have d: "decimal n \<noteq> []" "\<forall>d \<in> set (decimal n). is_digit d" "digits_value (decimal n) = int n" for n using decimal_digits by auto
  have "variable_int (MysqlVariable_int i) = i"
  proof (cases "i < 0")
    case True
    then have "digits_value (decimal (nat (- i))) < 2 ^ (32 - 1)" using d(3) assms(1) by simp
    from strtol_digits(2) [OF d(1,2) this] show ?thesis
      using True assms(1) d(3) by (simp add: variable_int_def MysqlVariable_int_def atoi_def wrap32_id)
  next
    case False
    then have "digits_value (decimal (nat i)) < 2 ^ (32 - 1)" using d(3) assms(2) by simp
    from strtol_digits(1) [OF d(1,2) this] show ?thesis
      using False assms(2) d(3) by (simp add: variable_int_def MysqlVariable_int_def atoi_def wrap32_id)
  qed
  moreover have "variable_uint32 (MysqlVariable_uint32 u) = u"
  proof -
    have "digits_value (decimal (nat u)) < 2 ^ (64 - 1)" using d(3) assms(3,4) by simp
    from strtol_digits(1) [OF d(1,2) this] show ?thesis
      using assms(3,4) d(3) by (simp add: variable_uint32_def MysqlVariable_uint32_def uwrap32_id)
  qed
  ultimately show ?thesis using assms(5-7) by (simp add: row_at_def MysqlVariable_string_def variable_string_def split: option.split)
qed

lemma variable_roundtrip_witness:
  "variable_int (MysqlVariable_int (- 70)) = - 70 \<and> row_at \<lparr>row = Some [Some ''7'', None], allow_null = True\<rparr> 1 = Inl NullDeref"
  using variable_roundtrip [of "- 70" 5 1 "[Some ''7'', None]" "\<lparr>row = Some [Some ''7'', None], allow_null = True\<rparr>" "[]"] by simp

end
