(* ===== verification/ConfigCopy.thy ===== *)
theory ConfigCopy
  imports ConfigProps
begin

text \<open>
  The operations of src/base/config_bst.cc that no client calls: the insertion that leaves a traverser at the
  item, copying and replacing through a traverser, the asserting variants, and the copy of a tree with
  its explicit stack.
\<close>

section \<open>Operations of traversers\<close>

text \<open>
  bst_t_insert. The way down is that of bst_t_find, with the same test of the height of the stack; after the
  insertion the nodes on the stack lead to the new node.
\<close>

fun t_insert :: "nat \<Rightarrow> 'k::linorder \<times> 'v \<Rightarrow> ('k, 'v) bst_table \<Rightarrow> ('k, 'v) moved" where
  "t_insert 0 item tree = Inl Diverge"
| "t_insert (Suc n) item tree =
     (case find_path [] (bst_root tree) (fst item) of
        None \<Rightarrow> rbind (bst_balance tree) (t_insert n item)
      | Some (st, node) \<Rightarrow>
          if node \<noteq> Leaf then at_node st node tree
          else (let tree1 = tree\<lparr>bst_root := probe_node (bst_root tree) item, bst_count := bst_count tree + 1\<rparr>
                in case find_path [] (bst_root tree1) (fst item) of
                     None \<Rightarrow> Inl OutOfBounds | Some (st1, node1) \<Rightarrow> at_node st1 node1 tree1))"

definition bst_t_insert :: "'k::linorder \<times> 'v \<Rightarrow> ('k, 'v) bst_table \<Rightarrow> ('k, 'v) moved" where
  "bst_t_insert item tree = t_insert 2 item tree"

text \<open>bst_t_copy to another traverser: the stack is copied only if it is up to date.\<close>

definition bst_t_copy :: "('k, 'v) bst_table \<Rightarrow> ('k, 'v) bst_traverser \<Rightarrow> ('k, 'v) bst_traverser \<Rightarrow> ('k \<times> 'v) option \<times> ('k, 'v) bst_traverser" where
  "bst_t_copy tree src trav =
     (let trav1 = trav\<lparr>trav_node := trav_node src, trav_generation := trav_generation src\<rparr>;
          trav2 = (if trav_generation trav1 = bst_generation tree then trav1\<lparr>trav_stack := trav_stack src\<rparr> else trav1)
      in (item_of (trav_node trav2), trav2))"

text \<open>bst_t_replace stores an item in the node of the traverser, which is shared by the tree and the stack.\<close>

fun store_at :: "'k::linorder \<Rightarrow> 'k \<times> 'v \<Rightarrow> ('k, 'v) bst_node \<Rightarrow> ('k, 'v) bst_node" where
  "store_at k item Leaf = Leaf"
| "store_at k item (Node l y r) =
     (if k = fst y then Node l item r else if k > fst y then Node l y (store_at k item r) else Node (store_at k item l) y r)"

definition bst_t_replace :: "'k::linorder \<times> 'v \<Rightarrow> ('k, 'v) bst_traverser \<Rightarrow> ('k, 'v) bst_table \<Rightarrow> ('k, 'v) moved" where
  "bst_t_replace item trav tree =
     (case trav_node trav of
        Leaf \<Rightarrow> Inl Abort
      | Node l old r \<Rightarrow>
          Inr (Some old, trav\<lparr>trav_node := Node l item r, trav_stack := map (store_at (fst old) item) (trav_stack trav)\<rparr>,
               tree\<lparr>bst_root := store_at (fst old) item (bst_root tree)\<rparr>))"

definition bst_assert_insert :: "('k::linorder, 'v) bst_table \<Rightarrow> 'k \<times> 'v \<Rightarrow> ('k, 'v) bst_table result" where
  "bst_assert_insert tree item = (if bst_find tree (fst item) = None then Inr (snd (bst_probe tree item)) else Inl Abort)"

definition bst_assert_delete :: "('k::linorder, 'v) bst_table \<Rightarrow> 'k \<Rightarrow> (('k \<times> 'v) \<times> ('k, 'v) bst_table) result" where
  "bst_assert_delete tree k = (case bst_delete tree k of (None, tree') \<Rightarrow> Inl Abort | (Some x, tree') \<Rightarrow> Inr (x, tree'))"

section \<open>Copying a tree\<close>

text \<open>
  bst_copy goes down to the left with the nodes and their copies on a stack, and visits a node when its left
  side is done. The copies that wait for their right side are \<open>pending\<close>, with their left side and item. A
  copy on the stack has no item yet: the memory of the new node is not initialised. An item that cannot be
  copied, or a stack that is full, makes copy_error_recovery destroy what there is; the destroyed items are
  in order, None where the memory was never written. The pseudo root takes the first entry of the stack.
\<close>

type_synonym ('k, 'v) pending = "(('k, 'v) bst_node \<times> ('k \<times> 'v)) list"

datatype ('k, 'v) copy_at = Down "('k, 'v) bst_node" | Visit "('k, 'v) bst_node" "('k, 'v) bst_node"

datatype ('k, 'v) copied = Copied "('k, 'v) bst_node" | CopyFailed "('k \<times> 'v) option list" | CopyDeep "('k \<times> 'v) option list"

fun close_right :: "('k, 'v) bst_node \<Rightarrow> ('k, 'v) pending \<Rightarrow> ('k, 'v) bst_node" where
  "close_right t [] = t"
| "close_right t ((l, x) # ps) = close_right (Node l x t) ps"

definition copy_error_recovery :: "('k \<times> 'v) list \<Rightarrow> nat \<Rightarrow> ('k \<times> 'v) option list" where
  "copy_error_recovery done n = map Some done @ replicate n None"

fun to_visit :: "('k, 'v) bst_node \<Rightarrow> nat" where
  "to_visit Leaf = 0"
| "to_visit (Node l x r) = 2 * size r + 1"

function copy_loop :: "('k \<times> 'v \<Rightarrow> ('k \<times> 'v) option) \<Rightarrow> ('k, 'v) copy_at \<Rightarrow> ('k, 'v) pending
    \<Rightarrow> (('k, 'v) bst_node \<times> ('k, 'v) pending) list \<Rightarrow> ('k \<times> 'v) list \<Rightarrow> ('k, 'v) copied" where
  "copy_loop copy (Down Leaf) ps st done = CopyFailed []"
| "copy_loop copy (Down (Node l x r)) ps st done =
     (if l = Leaf then copy_loop copy (Visit (Node l x r) Leaf) ps st done
      else if length st \<ge> BST_MAX_HEIGHT then CopyDeep (copy_error_recovery done (length st))
      else copy_loop copy (Down l) [] ((Node l x r, ps) # st) done)"
| "copy_loop copy (Visit Leaf l') ps st done = CopyFailed []"
| "copy_loop copy (Visit (Node l x r) l') ps st done =
     (case copy x of
        None \<Rightarrow> CopyFailed (copy_error_recovery done (length st))
      | Some x' \<Rightarrow>
          if r \<noteq> Leaf then copy_loop copy (Down r) ((l', x') # ps) st (done @ [x'])
          else (let t = close_right (Node l' x' Leaf) ps in
                case st of [] \<Rightarrow> Copied t | (n, ps') # st' \<Rightarrow> copy_loop copy (Visit n t) ps' st' (done @ [x'])))"
  by pat_completeness auto

termination
  by (relation "measure (\<lambda>(copy, p, ps, st, done). (case p of Down t \<Rightarrow> 2 * size t | Visit t l' \<Rightarrow> to_visit t)
      + (\<Sum>(n, ps) \<leftarrow> st. to_visit n))") auto

text \<open>A NULL for copy copies the pointers to the items. The result is the new table, if any, what was destroyed, and the table.\<close>

fun t_copy :: "nat \<Rightarrow> ('k \<times> 'v \<Rightarrow> ('k \<times> 'v) option) \<Rightarrow> ('k, 'v) bst_table
    \<Rightarrow> (('k, 'v) bst_table option \<times> ('k \<times> 'v) option list \<times> ('k, 'v) bst_table) result" where
  "t_copy 0 copy org = Inl Diverge"
| "t_copy (Suc n) copy org =
     (if bst_count org = 0 then Inr (Some bst_create, [], org)
      else case copy_loop copy (Down (bst_root org)) [] [] [] of
             Copied t \<Rightarrow> Inr (Some (bst_create\<lparr>bst_root := t, bst_count := bst_count org\<rparr>), [], org)
           | CopyFailed d \<Rightarrow> Inr (None, d, org)
           | CopyDeep d \<Rightarrow> rbind (bst_balance org) (\<lambda>org'. rbind (t_copy n copy org') (\<lambda>(new, d', org''). Inr (new, d @ d', org''))))"

definition bst_copy :: "('k \<times> 'v \<Rightarrow> ('k \<times> 'v) option) option \<Rightarrow> ('k, 'v) bst_table
    \<Rightarrow> (('k, 'v) bst_table option \<times> ('k \<times> 'v) option list \<times> ('k, 'v) bst_table) result" where
  "bst_copy copy org = t_copy 2 (case copy of None \<Rightarrow> Some | Some f \<Rightarrow> f) org"

section \<open>Properties\<close>

definition finish :: "('k \<times> 'v \<Rightarrow> ('k \<times> 'v) option) \<Rightarrow> ('k, 'v) bst_node \<Rightarrow> (('k, 'v) bst_node \<times> ('k, 'v) pending) list \<Rightarrow> ('k \<times> 'v) list \<Rightarrow> ('k, 'v) copied" where
  "finish copy t st done = (case st of [] \<Rightarrow> Copied t | (n, ps) # st' \<Rightarrow> copy_loop copy (Visit n t) ps st' done)"

lemma copy_loop_outcome:
  "t \<noteq> Leaf \<Longrightarrow>
    copy_loop (\<lambda>x. Some (f x)) (Down t) ps st done = finish (\<lambda>x. Some (f x)) (close_right (map_tree f t) ps) st (done @ map f (inorder t))
    \<or> (\<exists>d. copy_loop (\<lambda>x. Some (f x)) (Down t) ps st done = CopyDeep d) \<and> BST_MAX_HEIGHT + 1 < length st + height t"
proof (induction t arbitrary: ps st "done")
  case (Node l x r)
  let ?c = "\<lambda>x. Some (f x)"
  have visit: "copy_loop ?c (Visit (Node l x r) (map_tree f l)) ps st d = finish ?c (close_right (map_tree f (Node l x r)) ps) st (d @ f x # map f (inorder r))
      \<or> (\<exists>d'. copy_loop ?c (Visit (Node l x r) (map_tree f l)) ps st d = CopyDeep d') \<and> BST_MAX_HEIGHT + 1 < length st + height (Node l x r)" for d
  proof (cases "r = Leaf")
    case True
    then show ?thesis by (simp add: finish_def Let_def)
  next
    case False
    then have "copy_loop ?c (Visit (Node l x r) (map_tree f l)) ps st d = copy_loop ?c (Down r) ((map_tree f l, f x) # ps) st (d @ [f x])" by simp
    then show ?thesis using Node.IH(2) [OF False, of "(map_tree f l, f x) # ps" st "d @ [f x]"] by auto
  qed
  show ?case
  proof (cases "l = Leaf")
    case True
    then show ?thesis using visit [of "done"] by (simp add: inorder_node)
  next
    case False
    then have h: "0 < height l" by (cases l) auto
    show ?thesis
    proof (cases "BST_MAX_HEIGHT \<le> length st")
      case True
      have "0 < max (height l) (height r)" using h by (simp add: less_max_iff_disj)
      then have "BST_MAX_HEIGHT + 1 < length st + height (Node l x r)" using True by simp
      then show ?thesis using True False by simp
    next
      case low: False
      have "copy_loop ?c (Down (Node l x r)) ps st done = copy_loop ?c (Down l) [] ((Node l x r, ps) # st) done" using False low by simp
      moreover have "finish ?c (close_right (map_tree f l) []) ((Node l x r, ps) # st) (done @ map f (inorder l))
          = copy_loop ?c (Visit (Node l x r) (map_tree f l)) ps st (done @ map f (inorder l))" by (simp add: finish_def)
      ultimately show ?thesis using Node.IH(1) [OF False, of "[]" "(Node l x r, ps) # st" "done"] visit [of "done @ map f (inorder l)"]
        by (auto simp: inorder_node)
    qed
  qed
qed simp

lemma copy_loop_root:
  assumes "t \<noteq> Leaf"
  shows "copy_loop (\<lambda>x. Some (f x)) (Down t) [] [] [] = Copied (map_tree f t)
    \<or> (\<exists>d. copy_loop (\<lambda>x. Some (f x)) (Down t) [] [] [] = CopyDeep d) \<and> BST_MAX_HEIGHT + 1 < height t"
  using copy_loop_outcome [OF assms, of f "[]" "[]" "[]"] by (auto simp: finish_def)

text \<open>
  A copy of a well-formed table has the shape of the table and the copied items; the table itself changes
  only by being balanced when it is too deep. The copies made before that are destroyed.
\<close>

theorem bst_copy_outcome:
  assumes "tree_ok tree"
  shows "\<exists>new d tree'. bst_copy (Some (\<lambda>x. Some (f x))) tree = Inr (Some new, d, tree') \<and> bst_root new = map_tree f (bst_root tree')
    \<and> bst_count new = bst_count tree \<and> items tree' = items tree \<and> tree_ok tree'
    \<and> (height (bst_root tree) \<le> BST_MAX_HEIGHT \<longrightarrow> tree' = tree \<and> d = [])"
proof (cases "bst_count tree = 0")
  case True
  then have "bst_root tree = Leaf" using assms by (simp add: tree_ok_def bst_inv_def)
  then show ?thesis using True assms by (simp add: bst_copy_def numeral_2_eq_2 bst_create_def)
next
  case False
  then have n: "bst_root tree \<noteq> Leaf" using assms by (auto simp: tree_ok_def bst_inv_def)
  from copy_loop_root [OF n, of f] show ?thesis
  proof
    assume "copy_loop (\<lambda>x. Some (f x)) (Down (bst_root tree)) [] [] [] = Copied (map_tree f (bst_root tree))"
    then show ?thesis using False assms by (simp add: bst_copy_def numeral_2_eq_2)
  next
    assume deep: "(\<exists>d. copy_loop (\<lambda>x. Some (f x)) (Down (bst_root tree)) [] [] [] = CopyDeep d) \<and> BST_MAX_HEIGHT + 1 < height (bst_root tree)"
    then obtain d where d: "copy_loop (\<lambda>x. Some (f x)) (Down (bst_root tree)) [] [] [] = CopyDeep d" by blast
    obtain tree' where b: "bst_balance tree = Inr tree'" "tree_ok tree'" "items tree' = items tree"
      "height (bst_root tree') \<le> BST_MAX_HEIGHT" "bst_count tree' = bst_count tree" using balanced [OF assms] by metis
    then have n': "bst_root tree' \<noteq> Leaf" using False by (auto simp: tree_ok_def bst_inv_def)
    have "copy_loop (\<lambda>x. Some (f x)) (Down (bst_root tree')) [] [] [] = Copied (map_tree f (bst_root tree'))"
      using copy_loop_root [OF n', of f] b(4) by auto
    then show ?thesis using False d b deep by (simp add: bst_copy_def numeral_2_eq_2)
  qed
qed

text \<open>An item that cannot be copied: destroy is called with the copies made so far, and then with memory that was never written.\<close>

lemma failed_copy_example:
  "bst_copy (Some (\<lambda>x. if fst x = ''b'' then None else Some x))
     \<lparr>bst_root = Node (Node Leaf (''a'', ()) (Node Leaf (''b'', ()) Leaf)) (''c'', ()) Leaf, bst_count = 3, bst_generation = 0\<rparr>
   = Inr (None, [Some (''a'', ()), None], \<lparr>bst_root = Node (Node Leaf (''a'', ()) (Node Leaf (''b'', ()) Leaf)) (''c'', ()) Leaf, bst_count = 3, bst_generation = 0\<rparr>)"
  by code_simp

lemma find_path_probe:
  "find_path st t k = Some (st', Leaf) \<Longrightarrow> length st2 = length st \<Longrightarrow>
    \<exists>st1. find_path st2 (probe_node t (k, v)) k = Some (st1, Node Leaf (k, v) Leaf)"
  by (induction st t k arbitrary: st2 rule: find_path.induct) (auto split: if_splits)

text \<open>bst_t_insert leaves the traverser at the item with the key, the old one or the new one.\<close>

lemma t_insert_low:
  assumes "tree_ok tree" "find_path [] (bst_root tree) k \<noteq> None"
  shows "\<exists>w tr tree' rest. t_insert (Suc n) (k, v) tree = Inr (Some (k, w), tr, tree') \<and> smap_find (items tree') k = Some w
    \<and> items tree' = smap_insert k v (items tree) \<and> bst_inv tree' \<and> stands tree' tr (k, w) rest"
proof -
  obtain st node where f: "find_path [] (bst_root tree) k = Some (st, node)" using assms(2) by auto
  have inv: "bst_inv tree" "smap_inv (inorder (bst_root tree))" using assms(1) by (auto simp: tree_ok_def bst_inv_def)
  note s = find_path_Some [OF f path.simps(1) [THEN iffD2, OF refl] inv(2)]
  show ?thesis
  proof (cases "smap_find (items tree) k")
    case (Some w)
    then obtain l r where "node = Node l (k, w) r" "path st (bst_root tree) node" using s by (auto simp: items_def)
    moreover have "smap_insert k v (items tree) = items tree" using smap_insert_present [OF inv(2), of k w v] Some by (simp add: items_def)
    ultimately show ?thesis using Some f inv(1) by (simp add: at_node_def item_of_def stands_def)
  next
    case None
    then have leaf: "node = Leaf" using s by (simp add: items_def)
    let ?t = "tree\<lparr>bst_root := probe_node (bst_root tree) (k, v), bst_count := bst_count tree + 1\<rparr>"
    have p: "?t = snd (bst_probe tree (k, v))" using None bst_find_items [OF inv(1), of k] by (simp add: bst_probe_def)
    then have t: "items ?t = smap_insert k v (items tree)" "bst_inv ?t" using bst_probe_items [OF inv(1), of k v] by simp_all
    obtain st1 where f1: "find_path [] (bst_root ?t) k = Some (st1, Node Leaf (k, v) Leaf)"
      using find_path_probe [of "[]" "bst_root tree" k st "[]" v] f leaf by auto
    have i1: "smap_inv (inorder (bst_root ?t))" using t(2) by (simp only: bst_inv_def)
    have v: "smap_find (items ?t) k = Some v" using t(1) None smap_find_insert [of "items tree" k v k] inv(2) by (simp add: items_def)
    from find_path_Some [OF f1 path.simps(1) [THEN iffD2, OF refl] i1]
    have "path st1 (bst_root ?t) (Node Leaf (k, v) Leaf)" using v by (simp add: items_def)
    then show ?thesis using f leaf f1 v t by (simp add: at_node_def item_of_def stands_def Let_def)
  qed
qed

theorem bst_t_insert_outcome:
  assumes "tree_ok tree"
  shows "\<exists>w tr tree' rest. bst_t_insert (k, v) tree = Inr (Some (k, w), tr, tree') \<and> smap_find (items tree') k = Some w
    \<and> items tree' = smap_insert k v (items tree) \<and> bst_inv tree' \<and> stands tree' tr (k, w) rest"
proof (cases "find_path [] (bst_root tree) k")
  case (Some p)
  then show ?thesis using t_insert_low [OF assms, of k 1 v] by (simp add: bst_t_insert_def numeral_2_eq_2 del: t_insert.simps)
next
  case None
  obtain tree' where b: "bst_balance tree = Inr tree'" "tree_ok tree'" "items tree' = items tree" "height (bst_root tree') \<le> BST_MAX_HEIGHT"
    using balanced [OF assms] by metis
  then have "find_path [] (bst_root tree') k \<noteq> None" using find_path_None [of "[]" "bst_root tree'" k] by fastforce
  moreover have "bst_t_insert (k, v) tree = t_insert (Suc 0) (k, v) tree'" using None b(1) by (simp add: bst_t_insert_def numeral_2_eq_2)
  ultimately show ?thesis using t_insert_low [OF b(2), of k 0 v] b(3) by simp
qed

text \<open>Going on from a copy of a traverser is going on from the traverser.\<close>

lemma bst_t_copy_next: "bst_t_next (snd (bst_t_copy tree src trav)) tree = bst_t_next src tree"
proof -
  have "fresh_trav tree (snd (bst_t_copy tree src trav)) = fresh_trav tree src \<or> trav_node src = Leaf"
    by (cases "trav_node src") (auto simp: bst_t_copy_def fresh_trav_def trav_refresh_def Let_def rbind_def split: sum.split)
  then show ?thesis
  proof
    assume "trav_node src = Leaf"
    then show ?thesis by (simp add: bst_t_next_def numeral_2_eq_2 fresh_trav_def trav_refresh_def bst_t_copy_def Let_def)
  qed (simp add: bst_t_next_def numeral_2_eq_2)
qed

text \<open>Replacing the item a traverser stands at by one with the same key sets the value of the key.\<close>

lemma store_at_assign: "store_at (fst x) x t = assign_node t x"
  by (induction t x rule: assign_node.induct) auto

lemma bst_t_replace_outcome:
  assumes "stands tree trav (k, w) rest" "tree_ok tree"
  shows "\<exists>tr tree'. bst_t_replace (k, v) trav tree = Inr (Some (k, w), tr, tree') \<and> items tree' = smap_set k v (items tree)
    \<and> bst_t_cur tr = Some (k, v)"
proof -
  obtain l r where n: "trav_node trav = Node l (k, w) r" using assms(1) by (auto simp: stands_def)
  obtain pre where "items tree = pre @ (k, w) # rest" "smap_inv (items tree)" using stands_items [OF assms] by blast
  then have "smap_find (items tree) k \<noteq> None" "smap_inv (items tree)" by (auto simp: smap_find_None_iff)
  then have "inorder (assign_node (bst_root tree) (k, v)) = smap_set k v (items tree)"
    using assign_node_items [of "bst_root tree" k v] by (simp add: items_def)
  then show ?thesis using n store_at_assign [of "(k, v)" "bst_root tree"]
    by (simp add: bst_t_replace_def items_def bst_t_cur_def item_of_def)
qed

text \<open>The asserting variants succeed exactly when the key is new, or there.\<close>

lemma assert_variants:
  assumes "bst_inv tree"
  shows "(\<exists>tree'. bst_assert_insert tree (k, v) = Inr tree' \<and> items tree' = smap_insert k v (items tree)) \<longleftrightarrow> smap_find (items tree) k = None"
    "bst_assert_delete tree k = (case smap_find (items tree) k of None \<Rightarrow> Inl Abort | Some w \<Rightarrow> Inr ((k, w), snd (bst_delete tree k)))"
  using bst_find_items [OF assms, of k] bst_probe_items [OF assms, of k v]
  by (auto simp: bst_assert_insert_def bst_assert_delete_def bst_delete_def split: option.split)

end
