(* ===== verification/Md5.thy ===== *)
theory Md5
  imports Prelude
begin

text \<open>
  MD5, src/libconhash/md5.c (theory Md5Hash has the copy in src/utils/md5_hash.cc), and what is made of a digest: the default hash
  function of the consistent hash (conhash_inter.c) and MD5Hash. The machine is little-endian, so that the
  bytes of a block are read as its 16 words in either branch of md5_process. The state after appending
  pieces is shown to be the state for the whole message, and the digest that of RFC 1321.
\<close>

unbundle bit_operations_syntax

type_synonym md5_word_t = "32 word"
type_synonym md5_byte_t = "8 word"
type_synonym abcd = "md5_word_t \<times> md5_word_t \<times> md5_word_t \<times> md5_word_t"

section \<open>One block\<close>

definition T_MASK :: md5_word_t where "T_MASK = NOT 0"

text \<open>T1 to T16, and so on.\<close>

definition md5_T1 :: "md5_word_t list" where
  "md5_T1 =
    [T_MASK XOR 0x28955b87, T_MASK XOR 0x173848a9, 0x242070db, T_MASK XOR 0x3e423111,
     T_MASK XOR 0x0a83f050, 0x4787c62a, T_MASK XOR 0x57cfb9ec, T_MASK XOR 0x02b96afe,
     0x698098d8, T_MASK XOR 0x74bb0850, T_MASK XOR 0x0000a44e, T_MASK XOR 0x76a32841,
     0x6b901122, T_MASK XOR 0x02678e6c, T_MASK XOR 0x5986bc71, 0x49b40821]"

definition md5_T2 :: "md5_word_t list" where
  "md5_T2 =
    [T_MASK XOR 0x09e1da9d, T_MASK XOR 0x3fbf4cbf, 0x265e5a51, T_MASK XOR 0x16493855,
     T_MASK XOR 0x29d0efa2, 0x02441453, T_MASK XOR 0x275e197e, T_MASK XOR 0x182c0437,
     0x21e1cde6, T_MASK XOR 0x3cc8f829, T_MASK XOR 0x0b2af278, 0x455a14ed,
     T_MASK XOR 0x561c16fa, T_MASK XOR 0x03105c07, 0x676f02d9, T_MASK XOR 0x72d5b375]"

definition md5_T3 :: "md5_word_t list" where
  "md5_T3 =
    [T_MASK XOR 0x0005c6bd, T_MASK XOR 0x788e097e, 0x6d9d6122, T_MASK XOR 0x021ac7f3,
     T_MASK XOR 0x5b4115bb, 0x4bdecfa9, T_MASK XOR 0x0944b49f, T_MASK XOR 0x4140438f,
     0x289b7ec6, T_MASK XOR 0x155ed805, T_MASK XOR 0x2b10cf7a, 0x04881d05,
     T_MASK XOR 0x262b2fc6, T_MASK XOR 0x1924661a, 0x1fa27cf8, T_MASK XOR 0x3b53a99a]"

definition md5_T4 :: "md5_word_t list" where
  "md5_T4 =
    [T_MASK XOR 0x0bd6ddbb, 0x432aff97, T_MASK XOR 0x546bdc58, T_MASK XOR 0x036c5fc6,
     0x655b59c3, T_MASK XOR 0x70f3336d, T_MASK XOR 0x00100b82, T_MASK XOR 0x7a7ba22e,
     0x6fa87e4f, T_MASK XOR 0x01d3191f, T_MASK XOR 0x5cfebceb, 0x4e0811a1,
     T_MASK XOR 0x08ac817d, T_MASK XOR 0x42c50dca, 0x2ad7d2bb, T_MASK XOR 0x14792c6e]"

definition ROTATE_LEFT :: "md5_word_t \<Rightarrow> nat \<Rightarrow> md5_word_t" where
  "ROTATE_LEFT x n = (push_bit n x OR drop_bit (32 - n) x)"

definition md5_F :: "md5_word_t \<Rightarrow> md5_word_t \<Rightarrow> md5_word_t \<Rightarrow> md5_word_t" where
  "md5_F x y z = ((x AND y) OR (NOT x AND z))"

definition md5_G :: "md5_word_t \<Rightarrow> md5_word_t \<Rightarrow> md5_word_t \<Rightarrow> md5_word_t" where
  "md5_G x y z = ((x AND z) OR (y AND NOT z))"

definition md5_H :: "md5_word_t \<Rightarrow> md5_word_t \<Rightarrow> md5_word_t \<Rightarrow> md5_word_t" where
  "md5_H x y z = (x XOR y XOR z)"

definition md5_I :: "md5_word_t \<Rightarrow> md5_word_t \<Rightarrow> md5_word_t \<Rightarrow> md5_word_t" where
  "md5_I x y z = (y XOR (x OR NOT z))"

text \<open>
  SET, with the four variables in the order of the next use of SET: the calls name them (a, b, c, d),
  (d, a, b, c), (c, d, a, b), (b, c, d, a) in turn. The lists below have the arguments k and s of the calls.
\<close>

definition SET :: "(md5_word_t \<Rightarrow> md5_word_t \<Rightarrow> md5_word_t \<Rightarrow> md5_word_t) \<Rightarrow> md5_word_t list \<Rightarrow> nat \<Rightarrow> nat \<Rightarrow> md5_word_t \<Rightarrow> abcd \<Rightarrow> abcd" where
  "SET f X k s Ti v = (case v of (a, b, c, d) \<Rightarrow> let t = a + f b c d + X ! k + Ti in (d, ROTATE_LEFT t s + b, b, c))"

fun md5_round :: "(md5_word_t \<Rightarrow> md5_word_t \<Rightarrow> md5_word_t \<Rightarrow> md5_word_t) \<Rightarrow> md5_word_t list \<Rightarrow> (nat \<times> nat) list \<Rightarrow> md5_word_t list \<Rightarrow> abcd \<Rightarrow> abcd" where
  "md5_round f X ((k, s) # ks) (Ti # Ts) v = md5_round f X ks Ts (SET f X k s Ti v)"
| "md5_round f X _ _ v = v"

definition round1_args :: "(nat \<times> nat) list" where
  "round1_args =
    [(0, 7), (1, 12), (2, 17), (3, 22), (4, 7), (5, 12), (6, 17), (7, 22),
     (8, 7), (9, 12), (10, 17), (11, 22), (12, 7), (13, 12), (14, 17), (15, 22)]"

definition round2_args :: "(nat \<times> nat) list" where
  "round2_args =
    [(1, 5), (6, 9), (11, 14), (0, 20), (5, 5), (10, 9), (15, 14), (4, 20),
     (9, 5), (14, 9), (3, 14), (8, 20), (13, 5), (2, 9), (7, 14), (12, 20)]"

definition round3_args :: "(nat \<times> nat) list" where
  "round3_args =
    [(5, 4), (8, 11), (11, 16), (14, 23), (1, 4), (4, 11), (7, 16), (10, 23),
     (13, 4), (0, 11), (3, 16), (6, 23), (9, 4), (12, 11), (15, 16), (2, 23)]"

definition round4_args :: "(nat \<times> nat) list" where
  "round4_args =
    [(0, 6), (7, 10), (14, 15), (5, 21), (12, 6), (3, 10), (10, 15), (1, 21),
     (8, 6), (15, 10), (6, 15), (13, 21), (4, 6), (11, 10), (2, 15), (9, 21)]"

text \<open>The words of a block, from its bytes.\<close>

fun block_words :: "md5_byte_t list \<Rightarrow> md5_word_t list" where
  "block_words (b0 # b1 # b2 # b3 # bs) =
     (ucast b0 + push_bit 8 (ucast b1) + push_bit 16 (ucast b2) + push_bit 24 (ucast b3)) # block_words bs"
| "block_words _ = []"

definition md5_process :: "md5_byte_t list \<Rightarrow> abcd \<Rightarrow> abcd" where
  "md5_process data v0 =
     (let X = block_words data;
          (a, b, c, d) = md5_round md5_I X round4_args md5_T4 (md5_round md5_H X round3_args md5_T3
                           (md5_round md5_G X round2_args md5_T2 (md5_round md5_F X round1_args md5_T1 v0)))
      in case v0 of (a0, b0, c0, d0) \<Rightarrow> (a0 + a, b0 + b, c0 + c, d0 + d))"

section \<open>The stream\<close>

record md5_state =
  md5_count :: "md5_word_t \<times> md5_word_t"
  md5_abcd :: abcd
  md5_buf :: "md5_byte_t list"

definition md5_init :: "md5_byte_t list \<Rightarrow> md5_state" where
  "md5_init garbage = \<lparr>md5_count = (0, 0), md5_abcd = (0x67452301, T_MASK XOR 0x10325476, T_MASK XOR 0x67452301, 0x10325476), md5_buf = garbage\<rparr>"

text \<open>The loop over full blocks, with the bytes that are left.\<close>

function process_blocks :: "md5_byte_t list \<Rightarrow> abcd \<Rightarrow> md5_byte_t list \<times> abcd" where
  "process_blocks p v = (if 64 \<le> length p then process_blocks (drop 64 p) (md5_process (take 64 p) v) else (p, v))"
  by pat_completeness auto
termination by (relation "measure (\<lambda>(p, v). length p)") auto

declare process_blocks.simps [simp del]

text \<open>md5_append of all bytes of a list, whose length is an int; a shift of an int discards the high bits.\<close>

definition count_bits :: "nat \<Rightarrow> md5_word_t \<times> md5_word_t \<Rightarrow> md5_word_t \<times> md5_word_t" where
  "count_bits nbytes count =
     (case count of (lo, hi) \<Rightarrow>
        let nbits = push_bit 3 (of_nat nbytes) :: md5_word_t; hi1 = hi + word_of_int (drop_bit 29 (int nbytes)); lo1 = lo + nbits
        in (lo1, if lo1 < nbits then hi1 + 1 else hi1))"

definition md5_offset :: "md5_word_t \<times> md5_word_t \<Rightarrow> nat" where
  "md5_offset count = unat (drop_bit 3 (fst count) AND 63)"

definition append_bytes :: "md5_byte_t list \<Rightarrow> md5_state \<Rightarrow> md5_state" where
  "append_bytes data pms =
     (let nbytes = length data; offset = md5_offset (md5_count pms);
          pms1 = pms\<lparr>md5_count := count_bits nbytes (md5_count pms)\<rparr>;
          copy = (if offset + nbytes > 64 then 64 - offset else nbytes);
          buf1 = blit (md5_buf pms) offset (take copy data)
      in if offset \<noteq> 0 \<and> offset + copy < 64 then pms1\<lparr>md5_buf := buf1\<rparr>
         else let pms2 = (if offset \<noteq> 0 then pms1\<lparr>md5_buf := buf1, md5_abcd := md5_process buf1 (md5_abcd pms)\<rparr> else pms1);
                  (left, v) = process_blocks (if offset \<noteq> 0 then drop copy data else data) (md5_abcd pms2)
              in pms2\<lparr>md5_abcd := v, md5_buf := blit (md5_buf pms2) 0 left\<rparr>)"

definition md5_append :: "md5_byte_t list \<Rightarrow> md5_state \<Rightarrow> md5_state" where
  "md5_append data pms =
     (let nbytes = wrap32 (int (length data)) in if nbytes \<le> 0 then pms else append_bytes (take (nat nbytes) data) pms)"

text \<open>The bytes of words, least significant first.\<close>

definition word_bytes :: "md5_word_t \<Rightarrow> md5_byte_t list" where
  "word_bytes w = map (\<lambda>i. ucast (drop_bit (8 * i) w)) [0..<4]"

definition md5_finish :: "md5_state \<Rightarrow> md5_byte_t list" where
  "md5_finish pms =
     (let data = word_bytes (fst (md5_count pms)) @ word_bytes (snd (md5_count pms));
          pad = 0x80 # replicate 63 0;
          pms1 = md5_append (take (unat ((55 - drop_bit 3 (fst (md5_count pms))) AND 63) + 1) pad) pms;
          pms2 = md5_append data pms1
      in case md5_abcd pms2 of (a, b, c, d) \<Rightarrow> word_bytes a @ word_bytes b @ word_bytes c @ word_bytes d)"

section \<open>Digests of strings\<close>

definition bytes_of :: "string \<Rightarrow> md5_byte_t list" where
  "bytes_of s = map (\<lambda>c. word_of_int (of_char c)) s"

text \<open>The C string ends at its first NUL; the buffer of the state is not initialised.\<close>

definition conhash_md5_digest :: "md5_byte_t list \<Rightarrow> string \<Rightarrow> md5_byte_t list" where
  "conhash_md5_digest garbage instr =
     md5_finish (md5_append (bytes_of (takeWhile (\<lambda>c. c \<noteq> CHR 0x00) instr)) (md5_init garbage))"

definition digest_word :: "md5_byte_t list \<Rightarrow> nat \<Rightarrow> int" where
  "digest_word digest i = uint (digest ! (4 * i)) + uint (digest ! (4 * i + 1)) * 2 ^ 8 + uint (digest ! (4 * i + 2)) * 2 ^ 16 + uint (digest ! (4 * i + 3)) * 2 ^ 24"

definition conhash_hash_def :: "md5_byte_t list \<Rightarrow> string \<Rightarrow> int" where
  "conhash_hash_def garbage instr = (let digest = conhash_md5_digest garbage instr in (\<Sum>i \<leftarrow> [0..<4]. digest_word digest i))"

definition MD5Hash :: "md5_byte_t list \<Rightarrow> string \<Rightarrow> int" where
  "MD5Hash garbage s = (let digest = md5_finish (md5_append (bytes_of s) (md5_init garbage)) in digest_word digest 0 + digest_word digest 1 * 2 ^ 32)"

section \<open>The digest of a message\<close>

text \<open>The message with its padding and its length in bits; the digest of RFC 1321.\<close>

definition pad_length :: "nat \<Rightarrow> nat" where
  "pad_length n = nat ((55 - int n) mod 64) + 1"

definition length_bytes :: "nat \<Rightarrow> md5_byte_t list" where
  "length_bytes n = map (\<lambda>i. of_nat (8 * n div 256 ^ i)) [0..<8]"

definition md5_padded :: "md5_byte_t list \<Rightarrow> md5_byte_t list" where
  "md5_padded m = m @ take (pad_length (length m)) (0x80 # replicate 63 0) @ length_bytes (length m)"

definition md5_start :: abcd where
  "md5_start = (0x67452301, 0xefcdab89, 0x98badcfe, 0x10325476)"

definition abcd_bytes :: "abcd \<Rightarrow> md5_byte_t list" where
  "abcd_bytes v = (case v of (a, b, c, d) \<Rightarrow> word_bytes a @ word_bytes b @ word_bytes c @ word_bytes d)"

definition md5_digest :: "md5_byte_t list \<Rightarrow> md5_byte_t list" where
  "md5_digest m = abcd_bytes (snd (process_blocks (md5_padded m) md5_start))"

lemma process_blocks_short: "length p < 64 \<Longrightarrow> process_blocks p v = (p, v)"
  by (simp add: process_blocks.simps)

lemma process_blocks_append:
  "process_blocks (p @ q) v = (case process_blocks p v of (l, w) \<Rightarrow> process_blocks (l @ q) w)"
proof (induction p v rule: process_blocks.induct)
  case (1 p v)
  show ?case
  proof (cases "64 \<le> length p")
    case True
    then have "process_blocks (p @ q) v = process_blocks (drop 64 p @ q) (md5_process (take 64 p) v)"
      by (subst process_blocks.simps) simp
    then show ?thesis using 1 [OF True] True by (simp add: process_blocks.simps [of p])
  qed (simp add: process_blocks_short)
qed

lemma process_blocks_left: "length (fst (process_blocks p v)) = length p mod 64"
proof (induction p v rule: process_blocks.induct)
  case (1 p v)
  show ?case
  proof (cases "64 \<le> length p")
    case True
    then show ?thesis using 1 [OF True] by (simp add: process_blocks.simps [of p] le_mod_geq)
  qed (simp add: process_blocks_short)
qed

section \<open>Counting\<close>

definition bit_count :: "nat \<Rightarrow> md5_word_t \<times> md5_word_t" where
  "bit_count n = (of_nat (8 * n), of_nat (8 * n div 2 ^ 32))"

lemma bits_size: "(2 :: nat) ^ 32 = 8 * 2 ^ 29" by simp

lemma unat_count_low: "unat (fst (bit_count n)) = 8 * n mod 2 ^ 32"
  unfolding bit_count_def fst_conv unat_of_nat by simp

lemma bytes_counted: "unat (drop_bit 3 (fst (bit_count n))) = n mod 2 ^ 29"
proof -
  have "unat (drop_bit 3 (fst (bit_count n))) = 8 * n mod 2 ^ 32 div 8"
    unfolding unat_drop_bit_eq unat_count_low by (simp add: drop_bit_eq_div)
  then show ?thesis unfolding bits_size mult_mod_right [symmetric] by simp
qed

lemma md5_offset_count: "md5_offset (bit_count n) = n mod 64"
proof -
  have m: "unat (63 :: md5_word_t) = mask 6" by (simp add: mask_eq_exp_minus_1)
  have "md5_offset (bit_count n) = take_bit 6 (n mod 2 ^ 29)"
    unfolding md5_offset_def unsigned_and_eq m bytes_counted take_bit_eq_mask ..
  moreover have "(2 :: nat) ^ 6 dvd 2 ^ 29" by (rule le_imp_power_dvd) simp
  ultimately show ?thesis unfolding take_bit_eq_mod by (simp only: mod_mod_cancel) simp
qed

lemma carry: "(a :: nat) < M \<Longrightarrow> b < M \<Longrightarrow> (a + b) mod M < b \<longleftrightarrow> M \<le> a + b"
  by (cases "a + b < M") (auto simp: mod_if)

lemma carried_count:
  fixes n k :: nat
  shows "8 * (n + k) div 2 ^ 32 = 8 * n div 2 ^ 32 + k div 2 ^ 29 + (if 2 ^ 32 \<le> 8 * n mod 2 ^ 32 + 8 * k mod 2 ^ 32 then 1 else 0)"
proof -
  let ?s = "8 * n mod 2 ^ 32 + 8 * k mod 2 ^ 32"
  have "8 * n mod 2 ^ 32 < 2 ^ 32" and "8 * k mod 2 ^ 32 < 2 ^ 32" by simp_all
  then have "?s < 2 ^ 32 + 2 ^ 32" by (rule add_strict_mono)
  then have "?s div 2 ^ 32 = (if 2 ^ 32 \<le> ?s then 1 else 0)" by (simp only: split: if_split) (simp add: le_div_geq div_less)
  moreover have "8 * k div 2 ^ 32 = k div 2 ^ 29" unfolding bits_size by (rule div_mult_mult1) simp
  ultimately show ?thesis unfolding distrib_left div_add1_eq [of "8 * n"] by simp
qed

lemma count_bits_add: "count_bits k (bit_count n) = bit_count (n + k)"
proof -
  let ?lo = "fst (bit_count n)" and ?nb = "push_bit 3 (of_nat k) :: md5_word_t"
  have nb: "?nb = fst (bit_count k)" by (simp add: bit_count_def push_bit_eq_mult)
  have lo: "?lo + ?nb = fst (bit_count (n + k))" unfolding nb by (simp add: bit_count_def)
  have "8 * (n + k) mod 2 ^ 32 = (8 * n mod 2 ^ 32 + 8 * k mod 2 ^ 32) mod 2 ^ 32" unfolding distrib_left mod_add_eq ..
  then have c: "?lo + ?nb < ?nb \<longleftrightarrow> 2 ^ 32 \<le> 8 * n mod 2 ^ 32 + 8 * k mod 2 ^ 32"
    unfolding word_less_nat_alt lo unfolding nb unat_count_low using carry [of "8 * n mod 2 ^ 32" "2 ^ 32" "8 * k mod 2 ^ 32"] by simp
  have "word_of_int (drop_bit 29 (int k)) = (of_nat (k div 2 ^ 29) :: md5_word_t)" unfolding drop_bit_of_nat of_int_of_nat_eq unfolding drop_bit_eq_div ..
  then have "snd (bit_count n) + word_of_int (drop_bit 29 (int k)) + (if ?lo + ?nb < ?nb then 1 else 0) = snd (bit_count (n + k))"
    unfolding c unfolding bit_count_def snd_conv carried_count [of n k] by (simp only: of_nat_add) simp
  then show ?thesis using lo by (auto simp: count_bits_def Let_def case_prod_beta prod_eq_iff)
qed

section \<open>Appending pieces\<close>

text \<open>The state after the bytes m: the start of the buffer has the bytes that are not in a full block yet.\<close>

definition md5_inv :: "md5_byte_t list \<Rightarrow> md5_state \<Rightarrow> bool" where
  "md5_inv m pms \<longleftrightarrow> md5_count pms = bit_count (length m) \<and> snd (process_blocks m md5_start) = md5_abcd pms \<and>
     take (length m mod 64) (md5_buf pms) = fst (process_blocks m md5_start) \<and> length (md5_buf pms) = 64"

lemma md5_inv_init: "length garbage = 64 \<Longrightarrow> md5_inv [] (md5_init garbage)"
  by (simp add: md5_inv_def md5_init_def bit_count_def md5_start_def T_MASK_def process_blocks_short)

lemma process_full: "64 \<le> length p \<Longrightarrow> process_blocks p v = process_blocks (drop 64 p) (md5_process (take 64 p) v)"
  by (simp add: process_blocks.simps [of p])

lemma take_blit_start: "take (length xs) (blit buf 0 xs) = xs"
  by (simp add: blit_def)

lemma left_in_buffer:
  "length xs = k mod 64 \<Longrightarrow> length buf = 64 \<Longrightarrow> take (k mod 64) (blit buf 0 xs) = xs \<and> length (blit buf 0 xs) = 64"
  by (metis take_blit_start length_blit add_0 less_imp_le_nat mod_less_divisor zero_less_numeral)

lemma append_bytes_inv:
  assumes inv: "md5_inv m pms"
  shows "md5_inv (m @ data) (append_bytes data pms)"
proof -
  define r where "r = fst (process_blocks m md5_start)"
  let ?o = "length m mod 64"
  have cnt: "md5_count pms = bit_count (length m)" and b: "length (md5_buf pms) = 64" and t: "take ?o (md5_buf pms) = r"
    using inv unfolding md5_inv_def r_def by blast+
  have o: "md5_offset (md5_count pms) = ?o" unfolding cnt by (rule md5_offset_count)
  have c: "count_bits (length data) (md5_count pms) = bit_count (length (m @ data))" unfolding cnt count_bits_add length_append ..
  have lr: "length r = ?o" unfolding r_def by (rule process_blocks_left)
  have ol: "?o < 64" by simp
  have pb: "process_blocks (m @ data) md5_start = process_blocks (r @ data) (md5_abcd pms)"
    using inv by (subst process_blocks_append) (simp add: md5_inv_def r_def case_prod_beta)
  have left: "length (fst (process_blocks (r @ data) (md5_abcd pms))) = (length (m @ data)) mod 64"
    by (metis pb process_blocks_left)
  consider (inside) "?o \<noteq> 0" "?o + length data < 64" | (fill) "?o \<noteq> 0" "64 \<le> ?o + length data" | (whole) "?o = 0" by linarith
  then show ?thesis
  proof cases
    case inside
    then have "append_bytes data pms = pms\<lparr>md5_count := bit_count (length (m @ data)), md5_buf := blit (md5_buf pms) ?o data\<rparr>"
      using c by (simp add: append_bytes_def o Let_def)
    moreover have "(length m + length data) mod 64 = ?o + length data" using inside mod_add_left_eq [of "length m" 64 "length data"] by simp
    ultimately show ?thesis using inside b t lr by (simp add: md5_inv_def pb process_blocks_short blit_def)
  next
    case fill
    let ?k = "64 - ?o" and ?buf = "r @ take (64 - ?o) data"
    have copy: "(if ?o + length data > 64 then ?k else length data) = ?k" using fill by (simp split: if_split) linarith
    have buf: "blit (md5_buf pms) ?o (take ?k data) = ?buf" using fill b t by (simp add: blit_def)
    have step: "process_blocks (r @ data) (md5_abcd pms) = process_blocks (drop ?k data) (md5_process ?buf (md5_abcd pms))"
      using fill lr by (simp add: process_full)
    have "length ?buf = 64" using fill lr ol by simp
    from left_in_buffer [OF left [unfolded step] this] show ?thesis using fill c lr ol
      by (simp add: append_bytes_def o Let_def copy buf md5_inv_def pb step case_prod_beta)
  next
    case whole
    then have "r = []" using lr by simp
    from left_in_buffer [OF left b] show ?thesis using whole c unfolding \<open>r = []\<close>
      by (simp add: append_bytes_def o Let_def md5_inv_def pb \<open>r = []\<close> case_prod_beta)
  qed
qed

lemma md5_append_inv:
  assumes "md5_inv m pms" and "length data < 2 ^ 31"
  shows "md5_inv (m @ data) (md5_append data pms)"
proof -
  have w: "wrap32 (int (length data)) = int (length data)" using assms(2) by (intro wrap32_id) simp_all
  show ?thesis
    using append_bytes_inv [OF assms(1), of data] assms(1) by (cases "data = []") (simp_all add: md5_append_def w Let_def)
qed

lemma md5_append_pieces:
  "md5_inv m pms \<Longrightarrow> \<forall>p \<in> set ps. length p < 2 ^ 31 \<Longrightarrow> md5_inv (m @ concat ps) (fold md5_append ps pms)"
proof (induction ps arbitrary: m pms)
  case (Cons p ps)
  have "md5_inv (m @ p) (md5_append p pms)" using Cons.prems by (intro md5_append_inv) simp_all
  then show ?case using Cons.IH [of "m @ p" "md5_append p pms"] Cons.prems(2) by simp
qed simp

section \<open>The end of the message\<close>

lemma md5_pad_count: "unat ((55 - drop_bit 3 (fst (bit_count n))) AND 63) + 1 = pad_length n"
proof -
  let ?x = "drop_bit 3 (fst (bit_count n))"
  have m: "uint (63 :: md5_word_t) = mask 6" by (simp add: mask_eq_exp_minus_1)
  have x: "uint ?x = int n mod 2 ^ 29" unfolding uint_nat bytes_counted of_nat_mod of_nat_power of_nat_numeral ..
  have "uint ((55 - ?x) AND 63) = uint (55 - ?x) mod 2 ^ 6" unfolding unsigned_and_eq m take_bit_eq_mask [symmetric] take_bit_eq_mod ..
  also have "uint (55 - ?x) = (55 - int n mod 2 ^ 29) mod 2 ^ 32" unfolding uint_word_ariths x by simp
  also have "(55 - int n mod 2 ^ 29) mod 2 ^ 32 mod 2 ^ 6 = (55 - int n mod 2 ^ 29) mod 2 ^ 6"
    by (rule mod_mod_cancel [OF le_imp_power_dvd]) simp
  also have "\<dots> = (55 - int n mod 2 ^ 29 mod 2 ^ 6) mod 2 ^ 6" unfolding mod_diff_right_eq ..
  also have "int n mod 2 ^ 29 mod 2 ^ 6 = int n mod 2 ^ 6" by (rule mod_mod_cancel [OF le_imp_power_dvd]) simp
  also have "(55 - int n mod 2 ^ 6) mod 2 ^ 6 = (55 - int n) mod 64" unfolding mod_diff_right_eq by simp
  finally show ?thesis unfolding unat_eq_nat_uint pad_length_def by simp
qed

lemma byte_of_count: "i < 4 \<Longrightarrow> ucast (drop_bit (8 * i) (of_nat N :: md5_word_t)) = (of_nat (N div 256 ^ i) :: md5_byte_t)"
proof -
  assume "i < 4"
  moreover have "N div 256 ^ i = drop_bit (8 * i) N" by (simp add: drop_bit_eq_div power_mult)
  ultimately show ?thesis by (intro bit_word_eqI) (auto simp: bit_simps)
qed

lemma count_bytes: "word_bytes (fst (bit_count n)) @ word_bytes (snd (bit_count n)) = length_bytes n"
proof -
  have u: "[0..<4] = [0, 1, 2, 3 :: nat]" and v: "[0..<8] = [0, 1, 2, 3, 4, 5, 6, 7 :: nat]" by (simp_all add: upt_rec)
  have "word_bytes (fst (bit_count n)) = map (\<lambda>i. of_nat (8 * n div 256 ^ i)) [0..<4]"
    unfolding word_bytes_def bit_count_def fst_conv by (intro map_cong refl byte_of_count) simp
  moreover have "word_bytes (snd (bit_count n)) = map (\<lambda>i. of_nat (8 * n div 2 ^ 32 div 256 ^ i)) [0..<4]"
    unfolding word_bytes_def bit_count_def snd_conv by (intro map_cong refl byte_of_count) simp
  ultimately show ?thesis unfolding length_bytes_def u v by (simp add: div_mult2_eq [symmetric])
qed

lemma md5_finish_digest:
  assumes "md5_inv m pms"
  shows "md5_finish pms = md5_digest m"
proof -
  let ?pad = "take (pad_length (length m)) (0x80 # replicate 63 0) :: md5_byte_t list"
  have c: "md5_count pms = bit_count (length m)" using assms unfolding md5_inv_def by blast
  have "md5_inv (m @ ?pad) (md5_append ?pad pms)" using assms by (rule md5_append_inv) simp
  then have "md5_inv ((m @ ?pad) @ length_bytes (length m)) (md5_append (length_bytes (length m)) (md5_append ?pad pms))"
    by (rule md5_append_inv) (simp add: length_bytes_def)
  then show ?thesis unfolding md5_finish_def c Let_def md5_pad_count count_bytes
    by (simp add: md5_inv_def md5_digest_def md5_padded_def abcd_bytes_def)
qed

lemma md5_padded_blocks: "64 dvd length (md5_padded m)"
proof -
  have "int (length (md5_padded m)) = int (length m) + (55 - int (length m)) mod 64 + 9"
    by (simp add: md5_padded_def pad_length_def length_bytes_def)
  moreover have "(55 - int (length m)) mod 64 + (int (length m) + 9) = 64 * (1 - (55 - int (length m)) div 64)"
    using mod_mult_div_eq [of "55 - int (length m)" 64] by (simp add: algebra_simps)
  ultimately have "int (length (md5_padded m)) = 64 * (1 - (55 - int (length m)) div 64)" by simp
  then have "int 64 dvd int (length (md5_padded m))" by simp
  then show ?thesis unfolding int_dvd_int_iff .
qed



text \<open>The digest of RFC 1321 of the empty message.\<close>

lemma md5_block_empty: "abcd_bytes (md5_process (0x80 # replicate 63 0) md5_start) =
    [0xd4, 0x1d, 0x8c, 0xd9, 0x8f, 0x00, 0xb2, 0x04, 0xe9, 0x80, 0x09, 0x98, 0xec, 0xf8, 0x42, 0x7e]"
  by code_simp

lemma md5_test_empty:
  "md5_digest [] = [0xd4, 0x1d, 0x8c, 0xd9, 0x8f, 0x00, 0xb2, 0x04, 0xe9, 0x80, 0x09, 0x98, 0xec, 0xf8, 0x42, 0x7e]"
proof -
  have p: "md5_padded [] = 0x80 # replicate 63 0"
    by (simp add: md5_padded_def pad_length_def length_bytes_def numeral_eq_Suc)
  show ?thesis unfolding md5_digest_def p md5_block_empty [symmetric] by (simp add: process_blocks.simps)
qed

section \<open>The hash values\<close>

lemma mod_add_small: "0 < (M :: int) \<Longrightarrow> 0 \<le> b \<Longrightarrow> b < M \<Longrightarrow> (k + b) mod M = (if k mod M + b < M then k mod M + b else k mod M + b - M)"
proof -
  assume M: "0 < M" and b: "0 \<le> b" "b < M"
  have e: "(k + b) mod M = (k mod M + b) mod M" by (simp add: mod_add_left_eq)
  have r: "0 \<le> k mod M" "k mod M < M" using M by simp_all
  show ?thesis
  proof (cases "k mod M + b < M")
    case True
    then show ?thesis unfolding e using r b by (simp add: mod_pos_pos_trivial)
  next
    case False
    then have "(k mod M + b - M) mod M = k mod M + b - M" using r b by (intro mod_pos_pos_trivial) linarith+
    then show ?thesis unfolding e using False by (simp add: minus_mod_self2)
  qed
qed

text \<open>A length whose low 32 bits read as a negative int or zero: nothing is appended, so that the hash is that of the empty string.\<close>

lemma md5_append_oversized: "2 ^ 31 \<le> length data mod 2 ^ 32 \<or> length data mod 2 ^ 32 = 0 \<Longrightarrow> md5_append data pms = pms"
proof -
  assume a: "2 ^ 31 \<le> length data mod 2 ^ 32 \<or> length data mod 2 ^ 32 = 0"
  define k where "k = int (length data)"
  have "2 ^ 31 \<le> k mod 2 ^ 32 \<or> k mod 2 ^ 32 = 0" using a unfolding k_def by (simp add: nat_mod_as_int) linarith
  moreover have "k mod 2 ^ 32 < 2 ^ 32" by simp
  moreover have "(k + 2 ^ 31) mod 2 ^ 32 = (if k mod 2 ^ 32 + 2 ^ 31 < 2 ^ 32 then k mod 2 ^ 32 + 2 ^ 31 else k mod 2 ^ 32 + 2 ^ 31 - 2 ^ 32)"
    by (rule mod_add_small) simp_all
  ultimately have "(k + 2 ^ 31) mod 2 ^ 32 \<le> 2 ^ 31" by (simp split: if_splits)
  then have "wrap32 k \<le> 0" unfolding wrap32_def by simp
  then show ?thesis by (simp add: md5_append_def k_def)
qed

lemma digest_word_bounds: "0 \<le> digest_word digest i \<and> digest_word digest i < 2 ^ 32"
proof -
  have "0 \<le> uint (b :: md5_byte_t) \<and> uint b \<le> 255" for b using uint_lt2p [of b] by simp
  from this [of "digest ! (4 * i)"] this [of "digest ! (4 * i + 1)"] this [of "digest ! (4 * i + 2)"] this [of "digest ! (4 * i + 3)"]
  show ?thesis unfolding digest_word_def by simp
qed

lemma length_bytes_of [simp]: "length (bytes_of s) = length s"
  by (simp add: bytes_of_def)

lemma one_append:
  assumes "length garbage = 64" and "length data < 2 ^ 31"
  shows "md5_finish (md5_append data (md5_init garbage)) = md5_digest data"
  using md5_append_inv [OF md5_inv_init [OF assms(1)] assms(2)] by (simp add: md5_finish_digest)

lemma conhash_md5_digest_eq:
  assumes "length garbage = 64" and "length s < 2 ^ 31"
  shows "conhash_md5_digest garbage s = md5_digest (bytes_of (takeWhile (\<lambda>c. c \<noteq> CHR 0x00) s))"
proof -
  have "length (takeWhile (\<lambda>c. c \<noteq> CHR 0x00) s) < 2 ^ 31" using length_takeWhile_le assms(2) by (rule le_less_trans)
  then show ?thesis unfolding conhash_md5_digest_def by (intro one_append assms(1)) simp
qed

text \<open>The default hash as a function of the string alone.\<close>

definition default_hash :: "string \<Rightarrow> int" where
  "default_hash s =
     (let d = md5_digest (bytes_of (takeWhile (\<lambda>c. c \<noteq> CHR 0x00) s)) in digest_word d 0 + digest_word d 1 + digest_word d 2 + digest_word d 3)"

lemma conhash_hash_eq:
  assumes "length garbage = 64" and "length s < 2 ^ 31"
  shows "conhash_hash_def garbage s = default_hash s"
proof -
  have u: "[0..<4] = [0, 1, 2, 3 :: nat]" by (simp add: upt_rec)
  show ?thesis by (simp add: conhash_hash_def_def default_hash_def conhash_md5_digest_eq [OF assms] u Let_def)
qed

lemma default_hash_range: "0 \<le> default_hash s \<and> default_hash s < 2 ^ 34"
proof -
  let ?d = "md5_digest (bytes_of (takeWhile (\<lambda>c. c \<noteq> CHR 0x00) s))"
  show ?thesis
    using digest_word_bounds [of ?d 0] digest_word_bounds [of ?d 1] digest_word_bounds [of ?d 2] digest_word_bounds [of ?d 3]
    by (simp add: default_hash_def Let_def)
qed

lemma MD5Hash_range:
  assumes "length garbage = 64" and "length s < 2 ^ 31"
  shows "MD5Hash garbage s = digest_word (md5_digest (bytes_of s)) 0 + digest_word (md5_digest (bytes_of s)) 1 * 2 ^ 32
         \<and> 0 \<le> MD5Hash garbage s \<and> MD5Hash garbage s < 2 ^ 64"
  using digest_word_bounds [of "md5_digest (bytes_of s)" 0] digest_word_bounds [of "md5_digest (bytes_of s)" 1]
    one_append [OF assms(1), of "bytes_of s"] assms(2)
  by (simp add: MD5Hash_def Let_def)

end
