(* ===== verification/ConhashMd5.thy ===== *)
theory ConhashMd5
  imports Conhash Md5
begin

text \<open>
  The consistent hash with its default hash function, as the program uses it: conhash_init gets no function, so
  that the strings of the replicas and the objects are hashed by MD5 from an uninitialised state.
\<close>

definition on_default_ring :: "conhash_s \<Rightarrow> bool" where
  "on_default_ring c \<longleftrightarrow> (\<forall>e \<in> set (vnode_tree c). 0 \<le> fst e \<and> fst e < 2 ^ 34)"

lemma replica_name_short: "length (conhash_node2string node i) < 2 ^ 31"
  by (simp add: conhash_node2string_def)

lemma replica_hash: "length garbage = 64 \<Longrightarrow> conhash_hash_def garbage (conhash_node2string node i) = default_hash (conhash_node2string node i)"
  using replica_name_short by (intro conhash_hash_eq)

lemma replicas_hash:
  assumes "length garbage = 64"
  shows "conhash_add_replicas (conhash_hash_def garbage) node idx c = conhash_add_replicas default_hash node idx c"
    and "conhash_del_replicas (conhash_hash_def garbage) node idx c = conhash_del_replicas default_hash node idx c"
  unfolding conhash_add_replicas_def conhash_del_replicas_def
  by (intro fold_cong refl ext; simp add: add_replica_def del_replica_def replica_hash [OF assms])+

lemma add_replicas_on_ring: "on_default_ring c \<Longrightarrow> on_default_ring (conhash_add_replicas default_hash node idx c)"
proof -
  have "on_default_ring c \<Longrightarrow> on_default_ring (fold (add_replica default_hash node idx) is c)" for "is"
  proof (induction "is" arbitrary: c)
    case (Cons i "is")
    have "on_default_ring (add_replica default_hash node idx i c)"
      using Cons.prems default_hash_range set_smap_insert [of _ idx "vnode_tree c"]
      by (fastforce simp: on_default_ring_def add_replica_def Let_def)
    then show ?case using Cons.IH by simp
  qed simp
  then show "on_default_ring c \<Longrightarrow> ?thesis" unfolding conhash_add_replicas_def .
qed

lemma set_smap_erase_subset: "set (smap_erase k m) \<subseteq> set m"
  by (induction m) (auto split: if_splits)

lemma del_replicas_on_ring: "on_default_ring c \<Longrightarrow> on_default_ring (conhash_del_replicas default_hash node idx c)"
proof -
  have "on_default_ring c \<Longrightarrow> on_default_ring (fold (del_replica default_hash node idx) is c)" for "is"
  proof (induction "is" arbitrary: c)
    case (Cons i "is")
    have "on_default_ring (del_replica default_hash node idx i c)"
      using Cons.prems set_smap_erase_subset [of _ "vnode_tree c"]
      by (auto simp: on_default_ring_def del_replica_def Let_def)
    then show ?case using Cons.IH by simp
  qed simp
  then show "on_default_ring c \<Longrightarrow> ?thesis" unfolding conhash_del_replicas_def .
qed

text \<open>
  The ring on its default hash function. Adding and deleting nodes and looking up objects are functions of the
  names alone: the uninitialised MD5 states of the calls do not matter, although they differ from call to call.
  The positions stay between 0 and 2^34.
\<close>

theorem default_ring:
  assumes "length garbage = 64" and "on_default_ring c" and "length object < 2 ^ 31"
  shows "conhash_add_node (conhash_hash_def garbage) idx nodes c = conhash_add_node default_hash idx nodes c
         \<and> conhash_del_node (conhash_hash_def garbage) idx nodes c = conhash_del_node default_hash idx nodes c
         \<and> on_default_ring (snd (snd (conhash_add_node default_hash idx nodes c)))
         \<and> on_default_ring (snd (snd (conhash_del_node default_hash idx nodes c)))
         \<and> conhash_lookup (conhash_hash_def garbage) c object = conhash_lookup default_hash c object"
proof -
  have "conhash_add_node (conhash_hash_def garbage) idx nodes c = conhash_add_node default_hash idx nodes c"
    by (simp add: conhash_add_node_def replicas_hash [OF assms(1)] Let_def)
  moreover have "conhash_del_node (conhash_hash_def garbage) idx nodes c = conhash_del_node default_hash idx nodes c"
    by (simp add: conhash_del_node_def replicas_hash [OF assms(1)] Let_def)
  moreover have "on_default_ring (snd (snd (conhash_add_node default_hash idx nodes c)))"
    using assms(2) add_replicas_on_ring by (simp add: conhash_add_node_def Let_def)
  moreover have "on_default_ring (snd (snd (conhash_del_node default_hash idx nodes c)))"
    using assms(2) del_replicas_on_ring by (simp add: conhash_del_node_def Let_def)
  moreover have "conhash_lookup (conhash_hash_def garbage) c object = conhash_lookup default_hash c object"
    by (simp add: conhash_lookup_def conhash_hash_eq [OF assms(1, 3)])
  ultimately show ?thesis by blast
qed

theorem default_ring_witness:
  "conhash_add_node (conhash_hash_def (replicate 64 7)) 0 [conhash_set_node ''10.0.0.1:80'' 3] conhash_init
   = conhash_add_node (conhash_hash_def (replicate 64 9)) 0 [conhash_set_node ''10.0.0.1:80'' 3] conhash_init"
proof -
  have "on_default_ring conhash_init" by (simp add: on_default_ring_def conhash_init_def)
  then show ?thesis using default_ring [of "replicate 64 7" conhash_init "''task''"] default_ring [of "replicate 64 9" conhash_init "''task''"] by simp
qed

end
