(* ===== verification/Md5Hash.thy ===== *)
theory Md5Hash
  imports Md5
begin

text \<open>
  The second MD5 of the repository, src/utils/md5_hash.cc, on a machine of either byte order: little tells whether
  the least significant byte of a word comes first in memory. It computes the digests of src/libconhash/md5.c
  (theory Md5) on both; MD5Hash reads 8 bytes of a digest as an integer of the machine, so that its value differs.
\<close>

section \<open>Words in memory\<close>

definition in_memory :: "bool \<Rightarrow> md5_word_t \<Rightarrow> md5_byte_t list" where
  "in_memory little w = (if little then word_bytes w else rev (word_bytes w))"

fun bytes_value :: "md5_byte_t list \<Rightarrow> int" where
  "bytes_value [] = 0"
| "bytes_value (b # bs) = uint b + 256 * bytes_value bs"

definition load :: "bool \<Rightarrow> md5_byte_t list \<Rightarrow> int" where
  "load little bs = bytes_value (if little then bs else rev bs)"

text \<open>The words of a block: read from memory on a little-endian machine, which a test of the memory of 1 finds, else composed.\<close>

definition mh_words :: "bool \<Rightarrow> md5_byte_t list \<Rightarrow> md5_word_t list" where
  "mh_words little data =
     (if hd (in_memory little 1) \<noteq> 0
      then map (\<lambda>i. word_of_int (load little (take 4 (drop (4 * i) data)))) [0..<16]
      else map (\<lambda>i. ucast (data ! (4 * i)) + push_bit 8 (ucast (data ! (4 * i + 1))) + push_bit 16 (ucast (data ! (4 * i + 2)))
                    + push_bit 24 (ucast (data ! (4 * i + 3)))) [0..<16])"

section \<open>One block\<close>

definition mh_T :: "md5_word_t list" where
  "mh_T =
    [T_MASK XOR 0x28955b87, T_MASK XOR 0x173848a9, 0x242070db, T_MASK XOR 0x3e423111,
     T_MASK XOR 0x0a83f050, 0x4787c62a, T_MASK XOR 0x57cfb9ec, T_MASK XOR 0x02b96afe,
     0x698098d8, T_MASK XOR 0x74bb0850, T_MASK XOR 0x0000a44e, T_MASK XOR 0x76a32841,
     0x6b901122, T_MASK XOR 0x02678e6c, T_MASK XOR 0x5986bc71, 0x49b40821,
     T_MASK XOR 0x09e1da9d, T_MASK XOR 0x3fbf4cbf, 0x265e5a51, T_MASK XOR 0x16493855,
     T_MASK XOR 0x29d0efa2, 0x02441453, T_MASK XOR 0x275e197e, T_MASK XOR 0x182c0437,
     0x21e1cde6, T_MASK XOR 0x3cc8f829, T_MASK XOR 0x0b2af278, 0x455a14ed,
     T_MASK XOR 0x561c16fa, T_MASK XOR 0x03105c07, 0x676f02d9, T_MASK XOR 0x72d5b375,
     T_MASK XOR 0x0005c6bd, T_MASK XOR 0x788e097e, 0x6d9d6122, T_MASK XOR 0x021ac7f3,
     T_MASK XOR 0x5b4115bb, 0x4bdecfa9, T_MASK XOR 0x0944b49f, T_MASK XOR 0x4140438f,
     0x289b7ec6, T_MASK XOR 0x155ed805, T_MASK XOR 0x2b10cf7a, 0x04881d05,
     T_MASK XOR 0x262b2fc6, T_MASK XOR 0x1924661a, 0x1fa27cf8, T_MASK XOR 0x3b53a99a,
     T_MASK XOR 0x0bd6ddbb, 0x432aff97, T_MASK XOR 0x546bdc58, T_MASK XOR 0x036c5fc6,
     0x655b59c3, T_MASK XOR 0x70f3336d, T_MASK XOR 0x00100b82, T_MASK XOR 0x7a7ba22e,
     0x6fa87e4f, T_MASK XOR 0x01d3191f, T_MASK XOR 0x5cfebceb, 0x4e0811a1,
     T_MASK XOR 0x08ac817d, T_MASK XOR 0x42c50dca, 0x2ad7d2bb, T_MASK XOR 0x14792c6e]"

definition mh_SET :: "(md5_word_t \<Rightarrow> md5_word_t \<Rightarrow> md5_word_t \<Rightarrow> md5_word_t) \<Rightarrow> md5_word_t list \<Rightarrow> md5_word_t \<Rightarrow> md5_word_t \<Rightarrow> md5_word_t \<Rightarrow> md5_word_t \<Rightarrow> nat \<Rightarrow> nat \<Rightarrow> md5_word_t \<Rightarrow> md5_word_t" where
  "mh_SET f X a b c d k s Ti = (let t = a + f b c d + X ! k + Ti in ROTATE_LEFT t s + b)"

definition mh_round1 :: "md5_word_t list \<Rightarrow> abcd \<Rightarrow> abcd" where
  "mh_round1 X v =
     (case v of (a, b, c, d) \<Rightarrow>
      let a = mh_SET md5_F X a b c d 0 7 (mh_T ! 0);
          d = mh_SET md5_F X d a b c 1 12 (mh_T ! 1);
          c = mh_SET md5_F X c d a b 2 17 (mh_T ! 2);
          b = mh_SET md5_F X b c d a 3 22 (mh_T ! 3);
          a = mh_SET md5_F X a b c d 4 7 (mh_T ! 4);
          d = mh_SET md5_F X d a b c 5 12 (mh_T ! 5);
          c = mh_SET md5_F X c d a b 6 17 (mh_T ! 6);
          b = mh_SET md5_F X b c d a 7 22 (mh_T ! 7);
          a = mh_SET md5_F X a b c d 8 7 (mh_T ! 8);
          d = mh_SET md5_F X d a b c 9 12 (mh_T ! 9);
          c = mh_SET md5_F X c d a b 10 17 (mh_T ! 10);
          b = mh_SET md5_F X b c d a 11 22 (mh_T ! 11);
          a = mh_SET md5_F X a b c d 12 7 (mh_T ! 12);
          d = mh_SET md5_F X d a b c 13 12 (mh_T ! 13);
          c = mh_SET md5_F X c d a b 14 17 (mh_T ! 14);
          b = mh_SET md5_F X b c d a 15 22 (mh_T ! 15)
      in (a, b, c, d))"

definition mh_round2 :: "md5_word_t list \<Rightarrow> abcd \<Rightarrow> abcd" where
  "mh_round2 X v =
     (case v of (a, b, c, d) \<Rightarrow>
      let a = mh_SET md5_G X a b c d 1 5 (mh_T ! 16);
          d = mh_SET md5_G X d a b c 6 9 (mh_T ! 17);
          c = mh_SET md5_G X c d a b 11 14 (mh_T ! 18);
          b = mh_SET md5_G X b c d a 0 20 (mh_T ! 19);
          a = mh_SET md5_G X a b c d 5 5 (mh_T ! 20);
          d = mh_SET md5_G X d a b c 10 9 (mh_T ! 21);
          c = mh_SET md5_G X c d a b 15 14 (mh_T ! 22);
          b = mh_SET md5_G X b c d a 4 20 (mh_T ! 23);
          a = mh_SET md5_G X a b c d 9 5 (mh_T ! 24);
          d = mh_SET md5_G X d a b c 14 9 (mh_T ! 25);
          c = mh_SET md5_G X c d a b 3 14 (mh_T ! 26);
          b = mh_SET md5_G X b c d a 8 20 (mh_T ! 27);
          a = mh_SET md5_G X a b c d 13 5 (mh_T ! 28);
          d = mh_SET md5_G X d a b c 2 9 (mh_T ! 29);
          c = mh_SET md5_G X c d a b 7 14 (mh_T ! 30);
          b = mh_SET md5_G X b c d a 12 20 (mh_T ! 31)
      in (a, b, c, d))"

definition mh_round3 :: "md5_word_t list \<Rightarrow> abcd \<Rightarrow> abcd" where
  "mh_round3 X v =
     (case v of (a, b, c, d) \<Rightarrow>
      let a = mh_SET md5_H X a b c d 5 4 (mh_T ! 32);
          d = mh_SET md5_H X d a b c 8 11 (mh_T ! 33);
          c = mh_SET md5_H X c d a b 11 16 (mh_T ! 34);
          b = mh_SET md5_H X b c d a 14 23 (mh_T ! 35);
          a = mh_SET md5_H X a b c d 1 4 (mh_T ! 36);
          d = mh_SET md5_H X d a b c 4 11 (mh_T ! 37);
          c = mh_SET md5_H X c d a b 7 16 (mh_T ! 38);
          b = mh_SET md5_H X b c d a 10 23 (mh_T ! 39);
          a = mh_SET md5_H X a b c d 13 4 (mh_T ! 40);
          d = mh_SET md5_H X d a b c 0 11 (mh_T ! 41);
          c = mh_SET md5_H X c d a b 3 16 (mh_T ! 42);
          b = mh_SET md5_H X b c d a 6 23 (mh_T ! 43);
          a = mh_SET md5_H X a b c d 9 4 (mh_T ! 44);
          d = mh_SET md5_H X d a b c 12 11 (mh_T ! 45);
          c = mh_SET md5_H X c d a b 15 16 (mh_T ! 46);
          b = mh_SET md5_H X b c d a 2 23 (mh_T ! 47)
      in (a, b, c, d))"

definition mh_round4 :: "md5_word_t list \<Rightarrow> abcd \<Rightarrow> abcd" where
  "mh_round4 X v =
     (case v of (a, b, c, d) \<Rightarrow>
      let a = mh_SET md5_I X a b c d 0 6 (mh_T ! 48);
          d = mh_SET md5_I X d a b c 7 10 (mh_T ! 49);
          c = mh_SET md5_I X c d a b 14 15 (mh_T ! 50);
          b = mh_SET md5_I X b c d a 5 21 (mh_T ! 51);
          a = mh_SET md5_I X a b c d 12 6 (mh_T ! 52);
          d = mh_SET md5_I X d a b c 3 10 (mh_T ! 53);
          c = mh_SET md5_I X c d a b 10 15 (mh_T ! 54);
          b = mh_SET md5_I X b c d a 1 21 (mh_T ! 55);
          a = mh_SET md5_I X a b c d 8 6 (mh_T ! 56);
          d = mh_SET md5_I X d a b c 15 10 (mh_T ! 57);
          c = mh_SET md5_I X c d a b 6 15 (mh_T ! 58);
          b = mh_SET md5_I X b c d a 13 21 (mh_T ! 59);
          a = mh_SET md5_I X a b c d 4 6 (mh_T ! 60);
          d = mh_SET md5_I X d a b c 11 10 (mh_T ! 61);
          c = mh_SET md5_I X c d a b 2 15 (mh_T ! 62);
          b = mh_SET md5_I X b c d a 9 21 (mh_T ! 63)
      in (a, b, c, d))"

definition mh_process :: "bool \<Rightarrow> md5_byte_t list \<Rightarrow> md5_state \<Rightarrow> md5_state" where
  "mh_process little data pms =
     (let X = mh_words little data; (a, b, c, d) = mh_round4 X (mh_round3 X (mh_round2 X (mh_round1 X (md5_abcd pms))))
      in case md5_abcd pms of (a0, b0, c0, d0) \<Rightarrow> pms\<lparr>md5_abcd := (a0 + a, b0 + b, c0 + c, d0 + d)\<rparr>)"

section \<open>The stream\<close>

definition mh_init :: "md5_byte_t list \<Rightarrow> md5_state" where
  "mh_init garbage = \<lparr>md5_count = (0, 0), md5_abcd = (0x67452301, T_MASK XOR 0x10325476, T_MASK XOR 0x67452301, 0x10325476), md5_buf = garbage\<rparr>"

text \<open>The loop over full blocks: the bytes left with the state.\<close>

function mh_blocks :: "bool \<Rightarrow> md5_byte_t list \<Rightarrow> md5_state \<Rightarrow> md5_byte_t list \<times> md5_state" where
  "mh_blocks little p pms = (if 64 \<le> length p then mh_blocks little (drop 64 p) (mh_process little (take 64 p) pms) else (p, pms))"
  by pat_completeness auto
termination by (relation "measure (\<lambda>(little, p, pms). length p)") auto

declare mh_blocks.simps [simp del]

definition mh_append :: "bool \<Rightarrow> md5_byte_t list \<Rightarrow> md5_state \<Rightarrow> md5_state" where
  "mh_append little data pms =
     (let nbytes = wrap32 (int (length data)); offset = unat (drop_bit 3 (fst (md5_count pms)) AND 63); nbits = word_of_int (nbytes * 8)
      in if nbytes \<le> 0 then pms
         else let n = nat nbytes; p = take n data; count0 = fst (md5_count pms) + nbits; count1 = snd (md5_count pms) + word_of_int (nbytes div 2 ^ 29);
                  pms1 = pms\<lparr>md5_count := (count0, if count0 < nbits then count1 + 1 else count1)\<rparr>
              in if offset = 0
                 then (case mh_blocks little p pms1 of (left, pms2) \<Rightarrow> pms2\<lparr>md5_buf := blit (md5_buf pms2) 0 left\<rparr>)
                 else let copy = (if offset + n > 64 then 64 - offset else n); pms2 = pms1\<lparr>md5_buf := blit (md5_buf pms1) offset (take copy p)\<rparr>
                      in if offset + copy < 64 then pms2
                         else (case mh_blocks little (drop copy p) (mh_process little (md5_buf pms2) pms2) of
                                 (left, pms3) \<Rightarrow> pms3\<lparr>md5_buf := blit (md5_buf pms3) 0 left\<rparr>))"

definition mh_finish :: "bool \<Rightarrow> md5_state \<Rightarrow> md5_byte_t list" where
  "mh_finish little pms =
     (let data = map (\<lambda>i. ucast (drop_bit (8 * (i mod 4)) (if i < 4 then fst (md5_count pms) else snd (md5_count pms)))) [0..<8];
          pad = 0x80 # replicate 63 0;
          pms1 = mh_append little (take (unat ((55 - drop_bit 3 (fst (md5_count pms))) AND 63) + 1) pad) pms;
          pms2 = mh_append little data pms1
      in case md5_abcd pms2 of (a, b, c, d) \<Rightarrow> map (\<lambda>i. ucast (drop_bit (8 * (i mod 4)) ([a, b, c, d] ! (i div 4)))) [0..<16])"

text \<open>MD5Hash of a string: 8 bytes of the digest, read as an integer.\<close>

definition mh_MD5Hash :: "bool \<Rightarrow> md5_byte_t list \<Rightarrow> string \<Rightarrow> int" where
  "mh_MD5Hash little garbage s =
     load little (take 8 (mh_finish little (mh_append little (bytes_of s) (mh_init garbage))))"

section \<open>The rounds\<close>

text \<open>A round of theory Md5 one assignment at a time.\<close>

lemma md5_round_let:
  "md5_round f X ((k, s) # ks) (Ti # Ts) (a, b, c, d) = (let e = mh_SET f X a b c d k s Ti in md5_round f X ks Ts (d, e, b, c))"
  by (simp add: SET_def mh_SET_def Let_def)

lemma md5_round_end: "md5_round f X [] [] v = v"
  by simp

lemma mh_T1: "md5_T1 = [mh_T ! 0, mh_T ! 1, mh_T ! 2, mh_T ! 3, mh_T ! 4, mh_T ! 5, mh_T ! 6, mh_T ! 7, mh_T ! 8, mh_T ! 9, mh_T ! 10, mh_T ! 11, mh_T ! 12, mh_T ! 13, mh_T ! 14, mh_T ! 15]"
  by (simp add: mh_T_def md5_T1_def)

lemma mh_round1_eq: "mh_round1 X v = md5_round md5_F X round1_args md5_T1 v"
  by (cases v) (simp only: mh_round1_def prod.case round1_args_def mh_T1 md5_round_let md5_round_end)

lemma mh_T2: "md5_T2 = [mh_T ! 16, mh_T ! 17, mh_T ! 18, mh_T ! 19, mh_T ! 20, mh_T ! 21, mh_T ! 22, mh_T ! 23, mh_T ! 24, mh_T ! 25, mh_T ! 26, mh_T ! 27, mh_T ! 28, mh_T ! 29, mh_T ! 30, mh_T ! 31]"
  by (simp add: mh_T_def md5_T2_def)

lemma mh_round2_eq: "mh_round2 X v = md5_round md5_G X round2_args md5_T2 v"
  by (cases v) (simp only: mh_round2_def prod.case round2_args_def mh_T2 md5_round_let md5_round_end)

lemma mh_T3: "md5_T3 = [mh_T ! 32, mh_T ! 33, mh_T ! 34, mh_T ! 35, mh_T ! 36, mh_T ! 37, mh_T ! 38, mh_T ! 39, mh_T ! 40, mh_T ! 41, mh_T ! 42, mh_T ! 43, mh_T ! 44, mh_T ! 45, mh_T ! 46, mh_T ! 47]"
  by (simp add: mh_T_def md5_T3_def)

lemma mh_round3_eq: "mh_round3 X v = md5_round md5_H X round3_args md5_T3 v"
  by (cases v) (simp only: mh_round3_def prod.case round3_args_def mh_T3 md5_round_let md5_round_end)

lemma mh_T4: "md5_T4 = [mh_T ! 48, mh_T ! 49, mh_T ! 50, mh_T ! 51, mh_T ! 52, mh_T ! 53, mh_T ! 54, mh_T ! 55, mh_T ! 56, mh_T ! 57, mh_T ! 58, mh_T ! 59, mh_T ! 60, mh_T ! 61, mh_T ! 62, mh_T ! 63]"
  by (simp add: mh_T_def md5_T4_def)

lemma mh_round4_eq: "mh_round4 X v = md5_round md5_I X round4_args md5_T4 v"
  by (cases v) (simp only: mh_round4_def prod.case round4_args_def mh_T4 md5_round_let md5_round_end)

section \<open>The two files agree\<close>

lemma order_found: "hd (in_memory little 1) \<noteq> 0 \<longleftrightarrow> little"
proof -
  have u: "[0..<4] = [0, 1, 2, 3 :: nat]" by (simp add: upt_rec)
  show ?thesis by (cases little) (simp_all add: in_memory_def word_bytes_def u drop_bit_eq_div)
qed

lemma block_words_nth:
  "length data = 4 * n \<Longrightarrow> block_words data =
   map (\<lambda>i. ucast (data ! (4 * i)) + push_bit 8 (ucast (data ! (4 * i + 1))) + push_bit 16 (ucast (data ! (4 * i + 2)))
            + push_bit 24 (ucast (data ! (4 * i + 3)))) [0..<n]"
proof (induction n arbitrary: data)
  case (Suc n)
  have "length data = Suc (Suc (Suc (Suc (4 * n))))" using Suc.prems by simp
  then obtain b0 b1 b2 b3 bs where d: "data = b0 # b1 # b2 # b3 # bs" by (auto simp: length_Suc_conv)
  then have l: "length bs = 4 * n" using Suc.prems by simp
  show ?case unfolding d block_words.simps Suc.IH [OF l] map_upt_Suc by (simp add: add.commute)
qed simp

lemma word_of_bytes:
  "word_of_int (bytes_value [b0, b1, b2, b3]) = (ucast b0 + push_bit 8 (ucast b1) + push_bit 16 (ucast b2) + push_bit 24 (ucast b3) :: md5_word_t)"
  by (simp add: push_bit_eq_mult algebra_simps)

lemma take4: "4 * i + 4 \<le> length data \<Longrightarrow> take 4 (drop (4 * i) data) = [data ! (4 * i), data ! (4 * i + 1), data ! (4 * i + 2), data ! (4 * i + 3)]"
  by (rule nth_equalityI) (auto simp: less_Suc_eq numeral_eq_Suc nth_Cons')

lemma mh_words_eq:
  assumes "length data = 64"
  shows "mh_words little data = block_words data"
proof (cases little)
  case True
  have "mh_words little data = map (\<lambda>i. word_of_int (load little (take 4 (drop (4 * i) data)))) [0..<16]"
    unfolding mh_words_def order_found using True by simp
  also have "\<dots> = map (\<lambda>i. ucast (data ! (4 * i)) + push_bit 8 (ucast (data ! (4 * i + 1))) + push_bit 16 (ucast (data ! (4 * i + 2)))
            + push_bit 24 (ucast (data ! (4 * i + 3)))) [0..<16]"
  proof (intro map_cong refl)
    fix i assume "i \<in> set [0..<16 :: nat]"
    then have "4 * i + 4 \<le> length data" using assms by simp
    note t = take4 [OF this]
    show "word_of_int (load little (take 4 (drop (4 * i) data))) = ucast (data ! (4 * i)) + push_bit 8 (ucast (data ! (4 * i + 1)))
        + push_bit 16 (ucast (data ! (4 * i + 2))) + (push_bit 24 (ucast (data ! (4 * i + 3))) :: md5_word_t)"
      unfolding load_def t using True word_of_bytes by (simp only: if_True)
  qed
  also have "\<dots> = block_words data" using block_words_nth [of data 16] assms by simp
  finally show ?thesis .
next
  case False
  then show ?thesis unfolding mh_words_def order_found using block_words_nth [of data 16] assms by simp
qed

lemma mh_process_eq: "length data = 64 \<Longrightarrow> mh_process little data pms = pms\<lparr>md5_abcd := md5_process data (md5_abcd pms)\<rparr>"
  by (simp add: mh_process_def md5_process_def mh_words_eq mh_round1_eq mh_round2_eq mh_round3_eq mh_round4_eq Let_def split: prod.split)

lemma mh_blocks_eq:
  "mh_blocks little p pms = (fst (process_blocks p (md5_abcd pms)), pms\<lparr>md5_abcd := snd (process_blocks p (md5_abcd pms))\<rparr>)"
proof (induction little p pms rule: mh_blocks.induct)
  case (1 little p pms)
  show ?case
  proof (cases "64 \<le> length p")
    case True
    then show ?thesis using 1 [OF True] by (simp add: mh_blocks.simps [of little p] process_full mh_process_eq)
  qed (simp add: mh_blocks.simps [of little p] process_blocks_short)
qed

lemma md5_offset_less: "md5_offset count < 64"
proof -
  have m: "unat (63 :: md5_word_t) = mask 6" by (simp add: mask_eq_exp_minus_1)
  show ?thesis unfolding md5_offset_def unsigned_and_eq m take_bit_eq_mask [symmetric] take_bit_eq_mod by simp
qed

lemma mh_append_eq:
  assumes b: "length (md5_buf pms) = 64"
  shows "mh_append little data pms = md5_append data pms"
proof (cases "wrap32 (int (length data)) \<le> 0")
  case True
  then show ?thesis by (simp add: mh_append_def md5_append_def)
next
  case False
  define n where "n = nat (wrap32 (int (length data)))"
  have w: "wrap32 (int (length data)) = int n" using False by (simp add: n_def)
  have "(int (length data) + 2 ^ 31) mod 2 ^ 32 \<le> int (length data) + 2 ^ 31" by (rule zmod_le_nonneg_dividend) simp
  then have small: "n \<le> length data" unfolding n_def wrap32_def by simp
  define p where "p = take n data"
  have lp: "length p = n" using small by (simp add: p_def)
  have c: "count_bits n (md5_count pms) =
      (let count0 = fst (md5_count pms) + word_of_int (int n * 8); count1 = snd (md5_count pms) + word_of_int (int n div 2 ^ 29)
       in (count0, if count0 < word_of_int (int n * 8) then count1 + 1 else count1))"
    by (simp add: count_bits_def case_prod_beta Let_def push_bit_eq_mult drop_bit_eq_div mult.commute)
  have m: "md5_append data pms = append_bytes p pms" using False by (simp add: md5_append_def w p_def Let_def)
  define off where "off = md5_offset (md5_count pms)"
  have o: "unat (drop_bit 3 (fst (md5_count pms)) AND 63) = off" by (simp add: off_def md5_offset_def)
  have l: "off < 64" unfolding off_def by (rule md5_offset_less)
  note defs = m mh_append_def append_bytes_def w o off_def [symmetric] c lp p_def [symmetric]
  consider (whole) "off = 0" | (inside) "off \<noteq> 0" "off + n < 64" | (fill) "off \<noteq> 0" "64 \<le> off + n" by linarith
  then show ?thesis
  proof cases
    case whole
    then show ?thesis using False by (simp add: defs Let_def mh_blocks_eq case_prod_beta)
  next
    case inside
    then show ?thesis using False by (simp add: defs Let_def)
  next
    case fill
    then have copy: "(if off + n > 64 then 64 - off else n) = 64 - off" by auto
    have "length (blit (md5_buf pms) off (take (64 - off) p)) = 64" using fill b lp l by simp
    then show ?thesis using fill False l by (simp add: defs copy Let_def mh_blocks_eq mh_process_eq case_prod_beta)
  qed
qed

text \<open>Both keep the length of the buffer.\<close>

lemma append_keeps_buffer: "length (md5_buf pms) = 64 \<Longrightarrow> length (md5_buf (md5_append data pms)) = 64"
proof -
  assume b: "length (md5_buf pms) = 64"
  have "length (fst (process_blocks q v)) < 64" for q v by (simp add: process_blocks_left)
  then have left: "length (fst (process_blocks q v)) \<le> length buf" if "length buf = 64" for q v buf using that less_imp_le_nat by metis
  have first: "length (blit (md5_buf pms) (md5_offset (md5_count pms))
      (take (if md5_offset (md5_count pms) + k > 64 then 64 - md5_offset (md5_count pms) else k) p)) = 64" for k p
    using b md5_offset_less [of "md5_count pms"] by (subst length_blit) (simp_all add: min_le_iff_disj, linarith?)
  have "length (md5_buf (append_bytes p pms)) = 64" for p
    by (simp add: append_bytes_def Let_def case_prod_beta first b left)
  then show ?thesis using b by (simp add: md5_append_def Let_def)
qed

lemma mh_append_pieces: "length (md5_buf pms) = 64 \<Longrightarrow> fold (mh_append little) ps pms = fold md5_append ps pms \<and> length (md5_buf (fold md5_append ps pms)) = 64"
  by (induction ps arbitrary: pms) (simp_all add: mh_append_eq append_keeps_buffer)

lemma mh_finish_eq: 
  assumes b: "length (md5_buf pms) = 64"
  shows "mh_finish little pms = md5_finish pms"
proof -
  have u: "[0..<4] = [0, 1, 2, 3 :: nat]" "[0..<8] = [0, 1, 2, 3, 4, 5, 6, 7 :: nat]"
      "[0..<16] = [0, 1, 2, 3, 4, 5, 6, 7, 8, 9, 10, 11, 12, 13, 14, 15 :: nat]" by (simp_all add: upt_rec)
  have bits: "map (\<lambda>i. ucast (drop_bit (8 * (i mod 4)) (if i < 4 then x else y))) [0..<8] = word_bytes x @ word_bytes y" for x y
    by (simp add: u word_bytes_def)
  have digest: "map (\<lambda>i. ucast (drop_bit (8 * (i mod 4)) ([x, y, z, t] ! (i div 4)))) [0..<16] = word_bytes x @ word_bytes y @ word_bytes z @ word_bytes t" for x y z t
    by (simp add: u word_bytes_def)
  show ?thesis unfolding mh_finish_def md5_finish_def Let_def bits digest
    by (simp only: mh_append_eq b append_keeps_buffer)
qed

lemma finish_length: "length (md5_finish pms) = 16"
  by (simp add: md5_finish_def word_bytes_def Let_def split: prod.split)

lemma first_eight: "length d = 16 \<Longrightarrow> bytes_value (take 8 d) = digest_word d 0 + digest_word d 1 * 2 ^ 32"
proof -
  assume "length d = 16"
  then have "take 8 d = [d ! 0, d ! 1, d ! 2, d ! 3, d ! 4, d ! 5, d ! 6, d ! 7]"
    by (intro nth_equalityI) (auto simp: less_Suc_eq numeral_eq_Suc nth_Cons')
  then show ?thesis by (simp add: digest_word_def numeral_eq_Suc [of "num.Bit0 num.One"])
qed

lemma mh_hash_of_digest:
  assumes "length garbage = 64"
  shows "mh_MD5Hash little garbage s = bytes_value ((if little then id else rev) (take 8 (md5_finish (md5_append (bytes_of s) (md5_init garbage)))))"
proof -
  have i: "mh_init garbage = md5_init garbage" "length (md5_buf (md5_init garbage)) = 64" using assms by (simp_all add: mh_init_def md5_init_def)
  show ?thesis by (simp add: mh_MD5Hash_def load_def i mh_append_eq mh_finish_eq append_keeps_buffer)
qed

lemma md5_hash_differs:
  "mh_MD5Hash True (replicate 64 0) [] = 0x04b2008fd98c1dd4 \<and> mh_MD5Hash False (replicate 64 0) [] = 0xd41d8cd98f00b204"
proof -
  have f: "md5_finish (md5_append (bytes_of []) (md5_init (replicate 64 0))) = md5_digest []"
    using one_append [of "replicate 64 0" "[]"] by (simp add: bytes_of_def)
  show ?thesis using mh_hash_of_digest [of "replicate 64 0" _ "[]"]
    unfolding f by (simp add: md5_test_empty)
qed

text \<open>C40: the two copies of MD5. On a machine of either byte order, md5_hash.cc has the digest that md5.c has of the message, in
  whatever pieces it is appended. MD5Hash is MD5Hash of theory Md5 on a little-endian machine; on a big-endian one the
  8 bytes count in the other order, so that machines of both kinds in one cluster do not agree on it.\<close>

theorem md5_copies_agree:
  assumes "length garbage = 64"
  shows "mh_finish little (fold (mh_append little) pieces (mh_init garbage)) = md5_finish (fold md5_append pieces (md5_init garbage))
    \<and> mh_MD5Hash True garbage s = MD5Hash garbage s
    \<and> mh_MD5Hash False garbage s = bytes_value (rev (take 8 (md5_finish (md5_append (bytes_of s) (md5_init garbage)))))"
proof -
  have i: "mh_init garbage = md5_init garbage" "length (md5_buf (md5_init garbage)) = 64" using assms by (simp_all add: mh_init_def md5_init_def)
  have "mh_finish little (fold (mh_append little) pieces (mh_init garbage)) = md5_finish (fold md5_append pieces (md5_init garbage))"
    using mh_append_pieces [OF i(2), of little pieces] by (simp add: i(1) mh_finish_eq)
  moreover have "mh_MD5Hash True garbage s = MD5Hash garbage s"
    by (simp add: mh_hash_of_digest [OF assms] first_eight finish_length MD5Hash_def Let_def)
  moreover have "mh_MD5Hash False garbage s = bytes_value (rev (take 8 (md5_finish (md5_append (bytes_of s) (md5_init garbage)))))"
    by (simp add: mh_hash_of_digest [OF assms])
  ultimately show ?thesis by blast
qed

theorem md5_copies_agree_witness:
  "mh_finish False (fold (mh_append False) [[97], [98]] (mh_init (replicate 64 7))) = md5_finish (fold md5_append [[97], [98]] (md5_init (replicate 64 7)))"
  using md5_copies_agree [of "replicate 64 7" False "[[97], [98]]"] by simp

end
