(* ===== verification/SimpleHash.thy ===== *)
theory SimpleHash
  imports Prelude
begin

text \<open>
  The hash functions of src/utils/simple_hash.cc over unsigned int, a word of 32 bits. A char is signed and
  sign-extended where it meets an unsigned int. The shifts of SDBMHash and DJBHash are shown to be the
  products of a polynomial, PJWHash and ELFHash to be the same function.
\<close>

unbundle bit_operations_syntax

type_synonym hash_t = "32 word"

section \<open>The functions\<close>

definition char_word :: "char \<Rightarrow> hash_t" where
  "char_word c = scast (of_char c :: 8 word)"

fun RSHash_loop :: "string \<Rightarrow> hash_t \<Rightarrow> hash_t \<Rightarrow> hash_t" where
  "RSHash_loop [] a hash = hash"
| "RSHash_loop (c # str) a hash = RSHash_loop str (a * 378551) (hash * a + char_word c)"

definition RSHash :: "string \<Rightarrow> hash_t" where
  "RSHash str = RSHash_loop str 63689 0"

definition JSHash :: "string \<Rightarrow> hash_t" where
  "JSHash str = fold (\<lambda>c hash. hash XOR (push_bit 5 hash + char_word c + drop_bit 2 hash)) str 1315423911"

definition PJW_HighBits :: hash_t where
  "PJW_HighBits = push_bit (32 - 4) 0xFFFFFFFF"

definition PJWHash_step :: "char \<Rightarrow> hash_t \<Rightarrow> hash_t" where
  "PJWHash_step c hash =
     (let hash1 = push_bit 4 hash + char_word c; test = hash1 AND PJW_HighBits
      in if test \<noteq> 0 then (hash1 XOR drop_bit 24 test) AND NOT PJW_HighBits else hash1)"

definition PJWHash :: "string \<Rightarrow> hash_t" where
  "PJWHash str = fold PJWHash_step str 0"

definition ELFHash_step :: "char \<Rightarrow> hash_t \<Rightarrow> hash_t" where
  "ELFHash_step c hash =
     (let hash1 = push_bit 4 hash + char_word c; x = hash1 AND 0xF0000000;
          hash2 = (if x \<noteq> 0 then hash1 XOR drop_bit 24 x else hash1)
      in hash2 AND NOT x)"

definition ELFHash :: "string \<Rightarrow> hash_t" where
  "ELFHash str = fold ELFHash_step str 0"

definition BKDRHash :: "string \<Rightarrow> hash_t" where
  "BKDRHash str = fold (\<lambda>c hash. hash * 131 + char_word c) str 0"

definition SDBMHash :: "string \<Rightarrow> hash_t" where
  "SDBMHash str = fold (\<lambda>c hash. char_word c + push_bit 6 hash + push_bit 16 hash - hash) str 0"

definition DJBHash :: "string \<Rightarrow> hash_t" where
  "DJBHash str = fold (\<lambda>c hash. (push_bit 5 hash + hash) + char_word c) str 5381"

definition DEKHash :: "string \<Rightarrow> hash_t" where
  "DEKHash str = fold (\<lambda>c hash. (push_bit 5 hash XOR drop_bit 27 hash) XOR char_word c) str (of_nat (length str))"

definition BPHash :: "string \<Rightarrow> hash_t" where
  "BPHash str = fold (\<lambda>c hash. push_bit 7 hash XOR char_word c) str 0"

definition FNVHash :: "string \<Rightarrow> hash_t" where
  "FNVHash str = fold (\<lambda>c hash. hash * 0x811C9DC5 XOR char_word c) str 0"

fun APHash_loop :: "string \<Rightarrow> nat \<Rightarrow> hash_t \<Rightarrow> hash_t" where
  "APHash_loop [] i hash = hash"
| "APHash_loop (c # str) i hash =
     APHash_loop str (Suc i)
       (hash XOR (if even i then push_bit 7 hash XOR char_word c * drop_bit 3 hash
                  else NOT (push_bit 11 hash + (char_word c XOR drop_bit 5 hash))))"

definition APHash :: "string \<Rightarrow> hash_t" where
  "APHash str = APHash_loop str 0 0xAAAAAAAA"

section \<open>Polynomials\<close>

text \<open>Horner's rule and the sum it computes.\<close>

definition polynomial_hash :: "hash_t \<Rightarrow> hash_t \<Rightarrow> string \<Rightarrow> hash_t" where
  "polynomial_hash k h str = h * k ^ length str + (\<Sum>i < length str. char_word (str ! i) * k ^ (length str - Suc i))"

lemma polynomial_hash_Cons: "polynomial_hash k h (c # str) = polynomial_hash k (h * k + char_word c) str"
  unfolding polynomial_hash_def list.size add_0_right add_Suc_right sum.lessThan_Suc_shift
  by (simp del: sum.lessThan_Suc add: distrib_right mult.assoc add.assoc)

lemma horner: "fold (\<lambda>c h. h * k + char_word c) str h = polynomial_hash k h str"
  by (induction str arbitrary: h) (simp_all add: polynomial_hash_Cons, simp add: polynomial_hash_def)

text \<open>
  BKDRHash, SDBMHash and DJBHash are polynomials in 131, 65599 and 33 modulo 2^32, the shifts of the
  code included; DJBHash starts from 5381.
\<close>

theorem polynomial_hashes:
  "BKDRHash str = polynomial_hash 131 0 str \<and> SDBMHash str = polynomial_hash 65599 0 str \<and> DJBHash str = polynomial_hash 33 5381 str"
proof -
  have "(\<lambda>c (hash :: hash_t). char_word c + push_bit 6 hash + push_bit 16 hash - hash) = (\<lambda>c h. h * 65599 + char_word c)"
    and "(\<lambda>c (hash :: hash_t). (push_bit 5 hash + hash) + char_word c) = (\<lambda>c h. h * 33 + char_word c)"
    by (simp_all add: push_bit_eq_mult fun_eq_iff)
  then show ?thesis by (simp add: BKDRHash_def SDBMHash_def DJBHash_def horner)
qed

section \<open>Twenty-eight bits\<close>

lemma high_bits: "PJW_HighBits = 0xF0000000"
  by (simp add: PJW_HighBits_def push_bit_eq_mult)

lemma bit_high: "bit PJW_HighBits i \<longleftrightarrow> 28 \<le> i \<and> i < 32"
proof -
  have e: "PJW_HighBits = push_bit 28 (mask 4)" unfolding high_bits by (simp add: push_bit_eq_mult mask_eq_exp_minus_1)
  show ?thesis unfolding e bit_push_bit_iff bit_mask_iff by auto
qed

lemma pjw_elf_step: "PJWHash_step c h = ELFHash_step c h"
proof -
  define u where "u = push_bit 4 h + char_word c"
  define x where "x = u AND PJW_HighBits"
  have "(u XOR drop_bit 24 x) AND NOT PJW_HighBits = (u XOR drop_bit 24 x) AND NOT x"
    by (rule bit_word_eqI) (auto simp: x_def bit_simps bit_high)
  then show ?thesis
    unfolding PJWHash_step_def ELFHash_step_def high_bits [symmetric] u_def [symmetric] Let_def x_def [symmetric] by simp
qed

lemma elf_step_small: "ELFHash_step c h < 2 ^ 28"
proof -
  define u where "u = push_bit 4 h + char_word c"
  define x where "x = u AND PJW_HighBits"
  define w where "w = ((if x \<noteq> 0 then u XOR drop_bit 24 x else u) AND NOT x)"
  have "take_bit 28 w = w" unfolding w_def by (rule bit_word_eqI) (auto simp: x_def bit_simps bit_high)
  then have "unat w = take_bit 28 (unat w)" by (metis unsigned_take_bit_eq)
  then have "unat w < 2 ^ 28" by (metis take_bit_nat_less_exp)
  then have "w < 2 ^ 28" by (simp add: word_less_nat_alt)
  then show ?thesis
    unfolding ELFHash_step_def high_bits [symmetric] u_def [symmetric] Let_def x_def [symmetric] w_def .
qed

text \<open>
  PJWHash and ELFHash, written differently, are the same function, and its values have at most 28 bits.
\<close>

theorem pjw_is_elf: "PJWHash str = ELFHash str \<and> ELFHash str < 2 ^ 28"
proof
  show "PJWHash str = ELFHash str" unfolding PJWHash_def ELFHash_def by (intro fold_cong refl ext pjw_elf_step)
  show "ELFHash str < 2 ^ 28" unfolding ELFHash_def by (cases str rule: rev_cases) (simp_all add: elf_step_small [simplified])
qed

section \<open>Collisions\<close>

text \<open>Only the last five characters count for BPHash; FNVHash starts from 0, so that leading NULs do not count.\<close>

lemma bp_fold: "fold (\<lambda>c h. push_bit 7 h XOR char_word c) t h = push_bit (7 * length t) h XOR fold (\<lambda>c h. push_bit 7 h XOR char_word c) t 0"
proof (induction t arbitrary: h)
  case (Cons c t)
  show ?case
    using Cons [of "push_bit 7 h XOR char_word c"] Cons [of "char_word c"]
    by (simp add: push_bit_xor xor.assoc algebra_simps)
qed simp

lemma BPHash_suffix:
  assumes "5 \<le> length t"
  shows "BPHash (s @ t) = BPHash t"
proof -
  have "push_bit (7 * length t) h = 0" for h :: hash_t using assms by (intro bit_word_eqI) (simp add: bit_simps)
  then show ?thesis unfolding BPHash_def fold_append comp_def by (subst bp_fold) simp
qed

lemma FNVHash_leading_nul: "FNVHash (CHR 0x00 # s) = FNVHash s"
  by (simp add: FNVHash_def char_word_def)

end
