(* ===== verification/TrackerStart.thy ===== *)
theory TrackerStart
  imports TrackerMain
begin

text \<open>
  The life of a server process, main and signal_handler of src/server/tracker_main.cc and daemonize of
  src/system/daemon.cc. What the operating system answers is the record os; what the process does to
  the world is the list of its calls, in order, and the contents of the files. Signals are taken while the
  server runs, inside Tracker::Initialize.
\<close>

section \<open>The process and its system\<close>

definition EXIT_SUCCESS :: int where "EXIT_SUCCESS = 0"
definition EXIT_FAILURE :: int where "EXIT_FAILURE = 1"
definition EX_USAGE :: int where "EX_USAGE = 64"
definition EX_NOUSER :: int where "EX_NOUSER = 67"
definition EX_OSERR :: int where "EX_OSERR = 71"
definition SIGINT :: int where "SIGINT = 2"
definition SIGQUIT :: int where "SIGQUIT = 3"
definition SIGTERM :: int where "SIGTERM = 15"
definition PATH_MAX :: nat where "PATH_MAX = 4096"

lemmas start_constants = EXIT_SUCCESS_def EXIT_FAILURE_def EX_USAGE_def EX_NOUSER_def EX_OSERR_def
  SIGINT_def SIGQUIT_def SIGTERM_def

datatype main_call =
    Usage | License | Kill int | SetGid nat | SetUid nat | Logger string string string int
  | CoreUnlimited | CoreMaximum int | Fork | SetSid | ChangeDir | Dup2 nat | CloseNull
  | SavePid string | RemovePid string | Initialize settings_s | Finalize | ReleaseConfig

datatype ending = Exit int | Return int | Fault fault

record server_process =
  main_settings :: settings_s
  main_config :: config_t
  main_quit :: bool
  disk :: "string \<Rightarrow> string option"
  cwd :: string
  calls :: "main_call list"

text \<open>The limits of a core file are the current and the largest one.\<close>

record os =
  os_root :: bool
  os_passwd :: "string \<Rightarrow> (nat \<times> nat) option"
  os_setgid :: "nat \<Rightarrow> bool"
  os_setuid :: "nat \<Rightarrow> bool"
  os_core_limit :: "(int \<times> int) option"
  os_unlimited :: bool
  os_core_after :: "(int \<times> int) option"
  os_fork :: int
  os_setsid :: bool
  os_chdir :: bool
  os_open_null :: int
  os_dup2 :: "nat \<Rightarrow> bool"
  os_close :: bool
  os_getpid :: nat
  os_writable :: "string \<Rightarrow> bool"
  os_unlinkable :: "string \<Rightarrow> bool"
  os_classes :: "string list"

type_synonym 'a onward = "(ending \<times> server_process) + 'a"

definition onward :: "'a onward \<Rightarrow> ('a \<Rightarrow> 'b onward) \<Rightarrow> 'b onward" where
  "onward m f = (case m of Inl e \<Rightarrow> Inl e | Inr x \<Rightarrow> f x)"

lemma onward_simps [simp]: "onward (Inl e) f = Inl e" "onward (Inr x) f = f x"
  by (simp_all add: onward_def)

definition did :: "main_call \<Rightarrow> server_process \<Rightarrow> server_process" where
  "did c p = p\<lparr>calls := calls p @ [c]\<rparr>"

text \<open>A relative name belongs to the working directory, which is kept with a slash at its end.\<close>

definition path_of :: "server_process \<Rightarrow> string \<Rightarrow> string" where
  "path_of p name = (if take 1 name = ''/'' then name else cwd p @ name)"

section \<open>Pid files\<close>

definition save_pidfile :: "os \<Rightarrow> nat \<Rightarrow> string option \<Rightarrow> server_process \<Rightarrow> server_process" where
  "save_pidfile os pid name p =
     (case name of None \<Rightarrow> p
      | Some f \<Rightarrow> if os_writable os (path_of p f)
                  then did (SavePid (path_of p f)) (p\<lparr>disk := (disk p)(path_of p f \<mapsto> decimal pid @ [CHR 0x0A])\<rparr>) else p)"

definition remove_pidfile :: "os \<Rightarrow> string option \<Rightarrow> server_process \<Rightarrow> server_process" where
  "remove_pidfile os name p =
     (case name of None \<Rightarrow> p
      | Some f \<Rightarrow> if disk p (path_of p f) \<noteq> None \<and> os_unlinkable os (path_of p f)
                  then did (RemovePid (path_of p f)) (p\<lparr>disk := (disk p)(path_of p f := None)\<rparr>) else p)"

text \<open>fscanf with %d.\<close>

definition scan_int :: "string \<Rightarrow> int option" where
  "scan_int s =
     (case split_sign (dropWhile is_blank s) of (neg, r) \<Rightarrow>
        if takeWhile is_digit r = [] then None else Some (wrap32 (fst (strtol 64 s))))"

definition check_server :: "string option \<Rightarrow> server_process \<Rightarrow> (int \<times> server_process) onward" where
  "check_server name p =
     (case name of None \<Rightarrow> Inl (Fault NullDeref, p)
      | Some f \<Rightarrow>
          (case disk p (path_of p f) of None \<Rightarrow> Inr (- 1, p)
           | Some s \<Rightarrow>
               (case scan_int s of None \<Rightarrow> Inr (- 1, p)
                | Some pid \<Rightarrow> Inr (0, if 0 < pid then did (Kill pid) p else p))))"

section \<open>Signals\<close>

definition signal_handler :: "os \<Rightarrow> int \<Rightarrow> server_process \<Rightarrow> server_process onward" where
  "signal_handler os sig p =
     (if sig \<noteq> SIGTERM \<and> sig \<noteq> SIGQUIT \<and> sig \<noteq> SIGINT then Inr p
      else if main_quit p then Inr p
      else let p1 = p\<lparr>main_quit := True\<rparr>;
               p2 = (if run_as_daemon (main_settings p) then remove_pidfile os (pid_file (main_settings p)) p1 else p1)
           in Inl (Exit EXIT_SUCCESS, did Finalize (did ReleaseConfig p2)))"

section \<open>The steps of main\<close>

text \<open>The options as getopt yields them; the buffer of the name has PATH_MAX bytes.\<close>

datatype main_option = Opt_f string | Opt_h | Opt_i | Opt_other

fun get_options :: "main_option list \<Rightarrow> string \<Rightarrow> server_process \<Rightarrow> string onward" where
  "get_options [] name p = Inr name"
| "get_options (Opt_f f # opts) name p = (if PATH_MAX \<le> length f then Inl (Fault OutOfBounds, p) else get_options opts f p)"
| "get_options (Opt_h # opts) name p = Inl (Exit EXIT_SUCCESS, did Usage p)"
| "get_options (Opt_i # opts) name p = Inl (Exit EXIT_SUCCESS, did License p)"
| "get_options (Opt_other # opts) name p = Inl (Exit EXIT_SUCCESS, did Usage p)"

definition process_arguments :: "nat \<Rightarrow> main_option list \<Rightarrow> server_process \<Rightarrow> string onward" where
  "process_arguments argc opts p =
     (if argc = 1 then Inl (Exit EXIT_SUCCESS, did Usage p) else get_options opts [] p)"

text \<open>CHECK_EQ of LoadConfig.\<close>

definition load_step :: "(nat \<Rightarrow> string) \<Rightarrow> string \<Rightarrow> server_process \<Rightarrow> server_process onward" where
  "load_step raw name p =
     (case LoadConfig 64 raw (\<lambda>f. disk p (path_of p f)) name (main_settings p) (main_config p) of
        Inl e \<Rightarrow> Inl (Fault e, p)
      | Inr (ok, st, d) \<Rightarrow> let p1 = p\<lparr>main_settings := st, main_config := d\<rparr> in if ok then Inr p1 else Inl (Fault Abort, p1))"

definition check_step :: "server_process \<Rightarrow> server_process onward" where
  "check_step p =
     (if run_as_daemon (main_settings p) then onward (check_server (pid_file (main_settings p)) p) (\<lambda>(rc, p1). Inr p1) else Inr p)"

definition switch_user :: "os \<Rightarrow> server_process \<Rightarrow> server_process onward" where
  "switch_user os p =
     (if \<not> os_root os then Inr p
      else (case run_by_user (main_settings p) of None \<Rightarrow> Inl (Fault NullDeref, p)
            | Some user \<Rightarrow>
                if user = [] then Inl (Exit EX_USAGE, p)
                else (case os_passwd os user of None \<Rightarrow> Inl (Exit EX_NOUSER, p)
                      | Some (uid, gid) \<Rightarrow>
                          if \<not> os_setgid os gid then Inl (Exit EX_OSERR, p)
                          else if \<not> os_setuid os uid then Inl (Exit EX_OSERR, did (SetGid gid) p)
                          else Inr (did (SetUid uid) (did (SetGid gid) p)))))"

definition logger_step :: "server_process \<Rightarrow> server_process onward" where
  "logger_step p =
     (case (info_log (main_settings p), warn_log (main_settings p), err_log (main_settings p)) of
        (Some i, Some w, Some e) \<Rightarrow> Inr (did (Logger i w e (log_max_size (main_settings p))) p)
      | _ \<Rightarrow> Inl (Fault NullDeref, p))"

definition core_step :: "os \<Rightarrow> server_process \<Rightarrow> server_process onward" where
  "core_step os p =
     (if \<not> max_core_file (main_settings p) then Inr p
      else let p1 = (case os_core_limit os of None \<Rightarrow> p
                     | Some (cur, largest) \<Rightarrow>
                         if os_unlimited os then did CoreUnlimited p else did (CoreMaximum largest) p)
           in case os_core_after os of None \<Rightarrow> Inl (Exit EXIT_FAILURE, p1)
              | Some (cur, largest) \<Rightarrow> if cur = 0 then Inl (Exit EXIT_FAILURE, p1) else Inr p1)"

text \<open>daemonize; the parent ends at the fork.\<close>

fun dup_loop :: "os \<Rightarrow> nat list \<Rightarrow> server_process \<Rightarrow> bool \<times> server_process" where
  "dup_loop os [] p = (True, p)"
| "dup_loop os (fd # fds) p = (if os_dup2 os fd then dup_loop os fds (did (Dup2 fd) p) else (False, p))"

definition close_streams :: "os \<Rightarrow> int \<Rightarrow> server_process \<Rightarrow> int \<times> server_process" where
  "close_streams os noclose p =
     (if noclose = 0 \<and> os_open_null os \<noteq> - 1
      then (case dup_loop os [0, 1, 2] p of (ok, p1) \<Rightarrow>
              if \<not> ok then (- 1, p1)
              else if 2 < os_open_null os then (if os_close os then (0, did CloseNull p1) else (- 1, p1)) else (0, p1))
      else (0, p))"

definition daemonize :: "os \<Rightarrow> int \<Rightarrow> int \<Rightarrow> server_process \<Rightarrow> (int \<times> server_process) onward" where
  "daemonize os nochdir noclose p =
     (if os_fork os = - 1 then Inr (- 1, p)
      else let p1 = did Fork p
        in if os_fork os \<noteq> 0 then Inl (Exit EXIT_SUCCESS, p1)
           else if \<not> os_setsid os then Inr (- 1, p1)
           else let p2 = did SetSid p1
             in if nochdir = 0 \<and> \<not> os_chdir os then Inr (- 1, p2)
                else Inr (close_streams os noclose (if nochdir = 0 then did ChangeDir (p2\<lparr>cwd := ''/''\<rparr>) else p2)))"

definition daemon_step :: "os \<Rightarrow> server_process \<Rightarrow> server_process onward" where
  "daemon_step os p =
     (if \<not> run_as_daemon (main_settings p) then Inr p
      else onward (daemonize os (if max_core_file (main_settings p) then 0 else 1) 1 p) (\<lambda>(res, p1).
        if res = - 1 then Inl (Return 1, p1) else Inr (save_pidfile os (os_getpid os) (pid_file (main_settings p1)) p1)))"

text \<open>Tracker::Initialize, in which the signals arrive.\<close>

fun signals_step :: "os \<Rightarrow> int list \<Rightarrow> server_process \<Rightarrow> server_process onward" where
  "signals_step os [] p = Inr p"
| "signals_step os (sig # sigs) p = onward (signal_handler os sig p) (signals_step os sigs)"

definition serve_step :: "os \<Rightarrow> int list \<Rightarrow> server_process \<Rightarrow> server_process onward" where
  "serve_step os sigs p =
     (case class_factory (main_settings p) of None \<Rightarrow> Inl (Fault NullDeref, p)
      | Some name \<Rightarrow> if name \<notin> set (os_classes os) then Inl (Fault Abort, p)
                     else signals_step os sigs (did (Initialize (main_settings p)) p))"

definition finish_step :: "os \<Rightarrow> server_process \<Rightarrow> server_process onward" where
  "finish_step os p = onward (signal_handler os 0 (did Finalize p)) (\<lambda>p1. Inl (Return 0, p1))"

definition main_until_served :: "os \<Rightarrow> (nat \<Rightarrow> string) \<Rightarrow> nat \<Rightarrow> main_option list \<Rightarrow> server_process \<Rightarrow> server_process onward" where
  "main_until_served os raw argc opts p =
     onward (process_arguments argc opts p) (\<lambda>name.
     onward (load_step raw name p) (\<lambda>p1.
     onward (check_step p1) (\<lambda>p2.
     onward (switch_user os p2) (\<lambda>p3.
     onward (logger_step p3) (\<lambda>p4.
     onward (core_step os p4) (daemon_step os))))))"

definition main :: "os \<Rightarrow> (nat \<Rightarrow> string) \<Rightarrow> nat \<Rightarrow> main_option list \<Rightarrow> int list \<Rightarrow> server_process \<Rightarrow> server_process onward" where
  "main os raw argc opts sigs p =
     onward (main_until_served os raw argc opts p) (\<lambda>p1. onward (serve_step os sigs p1) (finish_step os))"

section \<open>Before the server runs\<close>

text \<open>What a step adds to the calls.\<close>

definition adds :: "main_call set \<Rightarrow> server_process \<Rightarrow> server_process \<Rightarrow> bool" where
  "adds K p p' \<longleftrightarrow> (\<exists>cs. calls p' = calls p @ cs \<and> set cs \<subseteq> K)"

lemma onward_Inr: "onward m f = Inr y \<longleftrightarrow> (\<exists>x. m = Inr x \<and> f x = Inr y)"
  by (cases m) auto

lemma did_simps [simp]:
  "calls (did c p) = calls p @ [c]" "main_settings (did c p) = main_settings p" "disk (did c p) = disk p"
  "cwd (did c p) = cwd p" "main_quit (did c p) = main_quit p" "path_of (did c p) = path_of p"
  by (simp_all add: did_def path_of_def fun_eq_iff)

lemma check_step_outcome:
  "check_step p = Inr p' \<Longrightarrow> main_settings p' = main_settings p \<and> disk p' = disk p \<and> cwd p' = cwd p \<and> main_quit p' = main_quit p \<and>
    calls p' = calls p @ (if run_as_daemon (main_settings p)
      then (case Option.bind (Option.bind (pid_file (main_settings p)) (\<lambda>f. disk p (path_of p f))) scan_int of
              Some pid \<Rightarrow> if 0 < pid then [Kill pid] else [] | None \<Rightarrow> []) else [])"
  by (auto simp: check_step_def check_server_def onward_Inr split: option.splits if_splits)

lemma check_step_kills: "check_step p = Inr p' \<Longrightarrow> adds (range Kill) p p'"
  by (auto simp: check_step_def check_server_def onward_Inr adds_def split: option.splits if_splits)

lemma switch_user_outcome:
  assumes "switch_user os p = Inr p'"
  shows "main_settings p' = main_settings p \<and> disk p' = disk p \<and> cwd p' = cwd p \<and> main_quit p' = main_quit p
    \<and> (os_root os \<longrightarrow> (\<exists>user uid gid. run_by_user (main_settings p) = Some user \<and> user \<noteq> [] \<and> os_passwd os user = Some (uid, gid)
         \<and> calls p' = calls p @ [SetGid gid, SetUid uid]))
    \<and> (\<not> os_root os \<longrightarrow> p' = p)"
  using assms by (auto simp: switch_user_def split: if_splits option.splits)

lemma logger_step_outcome:
  "logger_step p = Inr p' \<Longrightarrow> main_settings p' = main_settings p \<and> disk p' = disk p \<and> cwd p' = cwd p \<and> main_quit p' = main_quit p
    \<and> (\<exists>i w e n. calls p' = calls p @ [Logger i w e n])"
  by (auto simp: logger_step_def split: option.splits)

lemma core_step_outcome:
  "core_step os p = Inr p' \<Longrightarrow> main_settings p' = main_settings p \<and> disk p' = disk p \<and> cwd p' = cwd p \<and> main_quit p' = main_quit p
    \<and> adds {c. c = CoreUnlimited \<or> (\<exists>n. c = CoreMaximum n)} p p'"
  by (auto simp: core_step_def adds_def Let_def split: option.splits if_splits prod.splits)

text \<open>The daemon writes its pid where its working directory is then.\<close>

definition pid_path :: "server_process \<Rightarrow> string \<Rightarrow> string" where
  "pid_path p f = (if max_core_file (main_settings p) \<and> take 1 f \<noteq> ''/'' then ''/'' @ f else path_of p f)"

lemma daemon_step_outcome:
  assumes "daemon_step os p = Inr p'"
  shows "main_settings p' = main_settings p \<and> main_quit p' = main_quit p
    \<and> adds {c. c = Fork \<or> c = SetSid \<or> c = ChangeDir \<or> (\<exists>f. c = SavePid f)} p p'
    \<and> disk p' = (case (run_as_daemon (main_settings p), pid_file (main_settings p)) of
          (True, Some f) \<Rightarrow> if os_writable os (pid_path p f) then (disk p)(pid_path p f \<mapsto> decimal (os_getpid os) @ [CHR 0x0A]) else disk p
        | _ \<Rightarrow> disk p)
    \<and> cwd p' = (if run_as_daemon (main_settings p) \<and> max_core_file (main_settings p) then ''/'' else cwd p)"
  using assms
  by (auto simp: daemon_step_def daemonize_def close_streams_def save_pidfile_def adds_def onward_Inr Let_def pid_path_def path_of_def did_def
      split: if_splits option.splits)

lemma load_step_outcome:
  "load_step raw name p = Inr p' \<Longrightarrow> calls p' = calls p \<and> disk p' = disk p \<and> cwd p' = cwd p \<and> main_quit p' = main_quit p \<and> name \<noteq> []"
  by (auto simp: load_step_def LoadConfig_def Let_def split: sum.splits if_splits)

section \<open>The user of the server\<close>

definition not_serving :: "server_process \<Rightarrow> bool" where
  "not_serving p \<longleftrightarrow> (\<forall>st. Initialize st \<notin> set (calls p))"

lemma get_options_stops: "get_options opts name p = Inl (e, p') \<Longrightarrow> not_serving p \<Longrightarrow> not_serving p'"
  by (induction opts name p rule: get_options.induct) (auto simp: not_serving_def split: if_splits)

lemma onward_Inl: "onward m f = Inl y \<longleftrightarrow> m = Inl y \<or> (\<exists>x. m = Inr x \<and> f x = Inl y)"
  by (cases m) auto

lemma dup_loop_stops: "not_serving p \<Longrightarrow> not_serving (snd (dup_loop os fds p))"
  by (induction fds arbitrary: p) (auto simp: not_serving_def)

lemma steps_stop:
  shows "process_arguments argc opts p = Inl (e, p') \<Longrightarrow> not_serving p \<Longrightarrow> not_serving p'"
    and "load_step raw name p = Inl (e, p') \<Longrightarrow> not_serving p \<Longrightarrow> not_serving p'"
    and "check_step p = Inl (e, p') \<Longrightarrow> not_serving p \<Longrightarrow> not_serving p'"
    and "switch_user os p = Inl (e, p') \<Longrightarrow> not_serving p \<Longrightarrow> not_serving p'"
    and "logger_step p = Inl (e, p') \<Longrightarrow> not_serving p \<Longrightarrow> not_serving p'"
    and "core_step os p = Inl (e, p') \<Longrightarrow> not_serving p \<Longrightarrow> not_serving p'"
    and "daemon_step os p = Inl (e, p') \<Longrightarrow> not_serving p \<Longrightarrow> not_serving p'"
  subgoal using get_options_stops by (auto simp: process_arguments_def not_serving_def split: if_splits)
  subgoal by (auto simp: load_step_def not_serving_def Let_def split: sum.splits if_splits)
  subgoal by (auto simp: check_step_def check_server_def not_serving_def onward_Inl split: option.splits if_splits)
  subgoal by (auto simp: switch_user_def not_serving_def split: option.splits if_splits)
  subgoal by (auto simp: logger_step_def not_serving_def split: option.splits)
  subgoal by (auto simp: core_step_def not_serving_def Let_def split: option.splits if_splits)
  subgoal by (auto simp: daemon_step_def daemonize_def close_streams_def not_serving_def Let_def onward_Inl split: if_splits)
  done

text \<open>What the process has done when the server starts.\<close>

lemma main_until_served_outcome:
  assumes "main_until_served os raw argc opts p = Inr p'" and "calls p = []"
  shows "not_serving p' \<and> main_quit p' = main_quit p \<and> ReleaseConfig \<notin> set (calls p')
    \<and> (os_root os \<longrightarrow> (\<exists>user uid gid xs ys. run_by_user (main_settings p') = Some user \<and> user \<noteq> [] \<and> os_passwd os user = Some (uid, gid)
         \<and> calls p' = xs @ [SetGid gid, SetUid uid] @ ys))"
proof -
  obtain name p1 p2 p3 p4 p5 where s: "load_step raw name p = Inr p1" "check_step p1 = Inr p2" "switch_user os p2 = Inr p3"
      "logger_step p3 = Inr p4" "core_step os p4 = Inr p5" "daemon_step os p5 = Inr p'"
    using assms(1) unfolding main_until_served_def onward_Inr by blast
  note o = load_step_outcome [OF s(1)] check_step_outcome [OF s(2)] switch_user_outcome [OF s(3)] logger_step_outcome [OF s(4)]
    core_step_outcome [OF s(5)] daemon_step_outcome [OF s(6)]
  have c2: "\<forall>c \<in> set (calls p2). \<exists>pid. c = Kill pid" using o(1) check_step_kills [OF s(2)] assms(2) by (auto simp: adds_def)
  obtain l where l: "calls p4 = calls p3 @ [l]" "\<exists>i w e n. l = Logger i w e n" using o(4) by blast
  obtain k where k: "calls p5 = calls p4 @ k" "\<forall>c \<in> set k. c = CoreUnlimited \<or> (\<exists>n. c = CoreMaximum n)"
    using o(5) unfolding adds_def by blast
  obtain d where d: "calls p' = calls p5 @ d" "\<forall>c \<in> set d. c = Fork \<or> c = SetSid \<or> c = ChangeDir \<or> (\<exists>f. c = SavePid f)"
    using o(6) unfolding adds_def by blast
  have c': "calls p' = calls p3 @ l # k @ d" using l k d by simp
  have rest: "\<forall>c \<in> set (l # k @ d). c \<noteq> ReleaseConfig \<and> (\<forall>st. c \<noteq> Initialize st)" using l(2) k(2) d(2) by auto
  have u: "main_settings p' = main_settings p2" "main_quit p' = main_quit p" using o by simp_all
  have c3: "\<forall>c \<in> set (calls p3). c \<noteq> ReleaseConfig \<and> (\<forall>st. c \<noteq> Initialize st)" using c2 o(3) by (cases "os_root os") auto
  have "os_root os \<longrightarrow> (\<exists>user uid gid xs ys. run_by_user (main_settings p') = Some user \<and> user \<noteq> [] \<and> os_passwd os user = Some (uid, gid)
         \<and> calls p' = xs @ [SetGid gid, SetUid uid] @ ys)"
    using o(3) unfolding u(1) c' by (metis append.assoc)
  then show ?thesis using rest c3 u(2) unfolding not_serving_def c' set_append by blast
qed

lemma steps_go:
  shows "load_step raw name p = Inr p' \<Longrightarrow> not_serving p \<Longrightarrow> not_serving p'"
    and "check_step p = Inr p' \<Longrightarrow> not_serving p \<Longrightarrow> not_serving p'"
    and "switch_user os p = Inr p' \<Longrightarrow> not_serving p \<Longrightarrow> not_serving p'"
    and "logger_step p = Inr p' \<Longrightarrow> not_serving p \<Longrightarrow> not_serving p'"
    and "core_step os p = Inr p' \<Longrightarrow> not_serving p \<Longrightarrow> not_serving p'"
  subgoal using load_step_outcome [of raw name p p'] by (simp add: not_serving_def)
  subgoal using check_step_kills [of p p'] by (auto simp: adds_def not_serving_def)
  subgoal by (auto simp: switch_user_def not_serving_def split: option.splits if_splits)
  subgoal using logger_step_outcome [of p p'] by (auto simp: not_serving_def)
  subgoal using core_step_outcome [of os p p'] by (auto simp: adds_def not_serving_def)
  done

lemma main_until_served_stops: "main_until_served os raw argc opts p = Inl (e, p') \<Longrightarrow> calls p = [] \<Longrightarrow> not_serving p'"
proof -
  assume m: "main_until_served os raw argc opts p = Inl (e, p')" and "calls p = []"
  then have n: "not_serving p" by (simp add: not_serving_def)
  show ?thesis using m n unfolding main_until_served_def onward_Inl by (meson steps_go steps_stop)
qed

section \<open>The end of the server\<close>

lemma remove_pidfile_simps [simp]:
  "main_settings (remove_pidfile os name p) = main_settings p" "main_quit (remove_pidfile os name p) = main_quit p"
  "\<exists>rs. calls (remove_pidfile os name p) = calls p @ rs \<and> set rs \<subseteq> range RemovePid"
  by (auto simp: remove_pidfile_def did_def split: option.splits)

lemma signal_handler_zero: "signal_handler os 0 p = Inr p"
  by (simp add: signal_handler_def start_constants)

lemma signals_step_calls:
  "(signals_step os sigs p = Inr p' \<longrightarrow> p' = p) \<and>
   (signals_step os sigs p = Inl (e, p') \<longrightarrow> (\<exists>cs. calls p' = calls p @ cs \<and> (\<forall>st. Initialize st \<notin> set cs)))"
proof (induction sigs)
  case (Cons sig sigs)
  define n where "n = (if run_as_daemon (main_settings p) then remove_pidfile os (pid_file (main_settings p)) (p\<lparr>main_quit := True\<rparr>) else p\<lparr>main_quit := True\<rparr>)"
  obtain rs where "calls n = calls p @ rs" "set rs \<subseteq> range RemovePid"
    using remove_pidfile_simps(3) [of os "pid_file (main_settings p)" "p\<lparr>main_quit := True\<rparr>"] unfolding n_def
    by (cases "run_as_daemon (main_settings p)") fastforce+
  then have "calls (did Finalize (did ReleaseConfig n)) = calls p @ (rs @ [ReleaseConfig, Finalize])
      \<and> (\<forall>st. Initialize st \<notin> set (rs @ [ReleaseConfig, Finalize]))" by auto
  moreover have "signal_handler os sig p = Inr p \<or> signal_handler os sig p = Inl (Exit EXIT_SUCCESS, did Finalize (did ReleaseConfig n))"
    unfolding n_def signal_handler_def Let_def by simp
  ultimately show ?case using Cons.IH by (auto simp: onward_def)
qed simp

text \<open>C33: A server that was started as root serves as the user that its configuration names, whatever happens later: before
  Tracker::Initialize the process has taken the group and the user, and without them it ends before.
\<close>

theorem serves_as_user:
  assumes "main os raw argc opts sigs p = Inl (e, p')" and "calls p = []" and "os_root os" and "Initialize st \<in> set (calls p')"
  shows "\<exists>user uid gid xs ys. run_by_user st = Some user \<and> user \<noteq> [] \<and> os_passwd os user = Some (uid, gid)
    \<and> calls p' = xs @ [SetGid gid, SetUid uid] @ ys \<and> (\<forall>st'. Initialize st' \<notin> set xs)"
proof -
  have "main_until_served os raw argc opts p \<noteq> Inl (e, p')" using main_until_served_stops assms(2,4) unfolding not_serving_def by blast
  then obtain q where q: "main_until_served os raw argc opts p = Inr q"
      and f: "onward (serve_step os sigs q) (finish_step os) = Inl (e, p')"
    using assms(1) unfolding main_def onward_Inl by blast
  from main_until_served_outcome [OF q assms(2)] assms(3) obtain user uid gid xs ys where
      u: "run_by_user (main_settings q) = Some user" "user \<noteq> []" "os_passwd os user = Some (uid, gid)" "calls q = xs @ [SetGid gid, SetUid uid] @ ys"
      and n: "not_serving q" by blast
  define r where "r = did (Initialize (main_settings q)) q"
  have sv: "serve_step os sigs q = signals_step os sigs r \<or> serve_step os sigs q = Inl (Fault NullDeref, q) \<or> serve_step os sigs q = Inl (Fault Abort, q)"
    unfolding serve_step_def r_def by (auto split: option.split)
  have nq: "p' \<noteq> q" using n assms(4) unfolding not_serving_def by blast
  then have g: "onward (signals_step os sigs r) (finish_step os) = Inl (e, p')" using f sv by auto
  have "\<exists>cs. calls p' = calls r @ cs \<and> (\<forall>st. Initialize st \<notin> set cs)"
  proof (cases "signals_step os sigs r")
    case (Inl b)
    then show ?thesis using g signals_step_calls [of os sigs r p' e] by simp
  next
    case (Inr b)
    then show ?thesis using g signals_step_calls [of os sigs r b] by (auto simp: finish_step_def signal_handler_zero)
  qed
  then obtain cs where cs: "calls p' = calls q @ Initialize (main_settings q) # cs" "\<forall>st. Initialize st \<notin> set cs" unfolding r_def by auto
  then have "st = main_settings q" using n assms(4) unfolding not_serving_def by auto
  moreover have "\<forall>st'. Initialize st' \<notin> set xs" using n u(4) unfolding not_serving_def by simp
  ultimately show ?thesis using u cs(1) by auto
qed

text \<open>A daemon with a pid file of an earlier run, started by root, that gets SIGTERM.\<close>

definition example_conf :: string where
  "example_conf = concat (map (\<lambda>ln. ln @ [CHR 0x0A])
     [''run_by_daemon=true'', ''max_core_file=false'', ''info_log=i'', ''warn_log=w'', ''err_log=e'', ''pid_file=p.pid'',
      ''run_by_user=fdcs'', ''class_factory=Worker''])"

definition example_os :: os where
  "example_os = \<lparr>os_root = True, os_passwd = (\<lambda>u. if u = ''fdcs'' then Some (7, 8) else None), os_setgid = (\<lambda>g. True),
     os_setuid = (\<lambda>u. True), os_core_limit = None, os_unlimited = True, os_core_after = None, os_fork = 0, os_setsid = True,
     os_chdir = True, os_open_null = 5, os_dup2 = (\<lambda>fd. True), os_close = True, os_getpid = 77, os_writable = (\<lambda>f. True),
     os_unlinkable = (\<lambda>f. True), os_classes = [''Worker'']\<rparr>"

definition example_process :: server_process where
  "example_process = \<lparr>main_settings = default_settings, main_config = init_config, main_quit = False,
     disk = (\<lambda>f. if f = ''/srv/c'' then Some example_conf else if f = ''/srv/p.pid'' then Some ''12'' else None),
     cwd = ''/srv/'', calls = []\<rparr>"

fun is_Initialize :: "main_call \<Rightarrow> bool" where
  "is_Initialize (Initialize st) = True"
| "is_Initialize _ = False"

lemma example_run:
  "case main example_os (\<lambda>i. []) 3 [Opt_f ''c''] [15] example_process of
     Inl (e, p) \<Rightarrow> e = Exit 0 \<and> map is_Initialize (calls p) = replicate 7 False @ [True] @ replicate 3 False \<and> calls p ! 0 = Kill 12
       \<and> calls p ! 6 = SavePid ''/srv/p.pid'' \<and> disk p ''/srv/p.pid'' = None
   | Inr p \<Rightarrow> False"
  by code_simp

theorem serves_as_user_witness:
  "\<exists>e p' st user uid gid xs ys. main example_os (\<lambda>i. []) 3 [Opt_f ''c''] [15] example_process = Inl (e, p') \<and> Initialize st \<in> set (calls p')
     \<and> run_by_user st = Some user \<and> os_passwd example_os user = Some (uid, gid) \<and> calls p' = xs @ [SetGid gid, SetUid uid] @ ys"
proof -
  obtain e p' where m: "main example_os (\<lambda>i. []) 3 [Opt_f ''c''] [15] example_process = Inl (e, p')"
      and c: "map is_Initialize (calls p') = replicate 7 False @ [True] @ replicate 3 False"
    using example_run by (auto split: sum.splits)
  have "True \<in> set (map is_Initialize (calls p'))" unfolding c by simp
  then obtain call where "call \<in> set (calls p')" "is_Initialize call" by auto
  then obtain st where st: "Initialize st \<in> set (calls p')" by (metis is_Initialize.elims(2))
  have "calls example_process = []" "os_root example_os" by (simp_all add: example_process_def example_os_def)
  from serves_as_user [OF m this st] show ?thesis using m st by blast
qed

text \<open>
  A daemon that returns from its event loop leaves its pid file and never releases its configuration: main calls
  signal_handler with 0, which returns at once. A signal to end does both.
\<close>

theorem main_ends:
  assumes "main_until_served os raw argc opts p = Inr q" and "class_factory (main_settings q) = Some k" and "k \<in> set (os_classes os)"
    and "\<not> main_quit q" and "run_as_daemon (main_settings q)" and "pid_file (main_settings q) = Some f"
    and "disk q (path_of q f) = Some pid" and "os_unlinkable os (path_of q f)" and "sig \<in> {SIGTERM, SIGQUIT, SIGINT}"
    and "ReleaseConfig \<notin> set (calls q)"
  shows "(\<exists>p1. main os raw argc opts [] p = Inl (Return 0, p1) \<and> disk p1 (path_of q f) = Some pid \<and> ReleaseConfig \<notin> set (calls p1))
       \<and> (\<exists>p2. main os raw argc opts (sig # sigs) p = Inl (Exit EXIT_SUCCESS, p2) \<and> disk p2 (path_of q f) = None \<and> ReleaseConfig \<in> set (calls p2))"
proof -
  have "path_of (q\<lparr>main_quit := True\<rparr>) = path_of q" for q :: server_process by (simp add: path_of_def fun_eq_iff)
  then have "signal_handler os sig r = Inl (Exit EXIT_SUCCESS, did Finalize (did ReleaseConfig (did (RemovePid (path_of q f)) (r\<lparr>main_quit := True, disk := (disk r)(path_of q f := None)\<rparr>))))"
    if "r = did (Initialize (main_settings q)) q" for r
    using that assms(4-9) by (auto simp: signal_handler_def remove_pidfile_def Let_def did_def path_of_def)
  then show ?thesis using assms
    by (simp add: main_def serve_step_def finish_step_def signal_handler_zero)
qed

text \<open>
  With core files the daemon changes to the root directory before it writes its pid, so that a relative name is not
  the file that check_server reads at the next start.
\<close>

lemma pid_file_moved:
  assumes "daemon_step os p = Inr p'" and "run_as_daemon (main_settings p)" and "max_core_file (main_settings p)"
    and "pid_file (main_settings p) = Some f" and "take 1 f \<noteq> ''/''" and "os_writable os (''/'' @ f)" and "cwd p \<noteq> ''/''"
  shows "disk p' (''/'' @ f) = Some (decimal (os_getpid os) @ [CHR 0x0A]) \<and> path_of p f \<noteq> ''/'' @ f \<and> disk p' (path_of p f) = disk p (path_of p f)"
proof -
  have ne: "path_of p f \<noteq> ''/'' @ f" using assms(5,7) unfolding path_of_def by (metis append_same_eq)
  then show ?thesis using daemon_step_outcome [OF assms(1)] assms(2-6) by (simp add: pid_path_def)
qed

end
