(* ===== verification/Logging.thy ===== *)
theory Logging
  imports StringCodec
begin

text \<open>
  The log of a server, src/base/logging.cc: the choice of the stream, the head and the end of a message, and
  TruncateLogFile, which keeps the last lines of a file that has become too long. A file is a string that
  pread and pwrite read and write at an offset; which calls fail and how much one of them transfers is
  the record log_os.
\<close>

section \<open>Files\<close>

definition pread :: "string \<Rightarrow> nat \<Rightarrow> nat \<Rightarrow> string" where
  "pread file count offset = take count (drop offset file)"

text \<open>A write beyond the end fills the gap with zeros; ftruncate cuts the file or extends it by zeros.\<close>

definition pwrite :: "string \<Rightarrow> string \<Rightarrow> nat \<Rightarrow> string" where
  "pwrite file bytes offset =
     take offset file @ replicate (offset - length file) (CHR 0x00) @ bytes @ drop (offset + length bytes) file"

definition ftruncate :: "string \<Rightarrow> nat \<Rightarrow> string" where
  "ftruncate file n = take n file @ replicate (n - length file) (CHR 0x00)"

datatype open_answer = Opened | Too_big | Not_opened

text \<open>The number of a call and the bytes it asks for give the bytes it transfers, or - 1.\<close>

record log_os =
  los_may_append :: "string \<Rightarrow> bool"
  los_open :: "bool \<Rightarrow> string \<Rightarrow> open_answer"
  los_truncate :: bool
  los_fstat :: bool
  los_regular :: bool
  los_pread :: "nat \<Rightarrow> nat \<Rightarrow> int"
  los_pwrite :: "nat \<Rightarrow> nat \<Rightarrow> int"
  los_ftruncate :: bool

section \<open>The logger\<close>

datatype LogSeverity = INFO | WARNING | ERROR | FATAL

datatype log_stream = Info_file | Warn_file | Error_file | Std_out | Std_err

text \<open>The static members of Logger, the files and what was printed.\<close>

record logger =
  info_log_filename :: string
  warn_log_filename :: string
  erro_log_filename :: string
  log_max_bytes :: int
  info_is_open :: bool
  warn_is_open :: bool
  erro_is_open :: bool
  info_position :: "nat option"
  log_files :: "string \<Rightarrow> string option"
  printed_out :: string
  printed_err :: string

text \<open>A file is created when it is opened to append to it.\<close>

definition open_append :: "log_os \<Rightarrow> string \<Rightarrow> logger \<Rightarrow> bool \<times> logger" where
  "open_append os name lg =
     (if los_may_append os name
      then (True, if log_files lg name = None then lg\<lparr>log_files := (log_files lg)(name \<mapsto> [])\<rparr> else lg)
      else (False, lg))"

definition InitializeLogger :: "log_os \<Rightarrow> string \<Rightarrow> string \<Rightarrow> string \<Rightarrow> int \<Rightarrow> logger \<Rightarrow> logger" where
  "InitializeLogger os info_name warn_name erro_name max_size lg =
     (let lg0 = lg\<lparr>info_log_filename := info_name, warn_log_filename := warn_name, erro_log_filename := erro_name, log_max_bytes := max_size\<rparr>;
          (i, lg1) = open_append os info_name lg0;
          (w, lg2) = open_append os warn_name lg1;
          (e, lg3) = open_append os erro_name lg2
      in lg3\<lparr>info_is_open := i, warn_is_open := w, erro_is_open := e\<rparr>)"

definition GetStream :: "logger \<Rightarrow> LogSeverity \<Rightarrow> log_stream" where
  "GetStream lg severity =
     (if severity = INFO then (if info_is_open lg then Info_file else Std_out)
      else if severity = WARNING then (if warn_is_open lg then Warn_file else Std_err)
      else (if erro_is_open lg then Error_file else Std_err))"

text \<open>A file opened with app is written at its end, wherever its position is.\<close>

definition append_file :: "string \<Rightarrow> string \<Rightarrow> logger \<Rightarrow> logger" where
  "append_file name text lg = lg\<lparr>log_files := (log_files lg)(name := map_option (\<lambda>s. s @ text) (log_files lg name))\<rparr>"

fun put_stream :: "log_stream \<Rightarrow> string \<Rightarrow> logger \<Rightarrow> logger" where
  "put_stream Info_file text lg = append_file (info_log_filename lg) text lg"
| "put_stream Warn_file text lg = append_file (warn_log_filename lg) text lg"
| "put_stream Error_file text lg = append_file (erro_log_filename lg) text lg"
| "put_stream Std_out text lg = lg\<lparr>printed_out := printed_out lg @ text\<rparr>"
| "put_stream Std_err text lg = lg\<lparr>printed_err := printed_err lg @ text\<rparr>"

section \<open>A file that is too long\<close>

definition kCopyBlockSize :: nat where "kCopyBlockSize = 8 * 2 ^ 10"

text \<open>The position behind the first newline of the block, or its end.\<close>

fun find_return_line :: "string \<Rightarrow> nat" where
  "find_return_line [] = 0"
| "find_return_line (c # cs) = (if c = CHR 0x0A then 1 else Suc (find_return_line cs))"

text \<open>What a call transfers: an error, or a part of what it could.\<close>

definition transferred :: "int \<Rightarrow> string \<Rightarrow> string option" where
  "transferred answer bytes = (if answer < 0 then None else Some (take (nat answer) bytes))"

fun copy_blocks :: "nat \<Rightarrow> log_os \<Rightarrow> nat \<Rightarrow> string \<Rightarrow> nat \<Rightarrow> nat \<Rightarrow> (string \<times> nat) result" where
  "copy_blocks 0 os k file read_offset write_offset = Inl Diverge"
| "copy_blocks (Suc fuel) os k file read_offset write_offset =
     (case transferred (los_pread os k kCopyBlockSize) (pread file kCopyBlockSize read_offset) of
        None \<Rightarrow> Inr (file, write_offset)
      | Some bytes \<Rightarrow>
          if bytes = [] then Inr (file, write_offset)
          else (case transferred (los_pwrite os k (length bytes)) bytes of
                  None \<Rightarrow> Inr (file, write_offset)
                | Some out \<Rightarrow>
                    copy_blocks fuel os (Suc k) (pwrite file out write_offset) (read_offset + length bytes) (write_offset + length out)))"

definition int_half :: "int \<Rightarrow> int" where
  "int_half n = (if n < 0 then - ((- n) div 2) else n div 2)"

text \<open>The copy of the end of the file to its beginning and the cut; the result has the new length.\<close>

definition keep_end :: "log_os \<Rightarrow> nat \<Rightarrow> string \<Rightarrow> (string \<times> nat) result" where
  "keep_end os read_offset file =
     (case transferred (los_pread os 0 kCopyBlockSize) (pread file kCopyBlockSize read_offset) of
        None \<Rightarrow> copy_blocks (length file + 1) os 1 file read_offset 0
      | Some bytes \<Rightarrow> copy_blocks (length file + 1) os 1 file (read_offset + find_return_line bytes) 0)"

definition severity_path :: "LogSeverity \<Rightarrow> logger \<Rightarrow> string" where
  "severity_path severity lg =
     (if severity = INFO then info_log_filename lg else if severity = WARNING then warn_log_filename lg else erro_log_filename lg)"

definition procfd_prefix :: string where "procfd_prefix = ''/proc/self/fd/''"

definition TruncateLogFile :: "log_os \<Rightarrow> LogSeverity \<Rightarrow> logger \<Rightarrow> logger result" where
  "TruncateLogFile os severity lg =
     (let limit = log_max_bytes lg; keep = int_half limit; path = severity_path severity lg;
          nofollow = (take (length procfd_prefix) path \<noteq> procfd_prefix)
      in case (los_open os nofollow path, log_files lg path) of
           (Opened, Some file) \<Rightarrow>
             if \<not> los_fstat os \<or> \<not> los_regular os \<or> int (length file) \<le> limit \<or> int (length file) \<le> keep then Inr lg
             else rbind (keep_end os (nat (int (length file) - keep)) file) (\<lambda>(file1, n).
                    let file2 = (if los_ftruncate os then ftruncate file1 n else file1)
                    in Inr (lg\<lparr>log_files := (log_files lg)(path \<mapsto> file2), info_position := Some n\<rparr>))
         | (Too_big, Some file) \<Rightarrow>
             Inr (if los_truncate os then lg\<lparr>log_files := (log_files lg)(path \<mapsto> [])\<rparr> else lg)
         | _ \<Rightarrow> Inr lg)"

section \<open>A message\<close>

record log_time =
  tm_mon :: nat
  tm_mday :: nat
  tm_hour :: nat
  tm_min :: nat
  tm_sec :: nat

definition time_string :: "log_time \<Rightarrow> string" where
  "time_string t = pad 2 (decimal (tm_mon t + 1)) @ ''-'' @ pad 2 (decimal (tm_mday t)) @ '' '' @
     pad 2 (decimal (tm_hour t)) @ '':'' @ pad 2 (decimal (tm_min t)) @ '':'' @ pad 2 (decimal (tm_sec t))"

definition short_file :: "string \<Rightarrow> string" where
  "short_file file = (if length file > 20 then ''..'' @ drop (length file - 20) file else file)"

definition message_head :: "nat \<Rightarrow> log_time \<Rightarrow> string \<Rightarrow> nat \<Rightarrow> string \<Rightarrow> string" where
  "message_head self t file line function =
     ''[tid-'' @ decimal (self mod 2 ^ 32 mod 1000) @ '']'' @ time_string t @ '' '' @ short_file file @ ''.'' @ function @
     ''('' @ decimal line @ ''): ''"

text \<open>The arguments self, t and random are pthread_self, the local time and rand.\<close>

definition Start :: "log_os \<Rightarrow> nat \<Rightarrow> log_time \<Rightarrow> nat \<Rightarrow> LogSeverity \<Rightarrow> string \<Rightarrow> nat \<Rightarrow> string \<Rightarrow> logger \<Rightarrow> (log_stream \<times> logger) result" where
  "Start os self t random severity file line function lg =
     rbind (if random mod 1000 = 1 then TruncateLogFile os severity lg else Inr lg) (\<lambda>lg1.
       Inr (GetStream lg1 severity, put_stream (GetStream lg1 severity) (message_head self t file line function) lg1))"

definition destroy_Logger :: "LogSeverity \<Rightarrow> logger \<Rightarrow> logger result" where
  "destroy_Logger severity lg =
     (let lg1 = put_stream (GetStream lg severity) [CHR 0x0A] lg
      in if severity = FATAL then Inl Abort else Inr lg1)"

text \<open>LOG(severity) and the text that is written to it.\<close>

definition LOG :: "log_os \<Rightarrow> nat \<Rightarrow> log_time \<Rightarrow> nat \<Rightarrow> LogSeverity \<Rightarrow> string \<Rightarrow> nat \<Rightarrow> string \<Rightarrow> string \<Rightarrow> logger \<Rightarrow> logger result" where
  "LOG os self t random severity file line function body lg =
     rbind (Start os self t random severity file line function lg) (\<lambda>(stream, lg1). destroy_Logger severity (put_stream stream body lg1))"

section \<open>The copy\<close>

lemma transferred_Some: "transferred a bs = Some out \<Longrightarrow> length out \<le> length bs"
  by (auto simp: transferred_def split: if_splits)

lemma transferred_all: "int (length bs) \<le> a \<Longrightarrow> transferred a bs = Some bs"
  by (simp add: transferred_def)

lemma length_pwrite: "offset + length bytes \<le> length file \<Longrightarrow> length (pwrite file bytes offset) = length file"
  by (simp add: pwrite_def)

lemma pread_progress: "pread file kCopyBlockSize r \<noteq> [] \<Longrightarrow> r < length file"
  by (auto simp: pread_def)

text \<open>The copy ends whatever the calls transfer, since the writes stay behind the reads.\<close>

lemma copy_blocks_ends:
  "length file - r < fuel \<Longrightarrow> w \<le> r \<Longrightarrow> \<exists>file' n. copy_blocks fuel os k file r w = Inr (file', n) \<and> length file' = length file"
proof (induction fuel os k "file" r w rule: copy_blocks.induct)
  case (2 fuel os k "file" r w)
  show ?case
  proof (cases "transferred (los_pread os k kCopyBlockSize) (pread file kCopyBlockSize r)")
    case bytes: (Some bytes)
    show ?thesis
    proof (cases "bytes = [] \<or> transferred (los_pwrite os k (length bytes)) bytes = None")
      case False
      then obtain out where out: "transferred (los_pwrite os k (length bytes)) bytes = Some out" by blast
      have lb: "length bytes \<le> length file - r" using transferred_Some [OF bytes] by (simp add: pread_def)
      have lo: "length out \<le> length bytes" using transferred_Some [OF out] .
      have "0 < length bytes" using False by simp
      then have m: "length file - (r + length bytes) < fuel" and w: "w + length out \<le> r + length bytes" and l: "w + length out \<le> length file"
        using "2.prems" lb lo by linarith+
      show ?thesis
        using "2.IH" [OF bytes _ out] False m w bytes out length_pwrite [of w out "file"] l by (auto split: option.split)
    qed (use bytes in \<open>auto split: option.split\<close>)
  qed simp
qed simp

definition all_transferred :: "log_os \<Rightarrow> bool" where
  "all_transferred os \<longleftrightarrow> (\<forall>k n. int n \<le> los_pread os k n) \<and> (\<forall>k n. int n \<le> los_pwrite os k n)"

lemma copy_blocks_all:
  assumes "all_transferred os"
  shows "length file - r < fuel \<Longrightarrow> w \<le> r \<Longrightarrow> r \<le> length file \<Longrightarrow>
    copy_blocks fuel os k file r w = Inr (take w file @ drop r file @ drop (w + (length file - r)) file, w + (length file - r))"
proof (induction fuel arbitrary: k "file" r w)
  case (Suc fuel)
  let ?bytes = "pread file kCopyBlockSize r"
  have "int (length ?bytes) \<le> los_pread os k kCopyBlockSize"
  proof -
    have "int (length ?bytes) \<le> int kCopyBlockSize" by (simp add: pread_def)
    then show ?thesis using assms unfolding all_transferred_def by (meson order_trans)
  qed
  then have rd: "transferred (los_pread os k kCopyBlockSize) ?bytes = Some ?bytes" by (rule transferred_all)
  show ?case
  proof (cases "?bytes = []")
    case True
    then have "r = length file" using Suc.prems(3) by (auto simp: pread_def kCopyBlockSize_def)
    then show ?thesis using rd True by simp
  next
    case False
    let ?file = "pwrite file ?bytes w"
    have wr: "transferred (los_pwrite os k (length ?bytes)) ?bytes = Some ?bytes"
      using assms unfolding all_transferred_def by (intro transferred_all) blast
    have lb: "length ?bytes \<le> length file - r" "0 < length ?bytes" using False by (simp_all add: pread_def)
    have lf: "length ?file = length file" using lb Suc.prems by (intro length_pwrite) simp
    have t: "take (w + length ?bytes) ?file = take w file @ ?bytes" using Suc.prems by (simp add: pwrite_def)
    have d: "drop m ?file = drop m file" if "w + length ?bytes \<le> m" for m using that Suc.prems by (simp add: pwrite_def)
    have split: "?bytes @ drop (r + length ?bytes) file = drop r file"
      unfolding pread_def by (metis append_take_drop_id drop_drop add.commute length_take min.commute take_drop drop_take take_all_iff append_Nil2 drop_eq_Nil nat_le_linear length_drop min.absorb1 min.absorb2)
    have "copy_blocks fuel os (Suc k) ?file (r + length ?bytes) (w + length ?bytes) =
        Inr (take (w + length ?bytes) ?file @ drop (r + length ?bytes) ?file @ drop (w + length ?bytes + (length file - (r + length ?bytes))) ?file,
             w + length ?bytes + (length file - (r + length ?bytes)))"
    proof (rule Suc.IH [of ?file "r + length ?bytes" "w + length ?bytes" "Suc k", unfolded lf])
      show "length file - (r + length ?bytes) < fuel" and "w + length ?bytes \<le> r + length ?bytes" and "r + length ?bytes \<le> length file"
        using Suc.prems lb by linarith+
    qed
    moreover have n: "w + length ?bytes + (length file - (r + length ?bytes)) = w + (length file - r)" "w + length ?bytes \<le> w + (length file - r)"
      "w + length ?bytes \<le> r + length ?bytes" using lb Suc.prems(2,3) by linarith+
    ultimately have "copy_blocks fuel os (Suc k) ?file (r + length ?bytes) (w + length ?bytes) =
        Inr ((take w file @ ?bytes) @ drop (r + length ?bytes) file @ drop (w + (length file - r)) file, w + (length file - r))"
      unfolding n(1) t d [OF n(2)] d [OF n(3)] by blast
    also have "(take w file @ ?bytes) @ drop (r + length ?bytes) file @ drop (w + (length file - r)) file = take w file @ drop r file @ drop (w + (length file - r)) file"
      unfolding split [symmetric] by simp
    finally have "copy_blocks fuel os (Suc k) ?file (r + length ?bytes) (w + length ?bytes) =
        Inr (take w file @ drop r file @ drop (w + (length file - r)) file, w + (length file - r))" .
    then show ?thesis using rd wr False by simp
  qed
qed simp

declare copy_blocks.simps [simp del]

lemma find_return_line_le: "find_return_line cs \<le> length cs"
  by (induction cs) auto

lemma find_return_line_newline: "CHR 0x0A \<in> set cs \<Longrightarrow> 0 < find_return_line cs \<and> cs ! (find_return_line cs - 1) = CHR 0x0A"
proof (induction cs)
  case (Cons c cs)
  then show ?case by (cases "c = CHR 0x0A") (auto simp: nth_Cons')
qed simp

lemma ftruncate_prefix: "ftruncate (xs @ ys) (length xs) = xs"
  by (simp add: ftruncate_def)

section \<open>What is kept of a log\<close>

lemma TruncateLogFile_ends:
  "\<exists>lg'. TruncateLogFile os severity lg = Inr lg' \<and> (\<forall>name. name \<noteq> severity_path severity lg \<longrightarrow> log_files lg' name = log_files lg name)"
proof -
  have "\<exists>file' n. keep_end os r cs = Inr (file', n)" for r and cs :: string
  proof -
    have c: "\<exists>file' n. copy_blocks (length cs + 1) os 1 cs r' 0 = Inr (file', n)" for r'
    proof -
      have "length cs - r' < length cs + 1" by simp
      from copy_blocks_ends [OF this, of 0 os 1] show ?thesis by blast
    qed
    show ?thesis unfolding keep_end_def
      by (cases "transferred (los_pread os 0 kCopyBlockSize) (pread cs kCopyBlockSize r)") (simp_all only: option.case c)
  qed
  then have k: "\<exists>file' n. keep_end os (nat (int (length cs) - keep)) cs = Inr (file', n)" if "\<not> int (length cs) \<le> keep" for keep and cs :: string
    using that by simp
  show ?thesis
  proof (cases "log_files lg (severity_path severity lg)")
    case (Some cs)
    then show ?thesis using k [of cs "int_half (log_max_bytes lg)"]
      by (cases "los_open os (take (length procfd_prefix) (severity_path severity lg) \<noteq> procfd_prefix) (severity_path severity lg)"; cases "los_ftruncate os")
        (auto simp: TruncateLogFile_def Let_def)
  qed (auto simp: TruncateLogFile_def Let_def split: open_answer.split)
qed

text \<open>The end of a file that TruncateLogFile keeps.\<close>

definition kept_end :: "int \<Rightarrow> string \<Rightarrow> string" where
  "kept_end limit cs =
     (let start = length cs - nat (limit div 2) in drop (start + find_return_line (take kCopyBlockSize (drop start cs))) cs)"

lemma keep_end_all:
  assumes "all_transferred os" and "r \<le> length cs"
  shows "keep_end os r cs = Inr (drop (r + find_return_line (take kCopyBlockSize (drop r cs))) cs @
      drop (length cs - (r + find_return_line (take kCopyBlockSize (drop r cs)))) cs,
      length cs - (r + find_return_line (take kCopyBlockSize (drop r cs))))"
proof -
  let ?b = "take kCopyBlockSize (drop r cs)"
  have "int (length ?b) \<le> int kCopyBlockSize" by simp
  then have "int (length ?b) \<le> los_pread os 0 kCopyBlockSize" using assms(1) unfolding all_transferred_def by (meson order_trans)
  then have b: "transferred (los_pread os 0 kCopyBlockSize) (pread cs kCopyBlockSize r) = Some ?b"
    unfolding pread_def by (rule transferred_all)
  have "length ?b \<le> length cs - r" by simp
  then have le: "r + find_return_line ?b \<le> length cs" using find_return_line_le [of ?b] assms(2) by linarith
  then show ?thesis
    using copy_blocks_all [OF assms(1), of cs "r + find_return_line ?b" "length cs + 1" 0 1] by (simp add: keep_end_def b)
qed

lemma kept_end_short: "0 \<le> limit \<Longrightarrow> int (length (kept_end limit cs)) \<le> limit div 2"
  by (auto simp: kept_end_def Let_def)

lemma kept_end_line:
  assumes "CHR 0x0A \<in> set (take kCopyBlockSize (drop (length cs - nat (limit div 2)) cs))"
  shows "\<exists>before. cs = before @ [CHR 0x0A] @ kept_end limit cs"
proof -
  let ?s = "length cs - nat (limit div 2)"
  let ?b = "take kCopyBlockSize (drop ?s cs)"
  let ?p = "find_return_line ?b"
  from find_return_line_newline [OF assms] have p: "0 < ?p" "?b ! (?p - 1) = CHR 0x0A" by simp_all
  have l: "?p \<le> length ?b" by (rule find_return_line_le)
  have lb: "length ?b \<le> length cs - ?s" by simp
  have i: "?s + ?p - 1 < length cs" using p(1) l lb by linarith
  have "?b ! (?p - 1) = cs ! (?s + (?p - 1))" 
  proof -
    have "length ?b \<le> kCopyBlockSize" by simp
    then have "?p - 1 < kCopyBlockSize" using p(1) l by linarith
    then show ?thesis by simp
  qed
  then have c: "cs ! (?s + ?p - 1) = CHR 0x0A" using p by simp
  have "cs = take (?s + ?p - 1) cs @ [cs ! (?s + ?p - 1)] @ drop (Suc (?s + ?p - 1)) cs"
    using id_take_nth_drop [OF i] by simp
  moreover have "Suc (?s + ?p - 1) = ?s + ?p" using p(1) by simp
  ultimately show ?thesis using c unfolding kept_end_def Let_def by metis
qed

text \<open>C27: the log of a server keeps its last lines. TruncateLogFile leaves a file alone that is not longer than the limit;
  from a longer one it keeps the end, moved to the beginning of the same file: at most half of the limit, from the
  beginning of a line when the first block of the half has one. No other file changes, and no call of the loop is lost
  when every read and write transfers all of its bytes.\<close>

theorem log_keeps_last_lines:
  assumes "all_transferred os" and "los_ftruncate os" and "los_fstat os" and "los_regular os"
    and "\<And>nofollow name. los_open os nofollow name = Opened"
    and "0 \<le> log_max_bytes lg" and "log_files lg (severity_path severity lg) = Some cs"
  shows "\<exists>lg'. TruncateLogFile os severity lg = Inr lg'
    \<and> log_files lg' = (log_files lg)(severity_path severity lg \<mapsto> if int (length cs) \<le> log_max_bytes lg then cs else kept_end (log_max_bytes lg) cs)
    \<and> (CHR 0x0A \<in> set (take kCopyBlockSize (drop (length cs - nat (log_max_bytes lg div 2)) cs)) \<longrightarrow>
         (\<exists>before. cs = before @ [CHR 0x0A] @ kept_end (log_max_bytes lg) cs))
    \<and> int (length (kept_end (log_max_bytes lg) cs)) \<le> log_max_bytes lg div 2"
proof -
  let ?path = "severity_path severity lg" and ?limit = "log_max_bytes lg"
  have h: "int_half ?limit = ?limit div 2" "?limit div 2 \<le> ?limit" using assms(6) by (simp_all add: int_half_def)
  have "\<exists>lg'. TruncateLogFile os severity lg = Inr lg'
    \<and> log_files lg' = (log_files lg)(?path \<mapsto> if int (length cs) \<le> ?limit then cs else kept_end ?limit cs)"
  proof (cases "int (length cs) \<le> ?limit")
    case True
    then show ?thesis using assms(3-5,7) by (auto simp: TruncateLogFile_def Let_def fun_upd_idem)
  next
    case False
    then have n: "nat (int (length cs) - ?limit div 2) = length cs - nat (?limit div 2)" using h(2) assms(6) by linarith
    have "\<not> int (length cs) \<le> ?limit div 2" using False h(2) by linarith
    let ?e = "length cs - nat (?limit div 2) + find_return_line (take kCopyBlockSize (drop (length cs - nat (?limit div 2)) cs))"
    have e: "keep_end os (length cs - nat (?limit div 2)) cs = Inr (drop ?e cs @ drop (length cs - ?e) cs, length (drop ?e cs))"
      using keep_end_all [OF assms(1), of "length cs - nat (?limit div 2)" cs] by simp
    then show ?thesis using False assms(2-5,7) \<open>\<not> int (length cs) \<le> ?limit div 2\<close>
      by (simp add: TruncateLogFile_def Let_def h(1) n ftruncate_prefix del: length_drop) (simp add: kept_end_def Let_def)
  qed
  then show ?thesis using kept_end_line [of cs ?limit] kept_end_short [OF assms(6), of cs] by blast
qed

definition good_log_os :: log_os where
  "good_log_os = \<lparr>los_may_append = (\<lambda>name. True), los_open = (\<lambda>nofollow name. Opened), los_truncate = True, los_fstat = True,
     los_regular = True, los_pread = (\<lambda>k n. int n), los_pwrite = (\<lambda>k n. int n), los_ftruncate = True\<rparr>"

definition example_logger :: logger where
  "example_logger = \<lparr>info_log_filename = ''i'', warn_log_filename = ''w'', erro_log_filename = ''e'', log_max_bytes = 8,
     info_is_open = True, warn_is_open = True, erro_is_open = True, info_position = None,
     log_files = [''i'' \<mapsto> [], ''w'' \<mapsto> ''1234'' @ [CHR 0x0A] @ ''56'' @ [CHR 0x0A] @ ''78'' @ [CHR 0x0A], ''e'' \<mapsto> []],
     printed_out = [], printed_err = []\<rparr>"

theorem log_keeps_last_lines_witness:
  "\<exists>lg'. TruncateLogFile good_log_os WARNING example_logger = Inr lg' \<and> log_files lg' ''w'' = Some (''78'' @ [CHR 0x0A])"
proof -
  let ?cs = "''1234'' @ [CHR 0x0A] @ ''56'' @ [CHR 0x0A] @ ''78'' @ [CHR 0x0A]"
  have k: "kept_end 8 ?cs = ''78'' @ [CHR 0x0A]" by (simp add: kept_end_def kCopyBlockSize_def)
  have a: "all_transferred good_log_os" "los_ftruncate good_log_os" "los_fstat good_log_os" "los_regular good_log_os"
      "\<And>nofollow name. los_open good_log_os nofollow name = Opened"
    by (simp_all add: all_transferred_def good_log_os_def)
  have b: "log_max_bytes example_logger = 8" "severity_path WARNING example_logger = ''w''" "log_files example_logger ''w'' = Some ?cs"
    by (simp_all add: example_logger_def severity_path_def)
  show ?thesis
    using log_keeps_last_lines [OF a, of example_logger WARNING ?cs] unfolding b k by auto
qed

section \<open>A message in the log\<close>

lemma log_line_appended:
  assumes "random mod 1000 \<noteq> 1" and "severity \<noteq> FATAL" and "GetStream lg severity \<notin> {Std_out, Std_err}"
    and "log_files lg (severity_path severity lg) = Some s"
  shows "\<exists>lg'. LOG os self t random severity file line function body lg = Inr lg'
    \<and> log_files lg' = (log_files lg)(severity_path severity lg \<mapsto> s @ message_head self t file line function @ body @ [CHR 0x0A])"
  using assms
  by (cases severity) (auto simp: LOG_def Start_def destroy_Logger_def GetStream_def severity_path_def append_file_def Let_def split: if_splits)

text \<open>A message of severity FATAL ends the process after it has been written, whatever happens to the file.\<close>

lemma log_FATAL_aborts: "LOG os self t random FATAL file line function body lg = Inl Abort"
  using TruncateLogFile_ends [of os FATAL lg] by (auto simp: LOG_def Start_def destroy_Logger_def Let_def)

lemma length_short_file: "length (short_file file) \<le> 22"
  by (simp add: short_file_def)

text \<open>
  A write that transfers only a part of the block loses the rest: the next read starts behind the whole block,
  the next write behind the part.
\<close>

lemma short_write_loses:
  assumes "transferred (los_pread os k kCopyBlockSize) (pread cs kCopyBlockSize r) = Some bytes" and "bytes \<noteq> []"
    and "transferred (los_pwrite os k (length bytes)) bytes = Some out"
  shows "copy_blocks (Suc fuel) os k cs r w = copy_blocks fuel os (Suc k) (pwrite cs out w) (r + length bytes) (w + length out)"
  using assms by (simp add: copy_blocks.simps)

end
