(* ===== verification/SystemWrappers.thy ===== *)
theory SystemWrappers
  imports Prelude
begin

text \<open>
  Locks and condition variables on Unix, src/system/mutex.h, scoped_locker.h and condition_variable.cc. The
  mutexes of pthread are modelled by their documented behaviour: the owner and the number of locks it holds,
  and the error that a call returns. An error that is thrown is a value of the type outcome.
\<close>

section \<open>Mutexes\<close>

definition EBUSY :: int where "EBUSY = 16"
definition EPERM :: int where "EPERM = 1"
definition ETIMEDOUT :: int where "ETIMEDOUT = 110"

datatype 'a outcome = Returns 'a | Waits | Throws string int

text \<open>The owner with the number of its locks.\<close>

record mutex =
  recursive_kind :: bool
  owner :: "(nat \<times> nat) option"

datatype lock_answer = Answer int | Answer_waits

definition pthread_mutex_lock :: "nat \<Rightarrow> mutex \<Rightarrow> lock_answer \<times> mutex" where
  "pthread_mutex_lock t m =
     (case owner m of
        None \<Rightarrow> (Answer 0, m\<lparr>owner := Some (t, 1)\<rparr>)
      | Some (u, n) \<Rightarrow> if u = t \<and> recursive_kind m then (Answer 0, m\<lparr>owner := Some (t, n + 1)\<rparr>) else (Answer_waits, m))"

definition pthread_mutex_trylock :: "nat \<Rightarrow> mutex \<Rightarrow> int \<times> mutex" where
  "pthread_mutex_trylock t m =
     (case owner m of
        None \<Rightarrow> (0, m\<lparr>owner := Some (t, 1)\<rparr>)
      | Some (u, n) \<Rightarrow> if u = t \<and> recursive_kind m then (0, m\<lparr>owner := Some (t, n + 1)\<rparr>) else (EBUSY, m))"

definition pthread_mutex_unlock :: "nat \<Rightarrow> mutex \<Rightarrow> int \<times> mutex" where
  "pthread_mutex_unlock t m =
     (case owner m of
        None \<Rightarrow> (EPERM, m)
      | Some (u, n) \<Rightarrow> if u \<noteq> t then (EPERM, m) else (0, m\<lparr>owner := (if n = 1 then None else Some (u, n - 1))\<rparr>))"

definition CheckError :: "string \<Rightarrow> int \<Rightarrow> 'a \<Rightarrow> 'a outcome" where
  "CheckError context error x = (if error \<noteq> 0 then Throws context error else Returns x)"

text \<open>
  The constructor, with what pthread_mutexattr_init, pthread_mutexattr_settype, pthread_mutex_init and
  pthread_mutexattr_destroy return. None is a mutex that was not initialised.
\<close>

definition Mutex :: "bool \<Rightarrow> int \<Rightarrow> int \<Rightarrow> int \<Rightarrow> int \<Rightarrow> mutex option outcome" where
  "Mutex recursive attr_init settype init attr_destroy =
     (if recursive
      then (if attr_init = 0
            then CheckError ''Mutex::Mutex'' attr_destroy (if settype = 0 \<and> init = 0 then Some \<lparr>recursive_kind = True, owner = None\<rparr> else None)
            else CheckError ''Mutex::Mutex'' attr_init None)
      else CheckError ''Mutex::Mutex'' init (if init = 0 then Some \<lparr>recursive_kind = False, owner = None\<rparr> else None))"

definition Lock :: "nat \<Rightarrow> mutex \<Rightarrow> mutex outcome" where
  "Lock t m = (case pthread_mutex_lock t m of (Answer n, m1) \<Rightarrow> CheckError ''Mutex::Lock'' n m1 | (Answer_waits, m1) \<Rightarrow> Waits)"

definition TryLock :: "nat \<Rightarrow> mutex \<Rightarrow> (bool \<times> mutex) outcome" where
  "TryLock t m = (case pthread_mutex_trylock t m of (n, m1) \<Rightarrow>
     if n = EBUSY then Returns (False, m1) else CheckError ''Mutex::Lock'' n (True, m1))"

definition Unlock :: "nat \<Rightarrow> mutex \<Rightarrow> mutex outcome" where
  "Unlock t m = (case pthread_mutex_unlock t m of (n, m1) \<Rightarrow> CheckError ''Mutex::Unlock'' n m1)"

text \<open>ScopedLocker around a body.\<close>

definition with_locker :: "nat \<Rightarrow> (mutex \<Rightarrow> mutex outcome) \<Rightarrow> mutex \<Rightarrow> mutex outcome" where
  "with_locker t body m =
     (case Lock t m of Returns m1 \<Rightarrow> (case body m1 of Returns m2 \<Rightarrow> Unlock t m2 | Waits \<Rightarrow> Waits | Throws c e \<Rightarrow> Throws c e)
      | Waits \<Rightarrow> Waits | Throws c e \<Rightarrow> Throws c e)"

text \<open>NullMutex keeps no more than a flag.\<close>

definition null_Lock :: "bool \<Rightarrow> bool" where "null_Lock m_locked = True"
definition null_TryLock :: "bool \<Rightarrow> bool \<times> bool" where "null_TryLock m_locked = (True, True)"
definition null_Unlock :: "bool \<Rightarrow> bool" where "null_Unlock m_locked = False"

section \<open>Waiting with a limit\<close>

record timeval =
  tv_sec :: int
  tv_usec :: int

record timespec =
  ts_sec :: int
  ts_nsec :: int

text \<open>The absolute time of the end of the wait; the timeout is not negative here, so that C's division is div.\<close>

definition wait_deadline :: "timeval \<Rightarrow> int \<Rightarrow> timespec" where
  "wait_deadline now timeout =
     (let sec = tv_sec now + timeout div 1000; usec = tv_usec now + (timeout mod 1000) * 1000; million = 1000000;
          (sec1, usec1) = (if usec \<ge> million then (sec + usec div million, usec mod million) else (sec, usec))
      in \<lparr>ts_sec = sec1, ts_nsec = usec1 * 1000\<rparr>)"

text \<open>
  Wait of ConditionVariable; error is what pthread_cond_wait or pthread_cond_timedwait returns at the end of the
  wait that ends at the time given, if it ends at all.
\<close>

definition cond_Wait :: "int option \<Rightarrow> unit outcome" where
  "cond_Wait error = (case error of None \<Rightarrow> Waits | Some e \<Rightarrow> CheckError ''ConditionVariable::Wait'' e ())"

definition cond_Wait_timeout :: "timeval \<Rightarrow> int \<Rightarrow> (timespec option \<Rightarrow> int option) \<Rightarrow> bool outcome" where
  "cond_Wait_timeout now timeout wait =
     (if timeout < 0
      then (case cond_Wait (wait None) of Returns u \<Rightarrow> Returns True | Waits \<Rightarrow> Waits | Throws c e \<Rightarrow> Throws c e)
      else (case wait (Some (wait_deadline now timeout)) of None \<Rightarrow> Waits
            | Some e \<Rightarrow> if e = ETIMEDOUT then Returns False else CheckError ''ConditionVariable::Wait'' e True))"

section \<open>Mutual exclusion\<close>

text \<open>The number of locks of a thread; threads lock, try and unlock in any order.\<close>

definition locks_of :: "nat \<Rightarrow> mutex \<Rightarrow> nat" where
  "locks_of t m = (case owner m of None \<Rightarrow> 0 | Some (u, n) \<Rightarrow> if u = t then n else 0)"

definition mutex_inv :: "mutex \<Rightarrow> bool" where
  "mutex_inv m \<longleftrightarrow> (\<forall>u n. owner m = Some (u, n) \<longrightarrow> 0 < n)"

datatype mutex_call = Call_lock | Call_trylock | Call_unlock

text \<open>A call with the change of the number of locks that its thread sees: one more when it got the lock, one less when it gave
  one back, none when it has to wait, is refused or throws.\<close>

fun call_mutex :: "nat \<Rightarrow> mutex_call \<Rightarrow> mutex \<Rightarrow> int \<times> mutex" where
  "call_mutex t Call_lock m = (case Lock t m of Returns m1 \<Rightarrow> (1, m1) | Waits \<Rightarrow> (0, m) | Throws c e \<Rightarrow> (0, m))"
| "call_mutex t Call_trylock m = (case TryLock t m of Returns (b, m1) \<Rightarrow> (if b then 1 else 0, m1) | Waits \<Rightarrow> (0, m) | Throws c e \<Rightarrow> (0, m))"
| "call_mutex t Call_unlock m = (case Unlock t m of Returns m1 \<Rightarrow> (- 1, m1) | Waits \<Rightarrow> (0, m) | Throws c e \<Rightarrow> (0, m))"

fun run_calls :: "(nat \<times> mutex_call) list \<Rightarrow> (nat \<Rightarrow> int) \<Rightarrow> mutex \<Rightarrow> (nat \<Rightarrow> int) \<times> mutex" where
  "run_calls [] held m = (held, m)"
| "run_calls ((t, c) # calls) held m = (case call_mutex t c m of (d, m1) \<Rightarrow> run_calls calls (held(t := held t + d)) m1)"

lemma Lock_outcome:
  "mutex_inv m \<Longrightarrow> recursive_kind m \<Longrightarrow>
   Lock t m = (if \<exists>u. u \<noteq> t \<and> 0 < locks_of u m then Waits else Returns (m\<lparr>owner := Some (t, Suc (locks_of t m))\<rparr>))"
  by (auto simp: Lock_def pthread_mutex_lock_def CheckError_def locks_of_def mutex_inv_def split: option.splits)

lemma TryLock_outcome:
  "mutex_inv m \<Longrightarrow> recursive_kind m \<Longrightarrow>
   TryLock t m = (if \<exists>u. u \<noteq> t \<and> 0 < locks_of u m then Returns (False, m) else Returns (True, m\<lparr>owner := Some (t, Suc (locks_of t m))\<rparr>))"
  by (auto simp: TryLock_def pthread_mutex_trylock_def CheckError_def locks_of_def mutex_inv_def EBUSY_def split: option.splits)

lemma Unlock_outcome:
  "mutex_inv m \<Longrightarrow>
   Unlock t m = (if locks_of t m = 0 then Throws ''Mutex::Unlock'' EPERM
     else Returns (m\<lparr>owner := (if locks_of t m = 1 then None else Some (t, locks_of t m - 1))\<rparr>))"
  by (auto simp: Unlock_def pthread_mutex_unlock_def CheckError_def locks_of_def mutex_inv_def EPERM_def split: option.splits)

lemma call_mutex_counts:
  assumes "mutex_inv m" and "recursive_kind m" and "call_mutex t c m = (d, m1)"
  shows "mutex_inv m1 \<and> recursive_kind m1 \<and> (\<forall>u. int (locks_of u m1) = int (locks_of u m) + (if u = t then d else 0))"
proof (cases c)
  case Call_lock
  then show ?thesis using assms
    by (cases "owner m") (auto simp: Lock_outcome split: if_splits, auto simp: mutex_inv_def locks_of_def split: if_splits)
next
  case Call_trylock
  then show ?thesis using assms
    by (cases "owner m") (auto simp: TryLock_outcome split: if_splits, auto simp: mutex_inv_def locks_of_def split: if_splits)
next
  case Call_unlock
  then show ?thesis using assms
    by (cases "owner m") (auto simp: Unlock_outcome split: if_splits, auto simp: mutex_inv_def locks_of_def split: if_splits)
qed

lemma run_calls_counts:
  "mutex_inv m \<Longrightarrow> recursive_kind m \<Longrightarrow> \<forall>u. held u = int (locks_of u m) \<Longrightarrow> run_calls calls held m = (held1, m1) \<Longrightarrow>
   mutex_inv m1 \<and> recursive_kind m1 \<and> (\<forall>u. held1 u = int (locks_of u m1))"
proof (induction calls held m rule: run_calls.induct)
  case (2 t c calls held m)
  obtain d m2 where c: "call_mutex t c m = (d, m2)" by fastforce
  note k = call_mutex_counts [OF "2.prems"(1,2) c]
  have "\<forall>u. (held(t := held t + d)) u = int (locks_of u m2)" using k "2.prems"(3) by simp
  moreover have "run_calls calls (held(t := held t + d)) m2 = (held1, m1)" using "2.prems"(4) c by simp
  ultimately show ?case using "2.IH" [OF c [symmetric]] k by blast
qed auto

lemma one_owner: "0 < locks_of t m \<Longrightarrow> 0 < locks_of u m \<Longrightarrow> t = u"
  by (auto simp: locks_of_def split: option.splits if_splits)

lemma locker_gives_back:
  assumes "mutex_inv m" and "recursive_kind m" and "Lock t m \<noteq> Waits"
  shows "with_locker t Returns m = Returns m"
proof -
  have free: "\<not> (\<exists>u. u \<noteq> t \<and> 0 < locks_of u m)" using assms by (simp add: Lock_outcome split: if_splits)
  then have o: "owner m = (if locks_of t m = 0 then None else Some (t, locks_of t m))"
    using assms by (cases "owner m") (auto simp: locks_of_def mutex_inv_def split: if_splits)
  let ?m = "m\<lparr>owner := Some (t, Suc (locks_of t m))\<rparr>"
  have "locks_of t ?m = Suc (locks_of t m)" by (simp add: locks_of_def)
  moreover have "mutex_inv ?m" by (simp add: mutex_inv_def)
  moreover have "m\<lparr>owner := owner m\<rparr> = m" by simp
  ultimately show ?thesis using Lock_outcome [of m t] assms free o by (simp add: with_locker_def Unlock_outcome split: if_splits)
qed



section \<open>Errors and limits\<close>

text \<open>The result of pthread_mutexattr_destroy hides a failure to initialise the mutex.\<close>

lemma Mutex_failure_hidden: "settype \<noteq> 0 \<or> init \<noteq> 0 \<Longrightarrow> Mutex True 0 settype init 0 = Returns None"
  by (auto simp: Mutex_def CheckError_def)

text \<open>A wait with a limit ends that many milliseconds after now, at a time in normal form.\<close>

lemma wait_deadline_exact:
  assumes "0 \<le> tv_usec now" and "tv_usec now < 1000000" and "0 \<le> timeout"
  shows "ts_sec (wait_deadline now timeout) * 10 ^ 9 + ts_nsec (wait_deadline now timeout)
      = tv_sec now * 10 ^ 9 + tv_usec now * 1000 + timeout * 10 ^ 6
    \<and> 0 \<le> ts_nsec (wait_deadline now timeout) \<and> ts_nsec (wait_deadline now timeout) < 10 ^ 9"
proof -
  define q r where "q = timeout div 1000" and "r = timeout mod 1000"
  then have t: "timeout div 1000 = q" "timeout mod 1000 = r" "timeout = 1000 * q + r" "0 \<le> r" by simp_all
  define k v where "k = (tv_usec now + r * 1000) div 1000000" and "v = (tv_usec now + r * 1000) mod 1000000"
  then have u: "(tv_usec now + r * 1000) div 1000000 = k" "(tv_usec now + r * 1000) mod 1000000 = v"
      "tv_usec now + r * 1000 = 1000000 * k + v" "0 \<le> v" "v < 1000000"
    using mult_div_mod_eq [of 1000000 "tv_usec now + r * 1000"] by simp_all
  show ?thesis
  proof (cases "1000000 \<le> tv_usec now + r * 1000")
    case True
    then have "wait_deadline now timeout = \<lparr>ts_sec = tv_sec now + q + k, ts_nsec = v * 1000\<rparr>"
      unfolding wait_deadline_def Let_def t(1,2) u(1,2) by simp
    moreover have "(tv_sec now + q + k) * 10 ^ 9 + v * 1000 = tv_sec now * 10 ^ 9 + tv_usec now * 1000 + timeout * 10 ^ 6"
      using t(3) u(3) by (simp add: distrib_right)
    ultimately show ?thesis using u(4,5) by simp
  next
    case False
    then have "wait_deadline now timeout = \<lparr>ts_sec = tv_sec now + q, ts_nsec = (tv_usec now + r * 1000) * 1000\<rparr>"
      unfolding wait_deadline_def Let_def t(1,2) by simp
    moreover have "(tv_sec now + q) * 10 ^ 9 + (tv_usec now + r * 1000) * 1000 = tv_sec now * 10 ^ 9 + tv_usec now * 1000 + timeout * 10 ^ 6"
      using t(3) by (simp add: distrib_right)
    ultimately show ?thesis using False assms(1) t(4) by simp
  qed
qed

lemma cond_Wait_timeout_result:
  "0 \<le> timeout \<Longrightarrow> cond_Wait_timeout now timeout (\<lambda>d. Some e) =
     (if e = ETIMEDOUT then Returns False else if e = 0 then Returns True else Throws ''ConditionVariable::Wait'' e)"
  by (simp add: cond_Wait_timeout_def CheckError_def)

end
