(* ===== verification/Sockets.thy ===== *)
theory Sockets
  imports StringCodec
begin

unbundle bit_operations_syntax

text \<open>
  The wrapper of a TCP socket, src/server/tcp_socket.cc. What the system calls return is an argument of the
  operations; the open descriptors of the process are part of the state, so that a descriptor that is closed twice
  or never is seen. inet_pton is modelled by its documented behaviour for IPv4.
\<close>

section \<open>Addresses\<close>

fun dot_parts :: "string \<Rightarrow> string list" where
  "dot_parts [] = [[]]"
| "dot_parts (c # s) = (if c = CHR ''.'' then [] # dot_parts s else (case dot_parts s of [] \<Rightarrow> [[c]] | p # ps \<Rightarrow> (c # p) # ps))"

text \<open>A decimal number of up to three digits from 0 to 255, with no zero in front.\<close>

definition octet :: "string \<Rightarrow> bool" where
  "octet p \<longleftrightarrow> p \<noteq> [] \<and> length p \<le> 3 \<and> list_all is_digit p \<and> digits_value p \<le> 255 \<and> (length p = 1 \<or> hd p \<noteq> CHR ''0'')"

definition inet_pton :: "string \<Rightarrow> bool" where
  "inet_pton ip \<longleftrightarrow> length (dot_parts ip) = 4 \<and> list_all octet (dot_parts ip)"

definition address_text :: "string \<Rightarrow> nat \<Rightarrow> string" where
  "address_text ip port = ip @ '':'' @ decimal port"

text \<open>sprintf into an array of 128 bytes, with the NUL at the end.\<close>

definition sprintf_addr :: "string \<Rightarrow> nat \<Rightarrow> string result" where
  "sprintf_addr ip port = (if length (address_text ip port) + 1 \<le> 128 then Inr (address_text ip port) else Inl OutOfBounds)"

section \<open>Operations\<close>

record tcp_socket =
  socket_fd :: int
  sockaddr :: string

text \<open>The constructor, with the descriptor that socket returns; the LOG with FATAL ends the process.\<close>

definition TCPSocket :: "int \<Rightarrow> int list \<Rightarrow> (tcp_socket \<times> int list) result" where
  "TCPSocket fd fds = (if fd < 0 then Inl Abort else Inr (\<lparr>socket_fd = fd, sockaddr = []\<rparr>, fd # fds))"

definition Connect :: "string \<Rightarrow> nat \<Rightarrow> int \<Rightarrow> tcp_socket \<Rightarrow> (bool \<times> tcp_socket) result" where
  "Connect ip port connected s =
     (if inet_pton ip \<and> 0 \<le> connected then rbind (sprintf_addr ip port) (\<lambda>addr. Inr (True, s\<lparr>sockaddr := addr\<rparr>))
      else Inr (False, s\<lparr>sockaddr := []\<rparr>))"

definition Bind :: "string \<Rightarrow> nat \<Rightarrow> int \<Rightarrow> int \<Rightarrow> tcp_socket \<Rightarrow> (bool \<times> tcp_socket) result" where
  "Bind ip port option_set bound s =
     (if option_set < 0 then Inr (False, s)
      else if inet_pton ip \<and> 0 \<le> bound then rbind (sprintf_addr ip port) (\<lambda>addr. Inr (True, s\<lparr>sockaddr := addr\<rparr>))
      else Inr (False, s\<lparr>sockaddr := []\<rparr>))"

definition Listen :: "int \<Rightarrow> tcp_socket \<Rightarrow> bool \<times> tcp_socket" where
  "Listen listening s = (if 0 \<le> listening then (True, s) else (False, s\<lparr>sockaddr := []\<rparr>))"

text \<open>
  Accept into another object, with the descriptor that accept returns, the address that inet_ntop makes of the
  client's, if it does, and the port. The result has the address and the port for the caller.
\<close>

definition Accept :: "int \<Rightarrow> string option \<Rightarrow> nat \<Rightarrow> tcp_socket \<Rightarrow> int list \<Rightarrow> ((string \<times> nat) option \<times> tcp_socket \<times> int list) result" where
  "Accept fd client_ip client_port target fds =
     (if fd < 0 then Inr (None, target, fds)
      else (case client_ip of None \<Rightarrow> Inl Abort
            | Some ip \<Rightarrow> Inr (Some (ip, client_port), target\<lparr>socket_fd := fd\<rparr>, fd # fds)))"

definition O_NONBLOCK :: "32 word" where "O_NONBLOCK = 0x800"

text \<open>The flags that fcntl has to set, if the call gets so far: opts is what it returns for F_GETFL.\<close>

definition blocking_opts :: "bool \<Rightarrow> 32 word \<Rightarrow> 32 word" where
  "blocking_opts flag opts = (if flag then opts OR O_NONBLOCK else opts AND NOT O_NONBLOCK)"

definition SetBlocking :: "bool \<Rightarrow> 32 word \<Rightarrow> (32 word \<Rightarrow> int) \<Rightarrow> bool" where
  "SetBlocking flag opts set_flags \<longleftrightarrow> \<not> sint opts < 0 \<and> \<not> set_flags (blocking_opts flag opts) < 0"

definition ShutDown :: "int \<Rightarrow> bool" where
  "ShutDown answer \<longleftrightarrow> answer = 0"

text \<open>close returns 0 for an open descriptor.\<close>

definition close_fd :: "int \<Rightarrow> int list \<Rightarrow> int \<times> int list" where
  "close_fd fd fds = (if fd \<in> set fds then (0, removeAll fd fds) else (- 1, fds))"

definition Close :: "tcp_socket \<Rightarrow> int list \<Rightarrow> (tcp_socket \<times> int list) result" where
  "Close s fds =
     (if socket_fd s \<ge> 0
      then (case close_fd (socket_fd s) fds of (e, fds1) \<Rightarrow> if e = 0 then Inr (s\<lparr>socket_fd := - 1, sockaddr := []\<rparr>, fds1) else Inl Abort)
      else Inr (s, fds))"

definition destroy_TCPSocket :: "tcp_socket \<Rightarrow> int list \<Rightarrow> int list result" where
  "destroy_TCPSocket s fds = rbind (Close s fds) (\<lambda>(s1, fds1). Inr fds1)"

text \<open>send and recv fail on a descriptor that is not open.\<close>

definition Send :: "int list \<Rightarrow> int \<Rightarrow> tcp_socket \<Rightarrow> int" where
  "Send fds answer s = (if socket_fd s \<in> set fds then answer else - 1)"

definition Receive :: "int list \<Rightarrow> int \<Rightarrow> tcp_socket \<Rightarrow> int" where
  "Receive fds answer s = (if socket_fd s \<in> set fds then answer else - 1)"

section \<open>The objects of a process\<close>

record process =
  open_fds :: "int list"
  sockets :: "nat \<Rightarrow> tcp_socket option"

text \<open>
  Steps of a process on its objects, by their numbers: the system gives descriptors that are not open.
\<close>

inductive socket_step :: "process \<Rightarrow> process \<Rightarrow> bool" where
  step_new: "sockets P i = None \<Longrightarrow> fd \<notin> set (open_fds P) \<Longrightarrow> TCPSocket fd (open_fds P) = Inr (s, fds) \<Longrightarrow>
    socket_step P \<lparr>open_fds = fds, sockets = (sockets P)(i := Some s)\<rparr>"
| step_connect: "sockets P i = Some s \<Longrightarrow> Connect ip port a s = Inr (b, s') \<Longrightarrow> socket_step P (P\<lparr>sockets := (sockets P)(i := Some s')\<rparr>)"
| step_bind: "sockets P i = Some s \<Longrightarrow> Bind ip port o1 a s = Inr (b, s') \<Longrightarrow> socket_step P (P\<lparr>sockets := (sockets P)(i := Some s')\<rparr>)"
| step_listen: "sockets P i = Some s \<Longrightarrow> Listen a s = (b, s') \<Longrightarrow> socket_step P (P\<lparr>sockets := (sockets P)(i := Some s')\<rparr>)"
| step_accept: "sockets P i = Some s \<Longrightarrow> sockets P j = Some t \<Longrightarrow> fd \<notin> set (open_fds P) \<Longrightarrow>
    Accept fd ip port t (open_fds P) = Inr (r, t', fds) \<Longrightarrow> socket_step P \<lparr>open_fds = fds, sockets = (sockets P)(j := Some t')\<rparr>"
| step_close: "sockets P i = Some s \<Longrightarrow> Close s (open_fds P) = Inr (s', fds) \<Longrightarrow>
    socket_step P \<lparr>open_fds = fds, sockets = (sockets P)(i := Some s')\<rparr>"
| step_delete: "sockets P i = Some s \<Longrightarrow> destroy_TCPSocket s (open_fds P) = Inr fds \<Longrightarrow>
    socket_step P \<lparr>open_fds = fds, sockets = (sockets P)(i := None)\<rparr>"

definition no_sockets :: process where
  "no_sockets = \<lparr>open_fds = [], sockets = (\<lambda>i. None)\<rparr>"

definition has_fd :: "process \<Rightarrow> nat \<Rightarrow> int \<Rightarrow> bool" where
  "has_fd P i fd \<longleftrightarrow> (\<exists>s. sockets P i = Some s \<and> socket_fd s = fd)"

definition sockets_inv :: "process \<Rightarrow> bool" where
  "sockets_inv P \<longleftrightarrow> (\<forall>i fd. has_fd P i fd \<longrightarrow> 0 \<le> fd \<longrightarrow> fd \<in> set (open_fds P) \<and> (\<forall>j. has_fd P j fd \<longrightarrow> j = i))"

section \<open>No overflow\<close>

lemma length_dot_parts: "Suc (length s) = sum_list (map length (dot_parts s)) + length (dot_parts s)"
  by (induction s) (auto split: list.split)

lemma inet_pton_length: "inet_pton ip \<Longrightarrow> length ip \<le> 15"
proof -
  assume a: "inet_pton ip"
  then obtain p q r t where d: "dot_parts ip = [p, q, r, t]"
    by (auto simp: inet_pton_def numeral_eq_Suc length_Suc_conv)
  then show ?thesis using a length_dot_parts [of ip] by (simp add: inet_pton_def octet_def)
qed

lemma length_decimal: "n < 10 ^ Suc k \<Longrightarrow> length (decimal n) \<le> Suc k"
proof (induction k arbitrary: n)
  case 0
  then show ?case by (simp add: decimal.simps [of n])
next
  case (Suc k)
  then have "n div 10 < 10 ^ Suc k" by simp
  then show ?case using Suc.IH [of "n div 10"] by (subst decimal.simps) simp
qed

lemma sprintf_fits: "inet_pton ip \<Longrightarrow> port < 65536 \<Longrightarrow> sprintf_addr ip port = Inr (address_text ip port)"
  using inet_pton_length [of ip] length_decimal [of port 4] by (simp add: sprintf_addr_def address_text_def)

text \<open>Connecting and binding never write past the 128 bytes of the address, whatever the arguments: only an address that
  inet_pton reads is printed. The call is true exactly when the address can be read and the system calls succeed; then the
  object keeps address and port, after a failure of the last step it keeps none; the descriptor does not change.\<close>

theorem socket_address_fits:
  assumes "port < 65536"
  shows "Connect ip port connected s =
      Inr (inet_pton ip \<and> 0 \<le> connected, s\<lparr>sockaddr := (if inet_pton ip \<and> 0 \<le> connected then address_text ip port else [])\<rparr>)
    \<and> Bind ip port option_set bound s =
      Inr (0 \<le> option_set \<and> inet_pton ip \<and> 0 \<le> bound,
           if option_set < 0 then s else s\<lparr>sockaddr := (if inet_pton ip \<and> 0 \<le> bound then address_text ip port else [])\<rparr>)"
  using sprintf_fits [OF _ assms] by (auto simp: Connect_def Bind_def)

theorem socket_address_fits_witness:
  "Connect ''127.0.0.1'' 32301 0 \<lparr>socket_fd = 3, sockaddr = []\<rparr> = Inr (True, \<lparr>socket_fd = 3, sockaddr = ''127.0.0.1:32301''\<rparr>)
    \<and> fst (projr (Connect ''127.0.0.256'' 32301 0 \<lparr>socket_fd = 3, sockaddr = []\<rparr>)) = False"
proof -
  have "inet_pton ''127.0.0.1''" and "\<not> inet_pton ''127.0.0.256''"
    by (simp_all add: inet_pton_def octet_def digits_value_def is_digit_def)
  moreover have "address_text ''127.0.0.1'' 32301 = ''127.0.0.1:32301''" by (simp add: address_text_def decimal.simps char_of_def bit_Suc_0_iff)
  ultimately show ?thesis using socket_address_fits [of 32301 _ 0 "\<lparr>socket_fd = 3, sockaddr = []\<rparr>"] by simp
qed

section \<open>Descriptors\<close>

lemma has_fd_update:
  "has_fd \<lparr>open_fds = fds, sockets = f(i := x)\<rparr> j fd \<longleftrightarrow>
     (if j = i then (\<exists>s. x = Some s \<and> socket_fd s = fd) else has_fd \<lparr>open_fds = fds, sockets = f\<rparr> j fd)"
  by (simp add: has_fd_def)

lemma has_fd_fds: "has_fd \<lparr>open_fds = fds, sockets = sockets P\<rparr> j fd \<longleftrightarrow> has_fd P j fd"
  by (simp add: has_fd_def)

lemma Connect_keeps: "Connect ip port a s = Inr (b, s') \<Longrightarrow> socket_fd s' = socket_fd s"
  by (auto simp: Connect_def split: if_splits)

lemma Bind_keeps: "Bind ip port o1 a s = Inr (b, s') \<Longrightarrow> socket_fd s' = socket_fd s"
  by (auto simp: Bind_def split: if_splits)

lemma Listen_keeps: "Listen a s = (b, s') \<Longrightarrow> socket_fd s' = socket_fd s"
  by (auto simp: Listen_def split: if_splits)

lemma inv_same:
  assumes "sockets_inv P" and "sockets P i = Some s" and "socket_fd s' = socket_fd s"
  shows "sockets_inv (P\<lparr>sockets := (sockets P)(i := Some s')\<rparr>)"
proof -
  have "has_fd (P\<lparr>sockets := (sockets P)(i := Some s')\<rparr>) j fd = has_fd P j fd" for j fd
    using assms(2,3) by (simp add: has_fd_def)
  then show ?thesis using assms(1) by (simp add: sockets_inv_def)
qed

lemma inv_fresh:
  assumes inv: "sockets_inv P" and new: "fd \<notin> set (open_fds P)" and s: "socket_fd s = fd"
  shows "sockets_inv \<lparr>open_fds = fd # open_fds P, sockets = (sockets P)(i := Some s)\<rparr>"
  using inv new s unfolding sockets_inv_def has_fd_update has_fd_fds by (auto split: if_splits)

lemma inv_closed:
  assumes inv: "sockets_inv P" and old: "sockets P i = Some s" and c: "Close s (open_fds P) = Inr (s', fds)" and x: "x = Some s' \<or> x = None"
  shows "sockets_inv \<lparr>open_fds = fds, sockets = (sockets P)(i := x)\<rparr>"
proof -
  have h: "has_fd P i (socket_fd s)" using old by (simp add: has_fd_def)
  have s': "socket_fd s' < 0" and fds: "fds = (if 0 \<le> socket_fd s then removeAll (socket_fd s) (open_fds P) else open_fds P)"
    using c by (auto simp: Close_def close_fd_def split: if_splits)
  show ?thesis
    unfolding sockets_inv_def has_fd_update has_fd_fds process.select_convs
  proof (intro allI impI conjI)
    fix j fd
    assume a: "if j = i then \<exists>s. x = Some s \<and> socket_fd s = fd else has_fd P j fd" and p: "0 \<le> fd"
    have j: "j \<noteq> i" using a p x s' by (cases "j = i") auto
    then have hj: "has_fd P j fd" using a by simp
    have "fd \<noteq> socket_fd s" using inv hj p h j unfolding sockets_inv_def by blast
    then show "fd \<in> set fds" using inv hj p fds unfolding sockets_inv_def by auto
    fix k
    assume "if k = i then \<exists>s. x = Some s \<and> socket_fd s = fd else has_fd P k fd"
    then have "has_fd P k fd" using p x s' by (cases "k = i") auto
    then show "k = j" using inv hj p unfolding sockets_inv_def by blast
  qed
qed

lemma sockets_inv_step: "socket_step P P' \<Longrightarrow> sockets_inv P \<Longrightarrow> sockets_inv P'"
proof (induction rule: socket_step.induct)
  case (step_new P i fd s fds)
  then have "fds = fd # open_fds P" "socket_fd s = fd" by (auto simp: TCPSocket_def split: if_splits)
  then show ?case using inv_fresh step_new by simp
next
  case (step_accept P i s j t fd ip port r t' fds)
  then consider "fds = open_fds P" "t' = t" | "fds = fd # open_fds P" "socket_fd t' = fd"
    by (auto simp: Accept_def split: if_splits option.splits)
  then show ?case
  proof cases
    case 1
    then have "\<lparr>open_fds = fds, sockets = (sockets P)(j := Some t')\<rparr> = P" using step_accept(2) by (cases P) (auto simp: fun_upd_idem)
    then show ?thesis using step_accept by simp
  next
    case 2
    then show ?thesis using inv_fresh step_accept by simp
  qed
next
  case (step_delete P i s fds)
  then obtain s' where "Close s (open_fds P) = Inr (s', fds)" by (auto simp: destroy_TCPSocket_def)
  then show ?case using inv_closed [OF step_delete(3,1)] by blast
next
  case step_connect
  then show ?case using inv_same Connect_keeps by metis
next
  case step_bind
  then show ?case using inv_same Bind_keeps by metis
next
  case step_listen
  then show ?case using inv_same Listen_keeps by metis
next
  case (step_close P i s s' fds)
  show ?case by (rule inv_closed [OF step_close(3,1,2)]) simp
qed

lemma sockets_inv_reached: "socket_step\<^sup>*\<^sup>* no_sockets P \<Longrightarrow> sockets_inv P"
proof (induction rule: rtranclp_induct)
  case base
  show ?case by (simp add: sockets_inv_def no_sockets_def has_fd_def)
qed (rule sockets_inv_step)



text \<open>Accept writes over the descriptor of its target, which stays open without an owner.\<close>

lemma accept_leaks:
  assumes "sockets_inv P" and "sockets P j = Some t" and "0 \<le> socket_fd t" and "0 \<le> fd" and "fd \<notin> set (open_fds P)"
  shows "\<exists>P' r. Accept fd (Some ip) port t (open_fds P) = Inr (Some (ip, port), t\<lparr>socket_fd := fd\<rparr>, open_fds P')
    \<and> sockets P' = (sockets P)(j := Some (t\<lparr>socket_fd := fd\<rparr>))
    \<and> socket_fd t \<in> set (open_fds P') \<and> (\<forall>i. \<not> has_fd P' i (socket_fd t))"
proof (intro exI conjI)
  let ?P = "\<lparr>open_fds = fd # open_fds P, sockets = (sockets P)(j := Some (t\<lparr>socket_fd := fd\<rparr>))\<rparr>"
  have h: "has_fd P j (socket_fd t)" using assms(2) by (simp add: has_fd_def)
  show "Accept fd (Some ip) port t (open_fds P) = Inr (Some (ip, port), t\<lparr>socket_fd := fd\<rparr>, open_fds ?P)"
    using assms(4) by (simp add: Accept_def)
  show m: "socket_fd t \<in> set (open_fds ?P)" using assms(1,3) h unfolding sockets_inv_def by simp
  show "\<forall>i. \<not> has_fd ?P i (socket_fd t)"
    using assms(1,3,5) h m unfolding sockets_inv_def has_fd_update has_fd_fds by auto
qed simp

text \<open>SetBlocking with true makes a socket non-blocking.\<close>

lemma blocking_is_inverted:
  "blocking_opts True opts AND O_NONBLOCK = O_NONBLOCK \<and> blocking_opts False opts AND O_NONBLOCK = 0"
  by (auto simp: blocking_opts_def intro!: bit_word_eqI simp: bit_simps)

end
