(* ===== verification/Generic.thy ===== *)
theory Generic
  imports StdMap
begin

text \<open>
  Helpers: the registry of creators that the macros of src/base/class_register.h define, and the printing of
  src/utils/string_printf.cc. A creator is a value of the type 'c, NULL is None; what vsnprintf returns for a size, the
  count and the bytes in the buffer, is an argument.
\<close>

section \<open>The registry\<close>

record 'c registry =
  m_default_creator :: "'c option"
  m_creator_registry :: "(string, 'c option) smap"

definition ObjectCreatorRegistry :: "'c registry" where
  "ObjectCreatorRegistry = \<lparr>m_default_creator = None, m_creator_registry = []\<rparr>"

definition SetDefaultCreator :: "'c option \<Rightarrow> 'c registry \<Rightarrow> 'c registry" where
  "SetDefaultCreator creator r = r\<lparr>m_default_creator := creator\<rparr>"

definition AddCreator :: "string \<Rightarrow> 'c option \<Rightarrow> 'c registry \<Rightarrow> 'c registry" where
  "AddCreator entry_name creator r = r\<lparr>m_creator_registry := smap_set entry_name creator (m_creator_registry r)\<rparr>"

text \<open>The object is what the creator makes of the world.\<close>

definition CreateObject :: "string \<Rightarrow> ('c \<Rightarrow> 'o) \<Rightarrow> 'c registry \<Rightarrow> 'o option" where
  "CreateObject entry_name create r =
     (let creator = (case smap_find (m_creator_registry r) entry_name of None \<Rightarrow> m_default_creator r | Some c \<Rightarrow> c)
      in case creator of None \<Rightarrow> None | Some c \<Rightarrow> Some (create c))"

text \<open>The registrations of a program, as the constructors of its global objects register them.\<close>

datatype 'c registration = Default_is 'c | Entry_is string 'c

fun register_one :: "'c registration \<Rightarrow> 'c registry \<Rightarrow> 'c registry" where
  "register_one (Default_is c) r = SetDefaultCreator (Some c) r"
| "register_one (Entry_is name c) r = AddCreator name (Some c) r"

definition register_all :: "'c registration list \<Rightarrow> 'c registry" where
  "register_all rs = fold register_one rs ObjectCreatorRegistry"

text \<open>Reference: the last creator for a name, else the last default one.\<close>

fun last_entry :: "string \<Rightarrow> 'c registration list \<Rightarrow> 'c option" where
  "last_entry name [] = None"
| "last_entry name (Default_is c # rs) = last_entry name rs"
| "last_entry name (Entry_is n c # rs) =
     (case last_entry name rs of None \<Rightarrow> (if n = name then Some c else None) | Some d \<Rightarrow> Some d)"

fun last_default :: "'c registration list \<Rightarrow> 'c option" where
  "last_default [] = None"
| "last_default (Default_is c # rs) = (case last_default rs of None \<Rightarrow> Some c | Some d \<Rightarrow> Some d)"
| "last_default (Entry_is n c # rs) = last_default rs"

section \<open>Printing\<close>

text \<open>
  The loop of StringAppendV: len is the size of the buffer, result and buf what vsnprintf did with it. An int that overflows
  makes the size negative, so that new throws.
\<close>

function append_loop :: "(int \<Rightarrow> int \<times> string) \<Rightarrow> string \<Rightarrow> int \<Rightarrow> int \<Rightarrow> string \<Rightarrow> string result" where
  "append_loop vs dst len result buf =
     (if 0 \<le> result \<and> result < len then Inr (dst @ take (nat result) buf)
      else let len' = (if result < 0 then len * 2 else result + 1)
           in if len \<le> 0 \<or> 2 ^ 31 \<le> len' then Inl Abort
              else append_loop vs dst len' (fst (vs len')) (snd (vs len')))"
  by pat_completeness auto
termination by (relation "measure (\<lambda>(vs, dst, len, result, buf). nat (2 ^ 31 - len))") auto

declare append_loop.simps [simp del]

definition StringAppendV :: "(int \<Rightarrow> int \<times> string) \<Rightarrow> string \<Rightarrow> string result" where
  "StringAppendV vs dst = append_loop vs dst 1024 (fst (vs 1024)) (snd (vs 1024))"

definition StringPrintf :: "(int \<Rightarrow> int \<times> string) \<Rightarrow> string result" where
  "StringPrintf vs = StringAppendV vs []"

definition SStringPrintf :: "(int \<Rightarrow> int \<times> string) \<Rightarrow> string \<Rightarrow> string result" where
  "SStringPrintf vs dst = StringAppendV vs []"

definition StringAppendF :: "(int \<Rightarrow> int \<times> string) \<Rightarrow> string \<Rightarrow> string result" where
  "StringAppendF vs dst = StringAppendV vs dst"

text \<open>
  vsnprintf that prints out: a buffer that has room for it and the NUL gets it; for a smaller one the C standard has the length
  of the text, older libraries a negative number.
\<close>

definition prints :: "(int \<Rightarrow> int \<times> string) \<Rightarrow> string \<Rightarrow> bool" where
  "prints vs out \<longleftrightarrow> (\<forall>n. if int (length out) < n then fst (vs n) = int (length out) \<and> take (length out) (snd (vs n)) = out
     else fst (vs n) < 0 \<or> fst (vs n) = int (length out))"

section \<open>Results\<close>

lemma register_fold_entry:
  "smap_inv (m_creator_registry r) \<Longrightarrow>
   smap_find (m_creator_registry (fold register_one rs r)) name =
     (case last_entry name rs of None \<Rightarrow> smap_find (m_creator_registry r) name | Some c \<Rightarrow> Some (Some c))
   \<and> m_default_creator (fold register_one rs r) = (case last_default rs of None \<Rightarrow> m_default_creator r | Some c \<Rightarrow> Some c)"
  by (induction rs arbitrary: r rule: last_default.induct)
    (auto simp: SetDefaultCreator_def AddCreator_def smap_inv_set smap_find_set split: option.split)

text \<open>The registry. After the registrations of a program, in whatever order they ran, CreateObject calls the creator that was
  registered last for the name; a name without one gets the last default creator, and NULL without a default.\<close>

theorem registry_creates:
  "CreateObject name create (register_all rs) =
     map_option create (case last_entry name rs of None \<Rightarrow> last_default rs | Some c \<Rightarrow> Some c)"
  using register_fold_entry [of ObjectCreatorRegistry rs name]
  by (simp add: CreateObject_def register_all_def ObjectCreatorRegistry_def smap_inv_def split: option.split)

lemma append_loop_prints:
  assumes "prints vs out" and "int (length out) < 2 ^ 30"
  shows "0 < n \<Longrightarrow> append_loop vs dst n (fst (vs n)) (snd (vs n)) = Inr (dst @ out)"
proof (induction "nat (2 ^ 31 - n)" arbitrary: n rule: less_induct)
  case less
  show ?case
  proof (cases "int (length out) < n")
    case True
    then have "fst (vs n) = int (length out)" "take (length out) (snd (vs n)) = out" using assms(1) unfolding prints_def by metis+
    then show ?thesis using True by (simp add: append_loop.simps)
  next
    case False
    then have r: "fst (vs n) < 0 \<or> fst (vs n) = int (length out)" using assms(1) unfolding prints_def by metis
    define n' where "n' = (if fst (vs n) < 0 then n * 2 else fst (vs n) + 1)"
    have n': "n < n'" "n' < 2 ^ 31" using r False less.prems assms(2) by (auto simp: n'_def)
    have "append_loop vs dst n (fst (vs n)) (snd (vs n)) = append_loop vs dst n' (fst (vs n')) (snd (vs n'))"
      using r False less.prems n' by (subst append_loop.simps) (auto simp: n'_def [symmetric] Let_def)
    also have "\<dots> = Inr (dst @ out)" using n' less.prems by (intro less.hyps) auto
    finally show ?thesis .
  qed
qed

text \<open>Printing. A text of less than 2^30 bytes is appended whole, whether vsnprintf answers to a buffer that is too small with the
  length of the text or with a negative number: the loop ends and no byte is lost.\<close>

theorem printf_appends:
  assumes "prints vs out" and "int (length out) < 2 ^ 30"
  shows "StringAppendF vs dst = Inr (dst @ out) \<and> StringPrintf vs = Inr out \<and> SStringPrintf vs dst = Inr out"
  using append_loop_prints [OF assms, of 1024] by (simp add: StringAppendF_def StringPrintf_def SStringPrintf_def StringAppendV_def)

theorem printf_appends_witness:
  "StringAppendF (\<lambda>n. if 3000 < n then (3000, replicate 3000 CHR ''x'') else (- 1, [])) ''> '' = Inr (''> '' @ replicate 3000 CHR ''x'')"
proof -
  have "prints (\<lambda>n. if 3000 < n then (3000, replicate 3000 CHR ''x'') else (- 1, [])) (replicate 3000 CHR ''x'')"
    by (simp add: prints_def)
  then show ?thesis using printf_appends [of _ "replicate 3000 CHR ''x''" "''> ''"] by simp
qed

text \<open>A library that always answers with a negative number: the size overflows in the end.\<close>

lemma append_loop_fails: "0 < n \<Longrightarrow> (\<And>m. fst (vs m) < 0) \<Longrightarrow> append_loop vs dst n (fst (vs n)) (snd (vs n)) = Inl Abort"
proof (induction "nat (2 ^ 31 - n)" arbitrary: n rule: less_induct)
  case less
  have r: "\<not> (0 \<le> fst (vs n) \<and> fst (vs n) < n)" "fst (vs n) < 0" using less.prems(2) [of n] by auto
  show ?case
  proof (cases "2 ^ 31 \<le> n * 2")
    case True
    then show ?thesis using r by (subst append_loop.simps) (simp add: Let_def)
  next
    case False
    have "append_loop vs dst (n * 2) (fst (vs (n * 2))) (snd (vs (n * 2))) = Inl Abort"
      using False less.prems by (intro less.hyps) auto
    then show ?thesis using r False less.prems(1) by (subst append_loop.simps) (simp add: Let_def)
  qed
qed

end
