(* ===== verification/ScopedPtr.thy ===== *)
theory ScopedPtr
  imports Prelude
begin

text \<open>
  The smart pointers of src/base/scoped_ptr.h over an explicit heap, and the deletion of the elements of a
  container, src/utils/stl_util.h. An object is known by its address; a heap has the objects that live, with
  their lengths (1 for an object that is not an array), and those that were deleted.
\<close>

section \<open>The heap and the pointers\<close>

record scoped_heap =
  living :: "(nat \<times> nat) list"
  deleted :: "nat list"
  scopes :: "nat \<Rightarrow> nat option option"

text \<open>scopes has what the smart pointers of the program hold, by their numbers; one that does not exist has none.\<close>

definition is_alive :: "scoped_heap \<Rightarrow> nat \<Rightarrow> bool" where
  "is_alive h a \<longleftrightarrow> a \<in> fst ` set (living h)"

definition new_object :: "nat \<Rightarrow> nat \<Rightarrow> scoped_heap \<Rightarrow> scoped_heap" where
  "new_object a n h = h\<lparr>living := (a, n) # living h\<rparr>"

text \<open>delete of NULL does nothing; deleting twice is a fault.\<close>

definition delete_object :: "nat option \<Rightarrow> scoped_heap \<Rightarrow> scoped_heap result" where
  "delete_object p h =
     (case p of None \<Rightarrow> Inr h
      | Some a \<Rightarrow> if is_alive h a then Inr (h\<lparr>living := filter (\<lambda>e. fst e \<noteq> a) (living h), deleted := a # deleted h\<rparr>)
                  else Inl UseAfterFree)"

definition held :: "nat \<Rightarrow> scoped_heap \<Rightarrow> nat option" where
  "held i h = (case scopes h i of None \<Rightarrow> None | Some p \<Rightarrow> p)"

definition hold :: "nat \<Rightarrow> nat option \<Rightarrow> scoped_heap \<Rightarrow> scoped_heap" where
  "hold i p h = h\<lparr>scopes := (scopes h)(i := Some p)\<rparr>"

section \<open>scoped_ptr\<close>

definition scoped_ptr :: "nat \<Rightarrow> nat option \<Rightarrow> scoped_heap \<Rightarrow> scoped_heap" where
  "scoped_ptr i p h = hold i p h"

definition destroy_scoped_ptr :: "nat \<Rightarrow> scoped_heap \<Rightarrow> scoped_heap result" where
  "destroy_scoped_ptr i h = rbind (delete_object (held i h) h) (\<lambda>h1. Inr (h1\<lparr>scopes := (scopes h1)(i := None)\<rparr>))"

definition reset_scoped_ptr :: "nat \<Rightarrow> nat option \<Rightarrow> scoped_heap \<Rightarrow> scoped_heap result" where
  "reset_scoped_ptr i p h =
     (if p \<noteq> held i h then rbind (delete_object (held i h) h) (\<lambda>h1. Inr (hold i p h1)) else Inr h)"

text \<open>operator * and operator ->.\<close>

definition deref_scoped_ptr :: "nat \<Rightarrow> scoped_heap \<Rightarrow> nat result" where
  "deref_scoped_ptr i h =
     (case held i h of None \<Rightarrow> Inl Abort | Some a \<Rightarrow> if is_alive h a then Inr a else Inl UseAfterFree)"

definition equal_scoped_ptr :: "nat \<Rightarrow> nat option \<Rightarrow> scoped_heap \<Rightarrow> bool" where
  "equal_scoped_ptr i p h \<longleftrightarrow> held i h = p"

definition swap_scoped_ptr :: "nat \<Rightarrow> nat \<Rightarrow> scoped_heap \<Rightarrow> scoped_heap" where
  "swap_scoped_ptr i j h = (let tmp = held i h in hold j tmp (hold i (held j h) h))"

definition release_scoped_ptr :: "nat \<Rightarrow> scoped_heap \<Rightarrow> nat option \<times> scoped_heap" where
  "release_scoped_ptr i h = (held i h, hold i None h)"

text \<open>scoped_array has the same operations with delete [], and an index that is only checked to be not negative.\<close>

definition scoped_array_at :: "nat \<Rightarrow> int \<Rightarrow> scoped_heap \<Rightarrow> (nat \<times> nat) result" where
  "scoped_array_at i k h =
     (if \<not> k \<ge> 0 then Inl Abort
      else (case held i h of None \<Rightarrow> Inl Abort
            | Some a \<Rightarrow> (case map_of (living h) a of None \<Rightarrow> Inl UseAfterFree
                          | Some n \<Rightarrow> if nat k < n then Inr (a, nat k) else Inl OutOfBounds)))"

section \<open>Containers of pointers\<close>

fun delete_elements :: "nat option list \<Rightarrow> scoped_heap \<Rightarrow> scoped_heap result" where
  "delete_elements [] h = Inr h"
| "delete_elements (p # ps) h = rbind (if p \<noteq> None then delete_object p h else Inr h) (delete_elements ps)"

definition STLDeleteElementsAndClear :: "nat option list \<Rightarrow> scoped_heap \<Rightarrow> (nat option list \<times> scoped_heap) result" where
  "STLDeleteElementsAndClear ps h = rbind (delete_elements ps h) (\<lambda>h1. Inr ([], h1))"

definition STLDeleteValuesAndClear :: "('k \<times> nat option) list \<Rightarrow> scoped_heap \<Rightarrow> (('k \<times> nat option) list \<times> scoped_heap) result" where
  "STLDeleteValuesAndClear m h = rbind (delete_elements (map snd m) h) (\<lambda>h1. Inr ([], h1))"

section \<open>Ownership\<close>

text \<open>Every smart pointer holds NULL or a living object that no other one holds; nothing is deleted twice.\<close>

definition owned_once :: "scoped_heap \<Rightarrow> bool" where
  "owned_once h \<longleftrightarrow> (\<forall>i j a. held i h = Some a \<longrightarrow> held j h = Some a \<longrightarrow> i = j) \<and> (\<forall>i a. held i h = Some a \<longrightarrow> is_alive h a)
     \<and> distinct (deleted h) \<and> (\<forall>a \<in> set (deleted h). \<not> is_alive h a)"

definition unowned :: "scoped_heap \<Rightarrow> nat option \<Rightarrow> bool" where
  "unowned h p \<longleftrightarrow> (\<forall>a. p = Some a \<longrightarrow> is_alive h a \<and> (\<forall>i. held i h \<noteq> Some a))"

text \<open>
  What a program does with them: objects have new addresses, and only an object that no smart pointer holds is
  given to one.
\<close>

inductive scoped_step :: "scoped_heap \<Rightarrow> scoped_heap \<Rightarrow> bool" where
  step_new: "\<not> is_alive h a \<Longrightarrow> a \<notin> set (deleted h) \<Longrightarrow> scoped_step h (new_object a n h)"
| step_ctor: "scopes h i = None \<Longrightarrow> unowned h p \<Longrightarrow> scoped_step h (scoped_ptr i p h)"
| step_reset: "scopes h i \<noteq> None \<Longrightarrow> unowned h p \<or> p = held i h \<Longrightarrow> reset_scoped_ptr i p h = Inr h' \<Longrightarrow> scoped_step h h'"
| step_swap: "scopes h i \<noteq> None \<Longrightarrow> scopes h j \<noteq> None \<Longrightarrow> scoped_step h (swap_scoped_ptr i j h)"
| step_release: "scopes h i \<noteq> None \<Longrightarrow> scoped_step h (snd (release_scoped_ptr i h))"
| step_destroy: "scopes h i \<noteq> None \<Longrightarrow> destroy_scoped_ptr i h = Inr h' \<Longrightarrow> scoped_step h h'"

lemma held_hold [simp]: "held j (hold i p h) = (if j = i then p else held j h)"
  by (simp add: held_def hold_def)

lemma alive_hold [simp]: "is_alive (hold i p h) a = is_alive h a" "deleted (hold i p h) = deleted h"
  by (simp_all add: is_alive_def hold_def)

lemma held_drop: "held j (h\<lparr>scopes := (scopes h)(i := None)\<rparr>) = (if j = i then None else held j h)"
  by (simp add: held_def)

lemma alive_drop [simp]: "is_alive (h\<lparr>scopes := f\<rparr>) a = is_alive h a"
  by (simp add: is_alive_def)

text \<open>Deleting what a smart pointer holds.\<close>

lemma delete_held:
  assumes "owned_once h"
  shows "\<exists>h1. delete_object (held i h) h = Inr h1 \<and> scopes h1 = scopes h \<and> (\<forall>a. is_alive h1 a \<longleftrightarrow> is_alive h a \<and> held i h \<noteq> Some a)
    \<and> deleted h1 = (case held i h of None \<Rightarrow> deleted h | Some a \<Rightarrow> a # deleted h)"
  using assms by (cases "held i h") (auto simp: delete_object_def owned_once_def is_alive_def)

lemma held_scopes: "scopes h1 = scopes h \<Longrightarrow> held i h1 = held i h"
  by (simp add: held_def)

lemma reset_ends:
  "owned_once h \<Longrightarrow> \<exists>h'. reset_scoped_ptr i p h = Inr h' \<and> (\<forall>j. held j h' = (if j = i then p else held j h))
     \<and> (\<forall>a. is_alive h' a \<longleftrightarrow> is_alive h a \<and> (held i h = Some a \<longrightarrow> p = Some a))"
proof (cases "p = held i h")
  case False
  assume "owned_once h"
  then obtain h1 where h1: "delete_object (held i h) h = Inr h1" "scopes h1 = scopes h" "\<And>a. is_alive h1 a \<longleftrightarrow> is_alive h a \<and> held i h \<noteq> Some a"
    using delete_held by blast
  have "reset_scoped_ptr i p h = Inr (hold i p h1)" using False h1(1) by (simp add: reset_scoped_ptr_def)
  then show ?thesis using False by (intro exI [of _ "hold i p h1"]) (auto simp: held_scopes [OF h1(2)] h1(3))
qed (auto simp: reset_scoped_ptr_def)

lemma destroy_ends:
  "owned_once h \<Longrightarrow> \<exists>h'. destroy_scoped_ptr i h = Inr h' \<and> (\<forall>j. held j h' = (if j = i then None else held j h))
     \<and> (\<forall>a. is_alive h' a \<longleftrightarrow> is_alive h a \<and> held i h \<noteq> Some a)"
proof -
  assume "owned_once h"
  then obtain h1 where h1: "delete_object (held i h) h = Inr h1" "scopes h1 = scopes h" "\<And>a. is_alive h1 a \<longleftrightarrow> is_alive h a \<and> held i h \<noteq> Some a"
    using delete_held by blast
  then have "destroy_scoped_ptr i h = Inr (h1\<lparr>scopes := (scopes h1)(i := None)\<rparr>)" by (simp add: destroy_scoped_ptr_def)
  then show ?thesis by (intro exI [of _ "h1\<lparr>scopes := (scopes h1)(i := None)\<rparr>"]) (simp only: held_drop held_scopes [OF h1(2)] alive_drop h1(3) simp_thms)
qed

lemma owned_once_reset:
  assumes o: "owned_once h" and p: "unowned h p \<or> p = held i h" and r: "reset_scoped_ptr i p h = Inr h'"
  shows "owned_once h'"
proof (cases "p = held i h")
  case False
  obtain h1 where h1: "delete_object (held i h) h = Inr h1" "scopes h1 = scopes h" "\<And>a. is_alive h1 a \<longleftrightarrow> is_alive h a \<and> held i h \<noteq> Some a"
      "deleted h1 = (case held i h of None \<Rightarrow> deleted h | Some a \<Rightarrow> a # deleted h)"
    using delete_held [OF o] by blast
  have h': "h' = hold i p h1" using r False h1(1) by (simp add: reset_scoped_ptr_def)
  have a: "\<And>a. p = Some a \<Longrightarrow> is_alive h1 a \<and> (\<forall>j. held j h \<noteq> Some a)" using p False h1(3) by (auto simp: unowned_def)
  have dis: "distinct (deleted h1)" "\<forall>a \<in> set (deleted h1). \<not> is_alive h1 a" using o unfolding h1(3,4) owned_once_def by (auto split: option.splits)
  have own: "\<And>j a. j \<noteq> i \<Longrightarrow> held j h = Some a \<Longrightarrow> is_alive h1 a" using o unfolding h1(3) owned_once_def by metis
  show ?thesis
    unfolding h' owned_once_def held_hold alive_hold held_scopes [OF h1(2)]
    using a dis own o [unfolded owned_once_def] by (metis option.sel)
qed (use o r in \<open>simp add: reset_scoped_ptr_def\<close>)

lemma owned_once_destroy:
  assumes o: "owned_once h" and r: "destroy_scoped_ptr i h = Inr h'"
  shows "owned_once h'"
proof -
  obtain h1 where h1: "delete_object (held i h) h = Inr h1" "scopes h1 = scopes h" "\<And>a. is_alive h1 a \<longleftrightarrow> is_alive h a \<and> held i h \<noteq> Some a"
      "deleted h1 = (case held i h of None \<Rightarrow> deleted h | Some a \<Rightarrow> a # deleted h)"
    using delete_held [OF o] by blast
  have h': "h' = h1\<lparr>scopes := (scopes h1)(i := None)\<rparr>" using r h1(1) by (simp add: destroy_scoped_ptr_def)
  have dis: "distinct (deleted h1)" "\<forall>a \<in> set (deleted h1). \<not> is_alive h1 a" using o unfolding h1(3,4) owned_once_def by (auto split: option.splits)
  have own: "\<And>j a. j \<noteq> i \<Longrightarrow> held j h = Some a \<Longrightarrow> is_alive h1 a" using o unfolding h1(3) owned_once_def by metis
  show ?thesis unfolding h' owned_once_def held_drop alive_drop held_scopes [OF h1(2)]
    using dis own o [unfolded owned_once_def] by (simp split: if_splits)
qed

text \<open>C39: ownership. However a program uses smart pointers, as long as it only gives them objects that none of them holds, every one of
  them owns its object alone, and no object is deleted twice or used after its deletion. Then reset and the destructor do not
  fail: they delete exactly the object that is given up; release gives it up without deleting it.\<close>

theorem scoped_ownership:
  assumes "scoped_step\<^sup>*\<^sup>* \<lparr>living = [], deleted = [], scopes = \<lambda>i. None\<rparr> h"
  shows "owned_once h
    \<and> (\<exists>h1. reset_scoped_ptr i p h = Inr h1 \<and> (\<forall>j. held j h1 = (if j = i then p else held j h))
         \<and> (\<forall>a. is_alive h1 a \<longleftrightarrow> is_alive h a \<and> (held i h = Some a \<longrightarrow> p = Some a)))
    \<and> (\<exists>h2. destroy_scoped_ptr i h = Inr h2 \<and> (\<forall>j. held j h2 = (if j = i then None else held j h))
         \<and> (\<forall>a. is_alive h2 a \<longleftrightarrow> is_alive h a \<and> held i h \<noteq> Some a))
    \<and> (\<exists>h3. release_scoped_ptr i h = (held i h, h3) \<and> (\<forall>j. held j h3 = (if j = i then None else held j h))
         \<and> (\<forall>a. is_alive h3 a = is_alive h a))
    \<and> deref_scoped_ptr i h = (case held i h of None \<Rightarrow> Inl Abort | Some a \<Rightarrow> Inr a)"
proof -
  have "owned_once h"
    using assms
  proof (induction rule: rtranclp_induct)
    case base
    show ?case by (simp add: owned_once_def held_def)
  next
    case (step h h')
    from step(2,3) show ?case
    proof (cases rule: scoped_step.cases)
      case (step_new a n)
      then show ?thesis using step(3) by (auto simp: owned_once_def new_object_def is_alive_def held_def)
    next
      case (step_ctor i p)
      then have "held i h = None" by (simp add: held_def)
      then show ?thesis using step_ctor step(3) by (auto simp: owned_once_def scoped_ptr_def unowned_def)
    next
      case (step_reset i p)
      then show ?thesis using owned_once_reset step(3) by blast
    next
      case (step_swap i j)
      then show ?thesis using step(3) unfolding step_swap(1) by (auto simp: owned_once_def swap_scoped_ptr_def Let_def split: if_splits)
    next
      case (step_release i)
      then show ?thesis using step(3) by (auto simp: owned_once_def release_scoped_ptr_def split: if_splits)
    next
      case (step_destroy i)
      then show ?thesis using owned_once_destroy step(3) by blast
    qed
  qed
  moreover have "deref_scoped_ptr i h = (case held i h of None \<Rightarrow> Inl Abort | Some a \<Rightarrow> Inr a)"
    using calculation by (auto simp: deref_scoped_ptr_def owned_once_def split: option.split)
  moreover have "\<exists>h3. release_scoped_ptr i h = (held i h, h3) \<and> (\<forall>j. held j h3 = (if j = i then None else held j h))
      \<and> (\<forall>a. is_alive h3 a = is_alive h a)" by (simp add: release_scoped_ptr_def)
  ultimately show ?thesis using reset_ends [of h i p] destroy_ends [of h i] by blast
qed

theorem scoped_ownership_witness:
  "\<exists>h. scoped_step\<^sup>*\<^sup>* \<lparr>living = [], deleted = [], scopes = \<lambda>i. None\<rparr> h \<and> held 0 h = Some 8 \<and> deleted h = [7] \<and> owned_once h"
proof -
  let ?h0 = "\<lparr>living = [], deleted = [], scopes = \<lambda>i. None\<rparr> :: scoped_heap"
  let ?h1 = "new_object 7 1 ?h0"
  let ?h2 = "scoped_ptr 0 (Some 7) ?h1"
  let ?h3 = "new_object 8 1 ?h2"
  let ?h4 = "\<lparr>living = [(8, 1)], deleted = [7], scopes = (\<lambda>i. None)(0 := Some (Some 8))\<rparr> :: scoped_heap"
  have 1: "scoped_step ?h0 ?h1" by (rule step_new) (simp_all add: is_alive_def)
  have 2: "scoped_step ?h1 ?h2" by (rule step_ctor) (simp_all add: unowned_def is_alive_def new_object_def held_def)
  have 3: "scoped_step ?h2 ?h3" by (rule step_new) (simp_all add: is_alive_def new_object_def scoped_ptr_def hold_def)
  have "reset_scoped_ptr 0 (Some 8) ?h3 = Inr ?h4"
    by (simp add: reset_scoped_ptr_def delete_object_def is_alive_def new_object_def scoped_ptr_def hold_def held_def fun_eq_iff)
  then have 4: "scoped_step ?h3 ?h4"
    by (rule step_reset [rotated 2]) (simp_all add: unowned_def is_alive_def new_object_def scoped_ptr_def hold_def held_def)
  have r: "scoped_step\<^sup>*\<^sup>* ?h0 ?h4" using 1 2 3 4 by (meson rtranclp.rtrancl_into_rtrancl rtranclp.rtrancl_refl)
  have "owned_once ?h4" using scoped_ownership [OF r, of 0 None] by (rule conjunct1)
  with r show ?thesis by (intro exI [of _ ?h4]) (simp add: held_def)
qed

section \<open>Containers\<close>

text \<open>Different living objects are all deleted; one that is in the container twice is deleted twice.\<close>

fun addresses :: "nat option list \<Rightarrow> nat list" where
  "addresses [] = []"
| "addresses (None # ps) = addresses ps"
| "addresses (Some a # ps) = a # addresses ps"

lemma addresses_set: "a \<in> set (addresses ps) \<longleftrightarrow> Some a \<in> set ps"
  by (induction ps rule: addresses.induct) auto

lemma delete_elements_all:
  "distinct (addresses ps) \<Longrightarrow> \<forall>a. Some a \<in> set ps \<longrightarrow> is_alive h a \<Longrightarrow>
   \<exists>h'. delete_elements ps h = Inr h' \<and> scopes h' = scopes h \<and> (\<forall>a. is_alive h' a \<longleftrightarrow> is_alive h a \<and> Some a \<notin> set ps)
     \<and> deleted h' = rev (addresses ps) @ deleted h"
proof (induction ps arbitrary: h)
  case (Cons p ps)
  show ?case
  proof (cases p)
    case None
    then show ?thesis using Cons by simp
  next
    case (Some a)
    let ?h = "h\<lparr>living := filter (\<lambda>e. fst e \<noteq> a) (living h), deleted := a # deleted h\<rparr>"
    have alive: "is_alive ?h b \<longleftrightarrow> is_alive h b \<and> b \<noteq> a" for b by (auto simp: is_alive_def)
    have d: "delete_object (Some a) h = Inr ?h" using Cons.prems(2) Some by (simp add: delete_object_def)
    have n: "Some a \<notin> set ps" using Cons.prems(1) Some by (simp add: addresses_set)
    have "\<exists>h'. delete_elements ps ?h = Inr h' \<and> scopes h' = scopes ?h \<and> (\<forall>b. is_alive h' b \<longleftrightarrow> is_alive ?h b \<and> Some b \<notin> set ps)
        \<and> deleted h' = rev (addresses ps) @ deleted ?h"
      using Cons.prems Some n by (intro Cons.IH) (auto simp: alive)
    then show ?thesis using d Some alive by (auto)
  qed
qed simp

lemma delete_elements_twice: "is_alive h a \<Longrightarrow> delete_elements [Some a, Some a] h = Inl UseAfterFree"
  by (auto simp: delete_object_def is_alive_def)

end
