(* ===== verification/WordCount.thy ===== *)
theory WordCount
  imports Messages Mysql SimpleHash
begin

text \<open>
  The program that is delivered with the system, src/demo/dict_worker.cc and src/demo/dict_master.cc: a worker
  counts the words of the text of a task, the master adds the counts to a table of the database. The
  statements go through the MySQL accessor of theory Mysql. The database is an argument: what its client
  library answers to a statement, the number of rows fetched so far included, and what the statement makes of it.
\<close>

record 'd database =
  db_lib :: "'d \<Rightarrow> string \<Rightarrow> nat \<Rightarrow> mysql_lib"
  db_effect :: "'d \<Rightarrow> string \<Rightarrow> 'd"

type_synonym 'd session = "mysql_query \<times> mysql_connection \<times> 'd"

text \<open>A statement is sent when the query has a connection and no pending result.\<close>

definition sent :: "mysql_query \<Rightarrow> bool" where
  "sent q \<longleftrightarrow> q_connection q \<and> q_open q \<noteq> None \<and> q_res q = None"

definition execute_in :: "'d database \<Rightarrow> string \<Rightarrow> 'd session \<Rightarrow> int \<times> 'd session" where
  "execute_in db sql s =
     (case s of (q, c, d) \<Rightarrow> case Execute (db_lib db d sql 0) sql q c of (e, q1, c1) \<Rightarrow>
        (e, q1, c1, if sent q then db_effect db d sql else d))"

definition try_execute_in :: "'d database \<Rightarrow> string \<Rightarrow> 'd session \<Rightarrow> int \<times> 'd session" where
  "try_execute_in db sql s =
     (case s of (q, c, d) \<Rightarrow> (TryExecute (db_lib db d sql 0) sql q, q, c, if sent q then db_effect db d sql else d))"

section \<open>The worker\<close>

definition select_text_sql :: "string \<Rightarrow> string" where
  "select_text_sql tid = ''SELECT text FROM dict_task WHERE task_id = '' @ takeWhile (\<lambda>c. c \<noteq> CHR 0x00) tid @ '';''"

text \<open>A char pointer that is read as a string.\<close>

definition from_pointer :: "string option \<Rightarrow> string result" where
  "from_pointer p = (case p of None \<Rightarrow> Inl NullDeref | Some s \<Rightarrow> Inr (takeWhile (\<lambda>c. c \<noteq> CHR 0x00) s))"

fun count_words :: "string list \<Rightarrow> (string, int) smap \<Rightarrow> (string, int) smap" where
  "count_words [] m = m"
| "count_words (w # ws) m =
     count_words ws (if w = [] then m
       else (case smap_find m w of None \<Rightarrow> smap_set w 1 m | Some n \<Rightarrow> smap_set w (wrap32 (n + 1)) m))"

definition word_record :: "int \<Rightarrow> string \<Rightarrow> int \<Rightarrow> KeyValuePair result" where
  "word_record v0 word n =
     rbind (Int32ToKey n) (\<lambda>count.
       if count = [] \<or> n < 0 \<or> KeyToInt32 v0 count < 0 then Inl Abort
       else Inr (new_KeyValuePair\<lparr>kv_key_field := Some word, kv_value_field := Some count\<rparr>))"

fun write_counts :: "codec \<Rightarrow> int \<Rightarrow> (string, int) smap \<Rightarrow> KeyValuesPair \<Rightarrow> KeyValuesPair result" where
  "write_counts cd v0 [] pairs = Inr pairs"
| "write_counts cd v0 ((w, n) # m) pairs = rbind (word_record v0 w n) (\<lambda>kv. write_counts cd v0 m (WriteRecord_pair cd pairs kv))"

text \<open>The text of the task, or none when the statement fails; the query ends with the function.\<close>

definition task_text :: "'d database \<Rightarrow> string \<Rightarrow> 'd session \<Rightarrow> (string option \<times> 'd session) result" where
  "task_text db sql s =
     (case execute_in db sql s of (e, q, c, d) \<Rightarrow>
        if e = 0 then Inr (None, q, c, d)
        else (case Store q c of
                (None, q1, c1) \<Rightarrow> Inl NullDeref
              | (Some m, q1, c1) \<Rightarrow>
                  let lib = db_lib db (snd (snd s)) sql 0
                  in rbind (RowsSize lib m q1) (\<lambda>n.
                     rbind (if 0 < n then rbind (FetchRow lib m q1) (\<lambda>w. rbind (row_at w 0) (\<lambda>v. from_pointer (variable_string v))) else Inr []) (\<lambda>txt.
                     rbind (FreeResult m q1 c1) (\<lambda>(q2, c2). Inr (Some txt, q2, c2, d))))))"

definition ComputingUDF :: "codec \<Rightarrow> int \<Rightarrow> 'd database \<Rightarrow> FdcsTask \<Rightarrow> mysql_connection \<Rightarrow> 'd \<Rightarrow> (bool \<times> FdcsTask \<times> mysql_connection \<times> 'd) result" where
  "ComputingUDF cd v0 db task c d =
     (let sql = select_text_sql (task_id task); (q, c1) = MysqlQuery (db_lib db d sql 0) c
      in rbind (task_text db sql (q, c1, d)) (\<lambda>(txt, q2, c2, d2).
           case txt of None \<Rightarrow> rbind (destroy_query q2 c2) (\<lambda>c3. Inr (False, task, c3, d2))
           | Some s \<Rightarrow>
               rbind (SplitStringUsing s (Some '' '') []) (\<lambda>words.
               rbind (write_counts cd v0 (count_words words []) new_KeyValuesPair) (\<lambda>pairs.
               rbind (destroy_query q2 c2) (\<lambda>c3.
                 Inr (True, task\<lparr>task_key_values_pairs := task_key_values_pairs task @ [pairs]\<rparr>, c3, d2))))))"

section \<open>The master: counts go to the table\<close>

definition escape_word :: "string \<Rightarrow> string result" where
  "escape_word word =
     (case StringReplace word [CHR 0x22] [CHR 0x5C, CHR 0x22] of None \<Rightarrow> Inl Diverge
      | Some w \<Rightarrow> (case StringReplace w [CHR 0x27] [CHR 0x5C, CHR 0x27] of None \<Rightarrow> Inl Diverge | Some w' \<Rightarrow> Inr w'))"

text \<open>The decimal form of an int, and the statements; the literals of the code go over two lines.\<close>

definition signed_decimal :: "int \<Rightarrow> string" where
  "signed_decimal n = (if n < 0 then CHR ''-'' # decimal (nat (- n)) else decimal (nat n))"

definition select_count_sql :: "int \<Rightarrow> string" where
  "select_count_sql word_id = ''SELECT count FROM dict_word WHERE word_id = '' @ decimal (nat word_id) @ '';''"

definition insert_word_sql :: "int \<Rightarrow> string \<Rightarrow> int \<Rightarrow> string" where
  "insert_word_sql word_id word count =
     ''INSERT INTO dict_word '' @ replicate 3 (CHR 0x09) @ ''    '' @ replicate 2 (CHR 0x09) @ ''(word_id, word, count, create_time) VALUES ('' @
     decimal (nat word_id) @ '', '' @ [CHR 0x27] @ takeWhile (\<lambda>c. c \<noteq> CHR 0x00) word @ [CHR 0x27] @ '', '' @ signed_decimal count @ '', now())''"

definition update_word_sql :: "int \<Rightarrow> int \<Rightarrow> string" where
  "update_word_sql word_id count =
     ''UPDATE dict_word SET count = '' @ signed_decimal count @ '', '' @ replicate 7 (CHR 0x09) @ ''update_time = now() WHERE word_id = '' @
     decimal (nat word_id)"

text \<open>The count that is in the table, 0 without a row; None when the statement failed.\<close>

definition read_count :: "'d database \<Rightarrow> string \<Rightarrow> 'd session \<Rightarrow> (int option \<times> 'd session) result" where
  "read_count db sql s =
     (case execute_in db sql s of (e, q, c, d) \<Rightarrow>
        if e = 0 then Inr (None, q, c, d)
        else (case Store q c of
                (None, q1, c1) \<Rightarrow> Inl NullDeref
              | (Some m, q1, c1) \<Rightarrow>
                  let lib = db_lib db (snd (snd s)) sql 0
                  in rbind (RowsSize lib m q1) (\<lambda>n.
                     rbind (if 0 < n then rbind (FetchRow lib m q1) (\<lambda>w. rbind (row_at w 0) (\<lambda>v. Inr (variable_int v))) else Inr 0) (\<lambda>old.
                     rbind (FreeResult m q1 c1) (\<lambda>(q2, c2). Inr (Some old, q2, c2, d))))))"

definition export_pair :: "int \<Rightarrow> 'd database \<Rightarrow> KeyValuePair \<Rightarrow> 'd session \<Rightarrow> 'd session result" where
  "export_pair v0 db kv s =
     rbind (escape_word (kv_key kv)) (\<lambda>word.
       let count = KeyToInt32 v0 (kv_value kv); word_id = uint (BKDRHash word)
       in rbind (read_count db (select_count_sql word_id) s) (\<lambda>(old, s1).
            case old of None \<Rightarrow> Inr s1
            | Some old_count \<Rightarrow>
                let total = wrap32 (old_count + count);
                    sql = (if old_count = 0 then insert_word_sql word_id word count else update_word_sql word_id total)
                in if total < 0 \<or> old_count < 0 \<or> count < 0 then Inr s1 else Inr (snd (try_execute_in db sql s1))))"

fun export_pairs :: "int \<Rightarrow> 'd database \<Rightarrow> KeyValuePair list \<Rightarrow> 'd session \<Rightarrow> 'd session result" where
  "export_pairs v0 db [] s = Inr s"
| "export_pairs v0 db (kv # kvs) s = rbind (export_pair v0 db kv s) (export_pairs v0 db kvs)"

text \<open>The records of one pair are added to those of the pairs before.\<close>

fun export_task_pairs :: "codec \<Rightarrow> int \<Rightarrow> 'd database \<Rightarrow> KeyValuesPair list \<Rightarrow> KeyValuePair list \<Rightarrow> 'd session \<Rightarrow> 'd session result" where
  "export_task_pairs cd v0 db [] key_values s = Inr s"
| "export_task_pairs cd v0 db (p # ps) key_values s =
     (let key_values' = ReadRecord_pairs cd p key_values
      in rbind (export_pairs v0 db key_values' s) (export_task_pairs cd v0 db ps key_values'))"

text \<open>The first statement of a query decides whether mysql_init and the connection succeed.\<close>

definition export_task :: "codec \<Rightarrow> int \<Rightarrow> 'd database \<Rightarrow> FdcsTask \<Rightarrow> mysql_connection \<times> 'd \<Rightarrow> (mysql_connection \<times> 'd) result" where
  "export_task cd v0 db task s =
     (case s of (c, d) \<Rightarrow> case MysqlQuery (db_lib db d [] 0) c of (q, c1) \<Rightarrow>
        rbind (export_task_pairs cd v0 db (task_key_values_pairs task) [] (q, c1, d)) (\<lambda>(q2, c2, d2).
        rbind (destroy_query q2 c2) (\<lambda>c3. Inr (c3, d2))))"

fun ExportTaskUDF :: "codec \<Rightarrow> int \<Rightarrow> 'd database \<Rightarrow> FdcsTask list \<Rightarrow> mysql_connection \<times> 'd \<Rightarrow> (bool \<times> mysql_connection \<times> 'd) result" where
  "ExportTaskUDF cd v0 db [] s = Inr (True, s)"
| "ExportTaskUDF cd v0 db (t # ts) s = rbind (export_task cd v0 db t s) (ExportTaskUDF cd v0 db ts)"

section \<open>The master: tasks from the table\<close>

definition select_tasks_sql :: "int \<Rightarrow> string" where
  "select_tasks_sql n = ''SELECT task_id FROM dict_task WHERE task_status = 1 LIMIT '' @ signed_decimal n @ '';''"

definition or_task :: "string \<Rightarrow> string \<Rightarrow> string" where
  "or_task condition tid =
     (if condition = [] then ''task_id = '' @ [CHR 0x27] @ tid @ [CHR 0x27]
      else condition @ '' or task_id = '' @ [CHR 0x27] @ tid @ [CHR 0x27])"

fun import_rows :: "(nat \<Rightarrow> mysql_lib) \<Rightarrow> nat \<Rightarrow> mysql_query \<Rightarrow> nat \<Rightarrow> nat \<Rightarrow> string \<Rightarrow> FdcsTask list \<Rightarrow> (string \<times> FdcsTask list) result" where
  "import_rows lib m q i 0 condition tasks = Inr (condition, tasks)"
| "import_rows lib m q i (Suc left) condition tasks =
     rbind (FetchRow (lib i) m q) (\<lambda>w. rbind (row_at w 0) (\<lambda>v. rbind (from_pointer (variable_string v)) (\<lambda>tid.
       import_rows lib m q (Suc i) left (or_task condition tid) (tasks @ [new_FdcsTask\<lparr>task_id_field := Some tid\<rparr>]))))"

definition update_tasks_sql :: "string \<Rightarrow> string" where
  "update_tasks_sql condition = ''UPDATE dict_task SET task_status = 2 WHERE '' @ condition @ '';''"

definition ImportTaskUDF :: "'d database \<Rightarrow> int \<Rightarrow> FdcsTask list \<Rightarrow> mysql_connection \<Rightarrow> 'd \<Rightarrow> (bool \<times> FdcsTask list \<times> mysql_connection \<times> 'd) result" where
  "ImportTaskUDF db preload tasks c d =
     (let sql = select_tasks_sql preload; (q, c1) = MysqlQuery (db_lib db d sql 0) c
      in case execute_in db sql (q, c1, d) of (e, q1, c2, d1) \<Rightarrow>
        if e = 0 then rbind (destroy_query q1 c2) (\<lambda>c3. Inr (False, tasks, c3, d1))
        else (case Store q1 c2 of
                (None, q2, c3) \<Rightarrow> Inl NullDeref
              | (Some m, q2, c3) \<Rightarrow>
                  rbind (RowsSize (db_lib db d sql 0) m q2) (\<lambda>rows.
                    if wrap32 rows = 0 then rbind (destroy_query q2 c3) (\<lambda>c4. Inr (False, tasks, c4, d1))
                    else rbind (import_rows (db_lib db d sql) m q2 0 (nat (wrap32 rows)) [] tasks) (\<lambda>(condition, tasks1).
                         rbind (FreeResult m q2 c3) (\<lambda>(q3, c4).
                         case try_execute_in db (update_tasks_sql condition) (q3, c4, d1) of (ok, q4, c5, d2) \<Rightarrow>
                           rbind (destroy_query q4 c5) (\<lambda>c6. Inr (ok \<noteq> 0, tasks1, c6, d2)))))))"

end
