(* ===== verification/WordCountProps.thy ===== *)
theory WordCountProps
  imports WordCount MysqlProps
begin

text \<open>
  Properties of the word count: the worker counts every word of a text, and what the master makes of the
  results of any number of tasks is the sum over all their texts, for every number of a word.
\<close>

section \<open>The words of a text\<close>

lemma count_words_find:
  assumes "smap_inv m" and "length seen + length ws < 2 ^ 31"
    and "\<And>w. smap_find m w = (if w \<noteq> [] \<and> w \<in> set seen then Some (int (count_list seen w)) else None)"
  shows "smap_inv (count_words ws m) \<and> (\<forall>w. smap_find (count_words ws m) w =
      (if w \<noteq> [] \<and> w \<in> set (seen @ ws) then Some (int (count_list (seen @ ws) w)) else None))"
  using assms
proof (induction ws arbitrary: m seen)
  case (Cons x ws)
  define m' where "m' = (if x = [] then m else (case smap_find m x of None \<Rightarrow> smap_set x 1 m | Some n \<Rightarrow> smap_set x (wrap32 (n + 1)) m))"
  have inv: "smap_inv m'" using Cons.prems(1) unfolding m'_def by (auto intro: smap_inv_set split: option.split)
  have "count_list seen x \<le> length seen" by (rule count_le_length)
  then have w: "wrap32 (int (count_list seen x) + 1) = int (count_list seen x) + 1" using Cons.prems(2) by (intro wrap32_id) simp_all
  have f: "smap_find m' w = (if w \<noteq> [] \<and> w \<in> set (seen @ [x]) then Some (int (count_list (seen @ [x]) w)) else None)" for w
    unfolding m'_def using Cons.prems(1,3) w by (auto simp: smap_find_set count_notin split: option.split)
  show ?case using Cons.IH [OF inv _ f] Cons.prems(2) by (simp add: m'_def [symmetric])
qed simp

text \<open>The sum of the counts of the words that satisfy a predicate.\<close>

definition count_sum :: "(string \<Rightarrow> bool) \<Rightarrow> (string, int) smap \<Rightarrow> int" where
  "count_sum P m = (\<Sum>(w, n) \<leftarrow> m. if P w then n else 0)"

lemma smap_find_below: "smap_inv ((k', v') # m) \<Longrightarrow> k < k' \<Longrightarrow> smap_find m k = None"
  by (auto simp: smap_find_map_of smap_inv_def map_of_eq_None_iff)

lemma count_sum_set:
  "smap_inv m \<Longrightarrow> count_sum P (smap_set k v m) = count_sum P m + (if P k then v - (case smap_find m k of None \<Rightarrow> 0 | Some n \<Rightarrow> n) else 0)"
proof (induction k v m rule: smap_set.induct)
  case (2 k v k' v' m)
  have "smap_inv m" using "2.prems" by (simp add: smap_inv_def)
  then show ?case using "2.IH" smap_find_below [OF "2.prems", of k] by (auto simp: count_sum_def)
qed (simp add: count_sum_def)

lemma count_words_sum:
  "smap_inv m \<Longrightarrow> \<forall>(w, n) \<in> set m. 0 \<le> n \<and> n + int (length ws) < 2 ^ 31 \<Longrightarrow> int (length ws) < 2 ^ 31 \<Longrightarrow>
   count_sum P (count_words ws m) = count_sum P m + int (length (filter (\<lambda>w. w \<noteq> [] \<and> P w) ws))"
proof (induction ws arbitrary: m)
  case (Cons x ws)
  define n where "n = (case smap_find m x of None \<Rightarrow> 0 | Some n \<Rightarrow> n)"
  have n: "0 \<le> n" "n + int (length (x # ws)) < 2 ^ 31"
    using Cons.prems(2,3) map_of_SomeD [of m x] unfolding n_def by (auto simp: smap_find_map_of split: option.split)
  have w: "wrap32 (n + 1) = n + 1" using n by (intro wrap32_id) simp_all
  show ?case
  proof (cases "x = []")
    case True
    then show ?thesis using Cons.IH [OF Cons.prems(1)] Cons.prems(2,3) by fastforce
  next
    case False
    have s: "count_words (x # ws) m = count_words ws (smap_set x (n + 1) m)"
      using False w by (auto simp: n_def split: option.split)
    have "\<forall>(w, k) \<in> set (smap_set x (n + 1) m). 0 \<le> k \<and> k + int (length ws) < 2 ^ 31"
    proof -
      have "set (smap_set x (n + 1) m) \<subseteq> insert (x, n + 1) (set m)" by (induction x "n + 1" m rule: smap_set.induct) auto
      then show ?thesis using n Cons.prems(2) by fastforce
    qed
    then show ?thesis
      unfolding s using Cons.IH [of "smap_set x (n + 1) m"] Cons.prems(1,3) False
      by (simp add: smap_inv_set count_sum_set n_def [symmetric])
  qed
qed simp

section \<open>The worker\<close>

definition counted :: "string \<times> int \<Rightarrow> KeyValuePair" where
  "counted e = new_KeyValuePair\<lparr>kv_key_field := Some (fst e), kv_value_field := Some (pad kNumericValueFillSize (decimal (nat (snd e))))\<rparr>"

lemma counted_simps [simp]:
  "kv_key (counted (w, n)) = w" "0 \<le> n \<Longrightarrow> n < 2 ^ 31 \<Longrightarrow> KeyToInt32 v0 (kv_value (counted (w, n))) = n"
  by (simp_all add: counted_def getter_defs KeyToInt32_pad del: power_numeral)

lemma word_record_counted: "0 \<le> n \<Longrightarrow> n < 2 ^ 31 \<Longrightarrow> word_record v0 w n = Inr (counted (w, n))"
proof -
  assume n: "0 \<le> n" "n < 2 ^ 31"
  have "pad kNumericValueFillSize (decimal (nat n)) \<noteq> []" using decimal_digits [of "nat n"] by (simp add: pad_def)
  then show ?thesis
    using n KeyToInt32_pad [OF n, of v0 kNumericValueFillSize]
    by (simp add: word_record_def Int32ToKey_def NumericValueToKey_def counted_def)
qed

lemma write_counts_counted:
  "\<forall>(w, n) \<in> set m. 0 \<le> n \<and> n < 2 ^ 31 \<Longrightarrow>
   write_counts cd v0 m pairs = Inr (pairs\<lparr>kvs_value := kvs_value pairs @ map (ser_pair cd \<circ> counted) m\<rparr>)"
proof (induction m arbitrary: pairs)
  case (Cons e m)
  obtain w n where e: "e = (w, n)" by fastforce
  have n: "0 \<le> n" "n < 2 ^ 31" using Cons.prems e by auto
  show ?case using Cons.IH Cons.prems by (simp add: e word_record_counted [OF n] WriteRecord_pair_def SerializeValue_def)
qed simp

lemma read_counted:
  assumes "lossless cd"
  shows "ReadRecord_pairs cd (new_KeyValuesPair\<lparr>kvs_value := kvs_value new_KeyValuesPair @ map (ser_pair cd \<circ> counted) m\<rparr>) vs = vs @ map counted m"
  using assms by (simp add: ReadRecord_pairs_def ReadRecord_append new_KeyValuesPair_def comp_def)

text \<open>The words of a text, as the worker splits it, and the table of their counts.\<close>

definition words_of :: "string \<Rightarrow> string list" where
  "words_of body = SplitString.fields (\<lambda>c. c = CHR '' '') body"

definition word_table :: "string \<Rightarrow> (string, int) smap" where
  "word_table body = count_words (words_of body) []"

lemma words_of_length: "length (words_of body) \<le> length body"
proof -
  have "length (SplitString.fields sep xs) \<le> length xs" for sep and xs :: string
  proof (induction sep xs rule: SplitString.fields.induct)
    case (2 sep x xs)
    have "length (dropWhile (Not \<circ> sep) xs) \<le> length xs" by (rule length_dropWhile_le)
    then show ?case using "2.IH" by (cases "sep x") auto
  qed simp
  then show ?thesis unfolding words_of_def .
qed

lemma word_table_find:
  assumes "length body < 2 ^ 31"
  shows "smap_inv (word_table body) \<and> (\<forall>w. smap_find (word_table body) w =
    (if w \<in> set (words_of body) then Some (int (count_list (words_of body) w)) else None))"
proof -
  have "w \<noteq> []" if "w \<in> set (words_of body)" for w using that fields_members unfolding words_of_def by blast
  then show ?thesis
    using count_words_find [of "[]" "[]" "words_of body"] words_of_length [of body] assms unfolding word_table_def
    by (simp add: smap_inv_def)
qed

lemma word_table_counts:
  assumes "length body < 2 ^ 31"
  shows "\<forall>(w, n) \<in> set (word_table body). 0 < n \<and> n < 2 ^ 31"
proof clarify
  fix w n
  assume "(w, n) \<in> set (word_table body)"
  moreover have "distinct (map fst (word_table body))"
    using word_table_find [OF assms] unfolding smap_inv_def by (metis strict_sorted_iff)
  ultimately have "smap_find (word_table body) w = Some n" by (simp add: smap_find_map_of)
  then have n: "w \<in> set (words_of body)" "n = int (count_list (words_of body) w)" using word_table_find [OF assms] by (auto split: if_splits)
  have "count_list (words_of body) w \<le> length (words_of body)" by (rule count_le_length)
  then show "0 < n \<and> n < 2 ^ 31" using n words_of_length [of body] assms by (auto simp: count_list_0_iff neq0_conv [symmetric] simp del: neq0_conv)
qed

text \<open>A database that has the texts of the tasks.\<close>

definition text_table :: "'d database \<Rightarrow> (string \<Rightarrow> string) \<Rightarrow> bool" where
  "text_table db body \<longleftrightarrow> (\<forall>d tid. CHR 0x00 \<notin> set tid \<longrightarrow>
     (let sql = select_text_sql tid; lib = db_lib db d sql 0
      in lib_init lib \<and> lib_connect lib \<and> db_effect db d sql = d
         \<and> (\<forall>h. lib_query lib h sql = 0 \<and> wrap32 (lib_store lib h) \<noteq> 0)
         \<and> (\<forall>r. lib_num_rows lib r = 1 \<and> lib_fetch_row lib r = Some [Some (body tid)])))"

lemma text_tableD:
  assumes "text_table db body" and "CHR 0x00 \<notin> set tid"
  shows "lib_init (db_lib db d (select_text_sql tid) 0)" and "lib_connect (db_lib db d (select_text_sql tid) 0)"
    and "db_effect db d (select_text_sql tid) = d"
    and "lib_query (db_lib db d (select_text_sql tid) 0) h (select_text_sql tid) = 0 \<and> wrap32 (lib_store (db_lib db d (select_text_sql tid) 0) h) \<noteq> 0"
    and "lib_num_rows (db_lib db d (select_text_sql tid) 0) r = 1" and "lib_fetch_row (db_lib db d (select_text_sql tid) 0) r = Some [Some (body tid)]"
  using assms(1) [unfolded text_table_def, rule_format, OF assms(2), of d] unfolding Let_def by simp_all

text \<open>A session whose query has a connection, no results and no pending result.\<close>

definition session_ready :: "mysql_query \<Rightarrow> mysql_connection \<Rightarrow> bool" where
  "session_ready q c \<longleftrightarrow> q_connection q \<and> q_open q \<noteq> None \<and> q_res q = None \<and> q_results q = [] \<and> live_results c = []"

lemma query_ready:
  assumes "lib_init lib" "lib_connect lib" "live_results c = []"
  shows "session_ready (fst (MysqlQuery lib c)) (snd (MysqlQuery lib c))"
  using assms by (auto simp: MysqlQuery_def GrabDB_def session_ready_def split: option.split)

lemma destroy_ready: "session_ready q c \<Longrightarrow> \<exists>c'. destroy_query q c = Inr c' \<and> live_results c' = []"
  by (auto simp: destroy_query_def session_ready_def FreeDB_def)

lemma execute_stored:
  assumes "session_ready q c" and "\<And>h. lib_query (db_lib db d sql 0) h sql = 0 \<and> wrap32 (lib_store (db_lib db d sql 0) h) \<noteq> 0"
  shows "\<exists>e r. execute_in db sql (q, c, d) = (e, q\<lparr>q_res := Some r\<rparr>, c\<lparr>live_results := [r]\<rparr>, db_effect db d sql) \<and> e \<noteq> 0 \<and> r \<noteq> 0"
proof -
  obtain h where h: "q_open q = Some h" using assms(1) unfolding session_ready_def by blast
  let ?r = "lib_store (db_lib db d sql 0) h"
  have "?r \<noteq> 0" using assms(2) [of h] by (auto simp: wrap32_def)
  then show ?thesis using assms h
    by (intro exI [of _ "wrap32 ?r"] exI [of _ ?r]) (simp add: execute_in_def Execute_def TryExecute_def session_ready_def sent_def Let_def)
qed

lemma freed_result: "FreeResult m (q\<lparr>q_results := [(m, r)], q_res := None\<rparr>) (c\<lparr>live_results := [r], next_result := k\<rparr>)
    = Inr (q\<lparr>q_results := [], q_res := None\<rparr>, c\<lparr>live_results := [], next_result := k\<rparr>)"
  by (simp add: FreeResult_def mysql_free_result_def)

lemma ready_back: "session_ready q c \<Longrightarrow> q\<lparr>q_results := [], q_res := None\<rparr> = q" "session_ready q c \<Longrightarrow> c\<lparr>live_results := [], next_result := k\<rparr> = c\<lparr>next_result := k\<rparr>"
  by (simp_all add: session_ready_def)

lemma ready_next [simp]: "session_ready q (c\<lparr>next_result := k\<rparr>) = session_ready q c"
  by (simp add: session_ready_def)

lemma task_text_read:
  assumes "text_table db body" and "CHR 0x00 \<notin> set tid" and "CHR 0x00 \<notin> set (body tid)" and "session_ready q c"
  shows "task_text db (select_text_sql tid) (q, c, d) = Inr (Some (body tid), q, c\<lparr>next_result := Suc (next_result c)\<rparr>, d)"
proof -
  let ?sql = "select_text_sql tid"
  note t = text_tableD [OF assms(1,2), of d]
  obtain e r where e: "execute_in db ?sql (q, c, d) = (e, q\<lparr>q_res := Some r\<rparr>, c\<lparr>live_results := [r]\<rparr>, d)" "e \<noteq> 0" "r \<noteq> 0"
    using execute_stored [OF assms(4) t(4)] unfolding t(3) by blast
  have st: "Store (q\<lparr>q_res := Some r\<rparr>) (c\<lparr>live_results := [r]\<rparr>)
      = (Some (next_result c), q\<lparr>q_results := [(next_result c, r)], q_res := None\<rparr>, c\<lparr>live_results := [r], next_result := Suc (next_result c)\<rparr>)"
    using assms(4) by (simp add: Store_def session_ready_def)
  have tw: "takeWhile (\<lambda>c. c \<noteq> CHR 0x00) (body tid) = body tid" using assms(3) by (subst takeWhile_eq_all_conv) auto
  show ?thesis
    using e freed_result [where m = "next_result c" and q = q and r = r and c = c and k = "Suc (next_result c)"] ready_back [OF assms(4)] tw
    by (simp add: task_text_def st Let_def RowsSize_def FetchRow_def result_of_def row_at_def t(5,6) wrap64_def variable_string_def
        MysqlVariable_string_def from_pointer_def)
qed

text \<open>The worker of the word count. Computing a task adds one pair to it, which has every word of the text of the task once, in
  order, with the number of times it is in the text.\<close>

lemma words_are_counted:
  assumes "lossless cd" and "text_table db body" and "CHR 0x00 \<notin> set (task_id task)" and "CHR 0x00 \<notin> set (body (task_id task))"
    and "length (body (task_id task)) < 2 ^ 31" and "live_results c = []"
  shows "\<exists>pairs c'. ComputingUDF cd v0 db task c d = Inr (True, task\<lparr>task_key_values_pairs := task_key_values_pairs task @ [pairs]\<rparr>, c', d)
    \<and> live_results c' = []
    \<and> ReadRecord_pairs cd pairs [] = map counted (word_table (body (task_id task)))
    \<and> smap_inv (word_table (body (task_id task)))
    \<and> (\<forall>w. smap_find (word_table (body (task_id task))) w =
         (if w \<in> set (words_of (body (task_id task))) then Some (int (count_list (words_of (body (task_id task))) w)) else None))"
proof -
  let ?sql = "select_text_sql (task_id task)" and ?m = "word_table (body (task_id task))"
  let ?pairs = "new_KeyValuesPair\<lparr>kvs_value := kvs_value new_KeyValuesPair @ map (ser_pair cd \<circ> counted) ?m\<rparr>"
  obtain q c1 where q: "MysqlQuery (db_lib db d ?sql 0) c = (q, c1)" by fastforce
  have r: "session_ready q c1" using query_ready [of "db_lib db d ?sql 0" c] text_tableD(1,2) [OF assms(2,3)] assms(6) q by simp
  let ?c2 = "c1\<lparr>next_result := Suc (next_result c1)\<rparr>"
  obtain c3 where c3: "destroy_query q ?c2 = Inr c3" "live_results c3 = []" using destroy_ready [of q ?c2] r by auto
  have m: "\<forall>(w, n) \<in> set ?m. 0 \<le> n \<and> n < 2 ^ 31" using word_table_counts [OF assms(5)] by fastforce
  have s: "SplitStringUsing (body (task_id task)) (Some '' '') [] = Inr (words_of (body (task_id task)))"
    by (simp add: SplitStringUsing_def SplitStringToIteratorUsing_def split_single_fields words_of_def)
  have "ComputingUDF cd v0 db task c d = Inr (True, task\<lparr>task_key_values_pairs := task_key_values_pairs task @ [?pairs]\<rparr>, c3, d)"
    using write_counts_counted [OF m, of cd v0 new_KeyValuesPair]
    by (simp add: ComputingUDF_def q task_text_read [OF assms(2-4) r] s c3(1) word_table_def [symmetric])
  moreover have "ReadRecord_pairs cd ?pairs [] = map counted ?m" using read_counted [OF assms(1), of ?m "[]"] by simp
  ultimately show ?thesis using word_table_find [OF assms(5)] c3(2) by blast
qed

section \<open>The master\<close>

text \<open>
  A database with the table of the counts: a row for every number of a word with a positive count, which the three
  statements of the master read, insert and update.
\<close>

definition dict_table :: "'d database \<Rightarrow> ('d \<Rightarrow> int \<Rightarrow> int) \<Rightarrow> bool" where
  "dict_table db tbl \<longleftrightarrow>
     (\<forall>d sql. lib_init (db_lib db d sql 0) \<and> lib_connect (db_lib db d sql 0)) \<and> (\<forall>d n. 0 \<le> tbl d n)
     \<and> (\<forall>d n. 0 \<le> n \<longrightarrow>
         (let sql = select_count_sql n; lib = db_lib db d sql 0
          in tbl (db_effect db d sql) = tbl d \<and> (\<forall>h. lib_query lib h sql = 0 \<and> wrap32 (lib_store lib h) \<noteq> 0)
             \<and> (\<forall>r. lib_num_rows lib r = (if tbl d n = 0 then 0 else 1))
             \<and> (\<forall>r. lib_fetch_row lib r = Some [Some (decimal (nat (tbl d n)))])))
     \<and> (\<forall>d n word k. 0 \<le> n \<longrightarrow> 0 < k \<longrightarrow> tbl d n = 0 \<longrightarrow> tbl (db_effect db d (insert_word_sql n word k)) = (tbl d)(n := k))
     \<and> (\<forall>d n k. 0 \<le> n \<longrightarrow> 0 < k \<longrightarrow> tbl d n \<noteq> 0 \<longrightarrow> tbl (db_effect db d (update_word_sql n k)) = (tbl d)(n := k))"

lemma dict_tableD:
  assumes "dict_table db tbl"
  shows "lib_init (db_lib db d sql 0)" and "lib_connect (db_lib db d sql 0)" and "0 \<le> tbl d n"
    and "0 \<le> n \<Longrightarrow> tbl (db_effect db d (select_count_sql n)) = tbl d"
    and "0 \<le> n \<Longrightarrow> lib_query (db_lib db d (select_count_sql n) 0) h (select_count_sql n) = 0 \<and> wrap32 (lib_store (db_lib db d (select_count_sql n) 0) h) \<noteq> 0"
    and "0 \<le> n \<Longrightarrow> lib_num_rows (db_lib db d (select_count_sql n) 0) r = (if tbl d n = 0 then 0 else 1)"
    and "0 \<le> n \<Longrightarrow> lib_fetch_row (db_lib db d (select_count_sql n) 0) r = Some [Some (decimal (nat (tbl d n)))]"
    and "0 \<le> n \<Longrightarrow> 0 < k \<Longrightarrow> tbl d n = 0 \<Longrightarrow> tbl (db_effect db d (insert_word_sql n word k)) = (tbl d)(n := k)"
    and "0 \<le> n \<Longrightarrow> 0 < k \<Longrightarrow> tbl d n \<noteq> 0 \<Longrightarrow> tbl (db_effect db d (update_word_sql n k)) = (tbl d)(n := k)"
  using assms unfolding dict_table_def Let_def by (simp_all only: simp_thms)

lemma variable_int_decimal: "0 \<le> n \<Longrightarrow> n < 2 ^ 31 \<Longrightarrow> variable_int (Some (decimal (nat n))) = n"
  using variable_roundtrip [of n 0 0 "[None]" "\<lparr>row = Some [None], allow_null = False\<rparr>" "[]"]
  by (simp add: MysqlVariable_int_def del: power_numeral)

lemma read_count_read:
  assumes "dict_table db tbl" and "0 \<le> n" and "tbl d n < 2 ^ 31" and "session_ready q c"
  shows "read_count db (select_count_sql n) (q, c, d)
    = Inr (Some (tbl d n), q, c\<lparr>next_result := Suc (next_result c)\<rparr>, db_effect db d (select_count_sql n))"
proof -
  let ?sql = "select_count_sql n"
  note t = dict_tableD [OF assms(1)]
  obtain e r where e: "execute_in db ?sql (q, c, d) = (e, q\<lparr>q_res := Some r\<rparr>, c\<lparr>live_results := [r]\<rparr>, db_effect db d ?sql)" "e \<noteq> 0" "r \<noteq> 0"
    using execute_stored [OF assms(4) t(5) [OF assms(2)]] by blast
  have st: "Store (q\<lparr>q_res := Some r\<rparr>) (c\<lparr>live_results := [r]\<rparr>)
      = (Some (next_result c), q\<lparr>q_results := [(next_result c, r)], q_res := None\<rparr>, c\<lparr>live_results := [r], next_result := Suc (next_result c)\<rparr>)"
    using assms(4) by (simp add: Store_def session_ready_def)
  show ?thesis
    using e freed_result [where m = "next_result c" and q = q and r = r and c = c and k = "Suc (next_result c)"] ready_back [OF assms(4)]
      variable_int_decimal [OF t(3) assms(3)]
    by (simp add: read_count_def st Let_def RowsSize_def FetchRow_def result_of_def row_at_def t(6,7) [OF assms(2)] wrap64_def MysqlVariable_string_def)
qed

text \<open>The number of a word, under which the table counts it: words with the same number are counted together.\<close>

definition escaped :: "string \<Rightarrow> string" where
  "escaped w = replace_all [CHR 0x27] [CHR 0x5C, CHR 0x27] (replace_all [CHR 0x22] [CHR 0x5C, CHR 0x22] w)"

definition word_number :: "string \<Rightarrow> int" where
  "word_number w = uint (BKDRHash (escaped w))"

lemma escape_word_escaped: "escape_word w = Inr (escaped w)"
  by (simp add: escape_word_def StringReplace_correct escaped_def)

lemma export_pair_adds:
  assumes "dict_table db tbl" and "0 < k" and "tbl d (word_number w) + k < 2 ^ 31" and "session_ready q c"
  shows "\<exists>c' d'. export_pair v0 db (counted (w, k)) (q, c, d) = Inr (q, c', d') \<and> session_ready q c'
    \<and> tbl d' = (tbl d)(word_number w := tbl d (word_number w) + k)"
proof -
  let ?n = "word_number w" and ?c = "c\<lparr>next_result := Suc (next_result c)\<rparr>"
  let ?d = "db_effect db d (select_count_sql ?n)"
  note t = dict_tableD [OF assms(1)]
  have n: "0 \<le> ?n" by (simp add: word_number_def)
  have o: "0 \<le> tbl d ?n" by (rule t(3))
  have old: "tbl d ?n < 2 ^ 31" and k: "k < 2 ^ 31" using o assms(2,3) by linarith+
  have w: "wrap32 (tbl d ?n + k) = tbl d ?n + k" using o assms(2,3) by (intro wrap32_id) linarith+
  have kk: "KeyToInt32 v0 (kv_value (counted (w, k))) = k" using assms(2) k by simp
  let ?sql = "if tbl d ?n = 0 then insert_word_sql ?n (escaped w) k else update_word_sql ?n (tbl d ?n + k)"
  have "export_pair v0 db (counted (w, k)) (q, c, d) = Inr (snd (try_execute_in db ?sql (q, ?c, ?d)))"
    using read_count_read [OF assms(1) n old assms(4)] o assms(2)
    by (simp add: export_pair_def escape_word_escaped kk word_number_def [symmetric] w Let_def)
  moreover have "sent q" using assms(4) by (simp add: sent_def session_ready_def)
  ultimately have e: "export_pair v0 db (counted (w, k)) (q, c, d) = Inr (q, ?c, db_effect db ?d ?sql)" by (simp add: try_execute_in_def)
  have "tbl (db_effect db ?d ?sql) = (tbl d)(?n := tbl d ?n + k)"
  proof (cases "tbl d ?n = 0")
    case True
    then have "tbl ?d ?n = 0" using t(4) [OF n] by simp
    from t(8) [OF n assms(2) this, of "escaped w"] show ?thesis using True t(4) [OF n] by simp
  next
    case False
    then have "tbl ?d ?n \<noteq> 0" using t(4) [OF n] by simp
    from t(9) [OF n _ this, of "tbl d ?n + k"] show ?thesis using False t(4) [OF n] o assms(2) by simp
  qed
  then show ?thesis using e assms(4) by auto
qed

lemma export_pairs_add:
  assumes "dict_table db tbl" and "session_ready q c" and "\<forall>(w, k) \<in> set m. 0 < k"
    and "\<forall>n. tbl d n + count_sum (\<lambda>w. word_number w = n) m < 2 ^ 31"
  shows "\<exists>c' d'. export_pairs v0 db (map counted m) (q, c, d) = Inr (q, c', d') \<and> session_ready q c'
    \<and> (\<forall>n. tbl d' n = tbl d n + count_sum (\<lambda>w. word_number w = n) m)"
  using assms(2-4)
proof (induction m arbitrary: c d)
  case (Cons e m)
  obtain w k where e: "e = (w, k)" by fastforce
  have pos: "0 \<le> count_sum P m" for P
    using Cons.prems(2) unfolding count_sum_def by (intro sum_list_nonneg) fastforce
  have k: "0 < k" using Cons.prems(2) e by auto
  have "tbl d (word_number w) + k < 2 ^ 31"
    using Cons.prems(3) [rule_format, of "word_number w"] pos [of "\<lambda>v. word_number v = word_number w"] by (simp add: e count_sum_def)
  from export_pair_adds [OF assms(1) k this Cons.prems(1)] obtain c1 d1 where
      s: "export_pair v0 db (counted (w, k)) (q, c, d) = Inr (q, c1, d1)" "session_ready q c1" "tbl d1 = (tbl d)(word_number w := tbl d (word_number w) + k)"
    by blast
  have n: "tbl d1 n + count_sum (\<lambda>v. word_number v = n) m = tbl d n + count_sum (\<lambda>v. word_number v = n) (e # m)" for n
    by (simp add: s(3) e count_sum_def)
  have "\<forall>n. tbl d1 n + count_sum (\<lambda>v. word_number v = n) m < 2 ^ 31" using Cons.prems(3) n by simp
  from Cons.IH [OF s(2) _ this] Cons.prems(2) show ?case using s(1) n by (auto simp: e)
qed (simp add: count_sum_def)

section \<open>From the texts to the table\<close>

lemma word_table_sum:
  assumes "length body < 2 ^ 31"
  shows "count_sum P (word_table body) = int (length (filter P (words_of body)))"
proof -
  have "filter (\<lambda>w. w \<noteq> [] \<and> P w) (words_of body) = filter P (words_of body)"
    using fields_members unfolding words_of_def by (intro filter_cong) auto
  moreover have "int (length (words_of body)) < 2 ^ 31" using words_of_length [of body] assms by simp
  ultimately show ?thesis
    using count_words_sum [of "[]" "words_of body" P] by (simp add: word_table_def count_sum_def smap_inv_def)
qed

lemma export_task_adds:
  assumes "dict_table db tbl" and "live_results c = []" and "length body < 2 ^ 31"
    and "task_key_values_pairs r = [pairs]" and "ReadRecord_pairs cd pairs [] = map counted (word_table body)"
    and "\<forall>n. tbl d n + int (length (filter (\<lambda>w. word_number w = n) (words_of body))) < 2 ^ 31"
  shows "\<exists>c' d'. export_task cd v0 db r (c, d) = Inr (c', d') \<and> live_results c' = []
    \<and> (\<forall>n. tbl d' n = tbl d n + int (length (filter (\<lambda>w. word_number w = n) (words_of body))))"
proof -
  obtain q c1 where q: "MysqlQuery (db_lib db d [] 0) c = (q, c1)" by fastforce
  have r: "session_ready q c1" using query_ready [of "db_lib db d [] 0" c] dict_tableD(1,2) [OF assms(1)] assms(2) q by simp
  have pos: "\<forall>(w, k) \<in> set (word_table body). 0 < k" using word_table_counts [OF assms(3)] by fastforce
  have lim: "\<forall>n. tbl d n + count_sum (\<lambda>w. word_number w = n) (word_table body) < 2 ^ 31" unfolding word_table_sum [OF assms(3)] by (rule assms(6))
  obtain c2 d2 where e: "export_pairs v0 db (map counted (word_table body)) (q, c1, d) = Inr (q, c2, d2)" "session_ready q c2"
      "\<forall>n. tbl d2 n = tbl d n + count_sum (\<lambda>w. word_number w = n) (word_table body)"
    using export_pairs_add [OF assms(1) r pos lim] by blast
  obtain c3 where "destroy_query q c2 = Inr c3" "live_results c3 = []" using destroy_ready [OF e(2)] by blast
  then show ?thesis using e(1,3) unfolding word_table_sum [OF assms(3)]
    by (simp add: export_task_def q assms(4,5))
qed

definition computed :: "codec \<Rightarrow> 'w database \<Rightarrow> FdcsTask \<Rightarrow> FdcsTask \<Rightarrow> bool" where
  "computed cd wdb t r \<longleftrightarrow> (\<exists>v0 c d c'. live_results c = [] \<and> ComputingUDF cd v0 wdb t c d = Inr (True, r, c', d))"

definition countable_task :: "(string \<Rightarrow> string) \<Rightarrow> FdcsTask \<Rightarrow> bool" where
  "countable_task body t \<longleftrightarrow> task_key_values_pairs t = [] \<and> CHR 0x00 \<notin> set (task_id t) \<and> CHR 0x00 \<notin> set (body (task_id t))
     \<and> length (body (task_id t)) < 2 ^ 31"

definition occurrences :: "(string \<Rightarrow> string) \<Rightarrow> FdcsTask list \<Rightarrow> int \<Rightarrow> int" where
  "occurrences body ts n = (\<Sum>t \<leftarrow> ts. int (length (filter (\<lambda>w. word_number w = n) (words_of (body (task_id t))))))"

lemma computed_pairs:
  assumes "lossless cd" and "text_table wdb body" and "countable_task body t" and "computed cd wdb t r"
  shows "\<exists>pairs. task_key_values_pairs r = [pairs] \<and> ReadRecord_pairs cd pairs [] = map counted (word_table (body (task_id t)))"
proof -
  obtain v0 c d c' where c: "live_results c = []" "ComputingUDF cd v0 wdb t c d = Inr (True, r, c', d)" using assms(4) unfolding computed_def by blast
  from words_are_counted [OF assms(1,2), of t c v0 d] c assms(3) show ?thesis unfolding countable_task_def by auto
qed


section \<open>A database\<close>

text \<open>A database that reads the numbers of the statements: the first one behind a prefix, the last one before a suffix.\<close>

definition number_at :: "nat \<Rightarrow> string \<Rightarrow> int" where
  "number_at k sql = digits_value (takeWhile is_digit (drop k sql))"

definition number_before :: "nat \<Rightarrow> string \<Rightarrow> int" where
  "number_before k sql = digits_value (rev (takeWhile is_digit (drop k (rev sql))))"

lemma number_at_decimal:
  assumes "ys = [] \<or> \<not> is_digit (hd ys)"
  shows "number_at (length xs) (xs @ decimal n @ ys) = int n"
proof -
  have "takeWhile is_digit (decimal n @ ys) = decimal n"
    using decimal_digits [of n] assms by (cases ys) (auto simp: takeWhile_append2)
  then show ?thesis using decimal_digits [of n] by (simp add: number_at_def)
qed

lemma number_before_decimal:
  assumes "xs = [] \<or> \<not> is_digit (last xs)"
  shows "number_before (length ys) (xs @ decimal n @ ys) = int n"
proof -
  have "takeWhile is_digit (rev (decimal n) @ rev xs) = rev (decimal n) @ takeWhile is_digit (rev xs)"
    using decimal_digits [of n] by (intro takeWhile_append2) auto
  also have "takeWhile is_digit (rev xs) = []" using assms by (cases xs rule: rev_cases) auto
  finally have "takeWhile is_digit (rev (decimal n) @ rev xs) = rev (decimal n)" by simp
  then show ?thesis using decimal_digits [of n] by (simp add: number_before_def)
qed

definition counts_lib :: "int \<Rightarrow> mysql_lib" where
  "counts_lib n = \<lparr>lib_init = True, lib_connect = True, lib_query = (\<lambda>h sql. 0), lib_store = (\<lambda>h. 1), lib_insert_id = (\<lambda>h. 0),
     lib_ping = (\<lambda>h. 0), lib_num_rows = (\<lambda>r. if n = 0 then 0 else 1), lib_num_fields = (\<lambda>r. 1),
     lib_fetch_row = (\<lambda>r. Some [Some (decimal (nat n))])\<rparr>"

text \<open>The texts of the statements around their numbers.\<close>

definition select_prefix :: string where "select_prefix = ''SELECT count FROM dict_word WHERE word_id = ''"

definition insert_prefix :: string where
  "insert_prefix = ''INSERT INTO dict_word '' @ replicate 3 (CHR 0x09) @ ''    '' @ replicate 2 (CHR 0x09) @ ''(word_id, word, count, create_time) VALUES (''"

definition insert_suffix :: string where "insert_suffix = '', now())''"

definition update_prefix :: string where "update_prefix = ''UPDATE dict_word SET count = ''"

definition counts_database :: "(int \<Rightarrow> nat) database" where
  "counts_database = \<lparr>db_lib = (\<lambda>d sql i. counts_lib (int (d (number_at (length select_prefix) sql)))),
     db_effect = (\<lambda>d sql. if take 1 sql = ''I'' then d(number_at (length insert_prefix) sql := nat (number_before (length insert_suffix) sql))
                          else if take 1 sql = ''U'' then d(number_before 0 sql := nat (number_at (length update_prefix) sql)) else d)\<rparr>"

lemma not_digits: "\<not> is_digit (CHR '';'')" "\<not> is_digit (CHR '','')" "\<not> is_digit (CHR '' '')"
  by (simp_all add: is_digit_def)

lemma statement_numbers:
  assumes "0 \<le> n"
  shows "number_at (length select_prefix) (select_count_sql n) = n"
    and "number_at (length insert_prefix) (insert_word_sql n w k) = n"
    and "0 \<le> k \<Longrightarrow> number_before (length insert_suffix) (insert_word_sql n w k) = k"
    and "number_before 0 (update_word_sql n k) = n"
    and "0 \<le> k \<Longrightarrow> number_at (length update_prefix) (update_word_sql n k) = k"
proof -
  have 1: "select_count_sql n = select_prefix @ decimal (nat n) @ '';''" by (simp only: select_count_sql_def select_prefix_def)
  show "number_at (length select_prefix) (select_count_sql n) = n"
    unfolding 1 using number_at_decimal [of "'';''" select_prefix "nat n"] assms not_digits by simp
  let ?rest = "'', '' @ [CHR 0x27] @ takeWhile (\<lambda>c. c \<noteq> CHR 0x00) w @ [CHR 0x27] @ '', '' @ signed_decimal k @ insert_suffix"
  have 2: "insert_word_sql n w k = insert_prefix @ decimal (nat n) @ ?rest"
    by (simp only: insert_word_sql_def insert_prefix_def insert_suffix_def append_assoc)
  show "number_at (length insert_prefix) (insert_word_sql n w k) = n"
    unfolding 2 using number_at_decimal [of ?rest insert_prefix "nat n"] assms not_digits by simp
  let ?front = "insert_prefix @ decimal (nat n) @ '', '' @ [CHR 0x27] @ takeWhile (\<lambda>c. c \<noteq> CHR 0x00) w @ [CHR 0x27] @ '', ''"
  show "number_before (length insert_suffix) (insert_word_sql n w k) = k" if k: "0 \<le> k"
  proof -
    have "insert_word_sql n w k = ?front @ decimal (nat k) @ insert_suffix" unfolding 2 signed_decimal_def using k by simp
    moreover have "\<not> is_digit (last ?front)" using not_digits by simp
    ultimately show ?thesis using number_before_decimal [of ?front insert_suffix "nat k"] k by simp
  qed
  let ?tail = "'', '' @ replicate 7 (CHR 0x09) @ ''update_time = now() WHERE word_id = ''"
  have 3: "update_word_sql n k = (update_prefix @ signed_decimal k @ ?tail) @ decimal (nat n) @ []"
    by (simp only: update_word_sql_def update_prefix_def append_assoc append_Nil2)
  have "\<not> is_digit (last (update_prefix @ signed_decimal k @ ?tail))" using not_digits by simp
  then show "number_before 0 (update_word_sql n k) = n"
    unfolding 3 using number_before_decimal [of "update_prefix @ signed_decimal k @ ?tail" "[]" "nat n"] assms by simp
  show "number_at (length update_prefix) (update_word_sql n k) = k" if k: "0 \<le> k"
  proof -
    have "update_word_sql n k = update_prefix @ decimal (nat k) @ ?tail @ decimal (nat n)" unfolding 3 signed_decimal_def using k by simp
    then show ?thesis using number_at_decimal [of "?tail @ decimal (nat n)" update_prefix "nat k"] k not_digits by simp
  qed
qed

lemma counts_database_table: "dict_table counts_database (\<lambda>d n. int (d n))"
proof -
  have f: "take 1 (select_count_sql n) = ''S''" "take 1 (insert_word_sql n w k) = ''I''" "take 1 (update_word_sql n k) = ''U''" for n w k
    by (simp_all add: select_count_sql_def insert_word_sql_def update_word_sql_def)
  show ?thesis
    unfolding dict_table_def Let_def counts_database_def counts_lib_def
    by (simp add: f statement_numbers wrap32_def del: take_Suc_Cons One_nat_def) (auto simp: fun_eq_iff)
qed

definition text_database :: "string \<Rightarrow> unit database" where
  "text_database s = \<lparr>db_lib = (\<lambda>d sql i. (counts_lib 1)\<lparr>lib_fetch_row := (\<lambda>r. Some [Some s])\<rparr>), db_effect = (\<lambda>d sql. d)\<rparr>"

lemma text_database_table: "text_table (text_database s) (\<lambda>tid. s)"
  by (simp add: text_table_def text_database_def counts_lib_def wrap32_def Let_def)


text \<open>
  A task that has two pairs, the results of two computations, is exported with the records of the first pair twice: the
  vector of the records is not cleared between the pairs.
\<close>

lemma pairs_exported_again:
  assumes "lossless cd"
  shows "export_task_pairs cd v0 db [p1, p2] [] s
    = rbind (export_pairs v0 db (map (parse_pair cd) (kvs_value p1)) s)
        (export_pairs v0 db (map (parse_pair cd) (kvs_value p1) @ map (parse_pair cd) (kvs_value p2)))"
  by (auto simp: Let_def ReadRecord_pairs_def ReadRecord_append rbind_def split: sum.split)

text \<open>A backslash in a word is not escaped, so that it takes the backslash from the quote that follows it.\<close>

lemma escape_is_open: "escaped [CHR 0x5C, CHR 0x27] = [CHR 0x5C, CHR 0x5C, CHR 0x27]"
  by code_simp

end
