(* ===== verification/DictMock.thy ===== *)
theory DictMock
  imports WordCountProps
begin

text \<open>
  The program that prepares the tables of the word count, src/demo/dict_mock.cc, over the database of theory WordCount. The
  standard input is a string; a file is the list of what getline returns; the connection is the one that main has made.
\<close>

section \<open>Statements\<close>

definition create_task_table_sql :: string where
  "create_task_table_sql =
     ''CREATE TABLE dict_task ( '' @ replicate 19 (CHR 0x09) @ ''task_id VARCHAR(32) NOT NULL PRIMARY KEY,'' @
     replicate 11 (CHR 0x09) @ ''task_status INTEGER default 0, '' @ replicate 16 (CHR 0x09) @ ''text VARCHAR(20480),'' @
     replicate 11 (CHR 0x09) @
     ''                    create_time DATETIME,                                         update_time DATETIME                      '' @
     replicate 9 (CHR 0x09) @ '')ENGINE=InnoDB DEFAULT CHARSET=utf8;''"

definition create_word_table_sql :: string where
  "create_word_table_sql =
     ''CREATE TABLE dict_word (                                             word_id INTEGER UNSIGNED NOT NULL PRIMARY KEY,  '' @
     replicate 10 (CHR 0x09) @ ''word VARCHAR(256) NOT NULL,                     '' @ replicate 10 (CHR 0x09) @
     ''count INTEGER default 0, '' @ replicate 8 (CHR 0x09) @
     ''                            create_time DATETIME,                                               update_time DATETIME                            '' @
     replicate 9 (CHR 0x09) @ '')ENGINE=InnoDB DEFAULT CHARSET=utf8;''"

definition insert_task_sql :: "string \<Rightarrow> string \<Rightarrow> string" where
  "insert_task_sql key line_text =
     ''INSERT INTO dict_task(task_id, task_status, text, create_time) VALUES ('' @ [CHR 0x27] @ key @ [CHR 0x27] @ '' , 1, '' @
     [CHR 0x27] @ line_text @ [CHR 0x27] @ '', now())''"

section \<open>Commands\<close>

text \<open>A function with a query of its own.\<close>

definition with_query :: "'d database \<Rightarrow> ('d session \<Rightarrow> 'd session result) \<Rightarrow> mysql_connection \<times> 'd \<Rightarrow> (mysql_connection \<times> 'd) result" where
  "with_query db body s =
     (case s of (c, d) \<Rightarrow> case MysqlQuery (db_lib db d [] 0) c of (q, c1) \<Rightarrow>
        rbind (body (q, c1, d)) (\<lambda>(q2, c2, d2). rbind (destroy_query q2 c2) (\<lambda>c3. Inr (c3, d2))))"

definition CreateDictTable :: "'d database \<Rightarrow> mysql_connection \<times> 'd \<Rightarrow> (mysql_connection \<times> 'd) result" where
  "CreateDictTable db = with_query db (\<lambda>s.
     let (e1, s1) = execute_in db ''SELECT * FROM dict_task;'' s;
         s2 = (if e1 = 0 then snd (execute_in db create_task_table_sql s1) else s1);
         (e2, s3) = execute_in db ''SELECT * FROM dict_word;'' s2
     in Inr (if e2 = 0 then snd (execute_in db create_word_table_sql s3) else s3))"

definition DropDictTable :: "'d database \<Rightarrow> mysql_connection \<times> 'd \<Rightarrow> (mysql_connection \<times> 'd) result" where
  "DropDictTable db = with_query db (\<lambda>s.
     Inr (snd (try_execute_in db ''DROP TABLE dict_word;'' (snd (try_execute_in db ''DROP TABLE dict_task;'' s)))))"

definition TruncateDictData :: "'d database \<Rightarrow> mysql_connection \<times> 'd \<Rightarrow> (mysql_connection \<times> 'd) result" where
  "TruncateDictData db = with_query db (\<lambda>s.
     Inr (snd (try_execute_in db ''TRUNCATE TABLE dict_word;'' (snd (try_execute_in db ''TRUNCATE TABLE dict_task;'' s)))))"

text \<open>The loop of CreateDictData over the lines; the first statement that fails ends it. A line ends at its first NUL.\<close>

fun insert_lines :: "'d database \<Rightarrow> string list \<Rightarrow> int \<Rightarrow> 'd session \<Rightarrow> 'd session result" where
  "insert_lines db [] k s = Inr s"
| "insert_lines db (line # lines) k s =
     rbind (escape_word (takeWhile (\<lambda>c. c \<noteq> CHR 0x00) line)) (\<lambda>line_text.
     rbind (Int32ToKey k) (\<lambda>key.
       case try_execute_in db (insert_task_sql key line_text) s of (e, s1) \<Rightarrow>
         if e = 0 then Inr s1 else insert_lines db lines (wrap32 (k + 1)) s1))"

text \<open>None is a file that cannot be opened.\<close>

definition CreateDictData :: "'d database \<Rightarrow> string list option \<Rightarrow> mysql_connection \<times> 'd \<Rightarrow> (mysql_connection \<times> 'd) result" where
  "CreateDictData db dict_txt s =
     (case dict_txt of None \<Rightarrow> Inl Abort | Some lines \<Rightarrow> with_query db (insert_lines db lines 1) s)"

definition run_command :: "'d database \<Rightarrow> string list option \<Rightarrow> char \<Rightarrow> mysql_connection \<times> 'd \<Rightarrow> (mysql_connection \<times> 'd) result" where
  "run_command db dict_txt cmd s =
     (if cmd = CHR ''1'' then CreateDictTable db s
      else if cmd = CHR ''2'' then CreateDictData db dict_txt s
      else if cmd = CHR ''3'' then TruncateDictData db s
      else if cmd = CHR ''4'' then DropDictTable db s
      else Inr s)"

section \<open>The loop of main\<close>

text \<open>fgets into a buffer of n bytes.\<close>

definition fgets :: "nat \<Rightarrow> string \<Rightarrow> (string \<times> string) option" where
  "fgets n stdin =
     (if stdin = [] then None
      else let l = takeWhile (\<lambda>c. c \<noteq> CHR 0x0A) stdin;
               line = take (n - 1) (if length l < length stdin then l @ [CHR 0x0A] else l)
           in Some (line, drop (length line) stdin))"

text \<open>cmd is the first byte of the buffer, which has no value at the start; at the end of the input it keeps the last one.\<close>

partial_function (option) mock_loop :: "'d database \<Rightarrow> string list option \<Rightarrow> char \<Rightarrow> string \<Rightarrow> mysql_connection \<times> 'd \<Rightarrow> (mysql_connection \<times> 'd) result option" where
  "mock_loop db dict_txt cmd stdin s =
     (if cmd = CHR ''0'' then Some (Inr s)
      else let (cmd', stdin') = (case fgets 20 stdin of None \<Rightarrow> (cmd, stdin) | Some (line, rest) \<Rightarrow> (hd line, rest))
           in (case run_command db dict_txt cmd' s of Inl e \<Rightarrow> Some (Inl e) | Inr s' \<Rightarrow> mock_loop db dict_txt cmd' stdin' s'))"

section \<open>Results\<close>

text \<open>The statements for the lines, with keys counted from n, and their effect up to the first one that fails.\<close>

fun line_statements :: "string list \<Rightarrow> int \<Rightarrow> string list" where
  "line_statements [] n = []"
| "line_statements (line # lines) n =
     insert_task_sql (projr (Int32ToKey n)) (escaped (takeWhile (\<lambda>c. c \<noteq> CHR 0x00) line)) # line_statements lines (n + 1)"

fun until_failure :: "'d database \<Rightarrow> nat \<Rightarrow> string list \<Rightarrow> 'd \<Rightarrow> 'd" where
  "until_failure db h [] d = d"
| "until_failure db h (sql # sqls) d =
     (if lib_query (db_lib db d sql 0) h sql = 0 then until_failure db h sqls (db_effect db d sql) else db_effect db d sql)"

lemma insert_lines_statements:
  assumes "sent q" and "q_open q = Some h"
  shows "0 \<le> n \<Longrightarrow> n + int (length lines) < 2 ^ 31 \<Longrightarrow>
    insert_lines db lines n (q, c, d) = Inr (q, c, until_failure db h (line_statements lines n) d)"
proof (induction lines arbitrary: n d)
  case (Cons line lines)
  obtain key where key: "Int32ToKey n = Inr key" using Cons.prems by (simp add: Int32ToKey_def NumericValueToKey_def)
  have w: "wrap32 (n + 1) = n + 1" using Cons.prems by (intro wrap32_id) simp_all
  have t: "try_execute_in db sql (q, c, d) = ((if lib_query (db_lib db d sql 0) h sql = 0 then 1 else 0), q, c, db_effect db d sql)" for sql
    using assms by (simp add: try_execute_in_def TryExecute_def sent_def)
  have "insert_lines db lines (n + 1) (q, c, d') = Inr (q, c, until_failure db h (line_statements lines (n + 1)) d')" for d'
    using Cons.prems by (intro Cons.IH) simp_all
  then show ?case by (simp add: key escape_word_escaped t w)
qed simp

text \<open>At the end of the input the loop of main goes on with the last command, for ever unless the command fails.\<close>

lemma mock_loop_input:
  "mock_loop db dict_txt cmd stdin s = Some y \<Longrightarrow> cmd \<noteq> CHR ''0'' \<longrightarrow> (\<forall>s. \<exists>s'. run_command db dict_txt cmd s = Inr s') \<longrightarrow> stdin \<noteq> []"
proof (erule mock_loop.raw_induct [rotated])
  fix loop :: "'d database \<Rightarrow> string list option \<Rightarrow> char \<Rightarrow> string \<Rightarrow> mysql_connection \<times> 'd \<Rightarrow> (mysql_connection \<times> 'd) result option"
  fix db dict_txt cmd stdin s y
  assume hyp: "\<And>db dict_txt cmd stdin s y. loop db dict_txt cmd stdin s = Some y \<Longrightarrow>
      cmd \<noteq> CHR ''0'' \<longrightarrow> (\<forall>s. \<exists>s'. run_command db dict_txt cmd s = Inr s') \<longrightarrow> stdin \<noteq> []"
    and unroll: "(if cmd = CHR ''0'' then Some (Inr s)
      else let (cmd', stdin') = (case fgets 20 stdin of None \<Rightarrow> (cmd, stdin) | Some (line, rest) \<Rightarrow> (hd line, rest))
           in (case run_command db dict_txt cmd' s of Inl e \<Rightarrow> Some (Inl e) | Inr s' \<Rightarrow> loop db dict_txt cmd' stdin' s')) = Some y"
  show "cmd \<noteq> CHR ''0'' \<longrightarrow> (\<forall>s. \<exists>s'. run_command db dict_txt cmd s = Inr s') \<longrightarrow> stdin \<noteq> []"
  proof (intro impI notI)
    assume k: "cmd \<noteq> CHR ''0''" "\<forall>s. \<exists>s'. run_command db dict_txt cmd s = Inr s'" "stdin = []"
    obtain s' where "run_command db dict_txt cmd s = Inr s'" using k(2) by blast
    then have "loop db dict_txt cmd [] s' = Some y" using unroll k(1,3) by (simp add: fgets_def)
    from hyp [OF this] show False using k by blast
  qed
qed

lemma mock_end_of_input:
  assumes "cmd \<noteq> CHR ''0''" and "\<And>s. \<exists>s'. run_command db dict_txt cmd s = Inr s'"
  shows "mock_loop db dict_txt cmd [] s = None"
  using mock_loop_input [of db dict_txt cmd "[]" s] assms by (cases "mock_loop db dict_txt cmd [] s") auto

end
