(* ===== verification/Spec2Isabelle.thy ===== *)
theory Spec2Isabelle
  imports MasterElection WorkerProps SplitString StringCodec TrackerMain RbTreeProps SkipListProps MysqlProps ConfigCopy ConhashMd5 Md5Hash SimpleHash TrackerStart Logging
    SystemWrappers Sockets Generic ScopedPtr DictMock
begin

text \<open>
  FastDCS: a distributed computing system of master and worker servers, written in C++.

  The program. A group of masters elects a primary by passing protocols around a ring of addresses; the
  primary owns the table of the tasks. A worker asks for tasks, computes them in several threads, and
  reports the results with its next request. Every server (src/server) is a Tracker: an epoll loop reads
  from the sockets into a queue of bytes per connection, one socket thread takes the messages from these
  queues, parses and handles them (ProtocolProcess of Master or Worker), and sends what the handlers have
  put into the queues of the other direction. A heart beat thread and, in a worker, the computing threads
  run beside it.

  The model, bottom up. A definition has the name of the code; a state is a record with the fields of the
  class; an operation takes the state and returns its result and the new state; a fault is a value of the
  type fault of theory Prelude. What the operating system or generated code answers is an argument: the
  record world of theory Tracker for sockets and clock, the record codec of theory Messages for protobuf.

    Prelude          faults, C integers, memory images
    StdMap           std::map as an ordered sequence; the contract of keyed stores (locales dictionary, erasable)
    SignalingQueue   server/signaling_queue.cc: the byte queue, and its producers and consumers as a step relation
    Connector        server/connector.cc: sending and receiving over a socket
    SplitString      utils/split_string, join_strings.h, string_util.cc
    StringCodec      utils/string_codec.cc, base/varint32.cc
    Messages         server/tracker_protocol.proto, server/protofile.cc
    Settings         base/common_define.h
    Enviroment       server/enviroment.cc: the table of the tasks with their leases
    Conhash          libconhash: consistent hashing over the ordered sequence of the virtual nodes
    RbTree           libconhash/util_rbtree.c: the red-black tree that holds them, and the ring on it
    RbTreeProps      its invariants; it refines the ordered sequence
    Md5              libconhash/md5.c: MD5 as a stream, its digests and hash values
    Md5Hash          utils/md5_hash.cc, the second MD5, on machines of both byte orders
    ConhashMd5       the consistent hash with its default hash function, MD5
    SimpleHash       utils/simple_hash.cc: hash functions over words of 32 bits
    Epoller          server/epoller.cc, registration of descriptors
    Tracker          server/tracker.cc: sockets, buffers, ring of masters, sending, socket thread
    TrackerProps     properties of it
    Server           the dispatch of events in epoller.cc and the callbacks of tracker.cc
    Master           server/master.cc: election, group, tasks, handlers
    MasterInv        what every operation of a master keeps (locales tracker_steps, tracker_relation)
    MasterTasks      the threads of a master as a step relation; the properties of its tasks
    MasterElection   the election, several masters composed by what they send to each other
    Worker           server/worker.cc
    WorkerProps      its threads as a step relation; properties; the way of a task from master to worker and back
    ConfigBst        base/config_bst.cc: the search tree of the configuration, with balancing
    ConfigIter       its traverser
    ConfigFile       base/config_file.cc: the parser
    ConfigProps      properties of the tree
    ConfigCopy       the operations of the tree that no client calls: copies, insertion with a traverser
    ConfigParse      properties of the parser
    TrackerMain      LoadConfig of server/tracker_main.cc
    TrackerStart     main and signal_handler of tracker_main.cc, daemonize of system/daemon.cc
    SkipList         base/skip_list.cc over an explicit store of nodes
    SkipListProps    it refines the ordered map; every value is destroyed once
    Mysql            data/mysql_accessor.cc: the pool of connections, queries and result sets
    MysqlProps       one owner for every connection and result set; the destructor; values
    WordCount        demo/dict_worker.cc and dict_master.cc: the user functions of the program that comes with the
                     system, over the MySQL accessor
    WordCountProps   the counts that arrive in the table of the database
    DictMock         demo/dict_mock.cc: the tables and the tasks of the word count
    Logging          base/logging.cc: messages, streams, the cut of a log file
    Sockets          server/tcp_socket.cc: the wrapper of a socket and its descriptor
    SystemWrappers   system/mutex.h, scoped_locker.h, condition_variable.cc
    ScopedPtr        base/scoped_ptr.h and utils/stl_util.h over an explicit heap
    Generic          base/class_register.h: the registry of creators; utils/string_printf.cc

  The lemmas. Each component has an invariant that every operation keeps (squeue, enviroment, conhash,
  tracker, tree), and lemmas for its operations on every branch. The contracts are locales: dictionary and
  erasable are interpreted by std::map and by the search tree, message_fifo by the byte queue; tracker_relation
  and worker_relation are interpreted by the relations between the states before and after that are proved
  of all operations of a server. The threads are interleaved by inductive step relations, with the critical
  sections of the code as the steps; invariants are proved by induction on the reachable states. The trees, the
  skip list and the streamed MD5 are related to what they stand for: an ordered map, the digest of the whole
  message. Faults and losses that the code has are theorems as well, each with the circumstances in which it
  happens.

  Loops and fuel. Recursion is structural or has a measure, except for loops that may run for ever: these
  have fuel, and running out of it is the fault Diverge. The search for the next master has one turn more
  than the group has members (FindNextMaster_ring, FindNextMaster_diverges), a read has as many rounds as
  it has bytes, the turns of the parser at a character are three (turns_left in ConfigParse), a traversal
  starts again once (next_stands in ConfigIter), the loops of balancing have one turn per item
  (bst_balance_outcome), a walk in the skip list ends within its length and levels (walk_outcome), the copy
  of the search tree starts again once (bst_copy_outcome). A thread that waits on a condition variable is
  Blocked or, in the step relations, waits for a step of another thread.

  Bounds. Sizes and times of the code are int32 or int64 and are kept in that range by wrap32, uwrap32 and
  wrap64 where they are computed; a hypothesis bounds a size where the code relies on it. The clock stands
  still within one call. Memory is taken to be available.

  Interfaces of the last group. What the system calls answer is an argument of the operations of Sockets, Logging
  and SystemWrappers; the servers take a socket by its descriptor and a critical section as one step, and their
  messages to the log are left out, since they change nothing that a server reads. The word count is the one
  client in the repository of the user functions of master and worker (ImportTaskUDF, ComputingUDF, ExportTaskUDF);
  its database is an argument, of which text_table and dict_table say that it answers the statements of the two
  programs as a table of texts and a table of counts.

  Not modelled. What TruncateLogFile prints on the console; the creation of threads; signals that arrive while a server
  is not in its event loop; GetTrackerStatus, which no code calls and which stores what sysconf answers; the variants
  for Windows in src/system; Signal and Broadcast of the condition variable as calls (the threads that they wake are
  steps of the relations of SignalingQueue, MasterTasks and WorkerProps); MysqlField, FetchField and the doubles of the
  MySQL accessor, which read the structures of its client library; InitialTracker and FinalizeTracker of the word
  count, which connect and call the base class; libconhash/sample.c, an example; skiplist_inspect, which prints; the
  code that protobuf generates (the record codec).
\<close>

end
